(* ===== verification/XV_Prelude.thy ===== *)
theory XV_Prelude
  imports Main "HOL-Library.Word" "HOL-Library.Monad_Syntax"
begin

text \<open>
  Shared vocabulary of the development.

  \<^item> Machine integers: C's \<open>uint8\<close>, \<open>uint\<close> and \<open>uint64\<close> are words of that width.
  \<^item> Every kernel routine that can \<^verbatim>\<open>panic()\<close>, fail an \<^verbatim>\<open>ASSERT\<close> or dereference
    \<^verbatim>\<open>NULL\<close> returns an option: \<open>None\<close> means that the call does not return to
    its caller. Error codes of the source are ordinary \<open>int\<close> results inside \<open>Some\<close>.
  \<^item> The names of the kernel objects that several components share: thread and process
    states (\<^verbatim>\<open>include/thread.h\<close>, \<^verbatim>\<open>include/proc.h\<close>), queue types and queue
    identities (\<^verbatim>\<open>include/queue.h\<close>), and the identity of every spinlock.
  \<^item> Generic lemmas on options, lists and words, and the collections \<open>kernel_defs\<close>
    (definitions to unfold when a routine is executed symbolically) and \<open>frames\<close>
    (facts that a routine leaves part of the state alone).
\<close>

named_theorems kernel_defs
named_theorems frames

unbundle bit_operations_syntax

type_synonym u8 = "8 word"
type_synonym u32 = "32 word"
type_synonym u64 = "64 word"

subsection \<open>Results of kernel routines\<close>

definition ensure :: "bool \<Rightarrow> unit option" where
  "ensure b = (if b then Some () else None)"

lemma ensure_simps [simp]:
  "ensure True = Some ()"
  "ensure False = None"
  "(ensure b = None) = (\<not> b)"
  "(ensure b = Some u) = b"
  by (simp_all add: ensure_def)

lemma bind_ensure [simp]: "(ensure b \<bind> f) = (if b then f () else None)"
  by (simp add: ensure_def)

lemma bind_SomeD:
  "(m \<bind> f) = Some y \<Longrightarrow> \<exists>x. m = Some x \<and> f x = Some y"
  by (cases m) auto

lemma bind_SomeE [elim]:
  assumes "(m \<bind> f) = Some y"
  obtains x where "m = Some x" "f x = Some y"
  using assms by (cases m) auto

subsection \<open>States of threads and processes, queues and locks\<close>

datatype thread_state = TCB_UNUSED | TCB_USED | TCB_RUNNABLE | TCB_RUNNING | TCB_SLEEPING

datatype procstate = UNUSED | USED | ZOMBIE

datatype queue_type = TCB_STATE_QUEUE | PCB_STATE_QUEUE | TCB_WAIT_QUEUE | INODE_FREE_QUEUE

text \<open>
  A \<^verbatim>\<open>queue_t\<close> object: the state queues of threads (\<^verbatim>\<open>g_tcb_queues\<close>) and of
  processes (\<^verbatim>\<open>g_pcb_queues\<close>), the wait queue of a condition variable, and the wait
  queue inside the futex allocated at an address.
\<close>

datatype qid = TQ thread_state | PQ procstate | CondQ nat | FutexQ u64

text \<open>One constructor per kind of spinlock, with the index of the object that contains it.\<close>

datatype lock =
    L_kmem
  | L_queue qid
  | L_tcb nat
  | L_tg nat
  | L_mm nat
  | L_proc nat
  | L_lth nat
  | L_sigpending nat
  | L_sighand u64
  | L_wait
  | L_ticks
  | L_timeout
  | L_futex
  | L_bcache
  | L_log
  | L_pipe u64
  | L_ftable
  | L_sem nat

text \<open>
  Every \<^verbatim>\<open>struct list_head\<close> of the kernel: the head of a \<^verbatim>\<open>queue_t\<close>, the
  members \<^verbatim>\<open>state_list\<close>, \<^verbatim>\<open>wait_list\<close> and \<^verbatim>\<open>threads\<close> of a TCB, the head
  \<^verbatim>\<open>tg.threads\<close> and the members \<^verbatim>\<open>state_list\<close> and \<^verbatim>\<open>sibling_list\<close> of a PCB,
  the head \<^verbatim>\<open>sig_pending.list\<close> of a TCB and the node inside a \<^verbatim>\<open>struct sigqueue\<close>,
  the buckets of the futex hash table and the node inside a \<^verbatim>\<open>futex_hash_node\<close>.
\<close>

datatype laddr =
    LQueue qid
  | LTState nat
  | LTWait nat
  | LThreads nat
  | LTg nat
  | LPState nat
  | LSibling nat
  | LSigHead nat
  | LSigq u64
  | LHash nat
  | LHashNode u64

subsection \<open>Lists\<close>

lemma hd_in_set_if: "xs \<noteq> [] \<Longrightarrow> hd xs \<in> set xs"
  by simp

lemma distinct_removeAll_Cons [simp]:
  "distinct (x # xs) \<Longrightarrow> removeAll x (x # xs) = xs"
  by simp

lemma removeAll_hd:
  "distinct xs \<Longrightarrow> xs \<noteq> [] \<Longrightarrow> removeAll (hd xs) xs = tl xs"
  by (cases xs) auto

lemma length_removeAll_distinct:
  "distinct xs \<Longrightarrow> x \<in> set xs \<Longrightarrow> Suc (length (removeAll x xs)) = length xs"
  by (metis One_nat_def Suc_pred distinct_card distinct_remove1 distinct_remove1_removeAll
      length_pos_if_in_set length_remove1)

lemma find_in: "find P xs = Some a \<Longrightarrow> a \<in> set xs"
  by (auto simp: find_Some_iff)

lemma find_append: "find P (xs @ ys) = (case find P xs of None \<Rightarrow> find P ys | Some a \<Rightarrow> Some a)"
  by (induction xs) auto

subsection \<open>Words\<close>

lemma u64_lt [simp]: "unat (a :: u64) < 18446744073709551616"
  using unsigned_less [of a, where ?'a = nat] by simp

lemma u32_lt [simp]: "unat (a :: u32) < 4294967296"
  using unsigned_less [of a, where ?'a = nat] by simp

lemma u8_lt [simp]: "unat (a :: u8) < 256"
  using unsigned_less [of a, where ?'a = nat] by simp

lemma u32_le_u64 [simp]: "unat (a :: u32) \<le> 18446744073709551616"
  by (rule less_imp_le, rule less_trans [OF u32_lt]) simp

lemma unat_add_lt: "unat (d :: u64) + i < 2 ^ 64 \<Longrightarrow> unat (d + of_nat i) = unat d + i"
  by (simp add: unat_word_ariths unat_of_nat take_bit_nat_eq_self)

end
