(* ===== verification/XV_Spinlock.thy ===== *)
theory XV_Spinlock
  imports XV_Prelude
begin

text \<open>
  \<^verbatim>\<open>kernel/atomic/spinlock.c\<close> on several CPUs. \<open>smp\<close> is the part of the machine these
  routines touch: per CPU the nesting depth \<open>noff\<close>, the saved interrupt state \<open>intena\<close>
  and the interrupt-enable bit that \<^verbatim>\<open>intr_get/intr_on/intr_off\<close> access; per lock the
  word \<open>locked\<close> and the recorded holder (\<^verbatim>\<open>lk->cpu\<close>, \<open>None\<close> for 0). The fences
  have no effect on this state.

  Sequential routines: \<open>push_off\<close>, \<open>pop_off\<close>, \<open>holding\<close>, \<open>spin_acquire\<close>,
  \<open>spin_release\<close>. Interleaved: \<open>smp_step\<close> runs every CPU one memory access at a time,
  in particular one iteration of the test-and-set loop; its reachable states satisfy
  mutual exclusion, the accounting of \<open>noff\<close>, and no \<^verbatim>\<open>panic\<close> in \<^verbatim>\<open>release\<close>.

  The second part gives the view that a routine running on one CPU has of the locks: the
  list \<open>held\<close> of the locks it holds. \<open>acquire\<close> and \<open>release\<close> on that view are what
  the other theories use; the refinement lemmas tie them to \<open>spin_acquire\<close> and
  \<open>spin_release\<close>.
\<close>

record cpu =
  noff :: int
  intena :: bool
  sie :: bool

record spinlock =
  locked :: bool
  lcpu :: "nat option"

record smp =
  cpus :: "nat \<Rightarrow> cpu"
  lks :: "lock \<Rightarrow> spinlock"

definition initlock :: "lock \<Rightarrow> smp \<Rightarrow> smp" where
  "initlock l s = s\<lparr>lks := (lks s)(l := \<lparr>locked = False, lcpu = None\<rparr>)\<rparr>"

definition holding :: "nat \<Rightarrow> lock \<Rightarrow> smp \<Rightarrow> bool" where
  "holding c l s \<longleftrightarrow> locked (lks s l) \<and> lcpu (lks s l) = Some c"

definition push_off :: "nat \<Rightarrow> smp \<Rightarrow> smp" where
  "push_off c s =
     (let old = sie (cpus s c);
          k = (cpus s c)\<lparr>sie := False\<rparr>;
          k = (if noff k = 0 then k\<lparr>intena := old\<rparr> else k);
          k = k\<lparr>noff := noff k + 1\<rparr>
      in s\<lparr>cpus := (cpus s)(c := k)\<rparr>)"

definition pop_off :: "nat \<Rightarrow> smp \<Rightarrow> smp option" where
  "pop_off c s =
     (let k = cpus s c in
      if sie k then None
      else if noff k < 1 then None
      else let k = k\<lparr>noff := noff k - 1\<rparr>;
               k = (if noff k = 0 \<and> intena k then k\<lparr>sie := True\<rparr> else k)
           in Some (s\<lparr>cpus := (cpus s)(c := k)\<rparr>))"

text \<open>The three parts of \<^verbatim>\<open>acquire\<close>: the entry, one atomic swap, the record of the holder.\<close>

definition acquire_enter :: "nat \<Rightarrow> lock \<Rightarrow> smp \<Rightarrow> smp option" where
  "acquire_enter c l s =
     (let s = push_off c s in if holding c l s then None else Some s)"

definition test_and_set :: "lock \<Rightarrow> smp \<Rightarrow> bool \<times> smp" where
  "test_and_set l s =
     (locked (lks s l), s\<lparr>lks := (lks s)(l := (lks s l)\<lparr>locked := True\<rparr>)\<rparr>)"

definition acquire_exit :: "nat \<Rightarrow> lock \<Rightarrow> smp \<Rightarrow> smp" where
  "acquire_exit c l s = s\<lparr>lks := (lks s)(l := (lks s l)\<lparr>lcpu := Some c\<rparr>)\<rparr>"

text \<open>
  \<^verbatim>\<open>acquire\<close> with no other CPU moving: a lock that is taken stays taken, the loop spins
  for ever and the call does not return.
\<close>

definition spin_acquire :: "nat \<Rightarrow> lock \<Rightarrow> smp \<Rightarrow> smp option" where
  "spin_acquire c l s = do {
     s \<leftarrow> acquire_enter c l s;
     let (old, s) = test_and_set l s;
     if old then None else Some (acquire_exit c l s)
   }"

text \<open>The two parts of \<^verbatim>\<open>release\<close>: up to \<^verbatim>\<open>lk->cpu = 0\<close>, and from the atomic clear on.\<close>

definition release_enter :: "nat \<Rightarrow> lock \<Rightarrow> smp \<Rightarrow> smp option" where
  "release_enter c l s =
     (if \<not> holding c l s then None
      else Some (s\<lparr>lks := (lks s)(l := (lks s l)\<lparr>lcpu := None\<rparr>)\<rparr>))"

definition release_exit :: "nat \<Rightarrow> lock \<Rightarrow> smp \<Rightarrow> smp option" where
  "release_exit c l s =
     pop_off c (s\<lparr>lks := (lks s)(l := (lks s l)\<lparr>locked := False\<rparr>)\<rparr>)"

definition spin_release :: "nat \<Rightarrow> lock \<Rightarrow> smp \<Rightarrow> smp option" where
  "spin_release c l s = do { s \<leftarrow> release_enter c l s; release_exit c l s }"

lemmas spinlock_defs =
  initlock_def holding_def push_off_def pop_off_def acquire_enter_def test_and_set_def
  acquire_exit_def spin_acquire_def release_enter_def release_exit_def spin_release_def Let_def


subsection \<open>Matched \<open>push_off\<close> and \<open>pop_off\<close>\<close>

fun push_offs :: "nat \<Rightarrow> nat \<Rightarrow> smp \<Rightarrow> smp" where
  "push_offs c 0 s = s"
| "push_offs c (Suc n) s = push_offs c n (push_off c s)"

fun pop_offs :: "nat \<Rightarrow> nat \<Rightarrow> smp \<Rightarrow> smp option" where
  "pop_offs c 0 s = Some s"
| "pop_offs c (Suc n) s = do { s \<leftarrow> pop_off c s; pop_offs c n s }"

text \<open>Interrupts on means that no \<open>push_off\<close> is open.\<close>

definition cpu_ok :: "cpu \<Rightarrow> bool" where
  "cpu_ok k \<longleftrightarrow> 0 \<le> noff k \<and> (sie k \<longrightarrow> noff k = 0)"

lemma push_offs_cpu:
  assumes "0 \<le> noff (cpus s c)"
  shows "cpus (push_offs c (Suc n) s) =
           (cpus s)(c := \<lparr>noff = noff (cpus s c) + int (Suc n),
              intena = (noff (cpus s c) = 0 \<and> sie (cpus s c) \<or>
                        noff (cpus s c) \<noteq> 0 \<and> intena (cpus s c)),
              sie = False\<rparr>) \<and>
         lks (push_offs c (Suc n) s) = lks s"
  using assms
proof (induction n arbitrary: s)
  case 0
  then show ?case by (auto simp: push_off_def Let_def)
next
  case (Suc n)
  have "0 \<le> noff (cpus (push_off c s) c)"
    using Suc.prems by (simp add: push_off_def Let_def)
  from Suc.IH [OF this] show ?case
    using Suc.prems by (auto simp: push_off_def Let_def)
qed

lemma pop_offs_cpu:
  assumes "\<not> sie (cpus s c)" "int (Suc n) \<le> noff (cpus s c)"
  shows "\<exists>t. pop_offs c (Suc n) s = Some t \<and> lks t = lks s \<and>
           cpus t = (cpus s)(c := \<lparr>noff = noff (cpus s c) - int (Suc n),
              intena = intena (cpus s c),
              sie = (noff (cpus s c) = int (Suc n) \<and> intena (cpus s c))\<rparr>)"
  using assms
proof (induction n arbitrary: s)
  case 0
  then show ?case by (auto simp: pop_off_def Let_def)
next
  case (Suc n)
  define t where "t = s\<lparr>cpus := (cpus s)(c := (cpus s c)\<lparr>noff := noff (cpus s c) - 1\<rparr>)\<rparr>"
  have "pop_off c s = Some t"
    using Suc.prems by (auto simp: pop_off_def Let_def t_def)
  moreover have "\<not> sie (cpus t c)" "int (Suc n) \<le> noff (cpus t c)"
    using Suc.prems by (auto simp: t_def)
  from Suc.IH [OF this] have
    "\<exists>u. pop_offs c (Suc n) t = Some u \<and> lks u = lks s \<and>
           cpus u = (cpus s)(c := \<lparr>noff = noff (cpus s c) - int (Suc (Suc n)),
              intena = intena (cpus s c),
              sie = (noff (cpus s c) = int (Suc (Suc n)) \<and> intena (cpus s c))\<rparr>)"
    by (auto simp: t_def algebra_simps fun_eq_iff)
  ultimately show ?case by (simp add: fun_upd_def)
qed

text \<open>
  Matched calls of \<open>push_off\<close> and \<open>pop_off\<close>: after \<open>n\<close> of each, the
  nesting depth, the interrupt state and the locks are what they were, whether interrupts
  were on or off before, and no call panics.
\<close>

lemma push_pop_restores:
  assumes "cpu_ok (cpus s c)"
  shows "\<exists>t. pop_offs c n (push_offs c n s) = Some t \<and> lks t = lks s \<and>
           noff (cpus t c) = noff (cpus s c) \<and> sie (cpus t c) = sie (cpus s c) \<and>
           (\<forall>d. d \<noteq> c \<longrightarrow> cpus t d = cpus s d)"
proof (cases n)
  case 0
  then show ?thesis by simp
next
  case (Suc k)
  let ?u = "push_offs c (Suc k) s"
  have nn: "0 \<le> noff (cpus s c)" using assms by (simp add: cpu_ok_def)
  note u = push_offs_cpu [OF nn, of k]
  have "\<not> sie (cpus ?u c)" "int (Suc k) \<le> noff (cpus ?u c)" using u nn by auto
  from pop_offs_cpu [OF this] obtain t where
    t: "pop_offs c (Suc k) ?u = Some t" "lks t = lks ?u"
       "cpus t = (cpus ?u)(c := \<lparr>noff = noff (cpus ?u c) - int (Suc k),
              intena = intena (cpus ?u c),
              sie = (noff (cpus ?u c) = int (Suc k) \<and> intena (cpus ?u c))\<rparr>)"
    by blast
  then show ?thesis
    using u assms Suc by (auto simp: cpu_ok_def)
qed

subsection \<open>Every CPU, one memory access at a time\<close>

datatype pc = Run | Spin lock | Won lock | Rel lock

record mp =
  pcs :: "nat \<Rightarrow> pc"
  mach :: smp

definition boot :: mp where
  "boot = \<lparr>pcs = (\<lambda>_. Run),
           mach = \<lparr>cpus = (\<lambda>_. \<lparr>noff = 0, intena = False, sie = False\<rparr>),
                   lks = (\<lambda>_. \<lparr>locked = False, lcpu = None\<rparr>)\<rparr>\<rparr>"

inductive smp_step :: "mp \<Rightarrow> mp \<Rightarrow> bool" where
  enter: "pcs m c = Run \<Longrightarrow> acquire_enter c l (mach m) = Some s \<Longrightarrow>
    smp_step m (m\<lparr>pcs := (pcs m)(c := Spin l), mach := s\<rparr>)"
| lose: "pcs m c = Spin l \<Longrightarrow> test_and_set l (mach m) = (True, s) \<Longrightarrow>
    smp_step m (m\<lparr>mach := s\<rparr>)"
| win: "pcs m c = Spin l \<Longrightarrow> test_and_set l (mach m) = (False, s) \<Longrightarrow>
    smp_step m (m\<lparr>pcs := (pcs m)(c := Won l), mach := s\<rparr>)"
| got: "pcs m c = Won l \<Longrightarrow>
    smp_step m (m\<lparr>pcs := (pcs m)(c := Run), mach := acquire_exit c l (mach m)\<rparr>)"
| leave: "pcs m c = Run \<Longrightarrow> release_enter c l (mach m) = Some s \<Longrightarrow>
    smp_step m (m\<lparr>pcs := (pcs m)(c := Rel l), mach := s\<rparr>)"
| left: "pcs m c = Rel l \<Longrightarrow> release_exit c l (mach m) = Some s \<Longrightarrow>
    smp_step m (m\<lparr>pcs := (pcs m)(c := Run), mach := s\<rparr>)"
| intr: "pcs m c = Run \<Longrightarrow> noff (cpus (mach m) c) = 0 \<Longrightarrow>
    smp_step m (m\<lparr>mach := (mach m)\<lparr>cpus := (cpus (mach m))
       (c := (cpus (mach m) c)\<lparr>sie := b\<rparr>)\<rparr>\<rparr>)"

inductive smp_reachable :: "mp \<Rightarrow> bool" where
  start: "smp_reachable boot"
| step: "smp_reachable m \<Longrightarrow> smp_step m m' \<Longrightarrow> smp_reachable m'"

text \<open>
  A CPU is inside the critical section of a lock from its successful test-and-set to the
  atomic clear.
\<close>

definition in_crit :: "mp \<Rightarrow> nat \<Rightarrow> lock \<Rightarrow> bool" where
  "in_crit m c l \<longleftrightarrow> pcs m c = Won l \<or> pcs m c = Rel l \<or> lcpu (lks (mach m) l) = Some c"

definition recorded :: "nat \<Rightarrow> smp \<Rightarrow> lock set" where
  "recorded c s = {l. lcpu (lks s l) = Some c}"

definition smp_inv :: "mp \<Rightarrow> bool" where
  "smp_inv m \<longleftrightarrow>
     (\<forall>c l. lcpu (lks (mach m) l) = Some c \<longrightarrow> locked (lks (mach m) l)) \<and>
     (\<forall>c l. pcs m c = Won l \<or> pcs m c = Rel l \<longrightarrow>
        locked (lks (mach m) l) \<and> lcpu (lks (mach m) l) = None) \<and>
     (\<forall>c c' l. (pcs m c = Won l \<or> pcs m c = Rel l) \<longrightarrow>
        (pcs m c' = Won l \<or> pcs m c' = Rel l) \<longrightarrow> c = c') \<and>
     (\<forall>c. finite (recorded c (mach m)) \<and>
        noff (cpus (mach m) c) =
          int (card (recorded c (mach m))) + (if pcs m c = Run then 0 else 1)) \<and>
     (\<forall>c. sie (cpus (mach m) c) \<longrightarrow> noff (cpus (mach m) c) = 0)"

lemma smp_invI:
  assumes "\<And>c l. lcpu (lks (mach m) l) = Some c \<Longrightarrow> locked (lks (mach m) l)"
    and "\<And>c l. pcs m c = Won l \<or> pcs m c = Rel l \<Longrightarrow>
        locked (lks (mach m) l) \<and> lcpu (lks (mach m) l) = None"
    and "\<And>c c' l. (pcs m c = Won l \<or> pcs m c = Rel l) \<Longrightarrow>
        (pcs m c' = Won l \<or> pcs m c' = Rel l) \<Longrightarrow> c = c'"
    and "\<And>c. finite (recorded c (mach m)) \<and>
        noff (cpus (mach m) c) =
          int (card (recorded c (mach m))) + (if pcs m c = Run then 0 else 1)"
    and "\<And>c. sie (cpus (mach m) c) \<Longrightarrow> noff (cpus (mach m) c) = 0"
  shows "smp_inv m"
  using assms unfolding smp_inv_def by blast

lemma smp_invD:
  assumes "smp_inv m"
  shows "lcpu (lks (mach m) l) = Some c \<Longrightarrow> locked (lks (mach m) l)"
    and "pcs m c = Won l \<or> pcs m c = Rel l \<Longrightarrow>
        locked (lks (mach m) l) \<and> lcpu (lks (mach m) l) = None"
    and "(pcs m c = Won l \<or> pcs m c = Rel l) \<Longrightarrow>
        (pcs m c' = Won l \<or> pcs m c' = Rel l) \<Longrightarrow> c = c'"
    and "finite (recorded c (mach m))"
    and "noff (cpus (mach m) c) =
          int (card (recorded c (mach m))) + (if pcs m c = Run then 0 else 1)"
    and "sie (cpus (mach m) c) \<Longrightarrow> noff (cpus (mach m) c) = 0"
  using assms unfolding smp_inv_def by blast+

lemma recorded_upd:
  "recorded c (s\<lparr>lks := (lks s)(l := k)\<rparr>) =
     (if lcpu k = Some c then insert l (recorded c s) else recorded c s - {l})"
  by (auto simp: recorded_def)

lemma recorded_cpus [simp]: "recorded c (s\<lparr>cpus := k\<rparr>) = recorded c s"
  by (simp add: recorded_def)

lemma recorded_push_off [simp]: "recorded c (push_off d s) = recorded c s"
  by (simp add: push_off_def Let_def)

lemma lks_push_off [simp]: "lks (push_off c s) = lks s"
  by (simp add: push_off_def Let_def)

lemma noff_push_off:
  "noff (cpus (push_off c s) d) = noff (cpus s d) + (if d = c then 1 else 0)"
  by (simp add: push_off_def Let_def)

lemma sie_push_off: "sie (cpus (push_off c s) d) \<longleftrightarrow> d \<noteq> c \<and> sie (cpus s d)"
  by (simp add: push_off_def Let_def)

lemma recorded_iff: "l \<in> recorded c s \<longleftrightarrow> lcpu (lks s l) = Some c"
  by (simp add: recorded_def)

lemma smp_inv_boot: "smp_inv boot"
  by (rule smp_invI) (auto simp: boot_def recorded_def)

lemma inv_enter:
  assumes inv: "smp_inv m" and pc: "pcs m c = Run"
    and s: "acquire_enter c l (mach m) = Some s"
  shows "smp_inv (m\<lparr>pcs := (pcs m)(c := Spin l), mach := s\<rparr>)"
proof -
  have s': "s = push_off c (mach m)"
    using s by (auto simp: acquire_enter_def Let_def split: if_splits)
  note i = smp_invD [OF inv]
  show ?thesis
  proof (rule smp_invI, goal_cases)
    case (1 d k) then show ?case using i(1) by (simp add: s')
  next
    case (2 d k) then show ?case using i(2) by (simp add: s' split: if_splits)
  next
    case (3 d d' k) then show ?case using i(3) by (simp split: if_splits)
  next
    case (4 d) then show ?case
      using i(4,5) [of d] pc by (simp add: s' noff_push_off)
  next
    case (5 d) then show ?case
      using i(6) [of d] by (simp add: s' sie_push_off noff_push_off)
  qed
qed

lemma inv_win:
  assumes inv: "smp_inv m" and pc: "pcs m c = Spin l"
    and s: "test_and_set l (mach m) = (False, s)"
  shows "smp_inv (m\<lparr>pcs := (pcs m)(c := Won l), mach := s\<rparr>)"
proof -
  have free: "\<not> locked (lks (mach m) l)"
    and s': "s = (mach m)\<lparr>lks := (lks (mach m))(l := (lks (mach m) l)\<lparr>locked := True\<rparr>)\<rparr>"
    using s by (auto simp: test_and_set_def)
  note i = smp_invD [OF inv]
  have none: "lcpu (lks (mach m) l) = None"
    using i(1) [of l] free by (cases "lcpu (lks (mach m) l)") auto
  have rec: "recorded d s = recorded d (mach m)" for d
    using none by (auto simp: s' recorded_def)
  show ?thesis
  proof (rule smp_invI, goal_cases)
    case (1 d k) then show ?case using i(1) by (auto simp: s' split: if_splits)
  next
    case (2 d k) then show ?case using i(2) none by (auto simp: s' split: if_splits)
  next
    case (3 d d' k) then show ?case using i(2,3) free by (auto split: if_splits)
  next
    case (4 d) then show ?case using i(4,5) [of d] pc by (cases "d = c") (simp_all add: rec, simp_all add: s')
  next
    case (5 d) then show ?case using i(6) [of d] by (simp add: s')
  qed
qed

lemma inv_got:
  assumes inv: "smp_inv m" and pc: "pcs m c = Won l"
  shows "smp_inv (m\<lparr>pcs := (pcs m)(c := Run), mach := acquire_exit c l (mach m)\<rparr>)"
proof -
  note i = smp_invD [OF inv]
  have lk: "locked (lks (mach m) l)" "lcpu (lks (mach m) l) = None"
    using i(2) [of c l] pc by auto
  let ?s = "acquire_exit c l (mach m)"
  have rec: "recorded d ?s = (if d = c then insert l (recorded d (mach m)) else recorded d (mach m))"
    for d using lk by (auto simp: acquire_exit_def recorded_def)
  have new: "l \<notin> recorded c (mach m)" using lk by (simp add: recorded_def)
  show ?thesis
  proof (rule smp_invI, goal_cases)
    case (1 d k) then show ?case using i(1) lk by (auto simp: acquire_exit_def split: if_splits)
  next
    case (2 d k) then show ?case using i(2) i(3) [of c l] pc
      by (auto simp: acquire_exit_def split: if_splits)
  next
    case (3 d d' k) then show ?case using i(3) by (auto split: if_splits)
  next
    case (4 d) then show ?case
      using i(4,5) [of d] pc new by (auto simp: rec) (auto simp: acquire_exit_def)
  next
    case (5 d) then show ?case using i(6) [of d] by (simp add: acquire_exit_def)
  qed
qed

lemma inv_leave:
  assumes inv: "smp_inv m" and pc: "pcs m c = Run"
    and s: "release_enter c l (mach m) = Some s"
  shows "smp_inv (m\<lparr>pcs := (pcs m)(c := Rel l), mach := s\<rparr>)"
proof -
  have h: "locked (lks (mach m) l)" "lcpu (lks (mach m) l) = Some c"
    and s': "s = (mach m)\<lparr>lks := (lks (mach m))(l := (lks (mach m) l)\<lparr>lcpu := None\<rparr>)\<rparr>"
    using s by (auto simp: release_enter_def holding_def split: if_splits)
  note i = smp_invD [OF inv]
  have rec: "recorded d s = (if d = c then recorded d (mach m) - {l} else recorded d (mach m))"
    for d using h by (auto simp: s' recorded_def)
  have inl: "l \<in> recorded c (mach m)" using h by (simp add: recorded_def)
  show ?thesis
  proof (rule smp_invI, goal_cases)
    case (1 d k) then show ?case using i(1) by (auto simp: s' split: if_splits)
  next
    case (2 d k) then show ?case using i(2) h by (auto simp: s' split: if_splits)
  next
    case (3 d d' k) then show ?case using i(2) [of _ l] i(3) h by (auto split: if_splits)
  next
    case (4 d) then show ?case
      using i(4,5) [of d] pc inl card_Suc_Diff1 [of "recorded c (mach m)" l]
      by (auto simp: rec) (auto simp: s')
  next
    case (5 d) then show ?case using i(6) [of d] by (simp add: s')
  qed
qed

lemma inv_left:
  assumes inv: "smp_inv m" and pc: "pcs m c = Rel l"
    and s: "release_exit c l (mach m) = Some s"
  shows "smp_inv (m\<lparr>pcs := (pcs m)(c := Run), mach := s\<rparr>)"
proof -
  note i = smp_invD [OF inv]
  let ?k = "(lks (mach m))(l := (lks (mach m) l)\<lparr>locked := False\<rparr>)"
  have lks: "lks s = ?k"
    and noff: "noff (cpus s d) = noff (cpus (mach m) d) - (if d = c then 1 else 0)"
    and sie: "sie (cpus s d) \<Longrightarrow> sie (cpus (mach m) d) \<or> d = c \<and> noff (cpus s d) = 0" for d
    using s by (auto simp: release_exit_def pop_off_def Let_def split: if_splits)
  have lk: "lcpu (lks (mach m) l) = None" using i(2) [of c l] pc by auto
  have rec: "recorded d s = recorded d (mach m)" for d
    using lk by (auto simp: lks recorded_def)
  show ?thesis
  proof (rule smp_invI, goal_cases)
    case (1 d k) then show ?case using i(1) lk by (auto simp: lks split: if_splits)
  next
    case (2 d k) then show ?case using i(2) i(3) [of c l] pc by (auto simp: lks split: if_splits)
  next
    case (3 d d' k) then show ?case using i(3) by (auto split: if_splits)
  next
    case (4 d) then show ?case using i(4,5) [of d] pc by (simp add: rec noff)
  next
    case (5 d)
    then have "sie (cpus s d)" by simp
    from sie [OF this] show ?case using i(6) [of d] i(5) [of c] pc by (auto simp: noff)
  qed
qed

lemma smp_step_inv: "smp_step m m' \<Longrightarrow> smp_inv m \<Longrightarrow> smp_inv m'"
proof (induction rule: smp_step.induct)
  case (lose m c l s)
  then have "locked (lks (mach m) l)"
    and s: "s = (mach m)\<lparr>lks := (lks (mach m))(l := (lks (mach m) l)\<lparr>locked := True\<rparr>)\<rparr>"
    by (auto simp: test_and_set_def)
  then have "(lks (mach m) l)\<lparr>locked := True\<rparr> = lks (mach m) l" by simp
  then have "m\<lparr>mach := s\<rparr> = m" using s by simp
  with lose show ?case by simp
next
  case (intr m c b)
  note i = smp_invD [OF intr.prems]
  show ?case
  proof (rule smp_invI, goal_cases)
    case (1 d k) then show ?case using i(1) by simp
  next
    case (2 d k) then show ?case using i(2) by simp
  next
    case (3 d d' k) then show ?case using i(3) by simp
  next
    case (4 d) then show ?case using i(4,5) [of d] by auto
  next
    case (5 d) then show ?case using i(6) [of d] intr.hyps by (simp split: if_splits)
  qed
qed (blast intro: inv_enter inv_win inv_got inv_leave inv_left)+

lemma smp_reachable_inv: "smp_reachable m \<Longrightarrow> smp_inv m"
  by (induction rule: smp_reachable.induct) (blast intro: smp_inv_boot smp_step_inv)+

text \<open>
  C2: in every state the CPUs can reach, under every interleaving of their accesses to
  the lock words, at most one CPU is inside the critical section of a spinlock.
\<close>

theorem spinlock_mutual_exclusion:
  assumes "smp_reachable m" "in_crit m c l" "in_crit m d l"
  shows "c = d"
proof -
  note i = smp_invD [OF smp_reachable_inv [OF assms(1)]]
  show ?thesis
    using assms(2,3) i(2) [of c l] i(2) [of d l] i(3) [of c l d] unfolding in_crit_def by auto
qed

text \<open>CPU 0 holds \<^verbatim>\<open>kmem.lock\<close> and CPU 1 spins on it.\<close>

definition contended :: mp where
  "contended =
     \<lparr>pcs = (\<lambda>_. Run)(1 := Spin L_kmem),
      mach = push_off 1 (acquire_exit 0 L_kmem (snd (test_and_set L_kmem (push_off 0 (mach boot)))))\<rparr>"

lemma contended_reachable: "smp_reachable contended"
proof -
  let ?s = "push_off 0 (mach boot)" let ?t = "snd (test_and_set L_kmem ?s)"
  let ?u = "acquire_exit 0 L_kmem ?t"
  let ?a = "boot\<lparr>pcs := (pcs boot)(0 := Spin L_kmem), mach := ?s\<rparr>"
  let ?b = "?a\<lparr>pcs := (pcs ?a)(0 := Won L_kmem), mach := ?t\<rparr>"
  let ?c = "?b\<lparr>pcs := (pcs ?b)(0 := Run), mach := ?u\<rparr>"
  have "smp_step boot ?a"
    by (rule smp_step.enter) (simp_all add: boot_def spinlock_defs)
  then have a: "smp_reachable ?a" by (blast intro: smp_reachable.intros)
  have "smp_step ?a ?b"
    by (rule smp_step.win) (simp_all add: boot_def spinlock_defs)
  with a have b: "smp_reachable ?b" by (blast intro: smp_reachable.intros)
  have "smp_step ?b (?b\<lparr>pcs := (pcs ?b)(0 := Run), mach := acquire_exit 0 L_kmem (mach ?b)\<rparr>)"
    by (rule smp_step.got) simp
  then have "smp_step ?b ?c" by simp
  with b have c: "smp_reachable ?c" by (blast intro: smp_reachable.intros)
  have "smp_step ?c (?c\<lparr>pcs := (pcs ?c)(1 := Spin L_kmem), mach := push_off 1 ?u\<rparr>)"
    by (rule smp_step.enter) (simp_all add: boot_def spinlock_defs)
  with c have "smp_reachable (?c\<lparr>pcs := (pcs ?c)(1 := Spin L_kmem), mach := push_off 1 ?u\<rparr>)"
    by (blast intro: smp_reachable.intros)
  moreover have "?c\<lparr>pcs := (pcs ?c)(1 := Spin L_kmem), mach := push_off 1 ?u\<rparr> = contended"
    by (simp add: contended_def boot_def fun_eq_iff)
  ultimately show ?thesis by simp
qed

theorem spinlock_mutual_exclusion_witness:
  "smp_reachable contended \<and> {d. in_crit contended d L_kmem} = {0}"
proof -
  have "in_crit contended 0 L_kmem"
    by (simp add: in_crit_def contended_def spinlock_defs boot_def)
  then show ?thesis
    using contended_reachable spinlock_mutual_exclusion [of contended _ L_kmem 0] by blast
qed

text \<open>
  C3: in every reachable state \<open>noff\<close> of a CPU counts exactly the locks it holds,
  plus the one it is acquiring or releasing; the CPU runs with interrupts off from the entry of
  \<^verbatim>\<open>acquire\<close> to the end of \<^verbatim>\<open>release\<close>; and the last part of \<^verbatim>\<open>release\<close>, which
  ends in \<^verbatim>\<open>pop_off\<close>, never panics.
\<close>

theorem spinlock_interrupts:
  assumes "smp_reachable m"
  shows "noff (cpus (mach m) c) =
           int (card (recorded c (mach m))) + (if pcs m c = Run then 0 else 1) \<and>
         (pcs m c \<noteq> Run \<or> recorded c (mach m) \<noteq> {} \<longrightarrow> \<not> sie (cpus (mach m) c)) \<and>
         (pcs m c = Rel l \<longrightarrow> (\<exists>s. release_exit c l (mach m) = Some s))"
proof -
  note i = smp_invD [OF smp_reachable_inv [OF assms]]
  have *: "\<not> sie (cpus (mach m) c)" if "pcs m c \<noteq> Run \<or> recorded c (mach m) \<noteq> {}"
  proof -
    have "card (recorded c (mach m)) \<noteq> 0 \<or> pcs m c \<noteq> Run" using that i(4) [of c] by auto
    then show ?thesis using i(5,6) [of c] by (auto split: if_splits)
  qed
  moreover have "\<exists>s. release_exit c l (mach m) = Some s" if "pcs m c = Rel l"
    using that * i(5) [of c] by (simp add: release_exit_def pop_off_def Let_def)
  ultimately show ?thesis using i(5) by blast
qed

theorem spinlock_interrupts_witness:
  "smp_reachable contended \<and> pcs contended 1 \<noteq> Run \<and> \<not> sie (cpus (mach contended) 1)"
proof -
  have "pcs contended 1 = Spin L_kmem" by (simp add: contended_def)
  then show ?thesis
    using contended_reachable spinlock_interrupts [of contended 1 L_kmem] by simp
qed

subsection \<open>The locks of one CPU\<close>

record lockst =
  held :: "lock list"

definition acquire :: "lock \<Rightarrow> 'z lockst_scheme \<Rightarrow> 'z lockst_scheme option" where
  "acquire l s = (if l \<in> set (held s) then None else Some (s\<lparr>held := l # held s\<rparr>))"

definition release :: "lock \<Rightarrow> 'z lockst_scheme \<Rightarrow> 'z lockst_scheme option" where
  "release l s = (if l \<notin> set (held s) then None else Some (s\<lparr>held := removeAll l (held s)\<rparr>))"

text \<open>
  The view \<open>s\<close> shows the locks of CPU \<open>c\<close>: as many as \<open>noff\<close>, each recorded with \<open>c\<close>
  as its holder, and interrupts are off as soon as there is one.
\<close>

definition lock_view :: "nat \<Rightarrow> smp \<Rightarrow> 'z lockst_scheme \<Rightarrow> bool" where
  "lock_view c m s \<longleftrightarrow>
     distinct (held s) \<and> set (held s) = {l. holding c l m} \<and>
     noff (cpus m c) = int (length (held s)) \<and> (held s \<noteq> [] \<longrightarrow> \<not> sie (cpus m c))"

lemma acquire_simulates:
  assumes v: "lock_view c m s" and a: "acquire l s = Some s'" and free: "\<not> locked (lks m l)"
  shows "\<exists>m'. spin_acquire c l m = Some m' \<and> lock_view c m' s'"
proof -
  have s': "s' = s\<lparr>held := l # held s\<rparr>" and n: "l \<notin> set (held s)"
    using a by (auto simp: acquire_def split: if_splits)
  let ?m = "acquire_exit c l (snd (test_and_set l (push_off c m)))"
  have nh: "\<not> holding c l m" using free by (simp add: holding_def)
  have "spin_acquire c l m = Some ?m"
    using free nh by (simp add: spinlock_defs)
  moreover have "{k. holding c k ?m} = insert l {k. holding c k m}"
    by (auto simp: holding_def acquire_exit_def test_and_set_def)
  moreover have "noff (cpus ?m c) = noff (cpus m c) + 1" "\<not> sie (cpus ?m c)"
    by (simp_all add: acquire_exit_def test_and_set_def noff_push_off sie_push_off)
  ultimately show ?thesis using v n by (auto simp: lock_view_def s')
qed

lemma acquire_panics:
  assumes "lock_view c m s" "acquire l s = None"
  shows "spin_acquire c l m = None"
proof -
  have "holding c l m" using assms by (auto simp: lock_view_def acquire_def split: if_splits)
  then show ?thesis
    by (simp add: spin_acquire_def acquire_enter_def Let_def holding_def)
qed

lemma release_simulates:
  assumes v: "lock_view c m s" and r: "release l s = Some s'"
  shows "\<exists>m'. spin_release c l m = Some m' \<and> lock_view c m' s'"
proof -
  have l: "l \<in> set (held s)" and s': "s' = s\<lparr>held := removeAll l (held s)\<rparr>"
    using r by (auto simp: release_def split: if_splits)
  have h: "holding c l m" and d: "distinct (held s)" and off: "\<not> sie (cpus m c)"
    and noff: "noff (cpus m c) = int (length (held s))"
    using v l by (auto simp: lock_view_def)
  have len: "Suc (length (removeAll l (held s))) = length (held s)"
    by (rule length_removeAll_distinct [OF d l])
  have "0 < length (held s)" using l by (cases "held s") auto
  then obtain m' where m': "spin_release c l m = Some m'"
      "lks m' = (lks m)(l := (lks m l)\<lparr>lcpu := None, locked := False\<rparr>)"
      "noff (cpus m' c) = noff (cpus m c) - 1"
      "sie (cpus m' c) \<Longrightarrow> noff (cpus m' c) = 0"
    using h off noff
    by (cases "length (held s) = 1")
      (auto simp: spin_release_def release_enter_def release_exit_def pop_off_def Let_def)
  have "{k. holding c k m'} = {k. holding c k m} - {l}"
    by (auto simp: holding_def m'(2))
  then have "lock_view c m' s'"
    using v len m'(3,4) by (auto simp: lock_view_def s' distinct_removeAll)
  then show ?thesis using m'(1) by blast
qed

lemma release_panics:
  assumes "lock_view c m s" "release l s = None"
  shows "spin_release c l m = None"
  using assms
  by (auto simp: lock_view_def release_def spin_release_def release_enter_def split: if_splits)

lemma acquire_eq [simp]:
  "l \<notin> set (held s) \<Longrightarrow> acquire l s = Some (s\<lparr>held := l # held s\<rparr>)"
  by (simp add: acquire_def)

lemma release_Cons [simp]:
  "held s = l # ls \<Longrightarrow> l \<notin> set ls \<Longrightarrow> release l s = Some (s\<lparr>held := ls\<rparr>)"
  by (simp add: release_def)

lemma acquire_SomeD: "acquire l s = Some s' \<Longrightarrow> l \<notin> set (held s) \<and> s' = s\<lparr>held := l # held s\<rparr>"
  by (auto simp: acquire_def split: if_splits)

lemma release_SomeD:
  "release l s = Some s' \<Longrightarrow> l \<in> set (held s) \<and> s' = s\<lparr>held := removeAll l (held s)\<rparr>"
  by (auto simp: release_def split: if_splits)

end
