(* ===== verification/XV_String.thy ===== *)
theory XV_String
  imports XV_Prelude "HOL-Library.Sublist"
begin

section \<open>Byte memory and the string library\<close>

text \<open>
  Physical memory is a map from 64-bit addresses to bytes; \<open>load64\<close> and \<open>store64\<close> are the
  little-endian accesses of the machine to a \<^verbatim>\<open>uint64\<close>.  The routines of
  \<^verbatim>\<open>kernel/lib/string.c\<close> are loops over it: a loop with a count recurses on the count, one
  that runs up to a NUL byte is a partial function whose value is \<open>None\<close> when it never
  meets one.  \<^verbatim>\<open>char\<close> is an unsigned byte on the target.
\<close>

type_synonym memory = "u64 \<Rightarrow> u8"

primrec load_bytes :: "nat \<Rightarrow> memory \<Rightarrow> u64 \<Rightarrow> u64" where
  "load_bytes 0 m a = 0"
| "load_bytes (Suc n) m a = ucast (m a) OR push_bit 8 (load_bytes n m (a + 1))"

definition load64 :: "memory \<Rightarrow> u64 \<Rightarrow> u64" where
  "load64 m a = load_bytes 8 m a"

definition store64 :: "u64 \<Rightarrow> u64 \<Rightarrow> memory \<Rightarrow> memory" where
  "store64 a v m = (\<lambda>b. if unat (b - a) < 8 then ucast (drop_bit (8 * unat (b - a)) v) else m b)"

subsection \<open>Routines with a count\<close>

primrec memset_loop :: "u64 \<Rightarrow> u8 \<Rightarrow> nat \<Rightarrow> memory \<Rightarrow> memory" where
  "memset_loop dst c 0 m = m"
| "memset_loop dst c (Suc i) m = (memset_loop dst c i m)(dst + of_nat i := c)"

definition memset :: "u64 \<Rightarrow> u32 \<Rightarrow> u32 \<Rightarrow> memory \<Rightarrow> memory" where
  "memset dst c n m = memset_loop dst (ucast c) (unat n) m"

primrec memcmp_loop :: "nat \<Rightarrow> u64 \<Rightarrow> u64 \<Rightarrow> memory \<Rightarrow> int" where
  "memcmp_loop 0 s1 s2 m = 0"
| "memcmp_loop (Suc n) s1 s2 m =
     (if m s1 \<noteq> m s2 then uint (m s1) - uint (m s2) else memcmp_loop n (s1 + 1) (s2 + 1) m)"

definition memcmp :: "u64 \<Rightarrow> u64 \<Rightarrow> u32 \<Rightarrow> memory \<Rightarrow> int" where
  "memcmp v1 v2 n m = memcmp_loop (unat n) v1 v2 m"

primrec copy_down :: "nat \<Rightarrow> u64 \<Rightarrow> u64 \<Rightarrow> memory \<Rightarrow> memory" where
  "copy_down 0 d s m = m"
| "copy_down (Suc n) d s m = (let d = d - 1; s = s - 1 in copy_down n d s (m(d := m s)))"

primrec copy_up :: "nat \<Rightarrow> u64 \<Rightarrow> u64 \<Rightarrow> memory \<Rightarrow> memory" where
  "copy_up 0 d s m = m"
| "copy_up (Suc n) d s m = copy_up n (d + 1) (s + 1) (m(d := m s))"

definition memmove :: "u64 \<Rightarrow> u64 \<Rightarrow> u32 \<Rightarrow> memory \<Rightarrow> memory" where
  "memmove dst src n m =
     (if n = 0 then m
      else if src < dst \<and> src + ucast n > dst
      then copy_down (unat n) (dst + ucast n) (src + ucast n) m
      else copy_up (unat n) dst src m)"

definition memcpy :: "u64 \<Rightarrow> u64 \<Rightarrow> u32 \<Rightarrow> memory \<Rightarrow> memory" where
  "memcpy dst src n m = memmove dst src n m"

primrec strncmp_loop :: "nat \<Rightarrow> u64 \<Rightarrow> u64 \<Rightarrow> memory \<Rightarrow> int" where
  "strncmp_loop 0 p q m = 0"
| "strncmp_loop (Suc n) p q m =
     (if m p \<noteq> 0 \<and> m p = m q then strncmp_loop n (p + 1) (q + 1) m
      else uint (m p) - uint (m q))"

definition strncmp :: "u64 \<Rightarrow> u64 \<Rightarrow> u32 \<Rightarrow> memory \<Rightarrow> int" where
  "strncmp p q n m = strncmp_loop (unat n) p q m"

primrec zero_fill :: "nat \<Rightarrow> u64 \<Rightarrow> memory \<Rightarrow> memory" where
  "zero_fill 0 d m = m"
| "zero_fill (Suc n) d m = zero_fill n (d + 1) (m(d := 0))"

primrec strncpy_loop :: "nat \<Rightarrow> u64 \<Rightarrow> u64 \<Rightarrow> memory \<Rightarrow> memory" where
  "strncpy_loop 0 d s m = m"
| "strncpy_loop (Suc n) d s m =
     (let c = m s; m = m(d := c) in
      if c \<noteq> 0 then strncpy_loop n (d + 1) (s + 1) m else zero_fill n (d + 1) m)"

definition strncpy :: "u64 \<Rightarrow> u64 \<Rightarrow> int \<Rightarrow> memory \<Rightarrow> memory" where
  "strncpy des src n m = strncpy_loop (nat n) des src m"

primrec safestrcpy_loop :: "nat \<Rightarrow> u64 \<Rightarrow> u64 \<Rightarrow> memory \<Rightarrow> memory" where
  "safestrcpy_loop 0 s t m = m(s := 0)"
| "safestrcpy_loop (Suc n) s t m =
     (let c = m t; m = m(s := c) in
      if c \<noteq> 0 then safestrcpy_loop n (s + 1) (t + 1) m else m(s + 1 := 0))"

definition safestrcpy :: "u64 \<Rightarrow> u64 \<Rightarrow> int \<Rightarrow> memory \<Rightarrow> memory" where
  "safestrcpy s t n m = (if n \<le> 0 then m else safestrcpy_loop (nat n - 1) s t m)"

primrec strnlen_loop :: "nat \<Rightarrow> u64 \<Rightarrow> memory \<Rightarrow> u64" where
  "strnlen_loop 0 sc m = sc"
| "strnlen_loop (Suc n) sc m = (if m sc \<noteq> 0 then strnlen_loop n (sc + 1) m else sc)"

definition strnlen :: "u64 \<Rightarrow> u64 \<Rightarrow> memory \<Rightarrow> u64" where
  "strnlen s count m = strnlen_loop (unat count) s m - s"

subsection \<open>Routines that run to a NUL byte\<close>

partial_function (option) strcmp :: "u64 \<Rightarrow> u64 \<Rightarrow> memory \<Rightarrow> int option" where
  "strcmp p q m =
     (if m p \<noteq> 0 \<and> m p = m q then strcmp (p + 1) (q + 1) m
      else Some (uint (m p) - uint (m q)))"

partial_function (option) strlen_loop :: "nat \<Rightarrow> u64 \<Rightarrow> memory \<Rightarrow> nat option" where
  "strlen_loop n s m = (if m (s + of_nat n) \<noteq> 0 then strlen_loop (Suc n) s m else Some n)"

definition strlen :: "u64 \<Rightarrow> memory \<Rightarrow> nat option" where
  "strlen s m = strlen_loop 0 s m"

partial_function (option) strcpy :: "u64 \<Rightarrow> u64 \<Rightarrow> memory \<Rightarrow> memory option" where
  "strcpy des src m =
     (let c = m src; m = m(des := c) in
      if c \<noteq> 0 then strcpy (des + 1) (src + 1) m else Some m)"

partial_function (option) substr_cmp :: "u64 \<Rightarrow> u64 \<Rightarrow> memory \<Rightarrow> int option" where
  "substr_cmp shorts longs m =
     (if m shorts \<noteq> 0 \<and> m shorts = m longs then substr_cmp (shorts + 1) (longs + 1) m
      else Some (if m shorts = 0 then 0 else - 1))"

partial_function (option) find_nul :: "u64 \<Rightarrow> memory \<Rightarrow> u64 option" where
  "find_nul p m = (if m p \<noteq> 0 then find_nul (p + 1) m else Some p)"

partial_function (option) strcat_loop :: "u64 \<Rightarrow> u64 \<Rightarrow> memory \<Rightarrow> memory option" where
  "strcat_loop p src m =
     (if m src \<noteq> 0 then strcat_loop (p + 1) (src + 1) (m(p := m src)) else Some (m(p := 0)))"

definition strcat :: "u64 \<Rightarrow> u64 \<Rightarrow> memory \<Rightarrow> memory option" where
  "strcat dest src m = do { p \<leftarrow> find_nul dest m; strcat_loop p src m }"

subsection \<open>Loads and stores\<close>

lemma store64_at: "i < 8 \<Longrightarrow> store64 a v m (a + of_nat i) = ucast (drop_bit (8 * i) v)"
  by (simp add: store64_def unat_of_nat)

lemma bit_load_bytes:
  "k < 64 \<Longrightarrow> bit (load_bytes n m a) k \<longleftrightarrow>
     k < 8 * n \<and> bit (m (a + of_nat (k div 8))) (k mod 8)"
proof (induction n arbitrary: a k)
  case (Suc n)
  show ?case
  proof (cases "k < 8")
    case True
    then show ?thesis
      by (simp add: bit_or_iff bit_push_bit_iff bit_unsigned_iff)
  next
    case False
    then have e: "k div 8 = Suc ((k - 8) div 8)" "k mod 8 = (k - 8) mod 8"
      by (simp_all add: le_div_geq le_mod_geq)
    have "\<not> bit (m a) k" using False by (simp add: impossible_bit)
    moreover have "bit (load_bytes n m (a + 1)) (k - 8) \<longleftrightarrow>
        k - 8 < 8 * n \<and> bit (m (a + 1 + of_nat ((k - 8) div 8))) ((k - 8) mod 8)"
      by (rule Suc.IH) (use Suc.prems in simp)
    moreover have "k - 8 < 8 * n \<longleftrightarrow> k < 8 * Suc n" using False by auto
    ultimately show ?thesis
      using False Suc.prems e by (simp add: bit_or_iff bit_push_bit_iff bit_unsigned_iff add.assoc)
  qed
qed simp

lemma bit_load64: "k < 64 \<Longrightarrow> bit (load64 m a) k \<longleftrightarrow> bit (m (a + of_nat (k div 8))) (k mod 8)"
  by (simp add: load64_def bit_load_bytes)

lemma load64_store64_same: "load64 (store64 a v m) a = v"
proof (rule bit_word_eqI)
  fix k assume k: "k < LENGTH(64)"
  then have "k div 8 < 8" by simp
  with k show "bit (load64 (store64 a v m) a) k = bit v k"
    by (simp add: bit_load64 store64_at bit_unsigned_iff bit_drop_bit_eq)
qed

lemma load64_cong:
  assumes "\<And>i. i < 8 \<Longrightarrow> m' (a + of_nat i) = m (a + of_nat i)"
  shows "load64 m' a = load64 m a"
proof (rule bit_word_eqI)
  fix k assume k: "k < LENGTH(64)"
  then have "k div 8 < 8" by simp
  with k assms show "bit (load64 m' a) k = bit (load64 m a) k" by (simp add: bit_load64)
qed

lemma load64_zero:
  assumes "\<And>i. i < 8 \<Longrightarrow> m (a + of_nat i) = 0"
  shows "load64 m a = 0"
proof (rule bit_word_eqI)
  fix k assume k: "k < LENGTH(64)"
  then have "k div 8 < 8" by simp
  with k assms show "bit (load64 m a) k = bit 0 k" by (simp add: bit_load64)
qed

text \<open>Addresses that are multiples of a power of two.\<close>

definition aligned :: "nat \<Rightarrow> u64 \<Rightarrow> bool" where
  "aligned k a \<longleftrightarrow> take_bit k a = 0"

lemma aligned_unat: "aligned k a \<longleftrightarrow> unat a mod 2 ^ k = 0"
  by (metis aligned_def take_bit_eq_mod unat_eq_0 unsigned_take_bit_eq)

lemma aligned_offset:
  assumes "aligned k a" "i < 2 ^ k" "k \<le> 64"
  shows "unat (a + of_nat i) = unat a + i"
proof -
  obtain q where q: "unat a = 2 ^ k * q"
    using assms(1) by (metis aligned_unat dvd_def mod_0_imp_dvd)
  have "unat a < 2 ^ 64" by simp
  then have lt: "2 ^ k * q < 2 ^ k * 2 ^ (64 - k)"
    using q assms(3) by (metis le_add_diff_inverse power_add)
  then have "Suc q \<le> 2 ^ (64 - k)" by simp
  then have "2 ^ k * Suc q \<le> 2 ^ k * 2 ^ (64 - k)" by (rule mult_le_mono2)
  also have "\<dots> = (2 ^ 64 :: nat)" using assms(3) by (metis le_add_diff_inverse power_add)
  finally have "unat a + i < 2 ^ 64" using q assms(2) by simp
  moreover have "i < 2 ^ 64" using calculation by simp
  ultimately show ?thesis by (simp add: unat_word_ariths unat_of_nat take_bit_nat_eq_self)
qed

lemma aligned_block:
  assumes "aligned k a" "aligned k b" "i < 2 ^ k" "j < 2 ^ k" "k \<le> 64"
    "a + of_nat i = b + of_nat j"
  shows "a = b"
proof -
  have e: "unat a + i = unat b + j"
    using assms aligned_offset [of k a i] aligned_offset [of k b j] by simp
  obtain p q where pq: "unat a = 2 ^ k * p" "unat b = 2 ^ k * q"
    using assms(1,2) by (metis aligned_unat dvd_def mod_0_imp_dvd)
  have "p = (unat a + i) div 2 ^ k" "q = (unat b + j) div 2 ^ k"
    using pq assms(3,4) by simp_all
  then have "p = q" using e by (simp only:)
  then have "unat a = unat b" using pq by simp
  then show ?thesis by (rule unsigned_word_eqI)
qed

lemma load64_store64_other:
  assumes "aligned 3 a" "aligned 3 b" "a \<noteq> b"
  shows "load64 (store64 a v m) b = load64 m b"
proof (rule load64_cong)
  fix i :: nat assume i: "i < 8"
  have "\<not> unat (b + of_nat i - a) < 8"
  proof
    assume lt: "unat (b + of_nat i - a) < 8"
    have "a + of_nat (unat (b + of_nat i - a)) = b + of_nat i" by simp
    with aligned_block [of 3 a b "unat (b + of_nat i - a)" i] lt i assms show False by simp
  qed
  then show "store64 a v m (b + of_nat i) = m (b + of_nat i)" by (simp add: store64_def)
qed

subsection \<open>\<open>memset\<close> and \<open>memmove\<close>\<close>

lemma memset_loop_at:
  "n \<le> 2 ^ 64 \<Longrightarrow> memset_loop dst c n m a = (if unat (a - dst) < n then c else m a)"
proof (induction n)
  case (Suc n)
  have "a = dst + of_nat n \<longleftrightarrow> unat (a - dst) = n"
  proof
    assume "a = dst + of_nat n"
    then show "unat (a - dst) = n" using Suc.prems by (simp add: unat_of_nat take_bit_nat_eq_self)
  next
    assume "unat (a - dst) = n"
    from this [symmetric] show "a = dst + of_nat n" by simp
  qed
  then show ?case using Suc by auto
qed simp

lemma memset_at: "memset dst c n m a = (if unat (a - dst) < unat n then ucast c else m a)"
proof -
  have "unat n \<le> 2 ^ 64" by simp
  then show ?thesis by (simp add: memset_def memset_loop_at)
qed

lemma unat_sub1:
  fixes a d :: u64
  assumes "n < 2 ^ 64"
  shows "unat (a - (d + 1)) < n \<Longrightarrow> unat (a - d) = Suc (unat (a - (d + 1)))"
    and "unat (a - d) < Suc n \<Longrightarrow> a \<noteq> d \<Longrightarrow> unat (a - (d + 1)) < n"
proof -
  show "unat (a - d) = Suc (unat (a - (d + 1)))" if "unat (a - (d + 1)) < n"
    using that assms unat_add_lt [of "a - (d + 1)" 1] by simp
  show "unat (a - (d + 1)) < n" if "unat (a - d) < Suc n" "a \<noteq> d"
  proof -
    have "a - d \<noteq> 0" using that(2) by simp
    then have "unat (a - d - 1) = unat (a - d) - 1" by (rule unat_minus_one)
    moreover have "unat (a - d) \<noteq> 0" using \<open>a - d \<noteq> 0\<close> by (simp add: unat_eq_0)
    ultimately show ?thesis using that(1) by (simp add: diff_diff_eq)
  qed
qed

lemma copy_up_at:
  assumes "\<And>i j. i < j \<Longrightarrow> j < n \<Longrightarrow> d + of_nat i \<noteq> s + of_nat j" "n \<le> 2 ^ 64"
  shows "copy_up n d s m a = (if unat (a - d) < n then m (s + (a - d)) else m a)"
  using assms
proof (induction n arbitrary: d s m)
  case (Suc n)
  let ?m = "m(d := m s)"
  have IH: "copy_up n (d + 1) (s + 1) ?m a =
      (if unat (a - (d + 1)) < n then ?m (s + 1 + (a - (d + 1))) else ?m a)"
  proof (rule Suc.IH)
    fix i j assume "i < j" "j < n"
    then show "d + 1 + of_nat i \<noteq> s + 1 + of_nat j"
      using Suc.prems(1) [of "Suc i" "Suc j"] by (simp add: algebra_simps)
  qed (use Suc.prems in simp)
  have n: "n < 2 ^ 64" using Suc.prems(2) by simp
  show ?case
  proof (cases "unat (a - (d + 1)) < n")
    case True
    let ?j = "Suc (unat (a - (d + 1)))"
    have "s + of_nat ?j = s + (a - d)" by simp
    then have "s + (a - d) \<noteq> d" using Suc.prems(1) [of 0 ?j] True by fastforce
    then show ?thesis using IH True unat_sub1(1) [OF n True] by simp
  next
    case False
    then show ?thesis using IH unat_sub1(2) [OF n, of a d] by auto
  qed
qed simp

lemma copy_down_at:
  assumes "\<And>i j. i < j \<Longrightarrow> j < n \<Longrightarrow> d + of_nat j \<noteq> s + of_nat i" "n \<le> 2 ^ 64"
  shows "copy_down n (d + of_nat n) (s + of_nat n) m a =
    (if unat (a - d) < n then m (s + (a - d)) else m a)"
  using assms
proof (induction n arbitrary: m)
  case (Suc n)
  let ?m = "m(d + of_nat n := m (s + of_nat n))"
  have IH: "copy_down n (d + of_nat n) (s + of_nat n) ?m a =
      (if unat (a - d) < n then ?m (s + (a - d)) else ?m a)"
    by (rule Suc.IH) (use Suc.prems in auto)
  have eq: "copy_down (Suc n) (d + of_nat (Suc n)) (s + of_nat (Suc n)) m a =
      copy_down n (d + of_nat n) (s + of_nat n) ?m a"
    by (simp add: Let_def)
  have at: "a = d + of_nat n \<longleftrightarrow> unat (a - d) = n"
  proof
    assume "unat (a - d) = n"
    from this [symmetric] show "a = d + of_nat n" by simp
  qed (use Suc.prems(2) in \<open>simp add: unat_of_nat take_bit_nat_eq_self\<close>)
  show ?case
  proof (cases "unat (a - d) < n")
    case True
    have "d + of_nat n \<noteq> s + of_nat (unat (a - d))"
      using Suc.prems(1) [of "unat (a - d)" n] True by simp
    then show ?thesis using eq IH True by simp
  next
    case False
    then show ?thesis using eq IH at by auto
  qed
qed simp

lemma add_of_nat_ne:
  "unat (d :: u64) + i < 2 ^ 64 \<Longrightarrow> unat s + j < 2 ^ 64 \<Longrightarrow> unat d + i \<noteq> unat s + j \<Longrightarrow>
   d + of_nat i \<noteq> s + of_nat j"
  by (metis unat_add_lt)

lemma memmove_at:
  assumes s: "unat src + unat n \<le> 2 ^ 64" and d: "unat dst + unat n \<le> 2 ^ 64"
  shows "memmove dst src n m a = (if unat (a - dst) < unat n then m (src + (a - dst)) else m a)"
proof -
  have n64: "unat n \<le> 2 ^ 64" by simp
  consider "n = 0" | "n \<noteq> 0" "src < dst" "src + ucast n > dst"
    | "n \<noteq> 0" "\<not> (src < dst \<and> src + ucast n > dst)" by blast
  then show ?thesis
  proof cases
    case 1 then show ?thesis by (simp add: memmove_def)
  next
    case 2
    have lt: "unat src < unat dst" using 2 by (simp add: word_less_nat_alt)
    have "dst + of_nat j \<noteq> src + of_nat i" if "i < j" "j < unat n" for i j
      by (rule add_of_nat_ne) (use lt s d that in linarith)+
    from copy_down_at [OF this n64] show ?thesis using 2 by (simp add: memmove_def)
  next
    case 3
    have "dst + of_nat i \<noteq> src + of_nat j" if ij: "i < j" "j < unat n" for i j
    proof (cases "src < dst")
      case True
      then have lt: "unat src < unat dst" by (simp add: word_less_nat_alt)
      then have "unat src + unat n < 2 ^ 64" using d by linarith
      moreover have "src + of_nat (unat n) \<le> dst" using 3 True by simp
      ultimately have "unat src + unat n \<le> unat dst"
        using unat_add_lt [of src "unat n"] by (simp only: word_le_nat_alt)
      then show ?thesis by (intro add_of_nat_ne) (use s d ij in linarith)+
    next
      case False
      then have "unat dst \<le> unat src" by (simp add: word_less_nat_alt)
      then show ?thesis by (intro add_of_nat_ne) (use s d ij in linarith)+
    qed
    from copy_up_at [OF this n64] show ?thesis
      using 3 unfolding memmove_def by (auto split: if_splits)
  qed
qed

text \<open>
  C23: \<^verbatim>\<open>memmove\<close> moves a block of bytes as if it read the whole source before it
  wrote the destination, however the two overlap, and leaves every other byte alone, as long
  as neither block runs over the end of the address space.
\<close>

theorem memmove_moves_block:
  assumes "unat src + unat n \<le> 2 ^ 64" "unat dst + unat n \<le> 2 ^ 64"
  shows "(\<forall>i < unat n. memmove dst src n m (dst + of_nat i) = m (src + of_nat i)) \<and>
         (\<forall>a. \<not> (unat dst \<le> unat a \<and> unat a < unat dst + unat n) \<longrightarrow> memmove dst src n m a = m a)"
proof (intro conjI allI impI)
  fix i assume "i < unat n"
  then show "memmove dst src n m (dst + of_nat i) = m (src + of_nat i)"
    using assms u32_lt [of n] by (simp add: memmove_at unat_of_nat take_bit_nat_eq_self del: u32_lt)
next
  fix a :: u64 assume a: "\<not> (unat dst \<le> unat a \<and> unat a < unat dst + unat n)"
  have "\<not> unat (a - dst) < unat n"
  proof
    assume lt: "unat (a - dst) < unat n"
    then have "unat (dst + of_nat (unat (a - dst))) = unat dst + unat (a - dst)"
      using assms(2) by (intro unat_add_lt) linarith
    then show False using a lt by simp
  qed
  then show "memmove dst src n m a = m a" using assms by (simp add: memmove_at)
qed

theorem memmove_moves_block_witness:
  "unat (0x1000 :: u64) + unat (8 :: u32) \<le> 2 ^ 64 \<and> unat (0x1004 :: u64) + unat (8 :: u32) \<le> 2 ^ 64 \<and>
   memmove 0x1004 0x1000 8 (\<lambda>a. ucast a) 0x1005 = 1"
proof -
  have h: "unat (0x1000 :: u64) + unat (8 :: u32) \<le> 2 ^ 64" "unat (0x1004 :: u64) + unat (8 :: u32) \<le> 2 ^ 64"
    by simp_all
  have "(1 :: nat) < unat (8 :: u32)" by simp
  with memmove_moves_block [OF h, of "\<lambda>a. ucast a"]
  have "memmove 0x1004 0x1000 8 (\<lambda>a. ucast a) (0x1004 + of_nat 1) = ucast (0x1000 + of_nat 1 :: u64)"
    by blast
  then show ?thesis using h by simp
qed

subsection \<open>Strings\<close>

fun cstr :: "memory \<Rightarrow> u64 \<Rightarrow> u8 list \<Rightarrow> bool" where
  "cstr m a [] \<longleftrightarrow> m a = 0"
| "cstr m a (x # xs) \<longleftrightarrow> m a = x \<and> x \<noteq> 0 \<and> cstr m (a + 1) xs"

lemma cstr_nonzero: "cstr m a xs \<Longrightarrow> x \<in> set xs \<Longrightarrow> x \<noteq> 0"
  by (induction xs arbitrary: a) auto

lemma cstr_unique: "cstr m a xs \<Longrightarrow> cstr m a ys \<Longrightarrow> xs = ys"
proof (induction xs arbitrary: a ys)
  case Nil then show ?case by (cases ys) auto
next
  case (Cons x xs) then show ?case by (cases ys) auto
qed

lemma cstr_frame:
  "cstr m a xs \<Longrightarrow> (\<And>j. j \<le> length xs \<Longrightarrow> m' (a + of_nat j) = m (a + of_nat j)) \<Longrightarrow> cstr m' a xs"
proof (induction xs arbitrary: a)
  case Nil
  then show ?case using Nil.prems(2) [of 0] by simp
next
  case (Cons x xs)
  have "cstr m' (a + 1) xs"
  proof (rule Cons.IH)
    fix j assume "j \<le> length xs"
    then show "m' (a + 1 + of_nat j) = m (a + 1 + of_nat j)"
      using Cons.prems(2) [of "Suc j"] by (simp add: add.assoc)
  qed (use Cons.prems in simp)
  then show ?case using Cons.prems Cons.prems(2) [of 0] by simp
qed

lemma strlen_loop_cstr: "cstr m (s + of_nat n) xs \<Longrightarrow> strlen_loop n s m = Some (n + length xs)"
proof (induction xs arbitrary: n)
  case Nil
  then show ?case by (subst strlen_loop.simps) simp
next
  case (Cons x xs)
  then have "strlen_loop (Suc n) s m = Some (Suc n + length xs)"
    by (intro Cons.IH) (simp add: ac_simps)
  then show ?case using Cons.prems by (subst strlen_loop.simps) simp
qed

lemma strlen_cstr: "cstr m s xs \<Longrightarrow> strlen s m = Some (length xs)"
  using strlen_loop_cstr [of m s 0 xs] by (simp add: strlen_def)

text \<open>The value of a comparison: the difference of the first bytes that differ.\<close>

fun byte_cmp :: "u8 list \<Rightarrow> u8 list \<Rightarrow> int" where
  "byte_cmp [] [] = 0"
| "byte_cmp (x # xs) [] = uint x"
| "byte_cmp [] (y # ys) = - uint y"
| "byte_cmp (x # xs) (y # ys) = (if x = y then byte_cmp xs ys else uint x - uint y)"

lemma strcmp_cstr: "cstr m p xs \<Longrightarrow> cstr m q ys \<Longrightarrow> strcmp p q m = Some (byte_cmp xs ys)"
proof (induction xs ys arbitrary: p q rule: byte_cmp.induct)
  case (4 x xs y ys)
  then show ?case by (subst strcmp.simps) (auto simp: word_uint_eq_iff)
qed (subst strcmp.simps; auto)+

lemma byte_cmp_eq_0: "0 \<notin> set xs \<Longrightarrow> 0 \<notin> set ys \<Longrightarrow> byte_cmp xs ys = 0 \<longleftrightarrow> xs = ys"
  by (induction xs ys rule: byte_cmp.induct) (auto simp: word_uint_eq_iff)

lemma strcmp_eq:
  assumes "cstr m p xs" "cstr m q ys"
  shows "strcmp p q m = Some 0 \<longleftrightarrow> xs = ys"
proof -
  have "0 \<notin> set xs" "0 \<notin> set ys" using assms cstr_nonzero by blast+
  then show ?thesis using assms by (simp add: strcmp_cstr byte_cmp_eq_0)
qed

lemma strncmp_loop_cstr:
  "cstr m p xs \<Longrightarrow> cstr m q ys \<Longrightarrow> strncmp_loop n p q m = byte_cmp (take n xs) (take n ys)"
proof (induction n arbitrary: p q xs ys)
  case (Suc n)
  then show ?case by (cases xs; cases ys) (auto simp: word_uint_eq_iff)
qed simp

lemma strncmp_eq:
  assumes "cstr m p xs" "cstr m q ys"
  shows "strncmp p q n m = 0 \<longleftrightarrow> take (unat n) xs = take (unat n) ys"
proof -
  have "0 \<notin> set xs" "0 \<notin> set ys" using assms cstr_nonzero by blast+
  then have "0 \<notin> set (take (unat n) xs)" "0 \<notin> set (take (unat n) ys)"
    by (meson in_set_takeD)+
  then show ?thesis using assms by (simp add: strncmp_def strncmp_loop_cstr byte_cmp_eq_0)
qed

text \<open>
  \<^verbatim>\<open>substr_cmp(shorts, longs)\<close> returns on every pair of strings, and returns 0
  exactly when \<open>shorts\<close> is a prefix of \<open>longs\<close>; its comment says substring.
\<close>

lemma substr_cmp_prefix:
  assumes "cstr m p xs" "cstr m q ys"
  shows "substr_cmp p q m = Some (if prefix xs ys then 0 else - 1)"
  using assms
proof (induction xs arbitrary: p q ys)
  case Nil
  then show ?case by (subst substr_cmp.simps) simp
next
  case (Cons x xs)
  then show ?case by (cases ys) (subst substr_cmp.simps; auto)+
qed

text \<open>The \<open>n\<close> bytes from \<open>d\<close> on do not include \<open>a\<close>.\<close>

definition outside :: "u64 \<Rightarrow> u64 \<Rightarrow> nat \<Rightarrow> bool" where
  "outside a d n \<longleftrightarrow> \<not> unat (a - d) < n"

lemma outside_0 [simp]: "outside a d 0"
  by (simp add: outside_def)

lemma outside_Suc: "n < 2 ^ 64 \<Longrightarrow> outside a d (Suc n) \<longleftrightarrow> a \<noteq> d \<and> outside a (d + 1) n"
  using unat_sub1 [of n a d] unfolding outside_def by (cases "a = d") auto

lemma outside_before: "n < 2 ^ 64 \<Longrightarrow> outside d (d + 1) n"
proof -
  assume n: "n < 2 ^ 64"
  have "d - (d + 1) = (- 1 :: u64)" by simp
  then have "unat (d - (d + 1)) = 18446744073709551615" by (simp only:) (simp add: unsigned_minus_1_eq_mask mask_eq_exp_minus_1)
  then show ?thesis using n by (simp add: outside_def)
qed

definition sep :: "u64 \<Rightarrow> nat \<Rightarrow> u64 \<Rightarrow> nat \<Rightarrow> bool" where
  "sep s l d n \<longleftrightarrow> n < 2 ^ 64 \<and> (\<forall>j < l. outside (s + of_nat j) d n)"

lemma sep_step:
  assumes "sep s (Suc l) d (Suc n)"
  shows "s \<noteq> d" "sep (s + 1) l (d + 1) n" "\<And>j. j < Suc l \<Longrightarrow> s + of_nat j \<noteq> d"
proof -
  have n: "n < 2 ^ 64" and o: "\<And>j. j < Suc l \<Longrightarrow> outside (s + of_nat j) d (Suc n)"
    using assms by (auto simp: sep_def)
  have o': "s + of_nat j \<noteq> d \<and> outside (s + of_nat j) (d + 1) n" if "j < Suc l" for j
    using o [OF that] outside_Suc [OF n] by blast
  show "\<And>j. j < Suc l \<Longrightarrow> s + of_nat j \<noteq> d" using o' by blast
  show "s \<noteq> d" using o' [of 0] by simp
  have "outside (s + 1 + of_nat j) (d + 1) n" if "j < l" for j
    using o' [of "Suc j"] that by (simp add: add.assoc)
  then show "sep (s + 1) l (d + 1) n" using n by (simp add: sep_def)
qed

lemma cstr_upd:
  assumes "cstr m s xs" "\<And>j. j \<le> length xs \<Longrightarrow> s + of_nat j \<noteq> d"
  shows "cstr (m(d := c)) s xs"
  by (rule cstr_frame [OF assms(1)]) (use assms(2) in simp)

lemma cstr_upd_step:
  assumes "cstr m s (x # xs)" "sep s (Suc (Suc (length xs))) d (Suc n)"
  shows "cstr (m(d := c)) (s + 1) xs"
proof (rule cstr_upd)
  fix j assume "j \<le> length xs"
  then show "s + 1 + of_nat j \<noteq> d" using sep_step(3) [OF assms(2), of "Suc j"] by (simp add: add.assoc)
qed (use assms(1) in simp)

lemma strcpy_cstr:
  assumes "cstr m src xs" "sep src (Suc (length xs)) des (Suc (length xs))"
  shows "\<exists>m'. strcpy des src m = Some m' \<and> cstr m' des xs \<and>
           (\<forall>a. outside a des (Suc (length xs)) \<longrightarrow> m' a = m a)"
  using assms
proof (induction xs arbitrary: des src m)
  case Nil
  then show ?case by (subst strcpy.simps) (auto simp: Let_def outside_def)
next
  case (Cons x xs)
  let ?m = "m(des := x)"
  have len: "Suc (length xs) < 2 ^ 64" using Cons.prems(2) by (simp add: sep_def)
  have "cstr ?m (src + 1) xs" by (rule cstr_upd_step) (use Cons.prems in auto)
  moreover have "sep (src + 1) (Suc (length xs)) (des + 1) (Suc (length xs))"
    by (rule sep_step(2)) (use Cons.prems(2) in simp)
  ultimately obtain m' where m': "strcpy (des + 1) (src + 1) ?m = Some m'" "cstr m' (des + 1) xs"
      "\<And>a. outside a (des + 1) (Suc (length xs)) \<Longrightarrow> m' a = ?m a"
    using Cons.IH [of ?m "src + 1" "des + 1"] by blast
  have "m' des = x" using m'(3) [OF outside_before [OF len]] by simp
  moreover have "m' a = m a" if "outside a des (Suc (Suc (length xs)))" for a
    using that m'(3) [of a] outside_Suc [OF len] by simp
  ultimately show ?case
    using m' Cons.prems(1) by (subst strcpy.simps) (auto simp: Let_def)
qed

lemma strcat_loop_strcpy: "sep src (Suc (length xs)) p (Suc (length xs)) \<Longrightarrow> cstr m src xs \<Longrightarrow>
   strcat_loop p src m = strcpy p src m"
proof (induction xs arbitrary: p src m)
  case Nil
  then show ?case by (subst strcat_loop.simps, subst strcpy.simps) (simp add: Let_def)
next
  case (Cons x xs)
  have "cstr (m(p := x)) (src + 1) xs" by (rule cstr_upd_step) (use Cons.prems in auto)
  moreover have "sep (src + 1) (Suc (length xs)) (p + 1) (Suc (length xs))"
    by (rule sep_step(2)) (use Cons.prems(1) in simp)
  ultimately have "strcat_loop (p + 1) (src + 1) (m(p := x)) = strcpy (p + 1) (src + 1) (m(p := x))"
    by (intro Cons.IH)
  then show ?case
    using Cons.prems(2) by (subst strcat_loop.simps, subst strcpy.simps) (simp add: Let_def)
qed

lemma find_nul_cstr: "cstr m a xs \<Longrightarrow> find_nul a m = Some (a + of_nat (length xs))"
proof (induction xs arbitrary: a)
  case (Cons x xs)
  then show ?case by (subst find_nul.simps) (simp add: add.assoc)
qed (subst find_nul.simps; simp)

lemma cstr_append:
  "cstr m a xs \<Longrightarrow> cstr m' (a + of_nat (length xs)) ys \<Longrightarrow>
   (\<And>j. j < length xs \<Longrightarrow> m' (a + of_nat j) = m (a + of_nat j)) \<Longrightarrow> cstr m' a (xs @ ys)"
proof (induction xs arbitrary: a)
  case (Cons x xs)
  have "cstr m' (a + 1) (xs @ ys)"
  proof (rule Cons.IH)
    fix j assume "j < length xs"
    then show "m' (a + 1 + of_nat j) = m (a + 1 + of_nat j)"
      using Cons.prems(3) [of "Suc j"] by (simp add: add.assoc)
  qed (use Cons.prems in \<open>auto simp: add.assoc\<close>)
  then show ?case using Cons.prems Cons.prems(3) [of 0] by simp
qed simp

text \<open>
  C24: \<^verbatim>\<open>strcat\<close> of two strings returns, leaves their concatenation at the destination
  and changes no byte outside the space it needs there, provided the source does not lie in
  that space and the space does not wrap around.
\<close>

theorem strcat_appends:
  assumes d: "cstr m dest xs" and s: "cstr m src ys"
    and sep: "sep src (Suc (length ys)) (dest + of_nat (length xs)) (Suc (length ys))"
    and room: "length xs + length ys < 2 ^ 64 - 1"
  shows "\<exists>m'. strcat dest src m = Some m' \<and> cstr m' dest (xs @ ys) \<and>
           (\<forall>a. outside a (dest + of_nat (length xs)) (Suc (length ys)) \<longrightarrow> m' a = m a)"
proof -
  let ?p = "dest + of_nat (length xs)"
  obtain m' where m': "strcpy ?p src m = Some m'" "cstr m' ?p ys"
      "\<And>a. outside a ?p (Suc (length ys)) \<Longrightarrow> m' a = m a"
    using strcpy_cstr [OF s sep] by blast
  have "outside (dest + of_nat j) ?p (Suc (length ys))" if j: "j < length xs" for j
  proof -
    let ?k = "length xs - j"
    have "dest + of_nat j - ?p = - (of_nat ?k :: u64)" using j by (simp add: of_nat_diff)
    moreover have "- (of_nat ?k :: u64) = of_nat (2 ^ 64 - ?k)"
      using room by (subst of_nat_diff) simp_all
    moreover have "unat (of_nat (2 ^ 64 - ?k) :: u64) = 2 ^ 64 - ?k"
      using j room by (subst unat_of_nat) (simp add: take_bit_nat_eq_self)
    ultimately show ?thesis using room by (simp add: outside_def)
  qed
  then have "cstr m' dest (xs @ ys)" by (intro cstr_append [OF d m'(2)] m'(3))
  then show ?thesis
    using m' by (simp add: strcat_def find_nul_cstr [OF d] strcat_loop_strcpy [OF sep s])
qed

theorem strcat_appends_witness:
  "\<exists>m'. strcat 0x10 0x40 ((\<lambda>_. 0)(0x10 := 97, 0x40 := 98)) = Some m' \<and> cstr m' 0x10 [97, 98]"
proof -
  let ?m = "(\<lambda>_. 0)(0x10 := 97, 0x40 := 98) :: memory"
  have s: "sep 0x40 (Suc (length [98 :: u8])) (0x10 + of_nat (length [97 :: u8])) (Suc (length [98 :: u8]))"
    by (simp add: sep_def outside_def less_Suc_eq)
  have "cstr ?m 0x10 [97]" "cstr ?m 0x40 [98]" by simp_all
  from strcat_appends [OF this s] show ?thesis by auto
qed

lemma safestrcpy_loop_cstr:
  assumes "cstr m t xs" "sep t (Suc (length xs)) s (Suc n)"
  shows "cstr (safestrcpy_loop n s t m) s (take n xs) \<and>
         (\<forall>a. outside a s (Suc n) \<longrightarrow> safestrcpy_loop n s t m a = m a)"
  using assms
proof (induction n arbitrary: s t m xs)
  case 0
  then show ?case by (simp add: outside_def)
next
  case (Suc n)
  have n: "Suc n < 2 ^ 64" "n < 2 ^ 64" using Suc.prems(2) by (simp_all add: sep_def)
  show ?case
  proof (cases xs)
    case Nil
    then have "m t = 0" using Suc.prems(1) by simp
    then show ?thesis
      using n Nil outside_before [of 1 s] by (auto simp: Let_def outside_Suc)
  next
    case (Cons x ys)
    let ?m = "m(s := x)"
    have "cstr ?m (t + 1) ys" by (rule cstr_upd_step) (use Suc.prems Cons in auto)
    moreover have "sep (t + 1) (Suc (length ys)) (s + 1) (Suc n)"
      by (rule sep_step(2)) (use Suc.prems(2) Cons in simp)
    ultimately have IH: "cstr (safestrcpy_loop n (s + 1) (t + 1) ?m) (s + 1) (take n ys)"
      "\<And>a. outside a (s + 1) (Suc n) \<Longrightarrow> safestrcpy_loop n (s + 1) (t + 1) ?m a = ?m a"
      using Suc.IH [of ?m "t + 1" ys "s + 1"] by blast+
    have "safestrcpy_loop n (s + 1) (t + 1) ?m s = x"
      using IH(2) [OF outside_before [OF n(1)]] by simp
    then show ?thesis
      using IH Suc.prems(1) Cons outside_Suc [OF n(1)] by (auto simp: Let_def)
  qed
qed

text \<open>
  C25: \<^verbatim>\<open>safestrcpy(s, t, n)\<close> leaves at \<open>s\<close> the first \<open>n - 1\<close> bytes of the
  string \<open>t\<close>, always NUL-terminated, and writes only to the \<open>n\<close> bytes of \<open>s\<close>.
\<close>

theorem safestrcpy_truncates:
  assumes "cstr m t xs" "0 < n" "sep t (Suc (length xs)) s (nat n)"
  shows "cstr (safestrcpy s t n m) s (take (nat n - 1) xs) \<and>
         (\<forall>a. outside a s (nat n) \<longrightarrow> safestrcpy s t n m a = m a)"
proof -
  have "nat n = Suc (nat n - 1)" using assms(2) by simp
  then show ?thesis
    using safestrcpy_loop_cstr [OF assms(1), of s "nat n - 1"] assms(2,3) by (simp add: safestrcpy_def)
qed

theorem safestrcpy_truncates_witness:
  "cstr (safestrcpy 0x10 0x40 3 ((\<lambda>_. 7)(0x40 := 97, 0x41 := 98, 0x42 := 99, 0x43 := 0))) 0x10 [97, 98]"
proof -
  let ?m = "(\<lambda>_. 7)(0x40 := 97, 0x41 := 98, 0x42 := 99, 0x43 := 0) :: memory"
  have "cstr ?m 0x40 [97, 98, 99]" by simp
  moreover have "sep 0x40 (Suc (length [97, 98, 99 :: u8])) 0x10 (nat 3)"
    by (simp add: sep_def outside_def less_Suc_eq)
  ultimately show ?thesis using safestrcpy_truncates [of ?m "0x40" "[97, 98, 99]" 3 "0x10"] by simp
qed

end
