(* ===== verification/XV_Kalloc.thy ===== *)
theory XV_Kalloc
  imports XV_Spinlock XV_String
begin

section \<open>The physical page allocator\<close>

text \<open>
  \<^verbatim>\<open>kernel/mm/kalloc.c\<close> (the RISC-V build) and the counters of \<^verbatim>\<open>include/atomic.h\<close>.
  The free list is threaded through the free pages themselves: the first eight bytes of a free
  page hold the address of the next one.  The first address after the kernel image, the linker
  symbol \<^verbatim>\<open>end\<close>, is the parameter \<open>kend\<close>.  A panic is the value \<open>None\<close>.
\<close>

subsection \<open>Atomic counters\<close>

text \<open>The routines return the old value; the new one is the second component.\<close>

definition atomic_inc_return :: "u32 \<Rightarrow> u32 \<times> u32" where
  "atomic_inc_return v = (v, v + 1)"

definition atomic_dec_return :: "u32 \<Rightarrow> u32 \<times> u32" where
  "atomic_dec_return v = (v, v - 1)"

definition atomic_add_return :: "u32 \<Rightarrow> u32 \<Rightarrow> u32 \<times> u32" where
  "atomic_add_return v i = (v, v + i)"

definition atomic_sub_return :: "u32 \<Rightarrow> u32 \<Rightarrow> u32 \<times> u32" where
  "atomic_sub_return v i = (v, v - i)"

definition atomic_read :: "u32 \<Rightarrow> int" where
  "atomic_read v = sint v"

subsection \<open>Pages\<close>

definition PGSIZE :: u64 where
  "PGSIZE = 4096"

definition KERNBASE :: u64 where
  "KERNBASE = 0x80200000"

definition PHYSTOP :: u64 where
  "PHYSTOP = KERNBASE + 512 * 1024 * 1024"

definition PGROUNDUP :: "u64 \<Rightarrow> u64" where
  "PGROUNDUP sz = (sz + PGSIZE - 1) AND NOT (PGSIZE - 1)"

definition PGROUNDDOWN :: "u64 \<Rightarrow> u64" where
  "PGROUNDDOWN a = a AND NOT (PGSIZE - 1)"

record kmst = lockst +
  mem :: memory
  freelist :: u64
  g_freecnt :: u32

definition inc_freecnt :: "'z kmst_scheme \<Rightarrow> 'z kmst_scheme" where
  "inc_freecnt s = s\<lparr>g_freecnt := snd (atomic_inc_return (g_freecnt s))\<rparr>"

definition kfree :: "u64 \<Rightarrow> u64 \<Rightarrow> 'z kmst_scheme \<Rightarrow> 'z kmst_scheme option" where
  "kfree kend pa s = do {
     ensure (\<not> (pa mod PGSIZE \<noteq> 0 \<or> pa < kend \<or> PHYSTOP \<le> pa));
     let s = s\<lparr>mem := memset pa 1 (ucast PGSIZE) (mem s)\<rparr>;
     s \<leftarrow> acquire L_kmem s;
     let s = s\<lparr>mem := store64 pa (freelist s) (mem s)\<rparr>;
     let s = s\<lparr>freelist := pa\<rparr>;
     s \<leftarrow> release L_kmem s;
     Some (inc_freecnt s)
   }"

definition kalloc :: "'z kmst_scheme \<Rightarrow> (u64 \<times> 'z kmst_scheme) option" where
  "kalloc s = do {
     s \<leftarrow> acquire L_kmem s;
     let r = freelist s;
     let s = (if r \<noteq> 0 then s\<lparr>freelist := load64 (mem s) r\<rparr> else s);
     s \<leftarrow> release L_kmem s;
     let s = (if r \<noteq> 0 then s\<lparr>mem := memset r 0 (ucast PGSIZE) (mem s)\<rparr> else s);
     Some (r, inc_freecnt s)
   }"

definition kzalloc :: "'z kmst_scheme \<Rightarrow> (u64 \<times> 'z kmst_scheme) option" where
  "kzalloc s = do {
     s \<leftarrow> acquire L_kmem s;
     let r = freelist s;
     let s = (if r \<noteq> 0 then s\<lparr>freelist := load64 (mem s) r\<rparr> else s);
     s \<leftarrow> release L_kmem s;
     let s = (if r \<noteq> 0 then s\<lparr>mem := memset r 0 (ucast PGSIZE) (mem s)\<rparr> else s);
     Some (r, inc_freecnt s)
   }"

definition kmalloc :: "u32 \<Rightarrow> 'z kmst_scheme \<Rightarrow> (u64 \<times> 'z kmst_scheme) option" where
  "kmalloc sz s = (if sz > ucast PGSIZE then Some (0, s) else kalloc s)"

definition kcalloc :: "u32 \<Rightarrow> u32 \<Rightarrow> 'z kmst_scheme \<Rightarrow> (u64 \<times> 'z kmst_scheme) option" where
  "kcalloc n sz s = (if n * sz > ucast PGSIZE then Some (0, s) else kalloc s)"

partial_function (option) freerange_loop ::
  "u64 \<Rightarrow> u64 \<Rightarrow> u64 \<Rightarrow> 'z kmst_scheme \<Rightarrow> 'z kmst_scheme option" where
  "freerange_loop kend p pa_end s =
     (if p + PGSIZE \<le> pa_end
      then kfree kend p s \<bind> (\<lambda>s. freerange_loop kend (p + PGSIZE) pa_end s)
      else Some s)"

definition freerange :: "u64 \<Rightarrow> u64 \<Rightarrow> u64 \<Rightarrow> 'z kmst_scheme \<Rightarrow> 'z kmst_scheme option" where
  "freerange kend pa_start pa_end s = freerange_loop kend (PGROUNDUP pa_start) pa_end s"

definition kinit :: "u64 \<Rightarrow> 'z kmst_scheme \<Rightarrow> 'z kmst_scheme option" where
  "kinit kend s = freerange kend kend PHYSTOP s"

definition freemem_pages :: "'z kmst_scheme \<Rightarrow> u64" where
  "freemem_pages s = word_of_int (atomic_read (g_freecnt s))"

definition freemem_bytes :: "'z kmst_scheme \<Rightarrow> u64" where
  "freemem_bytes s = word_of_int (atomic_read (g_freecnt s) * 4096)"

definition totalram_bytes :: "u64 \<Rightarrow> u64" where
  "totalram_bytes kend = PHYSTOP - kend"

subsection \<open>The free list\<close>

definition page :: "u64 \<Rightarrow> u64 \<Rightarrow> bool" where
  "page kend p \<longleftrightarrow> aligned 12 p \<and> p \<noteq> 0 \<and> kend \<le> p \<and> p < PHYSTOP"

fun free_chain :: "memory \<Rightarrow> u64 \<Rightarrow> u64 list \<Rightarrow> bool" where
  "free_chain m p [] \<longleftrightarrow> p = 0"
| "free_chain m p (x # xs) \<longleftrightarrow> p = x \<and> x \<noteq> 0 \<and> free_chain m (load64 m x) xs"

definition kmem_inv :: "u64 \<Rightarrow> 'z kmst_scheme \<Rightarrow> u64 list \<Rightarrow> bool" where
  "kmem_inv kend s xs \<longleftrightarrow>
     free_chain (mem s) (freelist s) xs \<and> distinct xs \<and> (\<forall>x \<in> set xs. page kend x)"

definition in_page :: "u64 \<Rightarrow> u64 \<Rightarrow> bool" where
  "in_page p a \<longleftrightarrow> unat (a - p) < 4096"

lemma aligned_mono: "aligned 12 p \<Longrightarrow> aligned 3 p"
proof -
  assume "aligned 12 p"
  then obtain q where "unat p = 2 ^ 12 * q" by (metis aligned_unat dvd_def mod_0_imp_dvd)
  then have "unat p mod 2 ^ 3 = 0" by simp
  then show ?thesis by (simp add: aligned_unat)
qed

lemma aligned12_mod: "aligned 12 p \<longleftrightarrow> p mod PGSIZE = 0"
  by (simp add: aligned_def take_bit_eq_mod PGSIZE_def)

lemma in_page_disjoint:
  assumes "aligned 12 p" "aligned 12 q" "p \<noteq> q" "in_page p a"
  shows "\<not> in_page q a"
proof
  assume q: "in_page q a"
  have "p + of_nat (unat (a - p)) = q + of_nat (unat (a - q))" by simp
  with aligned_block [of 12 p q "unat (a - p)" "unat (a - q)"] assms q show False
    by (simp add: in_page_def)
qed

lemma in_page_offset: "aligned 12 p \<Longrightarrow> i < 4096 \<Longrightarrow> in_page p (p + of_nat i)"
  by (simp add: in_page_def unat_of_nat)

lemma memset_page:
  "memset p c (ucast PGSIZE) m = (\<lambda>a. if in_page p a then ucast c else m a)"
  by (simp add: fun_eq_iff memset_at in_page_def PGSIZE_def)

lemma store64_page: "aligned 12 p \<Longrightarrow> \<not> in_page p a \<Longrightarrow> store64 p v m a = m a"
  by (simp add: store64_def in_page_def)

lemma load64_page:
  assumes "aligned 12 p" "\<And>a. in_page p a \<Longrightarrow> m' a = m a"
  shows "load64 m' p = load64 m p"
  by (rule load64_cong) (use assms in \<open>simp add: in_page_offset\<close>)

lemma free_chain_frame:
  assumes "free_chain m p xs" "\<And>x a. x \<in> set xs \<Longrightarrow> in_page x a \<Longrightarrow> m' a = m a"
    "\<And>x. x \<in> set xs \<Longrightarrow> aligned 12 x"
  shows "free_chain m' p xs"
  using assms
proof (induction xs arbitrary: p)
  case (Cons x xs)
  have "load64 m' x = load64 m x" by (rule load64_page) (use Cons.prems in auto)
  then show ?case using Cons by auto
qed simp

lemma held_inc [simp]: "held (inc_freecnt s) = held s"
  by (simp add: inc_freecnt_def)

lemma inc_freecnt_sel [simp]:
  "mem (inc_freecnt s) = mem s" "freelist (inc_freecnt s) = freelist s"
  "kmst.more (inc_freecnt s) = kmst.more s"
  by (simp_all add: inc_freecnt_def)

lemma kalloc_eq:
  "L_kmem \<notin> set (held s) \<Longrightarrow> kalloc s =
     Some (freelist s, inc_freecnt (if freelist s = 0 then s else
       s\<lparr>freelist := load64 (mem s) (freelist s),
         mem := memset (freelist s) 0 (ucast PGSIZE) (mem s)\<rparr>))"
  by (simp add: kalloc_def Let_def)

lemma kfree_eq:
  "L_kmem \<notin> set (held s) \<Longrightarrow> page kend p \<Longrightarrow> kfree kend p s =
     Some (inc_freecnt (s\<lparr>mem := store64 p (freelist s) (memset p 1 (ucast PGSIZE) (mem s)),
                          freelist := p\<rparr>))"
  by (simp add: kfree_def Let_def page_def aligned12_mod not_less not_le)

lemma kzalloc_kalloc: "kzalloc s = kalloc s"
  by (simp add: kzalloc_def kalloc_def)

text \<open>
  The effect of the two routines, as seen by a caller: only the free list, the counter and the
  bytes of the page change.
\<close>

definition km_frame :: "u64 \<Rightarrow> 'z kmst_scheme \<Rightarrow> 'z kmst_scheme \<Rightarrow> bool" where
  "km_frame p s s' \<longleftrightarrow> held s' = held s \<and> kmst.more s' = kmst.more s \<and>
     (\<forall>a. \<not> in_page p a \<longrightarrow> mem s' a = mem s a)"

lemma kalloc_empty:
  assumes "kmem_inv kend s []" "L_kmem \<notin> set (held s)"
  shows "kalloc s = Some (0, inc_freecnt s)"
  using assms by (simp add: kalloc_eq kmem_inv_def)

lemma kalloc_cons:
  assumes inv: "kmem_inv kend s (x # xs)" and h: "L_kmem \<notin> set (held s)"
  shows "\<exists>s'. kalloc s = Some (x, s') \<and> kmem_inv kend s' xs \<and> km_frame x s s' \<and>
           (\<forall>a. in_page x a \<longrightarrow> mem s' a = 0)"
proof -
  let ?m = "memset x 0 (ucast PGSIZE) (mem s)"
  let ?s = "inc_freecnt (s\<lparr>freelist := load64 (mem s) x, mem := ?m\<rparr>)"
  have c: "free_chain (mem s) (load64 (mem s) x) xs" "freelist s = x" "x \<noteq> 0"
    and d: "distinct (x # xs)" and pg: "\<And>y. y \<in> set (x # xs) \<Longrightarrow> page kend y"
    using inv by (auto simp: kmem_inv_def)
  have al: "y \<in> set (x # xs) \<Longrightarrow> aligned 12 y" for y using pg by (auto simp: page_def)
  have "free_chain ?m (load64 (mem s) x) xs"
  proof (rule free_chain_frame [OF c(1)])
    fix y a assume y: "y \<in> set xs" "in_page y a"
    then have "\<not> in_page x a" using d al by (intro in_page_disjoint [of y]) auto
    then show "?m a = mem s a" by (simp add: memset_page)
  qed (use al in auto)
  then have "kmem_inv kend ?s xs" using d pg by (auto simp: kmem_inv_def)
  moreover have "km_frame x s ?s" by (simp add: km_frame_def memset_page)
  moreover have "\<forall>a. in_page x a \<longrightarrow> mem ?s a = 0" by (simp add: memset_page)
  moreover have "kalloc s = Some (x, ?s)" using h c by (simp add: kalloc_eq)
  ultimately show ?thesis by blast
qed

lemma kfree_inv:
  assumes inv: "kmem_inv kend s xs" and h: "L_kmem \<notin> set (held s)"
    and p: "page kend p" "p \<notin> set xs"
  shows "\<exists>s'. kfree kend p s = Some s' \<and> kmem_inv kend s' (p # xs) \<and> km_frame p s s'"
proof -
  let ?m = "store64 p (freelist s) (memset p 1 (ucast PGSIZE) (mem s))"
  let ?s = "inc_freecnt (s\<lparr>mem := ?m, freelist := p\<rparr>)"
  have al: "y \<in> set (p # xs) \<Longrightarrow> aligned 12 y" for y
    using inv p by (auto simp: kmem_inv_def page_def)
  have out: "?m a = mem s a" if "\<not> in_page p a" for a
    using that al by (simp add: store64_page memset_page)
  have "free_chain ?m (freelist s) xs"
  proof (rule free_chain_frame)
    fix y a assume "y \<in> set xs" "in_page y a"
    then have "\<not> in_page p a" using p al by (intro in_page_disjoint [of y]) auto
    then show "?m a = mem s a" by (rule out)
  qed (use inv al in \<open>auto simp: kmem_inv_def\<close>)
  then have "kmem_inv kend ?s (p # xs)"
    using inv p by (auto simp: kmem_inv_def load64_store64_same page_def)
  moreover have "km_frame p s ?s" using out by (simp add: km_frame_def)
  ultimately show ?thesis using kfree_eq [OF h p(1)] by blast
qed

subsection \<open>Allocators\<close>

text \<open>
  What the users of an allocator of pages rely on: \<open>inv s F\<close> says that the pages of \<open>F\<close> are
  free in \<open>s\<close>; \<open>owned\<close> are the pages that exist.  Inside, for any sequence of calls, no
  page is handed out while it is in use and none is lost.
\<close>

locale page_allocator =
  fixes inv :: "'s \<Rightarrow> 'p set \<Rightarrow> bool"
    and alloc :: "'s \<Rightarrow> ('p option \<times> 's) option"
    and free :: "'p \<Rightarrow> 's \<Rightarrow> 's option"
    and valid :: "'p \<Rightarrow> bool"
  assumes inv_valid: "inv s F \<Longrightarrow> p \<in> F \<Longrightarrow> valid p"
    and inv_finite: "inv s F \<Longrightarrow> finite F"
    and alloc_none: "inv s {} \<Longrightarrow> \<exists>s'. alloc s = Some (None, s') \<and> inv s' {}"
    and alloc_some: "inv s F \<Longrightarrow> F \<noteq> {} \<Longrightarrow>
          \<exists>p s'. alloc s = Some (Some p, s') \<and> p \<in> F \<and> inv s' (F - {p})"
    and free_ok: "inv s F \<Longrightarrow> valid p \<Longrightarrow> p \<notin> F \<Longrightarrow>
          \<exists>s'. free p s = Some s' \<and> inv s' (insert p F)"
begin

fun alloc_many :: "nat \<Rightarrow> 's \<Rightarrow> ('p list \<times> 's) option" where
  "alloc_many 0 s = Some ([], s)"
| "alloc_many (Suc n) s = do {
     (r, s) \<leftarrow> alloc s;
     case r of None \<Rightarrow> Some ([], s)
     | Some p \<Rightarrow> do { (ps, s) \<leftarrow> alloc_many n s; Some (p # ps, s) }
   }"

fun free_many :: "'p list \<Rightarrow> 's \<Rightarrow> 's option" where
  "free_many [] s = Some s"
| "free_many (p # ps) s = do { s \<leftarrow> free p s; free_many ps s }"

lemma alloc_many_distinct:
  "inv s F \<Longrightarrow> \<exists>ps s'. alloc_many n s = Some (ps, s') \<and> distinct ps \<and> set ps \<subseteq> F \<and>
     length ps = min n (card F) \<and> inv s' (F - set ps)"
proof (induction n arbitrary: s F)
  case (Suc n)
  show ?case
  proof (cases "F = {}")
    case True
    then obtain s' where "alloc s = Some (None, s')" "inv s' {}"
      using alloc_none [of s] Suc.prems by blast
    then show ?thesis using True by simp
  next
    case False
    obtain p s1 where 1: "alloc s = Some (Some p, s1)" "p \<in> F" "inv s1 (F - {p})"
      using alloc_some [OF Suc.prems False] by blast
    obtain ps s2 where 2: "alloc_many n s1 = Some (ps, s2)" "distinct ps" "set ps \<subseteq> F - {p}"
        "length ps = min n (card (F - {p}))" "inv s2 (F - {p} - set ps)"
      using Suc.IH [OF 1(3)] by blast
    have "card F = Suc (card (F - {p}))"
      using card_Suc_Diff1 [OF inv_finite [OF Suc.prems] 1(2)] by simp
    then have "length (p # ps) = min (Suc n) (card F)" using 2(4) by simp
    moreover have "F - {p} - set ps = F - set (p # ps)" by auto
    ultimately show ?thesis using 1 2 by (intro exI [of _ "p # ps"] exI [of _ s2]) auto
  qed
qed simp

lemma free_many_ok:
  "inv s F \<Longrightarrow> distinct ps \<Longrightarrow> (\<And>p. p \<in> set ps \<Longrightarrow> valid p \<and> p \<notin> F) \<Longrightarrow>
   \<exists>s'. free_many ps s = Some s' \<and> inv s' (F \<union> set ps)"
proof (induction ps arbitrary: s F)
  case (Cons p ps)
  obtain s1 where 1: "free p s = Some s1" "inv s1 (insert p F)"
    using free_ok [of s F p] Cons.prems by auto
  have "\<exists>s'. free_many ps s1 = Some s' \<and> inv s' (insert p F \<union> set ps)"
    by (rule Cons.IH [OF 1(2)]) (use Cons.prems in auto)
  then show ?case using 1 by auto
qed auto

lemma alloc_free_many:
  assumes "inv s F"
  shows "\<exists>ps s1 s2. alloc_many n s = Some (ps, s1) \<and> free_many ps s1 = Some s2 \<and> inv s2 F"
proof -
  obtain ps s1 where 1: "alloc_many n s = Some (ps, s1)" "distinct ps" "set ps \<subseteq> F"
      "inv s1 (F - set ps)"
    using alloc_many_distinct [OF assms, of n] by blast
  have "\<exists>s2. free_many ps s1 = Some s2 \<and> inv s2 (F - set ps \<union> set ps)"
    by (rule free_many_ok [OF 1(4,2)]) (use 1(3) assms inv_valid in auto)
  moreover have "F - set ps \<union> set ps = F" using 1(3) by auto
  ultimately show ?thesis using 1(1) by auto
qed

end

definition km_free :: "u64 \<Rightarrow> 'z kmst_scheme \<Rightarrow> u64 set \<Rightarrow> bool" where
  "km_free kend s F \<longleftrightarrow> L_kmem \<notin> set (held s) \<and> (\<exists>xs. kmem_inv kend s xs \<and> set xs = F)"

definition kalloc_page :: "'z kmst_scheme \<Rightarrow> (u64 option \<times> 'z kmst_scheme) option" where
  "kalloc_page s = do { (r, s) \<leftarrow> kalloc s; Some (if r = 0 then None else Some r, s) }"

lemma km_free_alloc:
  assumes "km_free kend s F" "F \<noteq> {}"
  shows "\<exists>p s'. kalloc s = Some (p, s') \<and> p \<noteq> 0 \<and> p \<in> F \<and> km_free kend s' (F - {p}) \<and>
           km_frame p s s' \<and> (\<forall>a. in_page p a \<longrightarrow> mem s' a = 0)"
proof -
  obtain x xs where x: "kmem_inv kend s (x # xs)" "set (x # xs) = F" and h: "L_kmem \<notin> set (held s)"
    using assms unfolding km_free_def by (metis list.exhaust set_empty)
  from kalloc_cons [OF x(1) h] obtain s' where s': "kalloc s = Some (x, s')" "kmem_inv kend s' xs"
      "km_frame x s s'" "\<forall>a. in_page x a \<longrightarrow> mem s' a = 0" by blast
  have "x \<noteq> 0" "x \<notin> set xs" using x(1) by (auto simp: kmem_inv_def)
  moreover have "km_free kend s' (F - {x})"
    using s' h x(2) \<open>x \<notin> set xs\<close> by (auto simp: km_free_def km_frame_def intro!: exI [of _ xs])
  ultimately show ?thesis using s' x(2) by auto
qed

lemma km_free_none:
  assumes "km_free kend s {}"
  shows "kalloc s = Some (0, inc_freecnt s) \<and> km_free kend (inc_freecnt s) {}"
  using assms kalloc_empty [of kend s] by (auto simp: km_free_def kmem_inv_def)

lemma km_free_free:
  assumes "km_free kend s F" "page kend p" "p \<notin> F"
  shows "\<exists>s'. kfree kend p s = Some s' \<and> km_free kend s' (insert p F) \<and> km_frame p s s'"
proof -
  obtain xs where "kmem_inv kend s xs" "set xs = F" "L_kmem \<notin> set (held s)"
    using assms(1) by (auto simp: km_free_def)
  with kfree_inv [of kend s xs p] assms(2,3) show ?thesis
    by (force simp: km_free_def km_frame_def)
qed

interpretation kp: page_allocator "km_free kend" kalloc_page "kfree kend" "page kend" for kend
proof unfold_locales
  fix s :: "'a kmst_scheme" and F p
  show "km_free kend s F \<Longrightarrow> p \<in> F \<Longrightarrow> page kend p" by (auto simp: km_free_def kmem_inv_def)
  show "km_free kend s F \<Longrightarrow> finite F" by (auto simp: km_free_def)
  show "km_free kend s {} \<Longrightarrow> \<exists>s'. kalloc_page s = Some (None, s') \<and> km_free kend s' {}"
    using km_free_none [of kend s] by (simp add: kalloc_page_def)
  show "km_free kend s F \<Longrightarrow> F \<noteq> {} \<Longrightarrow>
      \<exists>p s'. kalloc_page s = Some (Some p, s') \<and> p \<in> F \<and> km_free kend s' (F - {p})"
    using km_free_alloc [of kend s F] by (auto simp: kalloc_page_def)
  show "km_free kend s F \<Longrightarrow> page kend p \<Longrightarrow> p \<notin> F \<Longrightarrow>
      \<exists>s'. kfree kend p s = Some s' \<and> km_free kend s' (insert p F)"
    using km_free_free [of kend s F p] by blast
qed

subsection \<open>Every history of calls\<close>

text \<open>
  The pages in use: handed out by \<open>kalloc\<close> and not yet given back.  Between calls the users
  write what they like into the pages they have, and nowhere else.
\<close>

inductive km_run :: "u64 \<Rightarrow> 'z kmst_scheme \<Rightarrow> 'z kmst_scheme \<Rightarrow> u64 set \<Rightarrow> bool"
  for kend :: u64 and s0 :: "'z kmst_scheme" where
  km_start: "km_run kend s0 s0 {}"
| km_alloc: "km_run kend s0 s U \<Longrightarrow> kalloc s = Some (p, s') \<Longrightarrow> p \<noteq> 0 \<Longrightarrow>
    km_run kend s0 s' (insert p U)"
| km_fail: "km_run kend s0 s U \<Longrightarrow> kalloc s = Some (0, s') \<Longrightarrow> km_run kend s0 s' U"
| km_free: "km_run kend s0 s U \<Longrightarrow> p \<in> U \<Longrightarrow> kfree kend p s = Some s' \<Longrightarrow>
    km_run kend s0 s' (U - {p})"
| km_write: "km_run kend s0 s U \<Longrightarrow> (\<forall>a. (\<forall>p \<in> U. \<not> in_page p a) \<longrightarrow> m a = mem s a) \<Longrightarrow>
    km_run kend s0 (s\<lparr>mem := m\<rparr>) U"

lemma km_free_write:
  assumes "km_free kend s F" "\<And>p. p \<in> U \<Longrightarrow> page kend p" "U \<inter> F = {}"
    and "\<forall>a. (\<forall>p \<in> U. \<not> in_page p a) \<longrightarrow> m a = mem s a"
  shows "km_free kend (s\<lparr>mem := m\<rparr>) F"
proof -
  obtain xs where xs: "free_chain (mem s) (freelist s) xs" "distinct xs" "\<forall>x \<in> set xs. page kend x"
      "set xs = F" "L_kmem \<notin> set (held s)"
    using assms(1) by (auto simp: km_free_def kmem_inv_def)
  have "free_chain m (freelist s) xs"
  proof (rule free_chain_frame [OF xs(1)])
    fix x a assume x: "x \<in> set xs" "in_page x a"
    have "\<not> in_page p a" if "p \<in> U" for p
      using that x xs(3,4) assms(2,3) by (intro in_page_disjoint [of x]) (auto simp: page_def)
    then show "m a = mem s a" using assms(4) by blast
  qed (use xs(3) in \<open>auto simp: page_def\<close>)
  then show ?thesis using xs by (auto simp: km_free_def kmem_inv_def)
qed

lemma km_run_inv:
  assumes "km_run kend s0 s U" "km_free kend s0 F"
  shows "U \<subseteq> F \<and> km_free kend s (F - U)"
  using assms
proof (induction rule: km_run.induct)
  case (km_alloc s U p s')
  then have *: "U \<subseteq> F" "km_free kend s (F - U)" by auto
  have "F - U \<noteq> {}" using * km_free_none [of kend s] km_alloc.hyps by auto
  with km_free_alloc [OF *(2)] km_alloc.hyps have "p \<in> F - U" "km_free kend s' (F - U - {p})" by auto
  moreover have "F - U - {p} = F - insert p U" by auto
  ultimately show ?case using * by auto
next
  case (km_fail s U s')
  then have *: "U \<subseteq> F" "km_free kend s (F - U)" by auto
  have "F - U = {}" using * km_free_alloc [of kend s "F - U"] km_fail.hyps by fastforce
  then show ?case using * km_free_none [of kend s] km_fail.hyps by auto
next
  case (km_free s U p s')
  then have *: "U \<subseteq> F" "km_free kend s (F - U)" "p \<in> U" by auto
  then have "page kend p" using kp.inv_valid [OF km_free.prems] by auto
  with km_free_free [OF *(2), of p] * km_free.hyps have "km_free kend s' (insert p (F - U))" by auto
  moreover have "insert p (F - U) = F - (U - {p})" using * by auto
  ultimately show ?case using * by auto
next
  case (km_write s U m)
  then have *: "U \<subseteq> F" "km_free kend s (F - U)" by auto
  have "km_free kend (s\<lparr>mem := m\<rparr>) (F - U)"
    by (rule km_free_write [OF *(2)]) (use * km_write kp.inv_valid [OF km_write.prems] in auto)
  then show ?case using * by auto
qed simp


subsection \<open>Rounding to pages\<close>

lemma PGSIZE_mask: "PGSIZE - 1 = mask 12"
  by (simp add: PGSIZE_def mask_eq_exp_minus_1)

lemma PGROUNDDOWN_push: "PGROUNDDOWN a = push_bit 12 (drop_bit 12 a)"
  unfolding PGROUNDDOWN_def PGSIZE_mask
  by (rule bit_word_eqI)
    (auto simp: bit_and_iff bit_not_iff bit_push_bit_iff bit_drop_bit_eq bit_mask_iff)

lemma unat_PGROUNDDOWN: "unat (PGROUNDDOWN a) = 4096 * (unat a div 4096)"
proof -
  have "4096 * (unat a div 4096) \<le> unat a" by simp
  then have "4096 * (unat a div 4096) < 18446744073709551616"
    using u64_lt [of a] by (rule le_less_trans)
  then show ?thesis
    unfolding PGROUNDDOWN_push
    by (subst unsigned_push_bit_eq, subst unsigned_drop_bit_eq)
      (simp add: push_bit_eq_mult drop_bit_eq_div take_bit_nat_eq_self mult.commute)
qed

lemma aligned_PGROUNDDOWN [simp]: "aligned 12 (PGROUNDDOWN a)"
  by (simp add: aligned_unat unat_PGROUNDDOWN)

lemma PGROUNDUP_down: "PGROUNDUP a = PGROUNDDOWN (a + 4095)"
  by (simp add: PGROUNDUP_def PGROUNDDOWN_def PGSIZE_def add.commute)

lemma aligned_PGROUNDUP [simp]: "aligned 12 (PGROUNDUP a)"
  by (simp add: PGROUNDUP_down)

lemma unat_PGROUNDUP:
  assumes "unat a \<le> 2 ^ 64 - 4096"
  shows "unat (PGROUNDUP a) = 4096 * ((unat a + 4095) div 4096)"
  using assms unat_add_lt [of a 4095] by (simp add: PGROUNDUP_down unat_PGROUNDDOWN)

lemma aligned_dvd: "aligned k a \<longleftrightarrow> 2 ^ k dvd unat a"
  by (simp add: aligned_unat dvd_eq_mod_eq_0)

lemma aligned_add:
  assumes "aligned k p" "aligned k q" "k \<le> 64"
  shows "aligned k (p + q)"
proof -
  have "2 ^ k dvd (2 ^ 64 :: nat)" using assms(3) by (rule le_imp_power_dvd)
  then have "2 ^ k dvd (unat p + unat q) mod 2 ^ 64"
    using assms(1,2) by (intro dvd_mod dvd_add) (simp_all only: aligned_dvd)
  then show ?thesis by (simp add: aligned_dvd unat_word_ariths)
qed

lemma aligned_add_PGSIZE: "aligned 12 p \<Longrightarrow> aligned 12 (p + PGSIZE)"
  by (rule aligned_add) (simp_all add: aligned12_mod)

subsection \<open>Start-up\<close>

definition pages_from :: "u64 \<Rightarrow> nat \<Rightarrow> u64 list" where
  "pages_from p n = map (\<lambda>i. p + of_nat i * PGSIZE) [0..<n]"

lemma pages_from_Suc: "pages_from p (Suc n) = p # pages_from (p + PGSIZE) n"
  by (simp add: pages_from_def upt_conv_Cons map_Suc_upt [symmetric] del: upt_Suc)
    (simp add: algebra_simps)

lemma unat_PHYSTOP: "unat PHYSTOP = 2686451712"
  by (simp add: PHYSTOP_def KERNBASE_def)

lemma freerange_loop_pages:
  assumes "aligned 12 p" "p \<noteq> 0" "kend \<le> p" "unat p + 4096 * n = unat PHYSTOP"
    and "kmem_inv kend s xs" "L_kmem \<notin> set (held s)" "\<And>x. x \<in> set xs \<Longrightarrow> x < p"
  shows "\<exists>s'. freerange_loop kend p PHYSTOP s = Some s' \<and>
           kmem_inv kend s' (rev (pages_from p n) @ xs) \<and> held s' = held s"
  using assms
proof (induction n arbitrary: p s xs)
  case 0
  then have "p = PHYSTOP" by (auto intro: unsigned_word_eqI)
  then have "\<not> p + PGSIZE \<le> PHYSTOP"
    by (simp add: word_le_nat_alt PHYSTOP_def KERNBASE_def PGSIZE_def)
  then show ?case using 0 by (subst freerange_loop.simps) (simp add: pages_from_def)
next
  case (Suc n)
  have u: "unat (p + PGSIZE) = unat p + 4096"
    using Suc.prems(4) unat_add_lt [of p 4096] by (simp add: unat_PHYSTOP PGSIZE_def)
  then have le: "p + PGSIZE \<le> PHYSTOP" using Suc.prems(4) by (simp add: word_le_nat_alt)
  have lt: "p < p + PGSIZE" "p < PHYSTOP"
    using u Suc.prems(4) by (simp_all add: word_less_nat_alt)
  have pg: "page kend p" using Suc.prems lt by (simp add: page_def)
  obtain s1 where 1: "kfree kend p s = Some s1" "kmem_inv kend s1 (p # xs)" "held s1 = held s"
    using kfree_inv [OF Suc.prems(5,6) pg] Suc.prems(7) by (auto simp: km_frame_def)
  have "\<exists>s'. freerange_loop kend (p + PGSIZE) PHYSTOP s1 = Some s' \<and>
      kmem_inv kend s' (rev (pages_from (p + PGSIZE) n) @ p # xs) \<and> held s' = held s1"
  proof (rule Suc.IH)
    show "aligned 12 (p + PGSIZE)" by (rule aligned_add_PGSIZE [OF Suc.prems(1)])
    show "p + PGSIZE \<noteq> 0" using lt by auto
    show "kend \<le> p + PGSIZE" using lt Suc.prems(3) by (meson less_imp_le order_trans)
    show "unat (p + PGSIZE) + 4096 * n = unat PHYSTOP" using u Suc.prems(4) by simp
    show "x < p + PGSIZE" if "x \<in> set (p # xs)" for x
      using that lt Suc.prems(7) by (auto intro: less_trans)
  qed (use 1 Suc.prems in auto)
  then show ?case
    using 1 le by (subst freerange_loop.simps) (auto simp: pages_from_Suc)
qed

text \<open>
  C7: \<^verbatim>\<open>kinit\<close> returns and leaves exactly the whole pages between the end of the
  kernel and the end of RAM on the free list, each of them once.
\<close>

theorem kinit_frees_all:
  assumes "0 < kend" "kend \<le> PHYSTOP" "freelist s = 0" "L_kmem \<notin> set (held s)"
  shows "\<exists>s'. kinit kend s = Some s' \<and>
           kmem_inv kend s' (rev (pages_from (PGROUNDUP kend) (unat (PHYSTOP - PGROUNDUP kend) div 4096)))"
proof -
  let ?p = "PGROUNDUP kend" let ?k = "unat kend"
  have k: "0 < ?k" "?k \<le> 4096 * 655872"
    using assms(1,2) unat_PHYSTOP by (auto simp: word_le_nat_alt word_less_nat_alt)
  have u: "unat ?p = 4096 * ((?k + 4095) div 4096)" using k by (intro unat_PGROUNDUP) simp
  have b: "(?k + 4095) div 4096 \<le> 655872" using k(2) by simp
  have ge: "?k \<le> unat ?p" using u by simp
  have le: "unat ?p \<le> unat PHYSTOP" using u b by (simp add: unat_PHYSTOP)
  have sub: "unat (PHYSTOP - ?p) = unat PHYSTOP - unat ?p"
    using le by (simp add: unat_sub word_le_nat_alt)
  have "unat ?p + 4096 * (unat (PHYSTOP - ?p) div 4096) = unat PHYSTOP"
    unfolding sub using u b by (simp add: unat_PHYSTOP)
  moreover have "?p \<noteq> 0" using ge k(1) by (auto simp: unat_eq_0)
  moreover have "kend \<le> ?p" using ge by (simp add: word_le_nat_alt)
  moreover have "kmem_inv kend s []" using assms(3) by (simp add: kmem_inv_def)
  ultimately have "\<exists>s'. freerange_loop kend ?p PHYSTOP s = Some s' \<and>
      kmem_inv kend s' (rev (pages_from ?p (unat (PHYSTOP - ?p) div 4096)) @ []) \<and> held s' = held s"
    using assms(4) by (intro freerange_loop_pages) simp_all
  then show ?thesis by (auto simp: kinit_def freerange_def)
qed

definition one_page :: kmst where
  "one_page = \<lparr>held = [], mem = (\<lambda>_. 0), freelist = 0x80300000, g_freecnt = 0\<rparr>"

theorem kinit_frees_all_witness:
  "\<exists>s'. kinit 0xA01FE800 (one_page\<lparr>freelist := 0\<rparr>) = Some s' \<and> kmem_inv 0xA01FE800 s' [0xA01FF000]"
  using kinit_frees_all [of "0xA01FE800" "one_page\<lparr>freelist := 0\<rparr>"]
  by (simp add: one_page_def PHYSTOP_def KERNBASE_def PGROUNDUP_def PGSIZE_def pages_from_def)


end
