(* ===== verification/XV_List.thy ===== *)
theory XV_List
  imports XV_Prelude
begin

section \<open>Intrusive circular lists\<close>

text \<open>
  The routines of \<^verbatim>\<open>kernel/include/list.h\<close> on an explicit store of \<^verbatim>\<open>struct list_head\<close>
  cells.  The store maps an address to its cell; a pointer field is an address or NULL
  (\<open>None\<close>), and reading through NULL makes the routine fail (\<open>None\<close>).  The predicate
  \<open>is_list st h xs\<close> says that the cells \<open>xs\<close> hang, in this order, on the head \<open>h\<close>; the
  lemmas give the effect of each routine on such lists and on the lists it does not touch.
\<close>

record 'a list_head =
  lnext :: "'a option"
  lprev :: "'a option"

type_synonym 'a lstore = "'a \<Rightarrow> 'a list_head"

definition set_next :: "'a \<Rightarrow> 'a option \<Rightarrow> 'a lstore \<Rightarrow> 'a lstore" where
  "set_next a v st = st(a := (st a)\<lparr>lnext := v\<rparr>)"

definition set_prev :: "'a \<Rightarrow> 'a option \<Rightarrow> 'a lstore \<Rightarrow> 'a lstore" where
  "set_prev a v st = st(a := (st a)\<lparr>lprev := v\<rparr>)"

definition INIT_LIST_HEAD :: "'a \<Rightarrow> 'a lstore \<Rightarrow> 'a lstore" where
  "INIT_LIST_HEAD l st = (let st = set_next l (Some l) st in set_prev l (Some l) st)"

definition list_add_between ::
  "'a \<Rightarrow> 'a option \<Rightarrow> 'a option \<Rightarrow> 'a lstore \<Rightarrow> 'a lstore option" where
  "list_add_between pnew prev next st = do {
     n \<leftarrow> next;
     let st = set_prev n (Some pnew) st;
     let st = set_next pnew next st;
     let st = set_prev pnew prev st;
     p \<leftarrow> prev;
     Some (set_next p (Some pnew) st)
   }"

definition list_add :: "'a \<Rightarrow> 'a \<Rightarrow> 'a lstore \<Rightarrow> 'a lstore option" where
  "list_add pnew head st = list_add_between pnew (Some head) (lnext (st head)) st"

definition list_del_between :: "'a option \<Rightarrow> 'a option \<Rightarrow> 'a lstore \<Rightarrow> 'a lstore option" where
  "list_del_between prev next st = do {
     n \<leftarrow> next;
     let st = set_prev n prev st;
     p \<leftarrow> prev;
     Some (set_next p next st)
   }"

definition list_del_entry :: "'a \<Rightarrow> 'a lstore \<Rightarrow> 'a lstore option" where
  "list_del_entry entry st = list_del_between (lprev (st entry)) (lnext (st entry)) st"

definition list_del :: "'a \<Rightarrow> 'a lstore \<Rightarrow> 'a lstore option" where
  "list_del entry st = do {
     st \<leftarrow> list_del_entry entry st;
     let st = set_next entry None st;
     Some (set_prev entry None st)
   }"

definition list_del_reinit :: "'a \<Rightarrow> 'a lstore \<Rightarrow> 'a lstore option" where
  "list_del_reinit entry st = do {
     st \<leftarrow> list_del entry st;
     Some (INIT_LIST_HEAD entry st)
   }"

definition list_move :: "'a \<Rightarrow> 'a \<Rightarrow> 'a lstore \<Rightarrow> 'a lstore option" where
  "list_move l head st = do { st \<leftarrow> list_del_entry l st; list_add l head st }"

definition list_add_tail :: "'a \<Rightarrow> 'a \<Rightarrow> 'a lstore \<Rightarrow> 'a lstore option" where
  "list_add_tail pnew head st = list_add_between pnew (lprev (st head)) (Some head) st"

definition list_move_tail :: "'a \<Rightarrow> 'a \<Rightarrow> 'a lstore \<Rightarrow> 'a lstore option" where
  "list_move_tail l head st = do { st \<leftarrow> list_del_entry l st; list_add_tail l head st }"

definition list_empty :: "'a \<Rightarrow> 'a lstore \<Rightarrow> bool" where
  "list_empty head st \<longleftrightarrow> lnext (st head) = Some head"

definition list_splice_at :: "'a \<Rightarrow> 'a \<Rightarrow> 'a lstore \<Rightarrow> 'a lstore option" where
  "list_splice_at l head st = do {
     let first = lnext (st l);
     let last = lprev (st l);
     let at = lnext (st head);
     f \<leftarrow> first;
     let st = set_prev f (Some head) st;
     let st = set_next head first st;
     e \<leftarrow> last;
     let st = set_next e at st;
     a \<leftarrow> at;
     Some (set_prev a last st)
   }"

definition list_splice :: "'a \<Rightarrow> 'a \<Rightarrow> 'a lstore \<Rightarrow> 'a lstore option" where
  "list_splice l head st = (if list_empty l st then Some st else list_splice_at l head st)"

definition list_join_given_first ::
  "'a option \<Rightarrow> 'a option \<Rightarrow> 'a lstore \<Rightarrow> 'a lstore option" where
  "list_join_given_first first_new first_old st =
     (case (first_new, first_old) of
        (Some new, Some old) \<Rightarrow> do {
          let last = lprev (st new);
          p \<leftarrow> lprev (st old);
          let st = set_next p (Some new) st;
          let st = set_prev new (lprev (st old)) st;
          e \<leftarrow> last;
          let st = set_next e (Some old) st;
          Some (set_prev old last st)
        }
      | _ \<Rightarrow> Some st)"

text \<open>
  The loops.  \<open>list_for_each_entry\<close> reads the successor of \<open>pos\<close> after the body,
  \<open>list_for_each_entry_safe\<close> before it; the body returns the new state and whether the loop
  goes on (\<^verbatim>\<open>break\<close>, \<^verbatim>\<open>return\<close> and \<^verbatim>\<open>goto\<close> leave it).  \<open>cells\<close> gives
  the cells of a state.  A loop that never comes back to the head has the value \<open>None\<close>.
\<close>

partial_function (option) list_for_each_from ::
  "('s \<Rightarrow> 'a lstore) \<Rightarrow> 'a \<Rightarrow> ('a \<Rightarrow> 's \<Rightarrow> (bool \<times> 's) option) \<Rightarrow> 'a \<Rightarrow> 's \<Rightarrow> (bool \<times> 's) option"
where
  "list_for_each_from cells head body pos s =
     (if pos = head then Some (True, s)
      else body pos s \<bind> (\<lambda>(go, s).
        if go then lnext (cells s pos) \<bind> (\<lambda>n. list_for_each_from cells head body n s)
        else Some (False, s)))"

definition list_for_each_entry ::
  "('s \<Rightarrow> 'a lstore) \<Rightarrow> 'a \<Rightarrow> ('a \<Rightarrow> 's \<Rightarrow> (bool \<times> 's) option) \<Rightarrow> 's \<Rightarrow> (bool \<times> 's) option"
where
  "list_for_each_entry cells head body s =
     lnext (cells s head) \<bind> (\<lambda>n. list_for_each_from cells head body n s)"

partial_function (option) list_for_each_safe_from ::
  "('s \<Rightarrow> 'a lstore) \<Rightarrow> 'a \<Rightarrow> ('a \<Rightarrow> 's \<Rightarrow> (bool \<times> 's) option) \<Rightarrow> 'a \<Rightarrow> 'a option \<Rightarrow> 's \<Rightarrow>
   (bool \<times> 's) option"
where
  "list_for_each_safe_from cells head body pos n s =
     (if pos = head then Some (True, s)
      else body pos s \<bind> (\<lambda>(go, s).
        if go then n \<bind> (\<lambda>m. list_for_each_safe_from cells head body m (lnext (cells s m)) s)
        else Some (False, s)))"

definition list_for_each_entry_safe ::
  "('s \<Rightarrow> 'a lstore) \<Rightarrow> 'a \<Rightarrow> ('a \<Rightarrow> 's \<Rightarrow> (bool \<times> 's) option) \<Rightarrow> 's \<Rightarrow> (bool \<times> 's) option"
where
  "list_for_each_entry_safe cells head body s =
     lnext (cells s head) \<bind>
       (\<lambda>p. list_for_each_safe_from cells head body p (lnext (cells s p)) s)"

subsection \<open>What a list holds\<close>

definition link :: "'a lstore \<Rightarrow> 'a \<Rightarrow> 'a \<Rightarrow> bool" where
  "link st a b \<longleftrightarrow> lnext (st a) = Some b \<and> lprev (st b) = Some a"

abbreviation chain :: "'a lstore \<Rightarrow> 'a list \<Rightarrow> bool" where
  "chain st \<equiv> successively (link st)"

definition ring :: "'a lstore \<Rightarrow> 'a list \<Rightarrow> bool" where
  "ring st xs \<longleftrightarrow> xs \<noteq> [] \<and> distinct xs \<and> chain st (xs @ [hd xs])"

definition is_list :: "'a lstore \<Rightarrow> 'a \<Rightarrow> 'a list \<Rightarrow> bool" where
  "is_list st h xs \<longleftrightarrow> distinct (h # xs) \<and> chain st (h # xs @ [h])"

lemma is_list_ring: "is_list st h xs = ring st (h # xs)"
  by (simp add: is_list_def ring_def)

lemma set_next_sel [simp]:
  "lnext (set_next a v st b) = (if b = a then v else lnext (st b))"
  "lprev (set_next a v st b) = lprev (st b)"
  by (simp_all add: set_next_def)

lemma set_prev_sel [simp]:
  "lprev (set_prev a v st b) = (if b = a then v else lprev (st b))"
  "lnext (set_prev a v st b) = lnext (st b)"
  by (simp_all add: set_prev_def)

lemma set_other:
  "b \<noteq> a \<Longrightarrow> set_next a v st b = st b"
  "b \<noteq> a \<Longrightarrow> set_prev a v st b = st b"
  by (simp_all add: set_next_def set_prev_def)

lemma set_both_other: "b \<noteq> p \<Longrightarrow> b \<noteq> n \<Longrightarrow> set_next p u (set_prev n v st) b = st b"
  by (simp add: set_other)

lemma set_four_other:
  "b \<noteq> p \<Longrightarrow> b \<noteq> n \<Longrightarrow> b \<noteq> q \<Longrightarrow> b \<noteq> m \<Longrightarrow>
   set_prev p u (set_next n v (set_next q w (set_prev m z st))) b = st b"
  by (simp add: set_other)

lemma chain_mono:
  assumes "chain st zs"
    and "\<And>a. a \<in> set (butlast zs) \<Longrightarrow> lnext (st' a) = lnext (st a)"
    and "\<And>a. a \<in> set (tl zs) \<Longrightarrow> lprev (st' a) = lprev (st a)"
  shows "chain st' zs"
  using assms by (induction zs rule: induct_list012) (auto simp: link_def)

lemma chain_set_next: "chain st zs \<Longrightarrow> p \<notin> set (butlast zs) \<Longrightarrow> chain (set_next p v st) zs"
  by (rule chain_mono [of st]) auto

lemma chain_set_prev: "chain st zs \<Longrightarrow> n \<notin> set (tl zs) \<Longrightarrow> chain (set_prev n v st) zs"
  by (rule chain_mono [of st]) auto

lemma chain_append:
  "chain st (as @ bs) \<longleftrightarrow>
     chain st as \<and> chain st bs \<and> (as \<noteq> [] \<longrightarrow> bs \<noteq> [] \<longrightarrow> link st (last as) (hd bs))"
  by (auto simp: successively_append_iff)

lemma chain_between:
  "as \<noteq> [] \<Longrightarrow> chain st as \<Longrightarrow> chain st bs \<Longrightarrow> link st h (hd as) \<Longrightarrow> link st (last as) (hd bs) \<Longrightarrow>
   chain st (h # as @ bs)"
  by (auto simp: chain_append successively_Cons)

lemma chain_insert:
  "chain st as \<Longrightarrow> chain st bs \<Longrightarrow> link st (last as) x \<Longrightarrow> link st x (hd bs) \<Longrightarrow>
   chain st (as @ x # bs)"
  by (auto simp: chain_append successively_Cons)

lemma is_list_frame:
  assumes "is_list st h xs" "\<And>a. a \<in> insert h (set xs) \<Longrightarrow> st' a = st a"
  shows "is_list st' h xs"
proof -
  have "chain st (h # xs @ [h])" using assms(1) by (simp add: is_list_def)
  then have "chain st' (h # xs @ [h])"
    by (rule chain_mono) (use assms(2) in \<open>auto simp: butlast_append\<close>)
  then show ?thesis using assms(1) by (simp add: is_list_def)
qed

lemma is_list_empty: "is_list st h [] \<longleftrightarrow> lnext (st h) = Some h \<and> lprev (st h) = Some h"
  by (simp add: is_list_def link_def)

lemma is_list_next: "is_list st h xs \<Longrightarrow> lnext (st h) = Some (hd (xs @ [h]))"
  by (cases xs) (auto simp: is_list_def link_def)

lemma is_list_prev: "is_list st h xs \<Longrightarrow> lprev (st h) = Some (last (h # xs))"
  using chain_append [of st "h # xs" "[h]"] by (simp add: is_list_def link_def)

lemma is_list_mid:
  assumes "is_list st h (ys @ x # zs)"
  shows "lprev (st x) = Some (last (h # ys))" "lnext (st x) = Some (hd (zs @ [h]))"
proof -
  have "chain st ((h # ys) @ x # (zs @ [h]))" using assms by (simp add: is_list_def)
  then show "lprev (st x) = Some (last (h # ys))" "lnext (st x) = Some (hd (zs @ [h]))"
    unfolding chain_append by (cases zs; simp add: link_def)+
qed

lemma list_empty_iff: "is_list st h xs \<Longrightarrow> list_empty h st \<longleftrightarrow> xs = []"
  by (cases xs) (auto simp: list_empty_def is_list_def link_def)

lemma chain_unique:
  "chain st (p # xs @ [h]) \<Longrightarrow> chain st (p # ys @ [h]) \<Longrightarrow> h \<notin> set xs \<Longrightarrow> h \<notin> set ys \<Longrightarrow> xs = ys"
proof (induction xs arbitrary: p ys)
  case Nil then show ?case by (cases ys) (auto simp: link_def)
next
  case (Cons x xs)
  then obtain y zs where y: "ys = y # zs" by (cases ys) (auto simp: link_def)
  then have "x = y" using Cons.prems by (auto simp: link_def)
  then show ?case using Cons y by auto
qed

lemma is_list_unique: "is_list st h xs \<Longrightarrow> is_list st h ys \<Longrightarrow> xs = ys"
  by (rule chain_unique [of st h xs h ys]) (simp_all add: is_list_def)

subsection \<open>Effects of the routines\<close>

lemma INIT_LIST_HEAD_list: "is_list (INIT_LIST_HEAD l st) l []"
  by (simp add: is_list_empty INIT_LIST_HEAD_def Let_def)

lemma INIT_LIST_HEAD_other: "a \<noteq> l \<Longrightarrow> INIT_LIST_HEAD l st a = st a"
  by (simp add: INIT_LIST_HEAD_def Let_def set_other)

lemma list_add_between_list:
  assumes l: "is_list st h (xs @ ys)" and x: "x \<notin> set (h # xs @ ys)"
    and p: "p = last (h # xs)" and n: "n = hd (ys @ [h])"
  shows "\<exists>st'. list_add_between x (Some p) (Some n) st = Some st' \<and>
           is_list st' h (xs @ x # ys) \<and> (\<forall>a. a \<notin> {x, p, n} \<longrightarrow> st' a = st a)"
proof -
  let ?st = "set_next p (Some x) (set_prev x (Some p) (set_next x (Some n) (set_prev n (Some x) st)))"
  let ?A = "h # xs" let ?B = "ys @ [h]"
  have d: "distinct (h # xs @ ys)" and "chain st (?A @ ?B)" using l by (auto simp: is_list_def)
  then have c: "chain st ?A" "chain st ?B" unfolding chain_append by simp_all
  have pA: "p \<in> set ?A" "p \<notin> set (butlast ?A)" "p \<notin> set (butlast ?B)"
    using d p by (cases xs rule: rev_cases; auto simp: butlast_append)+
  have nB: "n \<in> set ?B" "n \<notin> set (tl ?B)" "n \<notin> set (tl ?A)"
    using d n by (cases ys; auto)+
  have x': "x \<notin> set (butlast ?A)" "x \<notin> set (butlast ?B)" "x \<notin> set (tl ?A)" "x \<notin> set (tl ?B)"
    using x by (auto simp: butlast_append dest: in_set_butlastD split: if_splits) (cases ys; auto)
  have A: "chain ?st ?A" and B: "chain ?st ?B"
    by (intro chain_set_next chain_set_prev c pA nB x')+
  have lk: "link ?st p x" "link ?st x n"
    using x pA(1) nB(1) by (auto simp: link_def)
  have "chain ?st (?A @ x # ?B)"
    by (rule chain_insert [OF A B]) (use lk in \<open>simp_all only: p n\<close>)
  then have "is_list ?st h (xs @ x # ys)"
    using d x by (auto simp: is_list_def)
  then show ?thesis
    by (auto simp: list_add_between_def Let_def set_other)
qed

lemma list_add_tail_list:
  assumes l: "is_list st h xs" and x: "x \<notin> set (h # xs)"
  shows "\<exists>st'. list_add_tail x h st = Some st' \<and> is_list st' h (xs @ [x]) \<and>
           (\<forall>a. a \<notin> insert x (insert h (set xs)) \<longrightarrow> st' a = st a)"
proof -
  obtain st' where st': "list_add_between x (Some (last (h # xs))) (Some h) st = Some st'"
      "is_list st' h (xs @ [x])" "\<forall>a. a \<notin> {x, last (h # xs), h} \<longrightarrow> st' a = st a"
    using list_add_between_list [of st h xs "[]" x "last (h # xs)" h] l x by auto
  have "last (h # xs) \<in> insert h (set xs)" by (simp add: last_ConsR)
  then have "\<forall>a. a \<notin> insert x (insert h (set xs)) \<longrightarrow> st' a = st a"
    using st'(3) by blast
  then show ?thesis
    using st' by (simp add: list_add_tail_def is_list_prev [OF l])
qed

lemma list_add_list:
  assumes l: "is_list st h xs" and x: "x \<notin> set (h # xs)"
  shows "\<exists>st'. list_add x h st = Some st' \<and> is_list st' h (x # xs) \<and>
           (\<forall>a. a \<notin> insert x (insert h (set xs)) \<longrightarrow> st' a = st a)"
proof -
  obtain st' where st': "list_add_between x (Some h) (Some (hd (xs @ [h]))) st = Some st'"
      "is_list st' h (x # xs)" "\<forall>a. a \<notin> {x, h, hd (xs @ [h])} \<longrightarrow> st' a = st a"
    using list_add_between_list [of st h "[]" xs x h "hd (xs @ [h])"] l x by auto
  have "hd (xs @ [h]) \<in> insert h (set xs)" by (cases xs) auto
  then have "\<forall>a. a \<notin> insert x (insert h (set xs)) \<longrightarrow> st' a = st a"
    using st'(3) by blast
  then show ?thesis
    using st' by (simp add: list_add_def is_list_next [OF l])
qed

lemma list_del_entry_list:
  assumes l: "is_list st h (ys @ x # zs)"
  shows "\<exists>st'. list_del_entry x st = Some st' \<and> is_list st' h (ys @ zs) \<and> st' x = st x \<and>
           (\<forall>a. a \<notin> insert h (set ys \<union> set zs) \<longrightarrow> st' a = st a)"
proof -
  let ?A = "h # ys" let ?B = "zs @ [h]"
  let ?p = "last ?A" let ?n = "hd ?B"
  let ?st = "set_next ?p (Some ?n) (set_prev ?n (Some ?p) st)"
  have d: "distinct (h # ys @ x # zs)" and "chain st (?A @ [x] @ ?B)"
    using l by (auto simp: is_list_def)
  then have c: "chain st ?A" "chain st ?B" unfolding chain_append by simp_all
  have pA: "?p \<in> set ?A" "?p \<notin> set (butlast ?A)" "?p \<notin> set (butlast ?B)"
    using d by (cases ys rule: rev_cases; auto simp: butlast_append)+
  have nB: "?n \<in> set ?B" "?n \<notin> set (tl ?B)" "?n \<notin> set (tl ?A)"
    using d by (cases zs; auto)+
  have A: "chain ?st ?A" and B: "chain ?st ?B"
    by (intro chain_set_next chain_set_prev c pA nB)+
  have "link ?st ?p ?n" by (simp add: link_def)
  then have "chain ?st (?A @ ?B)" using A B unfolding chain_append by blast
  then have "is_list ?st h (ys @ zs)" using d by (auto simp: is_list_def)
  moreover have "list_del_entry x st = Some ?st"
    using is_list_mid [OF l] by (simp add: list_del_entry_def list_del_between_def Let_def)
  moreover have "?st a = st a" if "a \<notin> insert h (set ys \<union> set zs)" for a
  proof -
    have "a \<noteq> ?p" "a \<noteq> ?n" using that pA(1) nB(1) by auto
    then show ?thesis by (rule set_both_other)
  qed
  moreover have "x \<notin> insert h (set ys \<union> set zs)" using d by auto
  ultimately show ?thesis by blast
qed

lemma list_del_list:
  assumes l: "is_list st h (ys @ x # zs)"
  shows "\<exists>st'. list_del x st = Some st' \<and> is_list st' h (ys @ zs) \<and>
           st' x = \<lparr>lnext = None, lprev = None\<rparr> \<and>
           (\<forall>a. a \<notin> insert h (set (ys @ x # zs)) \<longrightarrow> st' a = st a)"
proof -
  obtain st1 where 1: "list_del_entry x st = Some st1" "is_list st1 h (ys @ zs)"
      "\<And>a. a \<notin> insert h (set ys \<union> set zs) \<Longrightarrow> st1 a = st a"
    using list_del_entry_list [OF l] by blast
  let ?st = "set_prev x None (set_next x None st1)"
  have x: "x \<notin> insert h (set (ys @ zs))" using l by (auto simp: is_list_def)
  have "is_list ?st h (ys @ zs)"
    by (rule is_list_frame [OF 1(2)]) (use x in \<open>metis set_append set_other\<close>)
  then show ?thesis
    using 1 by (auto simp: list_del_def set_other set_next_def set_prev_def)
qed

lemma list_del_reinit_list:
  assumes l: "is_list st h (ys @ x # zs)"
  shows "\<exists>st'. list_del_reinit x st = Some st' \<and> is_list st' h (ys @ zs) \<and> is_list st' x [] \<and>
           (\<forall>a. a \<notin> insert h (set (ys @ x # zs)) \<longrightarrow> st' a = st a)"
proof -
  obtain st1 where 1: "list_del x st = Some st1" "is_list st1 h (ys @ zs)"
      "\<And>a. a \<notin> insert h (set (ys @ x # zs)) \<Longrightarrow> st1 a = st a"
    using list_del_list [OF l] by blast
  have x: "x \<notin> insert h (set (ys @ zs))" using l by (auto simp: is_list_def)
  have "is_list (INIT_LIST_HEAD x st1) h (ys @ zs)"
    by (rule is_list_frame [OF 1(2)]) (use x in \<open>metis set_append INIT_LIST_HEAD_other\<close>)
  then show ?thesis
    using 1 INIT_LIST_HEAD_list [of x st1] by (auto simp: list_del_reinit_def INIT_LIST_HEAD_other)
qed

text \<open>On a cell that is a list of its own the routine changes nothing; on one that
  \<open>list_del\<close> has cleared it reads through NULL.\<close>

lemma list_del_reinit_alone:
  assumes "is_list st x []"
  shows "list_del_reinit x st = Some st"
proof -
  have "lnext (st x) = Some x" "lprev (st x) = Some x" using assms by (auto simp: is_list_empty)
  moreover from this have "\<lparr>lnext = Some x, lprev = Some x\<rparr> = st x" by (simp add: list_head.equality)
  ultimately show ?thesis
    by (auto simp: list_del_reinit_def list_del_def list_del_entry_def list_del_between_def
        INIT_LIST_HEAD_def set_next_def set_prev_def Let_def fun_eq_iff)
qed

lemma list_del_reinit_cleared: "lnext (st x) = None \<Longrightarrow> list_del_reinit x st = None"
  by (simp add: list_del_reinit_def list_del_def list_del_entry_def list_del_between_def)

lemma list_move_tail_list:
  assumes l: "is_list st h (ys @ x # zs)" and k: "is_list st k ws"
    and disj: "insert h (set (ys @ x # zs)) \<inter> insert k (set ws) = {}"
  shows "\<exists>st'. list_move_tail x k st = Some st' \<and> is_list st' h (ys @ zs) \<and>
           is_list st' k (ws @ [x]) \<and>
           (\<forall>a. a \<notin> insert h (set (ys @ x # zs)) \<union> insert k (set ws) \<longrightarrow> st' a = st a)"
proof -
  obtain st1 where 1: "list_del_entry x st = Some st1" "is_list st1 h (ys @ zs)"
      "\<And>a. a \<notin> insert h (set ys \<union> set zs) \<Longrightarrow> st1 a = st a"
    using list_del_entry_list [OF l] by blast
  have k1: "is_list st1 k ws"
    by (rule is_list_frame [OF k]) (use disj in \<open>auto intro!: 1(3)\<close>)
  obtain st2 where 2: "list_add_tail x k st1 = Some st2" "is_list st2 k (ws @ [x])"
      "\<And>a. a \<notin> insert x (insert k (set ws)) \<Longrightarrow> st2 a = st1 a"
    using list_add_tail_list [OF k1, of x] disj by auto
  have "x \<notin> insert h (set (ys @ zs))" using l by (auto simp: is_list_def)
  then have "is_list st2 h (ys @ zs)"
    using disj by (intro is_list_frame [OF 1(2)] 2(3)) auto
  then show ?thesis
    using 1 2 by (auto simp: list_move_tail_def)
qed

lemma list_move_list:
  assumes l: "is_list st h (ys @ x # zs)" and k: "is_list st k ws"
    and disj: "insert h (set (ys @ x # zs)) \<inter> insert k (set ws) = {}"
  shows "\<exists>st'. list_move x k st = Some st' \<and> is_list st' h (ys @ zs) \<and>
           is_list st' k (x # ws) \<and>
           (\<forall>a. a \<notin> insert h (set (ys @ x # zs)) \<union> insert k (set ws) \<longrightarrow> st' a = st a)"
proof -
  obtain st1 where 1: "list_del_entry x st = Some st1" "is_list st1 h (ys @ zs)"
      "\<And>a. a \<notin> insert h (set ys \<union> set zs) \<Longrightarrow> st1 a = st a"
    using list_del_entry_list [OF l] by blast
  have k1: "is_list st1 k ws"
    by (rule is_list_frame [OF k]) (use disj in \<open>auto intro!: 1(3)\<close>)
  obtain st2 where 2: "list_add x k st1 = Some st2" "is_list st2 k (x # ws)"
      "\<And>a. a \<notin> insert x (insert k (set ws)) \<Longrightarrow> st2 a = st1 a"
    using list_add_list [OF k1, of x] disj by auto
  have "x \<notin> insert h (set (ys @ zs))" using l by (auto simp: is_list_def)
  then have "is_list st2 h (ys @ zs)"
    using disj by (intro is_list_frame [OF 1(2)] 2(3)) auto
  then show ?thesis
    using 1 2 by (auto simp: list_move_def)
qed

lemma list_splice_list:
  assumes l: "is_list st l xs" and h: "is_list st h ys"
    and disj: "insert l (set xs) \<inter> insert h (set ys) = {}"
  shows "\<exists>st'. list_splice l h st = Some st' \<and> is_list st' h (xs @ ys) \<and>
           (\<forall>a. a \<notin> set xs \<union> insert h (set ys) \<longrightarrow> st' a = st a)"
proof (cases "xs = []")
  case True
  then show ?thesis using l h by (simp add: list_splice_def list_empty_iff)
next
  case False
  let ?f = "hd xs" let ?e = "last xs" let ?B = "ys @ [h]" let ?a = "hd ?B"
  let ?st = "set_prev ?a (Some ?e) (set_next ?e (Some ?a) (set_next h (Some ?f) (set_prev ?f (Some h) st)))"
  have d: "distinct xs" using l by (simp add: is_list_def)
  have f1: "?f \<in> set xs" "?f \<notin> set (tl xs)" using False d by (cases xs; simp)+
  have f2: "?e \<in> set xs" "?e \<notin> set (butlast xs)" using False d by (cases xs rule: rev_cases; simp)+
  note f = f1(1) f2(1) f1(2) f2(2)
  have a: "?a \<in> insert h (set ys)" "?a \<notin> set (tl ?B)"
    using h by (cases ys; auto simp: is_list_def)+
  have "chain st (l # xs @ [l])" "chain st (h # ?B)" using l h by (simp_all add: is_list_def)
  then have c: "chain st xs" "chain st ?B"
    by (simp_all add: successively_Cons chain_append)
  have "set (tl ?B) \<subseteq> insert h (set ys)" "set (butlast ?B) = set ys" by (cases ys; auto)+
  moreover have "set (tl xs) \<subseteq> set xs" "set (butlast xs) \<subseteq> set xs"
    by (cases xs; auto) (auto dest: in_set_butlastD)
  moreover note sub = calculation
  have "h \<notin> set ys" using h by (simp add: is_list_def)
  then have hs: "h \<notin> set (butlast ?B)" "h \<notin> set (butlast xs)" "?f \<notin> set (tl ?B)"
      "?e \<notin> set (butlast ?B)" "?a \<notin> set (tl xs)"
    using sub disj f(1,2) a(1) by blast+
  have A: "chain ?st xs" and B: "chain ?st ?B"
    by (intro chain_set_next chain_set_prev c f a hs)+
  have fe: "?f \<notin> insert h (set ys)" "?e \<notin> insert h (set ys)" using f(1,2) disj by blast+
  have "?f \<noteq> ?a" using a(1) fe(1) by metis
  moreover have "?e \<noteq> h" "h \<noteq> ?e" using fe(2) by blast+
  ultimately have lk: "link ?st h ?f" "link ?st ?e ?a" by (simp_all add: link_def)
  have "chain ?st (h # xs @ ?B)"
    by (rule chain_between [OF False A B lk])
  then have "is_list ?st h (xs @ ys)"
    using l h disj by (auto simp: is_list_def)
  moreover have "list_splice l h st = Some ?st"
    using False l h is_list_next [OF l] is_list_prev [OF l] is_list_next [OF h]
    by (simp add: list_splice_def list_empty_iff list_splice_at_def Let_def)
  moreover have "?st b = st b" if "b \<notin> set xs \<union> insert h (set ys)" for b
  proof -
    have "b \<noteq> ?a" "b \<noteq> ?e" "b \<noteq> h" "b \<noteq> ?f" using that f(1,2) a(1) by auto
    then show ?thesis by (rule set_four_other)
  qed
  ultimately show ?thesis by blast
qed

subsection \<open>Loops over a list\<close>

fun each :: "('a \<Rightarrow> 's \<Rightarrow> (bool \<times> 's) option) \<Rightarrow> 'a list \<Rightarrow> 's \<Rightarrow> (bool \<times> 's) option" where
  "each body [] s = Some (True, s)"
| "each body (x # xs) s =
     body x s \<bind> (\<lambda>(go, s). if go then each body xs s else Some (False, s))"

lemma list_for_each_from_each:
  assumes "P xs s" "h \<notin> set xs"
    and step: "\<And>x ys s s'. P (x # ys) s \<Longrightarrow> body x s = Some (True, s') \<Longrightarrow>
           lnext (cells s' x) = Some (hd (ys @ [h])) \<and> P ys s'"
  shows "list_for_each_from cells h body (hd (xs @ [h])) s = each body xs s"
  using assms(1,2)
proof (induction xs arbitrary: s)
  case Nil
  show ?case by (subst list_for_each_from.simps) simp
next
  case (Cons x xs)
  then have xh: "x \<noteq> h" by auto
  show ?case
  proof (cases "body x s")
    case None
    then show ?thesis using xh by (subst list_for_each_from.simps) simp
  next
    case (Some r)
    obtain go s' where r: "body x s = Some (go, s')" using Some by (cases r) auto
    show ?thesis
    proof (cases go)
      case True
      with step [OF Cons.prems(1)] r
      have "lnext (cells s' x) = Some (hd (xs @ [h]))" "P xs s'" by auto
      then show ?thesis
        using Cons.IH [of s'] Cons.prems(2) xh r True by (subst list_for_each_from.simps) simp
    next
      case False
      then show ?thesis using xh r by (subst list_for_each_from.simps) simp
    qed
  qed
qed

lemma list_for_each_entry_each:
  assumes "is_list (cells s) h xs" "P xs s"
    and "\<And>x ys s s'. P (x # ys) s \<Longrightarrow> body x s = Some (True, s') \<Longrightarrow>
           lnext (cells s' x) = Some (hd (ys @ [h])) \<and> P ys s'"
  shows "list_for_each_entry cells h body s = each body xs s"
  using list_for_each_from_each [of P xs s h body cells] assms is_list_next [OF assms(1)]
  by (simp add: list_for_each_entry_def is_list_def)

lemma list_for_each_safe_from_each:
  assumes "P xs s" "h \<notin> set xs"
    and step: "\<And>x ys s s'. P (x # ys) s \<Longrightarrow> body x s = Some (True, s') \<Longrightarrow> P ys s'"
    and nxt: "\<And>x ys s. P (x # ys) s \<Longrightarrow> lnext (cells s x) = Some (hd (ys @ [h]))"
  shows "list_for_each_safe_from cells h body (hd (xs @ [h])) (lnext (cells s (hd (xs @ [h])))) s =
           each body xs s"
  using assms(1,2)
proof (induction xs arbitrary: s)
  case Nil
  show ?case by (subst list_for_each_safe_from.simps) simp
next
  case (Cons x xs)
  note n = nxt [OF Cons.prems(1)]
  have xh: "x \<noteq> h" using Cons.prems(2) by auto
  show ?case
  proof (cases "body x s")
    case None
    then show ?thesis using xh by (subst list_for_each_safe_from.simps) simp
  next
    case (Some r)
    obtain go s' where r: "body x s = Some (go, s')" using Some by (cases r) auto
    show ?thesis
    proof (cases go)
      case True
      with step [OF Cons.prems(1)] r have "P xs s'" by auto
      then show ?thesis
        using Cons.IH [of s'] Cons.prems(2) xh r True n
        by (subst list_for_each_safe_from.simps) simp
    next
      case False
      then show ?thesis using xh r by (subst list_for_each_safe_from.simps) simp
    qed
  qed
qed

lemma list_for_each_entry_safe_each:
  assumes "is_list (cells s) h xs" "P xs s"
    and "\<And>x ys s s'. P (x # ys) s \<Longrightarrow> body x s = Some (True, s') \<Longrightarrow> P ys s'"
    and "\<And>x ys s. P (x # ys) s \<Longrightarrow> lnext (cells s x) = Some (hd (ys @ [h]))"
  shows "list_for_each_entry_safe cells h body s = each body xs s"
  using list_for_each_safe_from_each [of P xs s h body cells] assms is_list_next [OF assms(1)]
  by (simp add: list_for_each_entry_safe_def is_list_def)

lemma list_for_each_entry_safe_const:
  assumes "is_list st h xs"
  shows "list_for_each_entry_safe (\<lambda>_. st) h body r = each body xs r"
proof (rule list_for_each_entry_safe_each [where P = "\<lambda>ys _. \<exists>ps. xs = ps @ ys"])
  show "lnext (st x) = Some (hd (ys @ [h]))" if "\<exists>ps. xs = ps @ x # ys" for x ys
    using that assms is_list_mid(2) [of st h _ x ys] by auto
qed (use assms in \<open>auto\<close>)

end
