(* ===== verification/XV_Queue.thy ===== *)
theory XV_Queue
  imports XV_Kalloc XV_List
begin

section \<open>Queues of threads and processes\<close>

text \<open>
  \<^verbatim>\<open>kernel/lib/queue.c\<close> over the list cells of \<^verbatim>\<open>XV_List\<close>.  A queue object has a head
  cell, a type that says which member of the node links it in, and a counter; the node is the
  index of a TCB or PCB.  The atomic variants take the lock of the queue.  The name of a queue
  is for debugging and left out, and so is \<^verbatim>\<open>initlock\<close> of a lock nobody holds.
\<close>

record qst = kmst +
  links :: "laddr lstore"
  qtype :: "qid \<Rightarrow> queue_type"
  qcnt :: "qid \<Rightarrow> int"

definition on_links ::
  "(laddr lstore \<Rightarrow> laddr lstore option) \<Rightarrow> 'z qst_scheme \<Rightarrow> 'z qst_scheme option" where
  "on_links f s = do { st \<leftarrow> f (links s); Some (s\<lparr>links := st\<rparr>) }"

definition queue_init :: "qid \<Rightarrow> queue_type \<Rightarrow> 'z qst_scheme \<Rightarrow> 'z qst_scheme" where
  "queue_init q ty s =
     s\<lparr>links := INIT_LIST_HEAD (LQueue q) (links s), qtype := (qtype s)(q := ty),
       qcnt := (qcnt s)(q := 0)\<rparr>"

definition queue_isempty :: "qid \<Rightarrow> 'z qst_scheme \<Rightarrow> bool" where
  "queue_isempty q s = list_empty (LQueue q) (links s)"

definition queue_isempty_atomic :: "qid \<Rightarrow> 'z qst_scheme \<Rightarrow> (bool \<times> 'z qst_scheme) option" where
  "queue_isempty_atomic q s = do {
     s \<leftarrow> acquire (L_queue q) s;
     let empty = list_empty (LQueue q) (links s);
     s \<leftarrow> release (L_queue q) s;
     Some (empty, s)
   }"

fun queue_entry :: "nat \<Rightarrow> queue_type \<Rightarrow> laddr option" where
  "queue_entry node TCB_STATE_QUEUE = Some (LTState node)"
| "queue_entry node PCB_STATE_QUEUE = Some (LPState node)"
| "queue_entry node TCB_WAIT_QUEUE = Some (LTWait node)"
| "queue_entry node INODE_FREE_QUEUE = None"

text \<open>\<^verbatim>\<open>container_of\<close>: the node whose member is at the address; no node has its member at
  another kind of address.\<close>

fun node_of :: "queue_type \<Rightarrow> laddr \<Rightarrow> nat option" where
  "node_of TCB_STATE_QUEUE (LTState n) = Some n"
| "node_of PCB_STATE_QUEUE (LPState n) = Some n"
| "node_of TCB_WAIT_QUEUE (LTWait n) = Some n"
| "node_of _ _ = None"

definition queue_first_node :: "qid \<Rightarrow> 'z qst_scheme \<Rightarrow> nat option" where
  "queue_first_node q s = do { a \<leftarrow> lnext (links s (LQueue q)); node_of (qtype s q) a }"

definition queue_push_back :: "qid \<Rightarrow> nat \<Rightarrow> 'z qst_scheme \<Rightarrow> 'z qst_scheme option" where
  "queue_push_back q node s = do {
     l \<leftarrow> queue_entry node (qtype s q);
     s \<leftarrow> on_links (list_add_tail l (LQueue q)) s;
     Some (s\<lparr>qcnt := (qcnt s)(q := qcnt s q + 1)\<rparr>)
   }"

definition queue_push_back_atomic :: "qid \<Rightarrow> nat \<Rightarrow> 'z qst_scheme \<Rightarrow> 'z qst_scheme option" where
  "queue_push_back_atomic q node s = do {
     s \<leftarrow> acquire (L_queue q) s;
     l \<leftarrow> queue_entry node (qtype s q);
     s \<leftarrow> on_links (list_add_tail l (LQueue q)) s;
     let s = s\<lparr>qcnt := (qcnt s)(q := qcnt s q + 1)\<rparr>;
     release (L_queue q) s
   }"

definition queue_remove :: "nat \<Rightarrow> queue_type \<Rightarrow> 'z qst_scheme \<Rightarrow> 'z qst_scheme option" where
  "queue_remove node ty s = do {
     l \<leftarrow> queue_entry node ty;
     on_links (list_del_reinit l) s
   }"

definition queue_remove_atomic :: "qid \<Rightarrow> nat \<Rightarrow> 'z qst_scheme \<Rightarrow> 'z qst_scheme option" where
  "queue_remove_atomic q node s = do {
     s \<leftarrow> acquire (L_queue q) s;
     l \<leftarrow> queue_entry node (qtype s q);
     s \<leftarrow> on_links (list_del_reinit l) s;
     let s = s\<lparr>qcnt := (qcnt s)(q := qcnt s q - 1)\<rparr>;
     release (L_queue q) s
   }"

definition queue_pop :: "qid \<Rightarrow> bool \<Rightarrow> 'z qst_scheme \<Rightarrow> (nat option \<times> 'z qst_scheme) option" where
  "queue_pop q rem s =
     (if queue_isempty q s then Some (None, s)
      else do {
        node \<leftarrow> queue_first_node q s;
        s \<leftarrow> (if rem then queue_remove node (qtype s q) s else Some s);
        Some (Some node, s)
      })"

definition queue_pop_atomic ::
  "qid \<Rightarrow> bool \<Rightarrow> 'z qst_scheme \<Rightarrow> (nat option \<times> 'z qst_scheme) option" where
  "queue_pop_atomic q rem s = do {
     s \<leftarrow> acquire (L_queue q) s;
     (t, s) \<leftarrow> queue_pop q rem s;
     s \<leftarrow> release (L_queue q) s;
     Some (t, s)
   }"

definition get_queue_count :: "qid \<Rightarrow> 'z qst_scheme \<Rightarrow> int" where
  "get_queue_count q s = qcnt s q"

subsection \<open>What the queues hold\<close>

definition cell :: "queue_type \<Rightarrow> nat \<Rightarrow> laddr" where
  "cell ty n = (case ty of TCB_STATE_QUEUE \<Rightarrow> LTState n | PCB_STATE_QUEUE \<Rightarrow> LPState n
     | TCB_WAIT_QUEUE \<Rightarrow> LTWait n | INODE_FREE_QUEUE \<Rightarrow> LTState n)"

text \<open>
  \<open>queues s D Q\<close>: the queues of \<open>D\<close> are set up, \<open>Q q\<close> lists the nodes of \<open>q\<close> from front to
  back, and no node hangs in two queues of one type.
\<close>

definition queues :: "'z qst_scheme \<Rightarrow> qid set \<Rightarrow> (qid \<Rightarrow> nat list) \<Rightarrow> bool" where
  "queues s D Q \<longleftrightarrow>
     (\<forall>q \<in> D. qtype s q \<noteq> INODE_FREE_QUEUE \<and>
        is_list (links s) (LQueue q) (map (cell (qtype s q)) (Q q))) \<and>
     (\<forall>q \<in> D. \<forall>r \<in> D. q \<noteq> r \<longrightarrow> qtype s q = qtype s r \<longrightarrow> set (Q q) \<inter> set (Q r) = {})"

definition queued :: "'z qst_scheme \<Rightarrow> qid set \<Rightarrow> (qid \<Rightarrow> nat list) \<Rightarrow> queue_type \<Rightarrow> nat \<Rightarrow> bool" where
  "queued s D Q ty n \<longleftrightarrow> (\<exists>q \<in> D. qtype s q = ty \<and> n \<in> set (Q q))"

definition qcell :: "laddr \<Rightarrow> bool" where
  "qcell a \<longleftrightarrow> (case a of LQueue _ \<Rightarrow> True | LTState _ \<Rightarrow> True | LTWait _ \<Rightarrow> True | LPState _ \<Rightarrow> True
     | _ \<Rightarrow> False)"

text \<open>Nothing but the links of queues and the counters differs.\<close>

definition qframe :: "'z qst_scheme \<Rightarrow> 'z qst_scheme \<Rightarrow> bool" where
  "qframe s s' \<longleftrightarrow> held s' = held s \<and> mem s' = mem s \<and> freelist s' = freelist s \<and>
     g_freecnt s' = g_freecnt s \<and> qtype s' = qtype s \<and> qst.more s' = qst.more s \<and>
     (\<forall>a. \<not> qcell a \<longrightarrow> links s' a = links s a)"

lemma qframe_refl [simp, intro]: "qframe s s"
  by (simp add: qframe_def)

lemma qframe_trans [trans]: "qframe s t \<Longrightarrow> qframe t u \<Longrightarrow> qframe s u"
  by (simp add: qframe_def)

lemma qframe_sel:
  assumes "qframe s s'"
  shows "held s' = held s" "mem s' = mem s" "freelist s' = freelist s"
    "g_freecnt s' = g_freecnt s" "qtype s' = qtype s" "qst.more s' = qst.more s"
    "\<And>a. \<not> qcell a \<Longrightarrow> links s' a = links s a"
  using assms by (simp_all add: qframe_def)

lemma queue_entry_cell: "ty \<noteq> INODE_FREE_QUEUE \<Longrightarrow> queue_entry n ty = Some (cell ty n)"
  by (cases ty) (simp_all add: cell_def)

lemma node_of_cell [simp]: "ty \<noteq> INODE_FREE_QUEUE \<Longrightarrow> node_of ty (cell ty n) = Some n"
  by (cases ty) (simp_all add: cell_def)

lemma cell_inj: "cell ty m = cell ty n \<longleftrightarrow> m = n"
  by (cases ty) (simp_all add: cell_def)

lemma cell_eq:
  "ty \<noteq> INODE_FREE_QUEUE \<Longrightarrow> ty' \<noteq> INODE_FREE_QUEUE \<Longrightarrow> cell ty m = cell ty' n \<longleftrightarrow> ty = ty' \<and> m = n"
  by (cases ty; cases ty') (simp_all add: cell_def)

lemma cell_ne_head [simp]: "cell ty n \<noteq> LQueue q" "LQueue q \<noteq> cell ty n"
  by (cases ty; simp add: cell_def)+

lemma qcell_cell [simp]: "qcell (cell ty n)" "qcell (LQueue q)"
  by (cases ty; simp add: cell_def qcell_def) (simp add: qcell_def)

lemma queuesD:
  assumes "queues s D Q" "q \<in> D"
  shows "qtype s q \<noteq> INODE_FREE_QUEUE"
    "is_list (links s) (LQueue q) (map (cell (qtype s q)) (Q q))" "distinct (Q q)"
proof -
  show "qtype s q \<noteq> INODE_FREE_QUEUE"
    and l: "is_list (links s) (LQueue q) (map (cell (qtype s q)) (Q q))"
    using assms by (auto simp: queues_def)
  show "distinct (Q q)" using l by (simp add: is_list_def distinct_map)
qed

text \<open>A change of the cells of one queue and of one node that is in no other queue of its type.\<close>

lemma queues_upd:
  assumes Q: "queues s D Q" and q: "q \<in> D"
    and l: "is_list st (LQueue q) (map (cell (qtype s q)) ns)"
    and fr: "\<And>a. a \<notin> insert (cell (qtype s q) n) (insert (LQueue q) (set (map (cell (qtype s q)) (Q q)))) \<Longrightarrow>
          st a = links s a"
    and sub: "set ns \<subseteq> insert n (set (Q q))"
    and n: "\<And>r. r \<in> D \<Longrightarrow> r \<noteq> q \<Longrightarrow> qtype s r = qtype s q \<Longrightarrow> n \<notin> set (Q r)"
  shows "queues (s\<lparr>links := st, qcnt := c\<rparr>) D (Q(q := ns))"
proof -
  note ty = queuesD(1) [OF Q]
  have other: "is_list st (LQueue r) (map (cell (qtype s r)) (Q r))" if r: "r \<in> D" "r \<noteq> q" for r
  proof (rule is_list_frame [OF queuesD(2) [OF Q r(1)]])
    fix a assume a: "a \<in> insert (LQueue r) (set (map (cell (qtype s r)) (Q r)))"
    have disj: "qtype s r = qtype s q \<Longrightarrow> set (Q r) \<inter> set (Q q) = {}"
      using Q q r by (auto simp: queues_def)
    show "st a = links s a"
      by (rule fr) (use a r n [OF r] disj ty [OF q] ty [OF r(1)] in \<open>auto simp: cell_eq\<close>)
  qed
  have "set ns \<inter> set (Q r) = {}" if "r \<in> D" "r \<noteq> q" "qtype s r = qtype s q" for r
  proof -
    have "set (Q q) \<inter> set (Q r) = {}" using Q q that by (metis queues_def)
    then show ?thesis using sub n [OF that] by blast
  qed
  then show ?thesis
    using Q q l other by (auto simp: queues_def)
qed

lemma queue_push_back_ok:
  assumes Q: "queues s D Q" and q: "q \<in> D" and n: "\<not> queued s D Q (qtype s q) n"
  shows "\<exists>s'. queue_push_back q n s = Some s' \<and> queues s' D (Q(q := Q q @ [n])) \<and> qframe s s' \<and>
           qcnt s' = (qcnt s)(q := qcnt s q + 1)"
proof -
  let ?ty = "qtype s q"
  note d = queuesD [OF Q q]
  have nq: "n \<notin> set (Q r)" if "r \<in> D" "qtype s r = ?ty" for r
    using n that by (auto simp: queued_def)
  have "cell ?ty n \<notin> set (LQueue q # map (cell ?ty) (Q q))"
    using nq [OF q] by (auto simp: cell_inj)
  from list_add_tail_list [OF d(2) this] obtain st where st:
      "list_add_tail (cell ?ty n) (LQueue q) (links s) = Some st"
      "is_list st (LQueue q) (map (cell ?ty) (Q q @ [n]))"
      "\<And>a. a \<notin> insert (cell ?ty n) (insert (LQueue q) (set (map (cell ?ty) (Q q)))) \<Longrightarrow> st a = links s a"
    by auto
  let ?s = "s\<lparr>links := st, qcnt := (qcnt s)(q := qcnt s q + 1)\<rparr>"
  have "queues ?s D (Q(q := Q q @ [n]))"
    by (rule queues_upd [OF Q q st(2), of n]) (use st(3) nq in auto)
  moreover have "qframe s ?s"
    unfolding qframe_def by (auto intro!: st(3) simp: qcell_cell(1)) 
  moreover have "queue_push_back q n s = Some ?s"
    using st(1) d(1) by (simp add: queue_push_back_def queue_entry_cell on_links_def)
  ultimately show ?thesis by auto
qed

lemma queue_remove_ok:
  assumes Q: "queues s D Q" and q: "q \<in> D" and n: "n \<in> set (Q q)"
  shows "\<exists>s'. queue_remove n (qtype s q) s = Some s' \<and> queues s' D (Q(q := removeAll n (Q q))) \<and>
           qframe s s' \<and> qcnt s' = qcnt s \<and> is_list (links s') (cell (qtype s q) n) []"
proof -
  let ?ty = "qtype s q" let ?c = "cell (qtype s q)"
  note d = queuesD [OF Q q]
  obtain ys zs where yz: "Q q = ys @ n # zs" using n by (metis split_list)
  then have rm: "removeAll n (Q q) = ys @ zs" using d(3) by auto
  have "is_list (links s) (LQueue q) (map ?c ys @ ?c n # map ?c zs)" using d(2) yz by simp
  from list_del_reinit_list [OF this] obtain st where st:
      "list_del_reinit (?c n) (links s) = Some st"
      "is_list st (LQueue q) (map ?c (ys @ zs))" "is_list st (?c n) []"
      "\<And>a. a \<notin> insert (LQueue q) (set (map ?c ys @ ?c n # map ?c zs)) \<Longrightarrow> st a = links s a"
    by auto
  let ?s = "s\<lparr>links := st, qcnt := qcnt s\<rparr>"
  have "queues ?s D (Q(q := removeAll n (Q q)))"
  proof (rule queues_upd [OF Q q, of st _ n])
    show "is_list st (LQueue q) (map ?c (removeAll n (Q q)))" using st(2) rm by simp
    show "n \<notin> set (Q r)" if "r \<in> D" "r \<noteq> q" "qtype s r = ?ty" for r
      using Q q n that by (auto simp: queues_def)
  qed (use st(4) yz in auto)
  moreover have "qframe s ?s"
    unfolding qframe_def by (auto intro!: st(4))
  moreover have "queue_remove n ?ty s = Some ?s"
    using st(1) d(1) by (simp add: queue_remove_def queue_entry_cell on_links_def)
  ultimately show ?thesis using st(3) by auto
qed

lemma queue_isempty_iff: "queues s D Q \<Longrightarrow> q \<in> D \<Longrightarrow> queue_isempty q s \<longleftrightarrow> Q q = []"
  using queuesD(2) [of s D Q q] by (simp add: queue_isempty_def list_empty_iff)

lemma queue_first_node_ok: "queues s D Q \<Longrightarrow> q \<in> D \<Longrightarrow> Q q = n # ns \<Longrightarrow> queue_first_node q s = Some n"
  using queuesD(1,2) [of s D Q q] is_list_next [of "links s" "LQueue q"]
  by (auto simp: queue_first_node_def)

lemma queue_pop_ok:
  assumes Q: "queues s D Q" and q: "q \<in> D"
  shows "Q q = [] \<Longrightarrow> queue_pop q rem s = Some (None, s)"
    and "Q q = n # ns \<Longrightarrow> \<exists>s'. queue_pop q rem s = Some (Some n, s') \<and> qframe s s' \<and>
           queues s' D (if rem then Q(q := ns) else Q) \<and> qcnt s' = qcnt s"
proof -
  show "Q q = [] \<Longrightarrow> queue_pop q rem s = Some (None, s)"
    using queue_isempty_iff [OF Q q] by (simp add: queue_pop_def)
  assume n: "Q q = n # ns"
  then have d: "removeAll n (Q q) = ns" using queuesD(3) [OF Q q] by simp
  from queue_remove_ok [OF Q q, of n] n d obtain s' where "queue_remove n (qtype s q) s = Some s'"
      "queues s' D (Q(q := ns))" "qframe s s'" "qcnt s' = qcnt s" by auto
  then show "\<exists>s'. queue_pop q rem s = Some (Some n, s') \<and> qframe s s' \<and>
      queues s' D (if rem then Q(q := ns) else Q) \<and> qcnt s' = qcnt s"
    using n queue_isempty_iff [OF Q q] queue_first_node_ok [OF Q q n] Q
    by (cases rem) (auto simp: queue_pop_def)
qed

text \<open>A critical section of the lock of a queue: the view of the locks is as before.\<close>

lemma queues_held [simp]: "queues (s\<lparr>held := h\<rparr>) D Q = queues s D Q"
  by (simp add: queues_def)

lemma queued_held [simp]: "queued (s\<lparr>held := h\<rparr>) D Q ty n = queued s D Q ty n"
  by (simp add: queued_def)

lemma qframe_unlock:
  assumes "qframe (s\<lparr>held := l # held s\<rparr>) s'"
  shows "held s' = l # held s" "qframe s (s'\<lparr>held := held s\<rparr>)"
  using assms by (simp_all add: qframe_def)

lemma queue_push_back_atomic_ok:
  assumes Q: "queues s D Q" and q: "q \<in> D" and n: "\<not> queued s D Q (qtype s q) n"
    and h: "L_queue q \<notin> set (held s)"
  shows "\<exists>s'. queue_push_back_atomic q n s = Some s' \<and> queues s' D (Q(q := Q q @ [n])) \<and>
           qframe s s' \<and> qcnt s' = (qcnt s)(q := qcnt s q + 1)"
proof -
  let ?s = "s\<lparr>held := L_queue q # held s\<rparr>"
  have eq: "queue_push_back_atomic q n s = do { s \<leftarrow> queue_push_back q n ?s; release (L_queue q) s }"
    using h by (simp add: queue_push_back_atomic_def queue_push_back_def)
  obtain s' where "queue_push_back q n ?s = Some s'" "queues s' D (Q(q := Q q @ [n]))"
      "qframe ?s s'" "qcnt s' = (qcnt s)(q := qcnt s q + 1)"
    using queue_push_back_ok [of ?s D Q q n] Q q n by auto
  then show ?thesis using qframe_unlock [of "L_queue q" s s'] h by (auto simp: eq)
qed

lemma queue_remove_atomic_ok:
  assumes Q: "queues s D Q" and q: "q \<in> D" and n: "n \<in> set (Q q)"
    and h: "L_queue q \<notin> set (held s)"
  shows "\<exists>s'. queue_remove_atomic q n s = Some s' \<and> queues s' D (Q(q := removeAll n (Q q))) \<and>
           qframe s s' \<and> qcnt s' = (qcnt s)(q := qcnt s q - 1) \<and>
           is_list (links s') (cell (qtype s q) n) []"
proof -
  let ?s = "s\<lparr>held := L_queue q # held s\<rparr>"
  have eq: "queue_remove_atomic q n s = do { s \<leftarrow> queue_remove n (qtype s q) ?s;
      release (L_queue q) (s\<lparr>qcnt := (qcnt s)(q := qcnt s q - 1)\<rparr>) }"
    using h by (simp add: queue_remove_atomic_def queue_remove_def Let_def)
  obtain s' where s': "queue_remove n (qtype s q) ?s = Some s'"
      "queues s' D (Q(q := removeAll n (Q q)))" "qframe ?s s'" "qcnt s' = qcnt s"
      "is_list (links s') (cell (qtype s q) n) []"
    using queue_remove_ok [of ?s D Q q n] Q q n by auto
  note f = qframe_unlock [OF s'(3)]
  let ?t = "s'\<lparr>held := held s, qcnt := (qcnt s)(q := qcnt s q - 1)\<rparr>"
  have "queue_remove_atomic q n s = Some ?t" using f(1) h s' by (simp add: eq)
  moreover have "queues ?t D (Q(q := removeAll n (Q q)))" using s'(2) by (simp add: queues_def)
  moreover have "qframe s ?t" using f(2) by (simp add: qframe_def)
  ultimately show ?thesis using s'(5) by auto
qed

lemma queue_pop_atomic_ok:
  assumes Q: "queues s D Q" and q: "q \<in> D" and h: "L_queue q \<notin> set (held s)"
  shows "Q q = [] \<Longrightarrow> queue_pop_atomic q rem s = Some (None, s)"
    and "Q q = n # ns \<Longrightarrow> \<exists>s'. queue_pop_atomic q rem s = Some (Some n, s') \<and> qframe s s' \<and>
           queues s' D (if rem then Q(q := ns) else Q) \<and> qcnt s' = qcnt s"
proof -
  let ?s = "s\<lparr>held := L_queue q # held s\<rparr>"
  have Q': "queues ?s D Q" using Q by simp
  show "Q q = [] \<Longrightarrow> queue_pop_atomic q rem s = Some (None, s)"
    using queue_pop_ok(1) [OF Q' q] h by (simp add: queue_pop_atomic_def)
  assume "Q q = n # ns"
  from queue_pop_ok(2) [OF Q' q this] obtain s' where s': "queue_pop q rem ?s = Some (Some n, s')"
      "qframe ?s s'" "queues s' D (if rem then Q(q := ns) else Q)" "qcnt s' = qcnt s" by auto
  then show "\<exists>s'. queue_pop_atomic q rem s = Some (Some n, s') \<and> qframe s s' \<and>
           queues s' D (if rem then Q(q := ns) else Q) \<and> qcnt s' = qcnt s"
    using qframe_unlock [OF s'(2)] h by (auto simp: queue_pop_atomic_def)
qed

subsection \<open>The interface of intrusive queues\<close>

text \<open>
  What the scheduler relies on: \<open>rep s Q\<close> gives the contents of every queue; a node sits in at
  most one queue of its kind; \<open>push\<close> appends, \<open>remove\<close> takes a node out wherever it is,
  \<open>pop\<close> takes the first one.  Inside: moving a node between queues, and first-in first-out.
\<close>

locale intrusive_queue =
  fixes D :: "'q set"
    and rep :: "'s \<Rightarrow> ('q \<Rightarrow> 'n list) \<Rightarrow> bool"
    and kind :: "'q \<Rightarrow> 'k"
    and frame :: "'s \<Rightarrow> 's \<Rightarrow> bool"
    and push :: "'q \<Rightarrow> 'n \<Rightarrow> 's \<Rightarrow> 's option"
    and remove :: "'q \<Rightarrow> 'n \<Rightarrow> 's \<Rightarrow> 's option"
    and pop :: "'q \<Rightarrow> 's \<Rightarrow> ('n option \<times> 's) option"
  assumes rep_distinct: "rep s Q \<Longrightarrow> q \<in> D \<Longrightarrow> distinct (Q q)"
    and rep_disjoint: "rep s Q \<Longrightarrow> q \<in> D \<Longrightarrow> r \<in> D \<Longrightarrow> q \<noteq> r \<Longrightarrow> kind q = kind r \<Longrightarrow>
          set (Q q) \<inter> set (Q r) = {}"
    and frame_refl: "frame s s"
    and frame_trans: "frame s t \<Longrightarrow> frame t u \<Longrightarrow> frame s u"
    and push_law: "rep s Q \<Longrightarrow> q \<in> D \<Longrightarrow> (\<And>r. r \<in> D \<Longrightarrow> kind r = kind q \<Longrightarrow> n \<notin> set (Q r)) \<Longrightarrow>
          \<exists>s'. push q n s = Some s' \<and> rep s' (Q(q := Q q @ [n])) \<and> frame s s'"
    and remove_law: "rep s Q \<Longrightarrow> q \<in> D \<Longrightarrow> n \<in> set (Q q) \<Longrightarrow>
          \<exists>s'. remove q n s = Some s' \<and> rep s' (Q(q := removeAll n (Q q))) \<and> frame s s'"
    and pop_none: "rep s Q \<Longrightarrow> q \<in> D \<Longrightarrow> Q q = [] \<Longrightarrow> pop q s = Some (None, s)"
    and pop_some: "rep s Q \<Longrightarrow> q \<in> D \<Longrightarrow> Q q = n # ns \<Longrightarrow>
          \<exists>s'. pop q s = Some (Some n, s') \<and> rep s' (Q(q := ns)) \<and> frame s s'"
begin

lemma only_queue:
  "rep s Q \<Longrightarrow> q \<in> D \<Longrightarrow> n \<in> set (Q q) \<Longrightarrow> r \<in> D \<Longrightarrow> kind r = kind q \<Longrightarrow> n \<in> set (Q r) \<Longrightarrow> r = q"
  using rep_disjoint by blast

lemma move_law:
  assumes r: "rep s Q" and q: "q \<in> D" "q' \<in> D" and n: "n \<in> set (Q q)"
    and k: "kind q' = kind q" and ne: "q' \<noteq> q"
  shows "\<exists>s1 s'. remove q n s = Some s1 \<and> push q' n s1 = Some s' \<and>
           rep s' (Q(q := removeAll n (Q q), q' := Q q' @ [n])) \<and> frame s s'"
proof -
  obtain s1 where 1: "remove q n s = Some s1" "rep s1 (Q(q := removeAll n (Q q)))" "frame s s1"
    using remove_law [OF r q(1) n] by blast
  have "n \<notin> set ((Q(q := removeAll n (Q q))) r')" if "r' \<in> D" "kind r' = kind q'" for r'
    using only_queue [OF r q(1) n, of r'] that k by (auto split: if_splits)
  from push_law [OF 1(2) q(2) this] obtain s' where "push q' n s1 = Some s'" "frame s1 s'"
      "rep s' ((Q(q := removeAll n (Q q)))(q' := (Q(q := removeAll n (Q q))) q' @ [n]))" by blast
  then show ?thesis using 1 ne by (auto intro: frame_trans)
qed

fun push_all :: "'q \<Rightarrow> 'n list \<Rightarrow> 's \<Rightarrow> 's option" where
  "push_all q [] s = Some s"
| "push_all q (n # ns) s = do { s \<leftarrow> push q n s; push_all q ns s }"

fun pop_all :: "'q \<Rightarrow> nat \<Rightarrow> 's \<Rightarrow> ('n list \<times> 's) option" where
  "pop_all q 0 s = Some ([], s)"
| "pop_all q (Suc k) s = do {
     (r, s) \<leftarrow> pop q s;
     case r of None \<Rightarrow> Some ([], s)
     | Some n \<Rightarrow> do { (ns, s) \<leftarrow> pop_all q k s; Some (n # ns, s) }
   }"

lemma push_all_law:
  "rep s Q \<Longrightarrow> q \<in> D \<Longrightarrow> distinct ns \<Longrightarrow>
   (\<And>n r. n \<in> set ns \<Longrightarrow> r \<in> D \<Longrightarrow> kind r = kind q \<Longrightarrow> n \<notin> set (Q r)) \<Longrightarrow>
   \<exists>s'. push_all q ns s = Some s' \<and> rep s' (Q(q := Q q @ ns)) \<and> frame s s'"
proof (induction ns arbitrary: s Q)
  case (Cons n ns)
  obtain s1 where 1: "push q n s = Some s1" "rep s1 (Q(q := Q q @ [n]))" "frame s s1"
    using push_law [of s Q q n] Cons.prems by auto
  have "\<exists>s'. push_all q ns s1 = Some s' \<and>
      rep s' ((Q(q := Q q @ [n]))(q := (Q(q := Q q @ [n])) q @ ns)) \<and> frame s1 s'"
    by (rule Cons.IH [OF 1(2) Cons.prems(2)]) (use Cons.prems in auto)
  then obtain s' where 2: "push_all q ns s1 = Some s'" "rep s' (Q(q := Q q @ n # ns))" "frame s1 s'"
    by auto
  then show ?case
    using 1 frame_trans [OF 1(3) 2(3)] by (intro exI [of _ s']) (simp add: fun_upd_def)
qed (auto simp: frame_refl)

lemma pop_all_law:
  "rep s Q \<Longrightarrow> q \<in> D \<Longrightarrow> k \<le> length (Q q) \<Longrightarrow>
   \<exists>s'. pop_all q k s = Some (take k (Q q), s') \<and> rep s' (Q(q := drop k (Q q))) \<and> frame s s'"
proof (induction k arbitrary: s Q)
  case (Suc k)
  then obtain n ns where n: "Q q = n # ns" by (cases "Q q") auto
  obtain s1 where 1: "pop q s = Some (Some n, s1)" "rep s1 (Q(q := ns))" "frame s s1"
    using pop_some [OF Suc.prems(1,2) n] by blast
  have "\<exists>s'. pop_all q k s1 = Some (take k ((Q(q := ns)) q), s') \<and>
      rep s' ((Q(q := ns))(q := drop k ((Q(q := ns)) q))) \<and> frame s1 s'"
    by (rule Suc.IH [OF 1(2) Suc.prems(2)]) (use Suc.prems n in auto)
  then obtain s' where 2: "pop_all q k s1 = Some (take k ns, s')" "rep s' (Q(q := drop k ns))"
      "frame s1 s'" by auto
  then show ?case
    using 1 n frame_trans [OF 1(3) 2(3)] by (intro exI [of _ s']) (simp add: fun_upd_def)
qed (auto simp: frame_refl)

lemma fifo:
  assumes "rep s Q" "q \<in> D" "Q q = []" "distinct ns"
    "\<And>n r. n \<in> set ns \<Longrightarrow> r \<in> D \<Longrightarrow> kind r = kind q \<Longrightarrow> n \<notin> set (Q r)"
  shows "\<exists>s1 s2. push_all q ns s = Some s1 \<and> pop_all q (length ns) s1 = Some (ns, s2) \<and> rep s2 Q"
proof -
  obtain s1 where 1: "push_all q ns s = Some s1" "rep s1 (Q(q := ns))"
    using push_all_law [of s Q q ns] assms by auto
  obtain s2 where "pop_all q (length ns) s1 = Some (ns, s2)" "rep s2 (Q(q := ns, q := []))"
    using pop_all_law [OF 1(2) assms(2), of "length ns"] by auto
  moreover have "Q(q := ns, q := []) = Q" using assms(3) by (auto simp: fun_eq_iff)
  ultimately show ?thesis using 1(1) by auto
qed

end

definition queues_of ::
  "qid set \<Rightarrow> (qid \<Rightarrow> queue_type) \<Rightarrow> 'z qst_scheme \<Rightarrow> (qid \<Rightarrow> nat list) \<Rightarrow> bool" where
  "queues_of D ty s Q \<longleftrightarrow> queues s D Q \<and> (\<forall>q \<in> D. qtype s q = ty q \<and> L_queue q \<notin> set (held s))"

lemma queues_of_frame:
  "queues_of D ty s Q \<Longrightarrow> queues s' D Q' \<Longrightarrow> qframe s s' \<Longrightarrow> queues_of D ty s' Q'"
  by (auto simp: queues_of_def qframe_def)

interpretation qs: intrusive_queue D "queues_of D ty" ty qframe
  queue_push_back_atomic queue_remove_atomic "\<lambda>q. queue_pop_atomic q True" for D ty
proof unfold_locales
  fix s t u :: "'a qst_scheme" and Q q r n ns
  show "queues_of D ty s Q \<Longrightarrow> q \<in> D \<Longrightarrow> distinct (Q q)"
    using queuesD(3) by (auto simp: queues_of_def)
  show "queues_of D ty s Q \<Longrightarrow> q \<in> D \<Longrightarrow> r \<in> D \<Longrightarrow> q \<noteq> r \<Longrightarrow> ty q = ty r \<Longrightarrow>
      set (Q q) \<inter> set (Q r) = {}"
    by (auto simp: queues_of_def queues_def)
  show "qframe s s" by simp
  show "qframe s t \<Longrightarrow> qframe t u \<Longrightarrow> qframe s u" by (rule qframe_trans)
  show "\<exists>s'. queue_push_back_atomic q n s = Some s' \<and> queues_of D ty s' (Q(q := Q q @ [n])) \<and> qframe s s'"
    if "queues_of D ty s Q" "q \<in> D" "\<And>r. r \<in> D \<Longrightarrow> ty r = ty q \<Longrightarrow> n \<notin> set (Q r)"
  proof -
    have "\<not> queued s D Q (qtype s q) n" using that by (auto simp: queued_def queues_of_def)
    with queue_push_back_atomic_ok [of s D Q q n] that show ?thesis
      by (metis queues_of_def queues_of_frame)
  qed
  show "\<exists>s'. queue_remove_atomic q n s = Some s' \<and> queues_of D ty s' (Q(q := removeAll n (Q q))) \<and> qframe s s'"
    if "queues_of D ty s Q" "q \<in> D" "n \<in> set (Q q)"
    using queue_remove_atomic_ok [of s D Q q n] that by (metis queues_of_def queues_of_frame)
  show "queues_of D ty s Q \<Longrightarrow> q \<in> D \<Longrightarrow> Q q = [] \<Longrightarrow> queue_pop_atomic q True s = Some (None, s)"
    using queue_pop_atomic_ok(1) [of s D Q q True] by (auto simp: queues_of_def)
  show "\<exists>s'. queue_pop_atomic q True s = Some (Some n, s') \<and> queues_of D ty s' (Q(q := ns)) \<and> qframe s s'"
    if "queues_of D ty s Q" "q \<in> D" "Q q = n # ns"
    using queue_pop_atomic_ok(2) [of s D Q q n ns True] that by (auto simp: queues_of_def qframe_def)
qed

definition ready_queue :: qst where
  "ready_queue = queue_init (TQ TCB_RUNNABLE) TCB_STATE_QUEUE
     \<lparr>held = [], mem = (\<lambda>_. 0), freelist = 0, g_freecnt = 0,
      links = (\<lambda>_. \<lparr>lnext = None, lprev = None\<rparr>), qtype = (\<lambda>_. INODE_FREE_QUEUE), qcnt = (\<lambda>_. 0)\<rparr>"

lemma ready_queue_empty: "queues ready_queue {TQ TCB_RUNNABLE} (\<lambda>_. [])"
  by (simp add: ready_queue_def queues_def queue_init_def INIT_LIST_HEAD_list)



text \<open>
  C9: the cells of the queues implement lists: the three operations that take the lock
  of a queue append, remove and take the first node, touch no other queue and no other part
  of the state, and give the lock back.
\<close>

theorem queue_refines_lists:
  assumes "queues s D Q" "q \<in> D" "L_queue q \<notin> set (held s)"
  shows "(\<not> queued s D Q (qtype s q) n \<longrightarrow>
            (\<exists>s'. queue_push_back_atomic q n s = Some s' \<and> queues s' D (Q(q := Q q @ [n])) \<and> qframe s s')) \<and>
         (n \<in> set (Q q) \<longrightarrow>
            (\<exists>s'. queue_remove_atomic q n s = Some s' \<and> queues s' D (Q(q := removeAll n (Q q))) \<and> qframe s s')) \<and>
         (\<exists>s'. queue_pop_atomic q True s = Some (case Q q of [] \<Rightarrow> None | x # _ \<Rightarrow> Some x, s') \<and>
            queues s' D (Q(q := tl (Q q))) \<and> qframe s s')"
proof -
  have "\<exists>s'. queue_pop_atomic q True s = Some (case Q q of [] \<Rightarrow> None | x # _ \<Rightarrow> Some x, s') \<and>
            queues s' D (Q(q := tl (Q q))) \<and> qframe s s'"
  proof (cases "Q q")
    case Nil
    then have "Q(q := []) = Q" by (auto simp: fun_eq_iff)
    then show ?thesis using Nil queue_pop_atomic_ok(1) [OF assms Nil] assms(1) by simp
  next
    case (Cons x xs)
    then show ?thesis using queue_pop_atomic_ok(2) [OF assms Cons, of True] by auto
  qed
  then show ?thesis
    using queue_push_back_atomic_ok [OF assms(1,2) _ assms(3)]
      queue_remove_atomic_ok [OF assms(1,2) _ assms(3)] by blast
qed

theorem queue_refines_lists_witness:
  "\<exists>s'. queue_push_back_atomic (TQ TCB_RUNNABLE) 5 ready_queue = Some s' \<and>
     queues s' {TQ TCB_RUNNABLE} ((\<lambda>_. [])(TQ TCB_RUNNABLE := [5]))"
  using queue_refines_lists [OF ready_queue_empty, of "TQ TCB_RUNNABLE" 5]
  by (auto simp: queued_def ready_queue_def queue_init_def)

text \<open>
  C26: \<^verbatim>\<open>queue_pop\<close> removes a node without decrementing the counter that
  \<^verbatim>\<open>queue_push_back\<close> increments, so \<^verbatim>\<open>get_queue_count\<close> no longer gives the number of
  nodes of the queue.
\<close>

theorem queue_pop_leaves_count:
  assumes "queues s D Q" "q \<in> D" "L_queue q \<notin> set (held s)" "Q q = n # ns"
    "get_queue_count q s = int (length (Q q))"
  shows "\<exists>s'. queue_pop_atomic q True s = Some (Some n, s') \<and> queues s' D (Q(q := ns)) \<and>
           get_queue_count q s' = int (length ns) + 1"
  using queue_pop_atomic_ok(2) [OF assms(1-4), of True] assms(4,5)
  by (auto simp: get_queue_count_def)

theorem queue_pop_leaves_count_witness:
  "\<exists>(s :: qst) s'. queues s {TQ TCB_RUNNABLE} ((\<lambda>_. [])(TQ TCB_RUNNABLE := [5])) \<and>
     queue_pop_atomic (TQ TCB_RUNNABLE) True s = Some (Some 5, s') \<and>
     queues s' {TQ TCB_RUNNABLE} (\<lambda>_. []) \<and> get_queue_count (TQ TCB_RUNNABLE) s' = 1"
proof -
  let ?q = "TQ TCB_RUNNABLE"
  have h: "held ready_queue = []" "qcnt ready_queue ?q = 0"
    by (simp_all add: ready_queue_def queue_init_def)
  obtain s :: qst where s: "queues s {?q} ((\<lambda>_. [])(?q := [5]))" "held s = []" "qcnt s ?q = 1"
    using queue_push_back_atomic_ok [OF ready_queue_empty, of ?q 5] h
    by (auto simp: queued_def qframe_def)
  have "(\<lambda>_. [])(?q := [5 :: nat], ?q := []) = (\<lambda>_. [])" by (auto simp: fun_eq_iff)
  with queue_pop_leaves_count [OF s(1), of ?q 5 "[]"] s show ?thesis
    by (auto simp: get_queue_count_def)
qed

end
