(* ===== verification/XV_Pagetable.thy ===== *)
theory XV_Pagetable
  imports XV_Kalloc
begin

section \<open>Sv39 page tables\<close>

text \<open>
  The page-table macros of \<^verbatim>\<open>include/riscv.h\<close> and \<^verbatim>\<open>walk\<close>, \<^verbatim>\<open>walkaddr\<close> and
  \<^verbatim>\<open>uvmcreate\<close> of \<^verbatim>\<open>kernel/mm/vm.c\<close> (the RISC-V build).  A table is a page of 512 entries of
  eight bytes; the tables form a tree of three levels, threaded through the physical addresses
  inside the entries.  \<open>leaf\<close> is the abstraction: the last-level entry that translates a virtual
  address, or 0 when a table on the way is missing.  The address 0 stands for NULL.
\<close>

definition PTE_V :: u64 where "PTE_V = 1"
definition PTE_R :: u64 where "PTE_R = 2"
definition PTE_W :: u64 where "PTE_W = 4"
definition PTE_X :: u64 where "PTE_X = 8"
definition PTE_U :: u64 where "PTE_U = 16"

definition PA2PTE :: "u64 \<Rightarrow> u64" where
  "PA2PTE pa = push_bit 10 (drop_bit 12 pa)"

definition PTE2PA :: "u64 \<Rightarrow> u64" where
  "PTE2PA pte = push_bit 12 (drop_bit 10 pte)"

definition PTE_FLAGS :: "u64 \<Rightarrow> u64" where
  "PTE_FLAGS pte = pte AND 0x3FF"

definition PX :: "nat \<Rightarrow> u64 \<Rightarrow> u64" where
  "PX level va = drop_bit (12 + 9 * level) va AND 0x1FF"

definition MAXVA :: u64 where
  "MAXVA = push_bit 38 1"

definition TRAMPOLINE :: u64 where
  "TRAMPOLINE = MAXVA - PGSIZE"

definition SIGRETURN :: u64 where
  "SIGRETURN = TRAMPOLINE - PGSIZE"

definition TRAPFRAME :: u64 where
  "TRAPFRAME = SIGRETURN - PGSIZE"

definition THREAD_TRAPFRAME :: "u64 \<Rightarrow> u64" where
  "THREAD_TRAPFRAME idx = TRAPFRAME - idx * PGSIZE"

definition load_pte :: "u64 \<Rightarrow> 'z kmst_scheme \<Rightarrow> u64" where
  "load_pte a s = load64 (mem s) a"

definition store_pte :: "u64 \<Rightarrow> u64 \<Rightarrow> 'z kmst_scheme \<Rightarrow> 'z kmst_scheme" where
  "store_pte a v s = s\<lparr>mem := store64 a v (mem s)\<rparr>"

definition zero_page :: "u64 \<Rightarrow> 'z kmst_scheme \<Rightarrow> 'z kmst_scheme" where
  "zero_page p s = s\<lparr>mem := memset p 0 (ucast PGSIZE) (mem s)\<rparr>"

fun walk_level ::
  "nat \<Rightarrow> u64 \<Rightarrow> u64 \<Rightarrow> bool \<Rightarrow> 'z kmst_scheme \<Rightarrow> (u64 \<times> 'z kmst_scheme) option" where
  "walk_level 0 pagetable va alloc s = Some (pagetable + 8 * PX 0 va, s)"
| "walk_level (Suc l) pagetable va alloc s =
     (let pte = pagetable + 8 * PX (Suc l) va in
      if load_pte pte s AND PTE_V \<noteq> 0 then walk_level l (PTE2PA (load_pte pte s)) va alloc s
      else if \<not> alloc then Some (0, s)
      else do {
        (p, s) \<leftarrow> kalloc s;
        if p = 0 then Some (0, s)
        else do {
          let s = zero_page p s;
          let s = store_pte pte (PA2PTE p OR PTE_V) s;
          walk_level l p va alloc s
        }
      })"

definition walk ::
  "u64 \<Rightarrow> u64 \<Rightarrow> bool \<Rightarrow> 'z kmst_scheme \<Rightarrow> (u64 \<times> 'z kmst_scheme) option" where
  "walk pagetable va alloc s = (if MAXVA \<le> va then None else walk_level 2 pagetable va alloc s)"

definition walkaddr :: "u64 \<Rightarrow> u64 \<Rightarrow> 'z kmst_scheme \<Rightarrow> (u64 \<times> 'z kmst_scheme) option" where
  "walkaddr pagetable va s =
     (if MAXVA \<le> va then Some (0, s)
      else do {
        (pte, s) \<leftarrow> walk pagetable va False s;
        if pte = 0 then Some (0, s)
        else if load_pte pte s AND PTE_V = 0 then Some (0, s)
        else if load_pte pte s AND PTE_U = 0 then Some (0, s)
        else Some (PTE2PA (load_pte pte s), s)
      })"

definition uvmcreate :: "'z kmst_scheme \<Rightarrow> (u64 \<times> 'z kmst_scheme) option" where
  "uvmcreate s = do {
     (p, s) \<leftarrow> kalloc s;
     if p = 0 then Some (0, s) else Some (p, zero_page p s)
   }"

subsection \<open>Entries\<close>

definition valid :: "u64 \<Rightarrow> bool" where
  "valid e \<longleftrightarrow> e AND PTE_V \<noteq> 0"

lemma valid_bit: "valid e \<longleftrightarrow> bit e 0"
  by (simp add: valid_def PTE_V_def one_and_eq and_one_eq odd_iff_mod_2_eq_one bit_0)

lemma not_valid_0 [simp]: "\<not> valid 0"
  by (simp add: valid_def)

lemma bit_PTE2PA: "bit (PTE2PA e) n \<longleftrightarrow> 12 \<le> n \<and> n < 64 \<and> bit e (n - 2)"
  by (auto simp: PTE2PA_def bit_push_bit_iff bit_drop_bit_eq)

lemma bit_PA2PTE: "bit (PA2PTE p) n \<longleftrightarrow> 10 \<le> n \<and> n < 64 \<and> bit p (n + 2)"
  by (auto simp: PA2PTE_def bit_push_bit_iff bit_drop_bit_eq)

lemma aligned_bit: "aligned k p \<Longrightarrow> n < k \<Longrightarrow> \<not> bit p n"
  unfolding aligned_def by (metis bit_0_eq bit_take_bit_iff bot_apply bot_bool_def)

lemma aligned_PTE2PA [simp]: "aligned 12 (PTE2PA e)"
proof -
  have "take_bit 12 (PTE2PA e) = 0"
    by (rule bit_word_eqI) (simp add: bit_take_bit_iff bit_PTE2PA)
  then show ?thesis by (simp add: aligned_def)
qed

lemma PTE2PA_PA2PTE:
  assumes "aligned 12 p" "take_bit 10 f = f"
  shows "PTE2PA (PA2PTE p OR f) = p"
proof (rule bit_word_eqI)
  fix n assume n: "n < LENGTH(64)"
  have f: "\<not> bit f k" if "10 \<le> k" for k
    using assms(2) that by (metis bit_take_bit_iff not_less)
  show "bit (PTE2PA (PA2PTE p OR f)) n = bit p n"
  proof (cases "n < 12")
    case True
    then show ?thesis using aligned_bit [OF assms(1) True] by (simp add: bit_PTE2PA)
  next
    case False
    then have "n - 2 + 2 = n" "10 \<le> n - 2" by auto
    then show ?thesis using False n f [of "n - 2"] by (simp add: bit_PTE2PA bit_or_iff bit_PA2PTE)
  qed
qed

lemma PTE_FLAGS_take: "PTE_FLAGS e = take_bit 10 e"
proof -
  have "(0x3FF :: u64) = mask 10" by (simp add: mask_eq_exp_minus_1)
  then show ?thesis by (simp only: PTE_FLAGS_def take_bit_eq_mask)
qed

lemma PTE_FLAGS_PA2PTE:
  assumes "take_bit 10 f = f"
  shows "PTE_FLAGS (PA2PTE p OR f) = f"
proof (rule bit_word_eqI)
  fix n assume "n < LENGTH(64)"
  have "bit f n \<longleftrightarrow> n < 10 \<and> bit f n" using assms by (metis bit_take_bit_iff)
  then show "bit (PTE_FLAGS (PA2PTE p OR f)) n = bit f n"
    by (auto simp: PTE_FLAGS_take bit_take_bit_iff bit_or_iff bit_PA2PTE)
qed

lemma valid_PA2PTE: "valid (PA2PTE p OR f) \<longleftrightarrow> valid f"
  by (simp add: valid_bit bit_or_iff bit_PA2PTE)

lemma PX_lt: "PX l va < 512"
proof -
  have "(0x1FF :: u64) = mask 9" by (simp add: mask_eq_exp_minus_1)
  then have "PX l va = take_bit 9 (drop_bit (12 + 9 * l) va)"
    by (simp add: PX_def take_bit_eq_mask)
  then have "unat (PX l va) = take_bit 9 (unat (drop_bit (12 + 9 * l) va))"
    by (simp only: unsigned_take_bit_eq)
  then have "unat (PX l va) < 512" using take_bit_nat_less_exp [of 9] by simp
  then show ?thesis by (simp add: word_less_nat_alt)
qed

definition entry :: "memory \<Rightarrow> u64 \<Rightarrow> u64 \<Rightarrow> u64" where
  "entry m p i = load64 m (p + 8 * i)"

lemma unat_index: "i < (512 :: u64) \<Longrightarrow> unat (8 * i) = 8 * unat i \<and> unat i < 512"
  by (simp add: unat_word_ariths word_less_nat_alt)

lemma in_page_entry: "i < 512 \<Longrightarrow> j < 8 \<Longrightarrow> in_page p (p + 8 * i + of_nat j)"
proof -
  assume i: "i < 512" and j: "j < 8"
  have "unat (8 * i) = 8 * unat i" "unat i < 512" using unat_index [OF i] by auto
  then have "unat (8 * i + of_nat j) = 8 * unat i + j"
    using j by (subst unat_add_lt) auto
  then show ?thesis using \<open>unat i < 512\<close> j by (simp add: in_page_def add.assoc)
qed

lemma entry_frame: "i < 512 \<Longrightarrow> (\<And>a. in_page p a \<Longrightarrow> m' a = m a) \<Longrightarrow> entry m' p i = entry m p i"
  unfolding entry_def by (rule load64_cong) (simp add: in_page_entry)

lemma aligned_entry: "aligned 12 p \<Longrightarrow> aligned 3 (p + 8 * i)"
proof -
  assume "aligned 12 p"
  moreover have "aligned 3 (8 * i)"
    using le_imp_power_dvd [of 3 64 "2 :: nat"]
    by (simp add: aligned_dvd unat_word_ariths dvd_mod)
  ultimately show ?thesis using aligned_mono by (intro aligned_add) simp_all
qed

lemma entry_store:
  assumes "aligned 12 p" "aligned 12 q" "i < 512" "j < 512"
  shows "entry (store64 (p + 8 * i) v m) q j = (if q = p \<and> j = i then v else entry m q j)"
proof (cases "p + 8 * i = q + 8 * j")
  case True
  have "p + of_nat (unat (8 * i)) = q + of_nat (unat (8 * j))" using True by simp
  with aligned_block [of 12 p q "unat (8 * i)" "unat (8 * j)"] assms unat_index [of i] unat_index [of j]
  have "p = q" by simp
  with True have "8 * i = 8 * j" by simp
  then have "unat i = unat j" using unat_index [of i] unat_index [of j] assms by (metis mult_cancel1 zero_neq_numeral)
  then have "i = j" by (rule unsigned_word_eqI)
  then show ?thesis using \<open>p = q\<close> by (simp add: entry_def load64_store64_same)
next
  case False
  then show ?thesis
    using assms by (auto simp: entry_def load64_store64_other aligned_entry)
qed

lemma store_entry_other:
  assumes "i < 512" "\<not> in_page p a"
  shows "store64 (p + 8 * i) v m a = m a"
proof -
  have "\<not> unat (a - (p + 8 * i)) < 8"
  proof
    assume lt: "unat (a - (p + 8 * i)) < 8"
    have "p + 8 * i + of_nat (unat (a - (p + 8 * i))) = a" by simp
    with in_page_entry [OF assms(1) lt, of p] assms(2) show False by simp
  qed
  then show ?thesis by (simp add: store64_def)
qed

subsection \<open>The tree of tables\<close>

definition child :: "memory \<Rightarrow> u64 \<Rightarrow> u64 \<Rightarrow> u64 option" where
  "child m p i = (if valid (entry m p i) then Some (PTE2PA (entry m p i)) else None)"

primrec tables :: "nat \<Rightarrow> memory \<Rightarrow> u64 \<Rightarrow> u64 set" where
  "tables 0 m p = {p}"
| "tables (Suc l) m p = insert p (\<Union>i \<in> {i. i < 512}. case child m p i of None \<Rightarrow> {} | Some c \<Rightarrow> tables l m c)"

text \<open>An entry that points to a table of the next level has none of the R, W and X bits.\<close>

definition pointer :: "u64 \<Rightarrow> bool" where
  "pointer e \<longleftrightarrow> e AND (PTE_R OR PTE_W OR PTE_X) = 0"

lemma pointer_PA2PTE: "pointer (PA2PTE p OR PTE_V)"
proof -
  have e: "PTE_R = 2 ^ 1" "PTE_W = 2 ^ 2" "PTE_X = 2 ^ 3" by (simp_all add: PTE_R_def PTE_W_def PTE_X_def)
  have "bit (PTE_R OR PTE_W OR PTE_X) n \<longleftrightarrow> n \<in> {1, 2, 3}" for n
    unfolding e bit_or_iff bit_exp_iff by auto
  then show ?thesis
    unfolding pointer_def by (intro bit_word_eqI) (auto simp: bit_and_iff bit_or_iff bit_PA2PTE PTE_V_def bit_1_iff)
qed

primrec wf_pt :: "nat \<Rightarrow> (u64 \<Rightarrow> bool) \<Rightarrow> memory \<Rightarrow> u64 \<Rightarrow> bool" where
  "wf_pt 0 ok m p \<longleftrightarrow> ok p"
| "wf_pt (Suc l) ok m p \<longleftrightarrow> ok p \<and>
     (\<forall>i c. i < 512 \<longrightarrow> child m p i = Some c \<longrightarrow>
        wf_pt l ok m c \<and> p \<notin> tables l m c \<and> pointer (entry m p i)) \<and>
     (\<forall>i j c d. i < 512 \<longrightarrow> j < 512 \<longrightarrow> i \<noteq> j \<longrightarrow> child m p i = Some c \<longrightarrow> child m p j = Some d \<longrightarrow>
        tables l m c \<inter> tables l m d = {})"

primrec leaf :: "nat \<Rightarrow> memory \<Rightarrow> u64 \<Rightarrow> u64 \<Rightarrow> u64" where
  "leaf 0 m p va = entry m p (PX 0 va)"
| "leaf (Suc l) m p va = (case child m p (PX (Suc l) va) of None \<Rightarrow> 0 | Some c \<Rightarrow> leaf l m c va)"

text \<open>The address of the last-level entry, when every table on the way exists.\<close>

primrec slot :: "nat \<Rightarrow> memory \<Rightarrow> u64 \<Rightarrow> u64 \<Rightarrow> u64 option" where
  "slot 0 m p va = Some (p + 8 * PX 0 va)"
| "slot (Suc l) m p va = (case child m p (PX (Suc l) va) of None \<Rightarrow> None | Some c \<Rightarrow> slot l m c va)"

definition agree :: "u64 set \<Rightarrow> memory \<Rightarrow> memory \<Rightarrow> bool" where
  "agree P m m' \<longleftrightarrow> (\<forall>p \<in> P. \<forall>a. in_page p a \<longrightarrow> m' a = m a)"

definition differ_in :: "u64 set \<Rightarrow> memory \<Rightarrow> memory \<Rightarrow> bool" where
  "differ_in P m m' \<longleftrightarrow> (\<forall>a. (\<forall>p \<in> P. \<not> in_page p a) \<longrightarrow> m' a = m a)"

lemma agree_mono: "agree P m m' \<Longrightarrow> R \<subseteq> P \<Longrightarrow> agree R m m'"
  by (auto simp: agree_def)

lemma differ_in_refl [simp]: "differ_in P m m"
  by (simp add: differ_in_def)

lemma differ_in_trans: "differ_in P m m' \<Longrightarrow> differ_in R m' m'' \<Longrightarrow> differ_in (P \<union> R) m m''"
  by (auto simp: differ_in_def)

lemma differ_in_mono: "differ_in P m m' \<Longrightarrow> P \<subseteq> R \<Longrightarrow> differ_in R m m'"
  by (auto simp: differ_in_def)

lemma differ_in_agree:
  assumes "differ_in P m m'" "P \<inter> R = {}" "\<And>p. p \<in> P \<union> R \<Longrightarrow> aligned 12 p"
  shows "agree R m m'"
  unfolding agree_def
proof (intro ballI allI impI)
  fix r a assume r: "r \<in> R" "in_page r a"
  have "\<not> in_page p a" if "p \<in> P" for p
    using in_page_disjoint [of r p a] that r assms by auto
  then show "m' a = m a" using assms(1) by (auto simp: differ_in_def)
qed

lemma child_frame: "i < 512 \<Longrightarrow> agree {p} m m' \<Longrightarrow> child m' p i = child m p i"
  using entry_frame [of i p m' m] by (simp add: child_def agree_def)

lemma agree_child:
  assumes "agree (tables (Suc l) m p) m m'" "i < 512"
  shows "child m' p i = child m p i" "child m p i = Some c \<Longrightarrow> agree (tables l m c) m m'"
proof -
  show "child m' p i = child m p i"
    by (rule child_frame [OF assms(2)]) (rule agree_mono [OF assms(1)], simp)
  show "agree (tables l m c) m m'" if "child m p i = Some c"
    by (rule agree_mono [OF assms(1)]) (use that assms(2) in \<open>auto intro!: bexI [of _ i]\<close>)
qed

lemma tables_frame: "agree (tables l m p) m m' \<Longrightarrow> tables l m' p = tables l m p"
proof (induction l arbitrary: p)
  case (Suc l)
  have "(case child m' p i of None \<Rightarrow> {} | Some c \<Rightarrow> tables l m' c) =
        (case child m p i of None \<Rightarrow> {} | Some c \<Rightarrow> tables l m c)" if "i < 512" for i
    using agree_child [OF Suc.prems that] Suc.IH by (simp split: option.split)
  then show ?case by simp
qed simp

lemma leaf_frame: "agree (tables l m p) m m' \<Longrightarrow> leaf l m' p va = leaf l m p va"
proof (induction l arbitrary: p)
  case 0
  then show ?case using entry_frame [OF PX_lt, of p m' m] by (simp add: agree_def)
next
  case (Suc l)
  show ?case using agree_child [OF Suc.prems PX_lt] Suc.IH by (simp split: option.split)
qed

lemma slot_frame: "agree (tables l m p) m m' \<Longrightarrow> slot l m' p va = slot l m p va"
proof (induction l arbitrary: p)
  case (Suc l)
  show ?case using agree_child [OF Suc.prems PX_lt] Suc.IH by (simp split: option.split)
qed simp

lemma wf_pt_frame: "wf_pt l ok m p \<Longrightarrow> agree (tables l m p) m m' \<Longrightarrow> wf_pt l ok m' p"
proof (induction l arbitrary: p)
  case (Suc l)
  have c: "child m' p i = child m p i" if "i < 512" for i
    using agree_child(1) [OF Suc.prems(2) that] .
  have t: "tables l m' c = tables l m c" if "i < 512" "child m p i = Some c" for i c
    using agree_child(2) [OF Suc.prems(2) that] by (rule tables_frame)
  have w: "wf_pt l ok m' c" if "i < 512" "child m p i = Some c" for i c
    using Suc.IH agree_child(2) [OF Suc.prems(2) that] Suc.prems(1) that by auto
  have e: "entry m' p i = entry m p i" if "i < 512" for i
    by (rule entry_frame [OF that]) (use Suc.prems(2) in \<open>auto simp: agree_def\<close>)
  have 1: "\<forall>i c. i < 512 \<longrightarrow> child m' p i = Some c \<longrightarrow>
      wf_pt l ok m' c \<and> p \<notin> tables l m' c \<and> pointer (entry m' p i)"
    using Suc.prems(1) c t w e by auto
  have "tables l m' c \<inter> tables l m' d = {}"
    if "i < 512" "j < 512" "i \<noteq> j" "child m' p i = Some c" "child m' p j = Some d" for i j c d
    using that Suc.prems(1) c [of i] c [of j] t [of i c] t [of j d] by auto
  then show ?case using Suc.prems(1) 1 by auto
qed simp

lemma root_in_tables [simp]: "p \<in> tables l m p"
  by (cases l) simp_all

lemma in_tables_Suc:
  "x \<in> tables (Suc l) m p \<longleftrightarrow> x = p \<or> (\<exists>i c. i < 512 \<and> child m p i = Some c \<and> x \<in> tables l m c)"
  by (auto split: option.splits)

lemma wf_pt_ok: "wf_pt l ok m p \<Longrightarrow> q \<in> tables l m p \<Longrightarrow> ok q"
proof (induction l arbitrary: p)
  case (Suc l)
  then consider "q = p" | i c where "i < 512" "child m p i = Some c" "q \<in> tables l m c"
    by (auto split: option.splits)
  then show ?case using Suc by cases auto
qed simp

lemma wf_pt_child:
  assumes "wf_pt (Suc l) ok m p" "i < 512" "child m p i = Some c"
  shows "wf_pt l ok m c" "p \<notin> tables l m c" "tables l m c \<subseteq> tables (Suc l) m p" "p \<noteq> c"
    "pointer (entry m p i)"
proof -
  show "wf_pt l ok m c" "p \<notin> tables l m c" "pointer (entry m p i)" using assms by auto
  then show "p \<noteq> c" by auto
  show "tables l m c \<subseteq> tables (Suc l) m p" using assms(2,3) by (auto intro!: bexI [of _ i])
qed

lemma leaf_slot: "leaf l m p va = (case slot l m p va of None \<Rightarrow> 0 | Some a \<Rightarrow> load64 m a)"
  by (induction l arbitrary: p) (auto simp: entry_def split: option.split)

subsection \<open>Changes of the tree\<close>

lemma update_child:
  assumes wf: "wf_pt (Suc l) ok m p" and i: "i < 512" and c: "child m p i = Some c"
    and al: "\<And>q. ok q \<Longrightarrow> aligned 12 q"
    and diff: "differ_in (tables l m c \<union> N) m m'"
    and N: "N \<inter> tables (Suc l) m p = {}" "\<And>q. q \<in> N \<Longrightarrow> ok q"
    and wf': "wf_pt l ok m' c" and sub: "tables l m' c \<subseteq> tables l m c \<union> N"
    and mono: "tables l m c \<subseteq> tables l m' c"
  shows "child m' p j = child m p j \<or> 512 \<le> j"
    and "tables (Suc l) m' p = tables (Suc l) m p \<union> tables l m' c"
    and "wf_pt (Suc l) ok m' p"
    and "leaf (Suc l) m' p va = (if PX (Suc l) va = i then leaf l m' c va else leaf (Suc l) m p va)"
    and "slot (Suc l) m' p va = (if PX (Suc l) va = i then slot l m' c va else slot (Suc l) m p va)"
proof -
  note wc = wf_pt_child [OF wf i c]
  have okt: "q \<in> tables (Suc l) m p \<Longrightarrow> ok q" for q using wf_pt_ok [OF wf] .
  have agr: "agree R m m'" if "R \<subseteq> tables (Suc l) m p" "R \<inter> tables l m c = {}" for R
    by (rule differ_in_agree [OF diff]) (use that N wc(3) okt al in blast)+
  have chl: "child m' p k = child m p k" if "k < 512" for k
    by (rule child_frame [OF that], rule agr) (use wc in auto)
  then show "child m' p j = child m p j \<or> 512 \<le> j" by (meson not_le)
  have disj: "tables l m d \<inter> tables l m c = {}" if "k < 512" "child m p k = Some d" "k \<noteq> i" for k d
    using wf that i c by simp
  have oth: "agree (tables l m d) m m'" if "k < 512" "child m p k = Some d" "k \<noteq> i" for k d
    by (rule agr) (use wf_pt_child(3) [OF wf that(1,2)] disj [OF that] in auto)
  have td: "tables l m' d = tables l m d" "wf_pt l ok m' d"
    if "k < 512" "child m p k = Some d" "k \<noteq> i" for k d
    using tables_frame [OF oth [OF that]] wf_pt_frame [OF wf_pt_child(1) [OF wf that(1,2)] oth [OF that]]
    by auto
  show T: "tables (Suc l) m' p = tables (Suc l) m p \<union> tables l m' c"
  proof (rule set_eqI)
    fix x
    have e: "x \<in> tables (Suc l) m' p \<longleftrightarrow>
        x = p \<or> (\<exists>k d. k < 512 \<and> child m p k = Some d \<and> x \<in> tables l m' d)"
      unfolding in_tables_Suc using chl by metis
    have k: "x \<in> tables l m' d \<longleftrightarrow> (if k = i then x \<in> tables l m' c else x \<in> tables l m d)"
      if "k < 512" "child m p k = Some d" for k d
      using td(1) [OF that] that(2) c by auto
    have "x \<in> tables (Suc l) m p \<union> tables l m' c" if "x \<in> tables (Suc l) m' p"
    proof -
      from that consider "x = p" | k d where "k < 512" "child m p k = Some d" "x \<in> tables l m' d"
        by (auto simp only: e)
      then show ?thesis
      proof cases
        case (2 k d)
        then show ?thesis using k [OF 2(1,2)] in_tables_Suc [of x l m p] by (cases "k = i") auto
      qed simp
    qed
    moreover have "x \<in> tables (Suc l) m' p" if x: "x \<in> tables (Suc l) m p"
    proof -
      from x consider "x = p" | k d where "k < 512" "child m p k = Some d" "x \<in> tables l m d"
        by (auto simp only: in_tables_Suc)
      then show ?thesis
      proof cases
        case (2 k d)
        then have "x \<in> tables l m' d" using td(1) [OF 2(1,2)] mono c by (cases "k = i") auto
        then show ?thesis unfolding e using 2 by blast
      qed simp
    qed
    moreover have "x \<in> tables (Suc l) m' p" if "x \<in> tables l m' c"
      using that i c unfolding e by blast
    ultimately show "x \<in> tables (Suc l) m' p \<longleftrightarrow> x \<in> tables (Suc l) m p \<union> tables l m' c" by blast
  qed
  have pN: "p \<notin> N" "\<And>k d. k < 512 \<Longrightarrow> child m p k = Some d \<Longrightarrow> tables l m d \<inter> N = {}"
    using N(1) wf_pt_child(3) [OF wf] root_in_tables [of p "Suc l" m] by blast+
  have ent: "entry m' p k = entry m p k" if "k < 512" for k
    by (rule entry_frame [OF that]) (use agr [of "{p}"] wc in \<open>auto simp: agree_def\<close>)
  have "wf_pt l ok m' d \<and> p \<notin> tables l m' d \<and> pointer (entry m' p k)"
    if "k < 512" "child m' p k = Some d" for k d
    using that chl [OF that(1)] c wf' sub pN(1) wc(2) td [of k d] wf_pt_child(2,5) [OF wf that(1)] ent [OF that(1)]
    by (cases "k = i") auto
  moreover have "tables l m' d \<inter> tables l m' e = {}"
    if k: "k < 512" "k' < 512" "k \<noteq> k'" "child m' p k = Some d" "child m' p k' = Some e" for k k' d e
  proof -
    have de: "child m p k = Some d" "child m p k' = Some e" using k chl by auto
    have 0: "tables l m d \<inter> tables l m e = {}" using wf k de by simp
    consider "k = i" | "k' = i" | "k \<noteq> i" "k' \<noteq> i" by blast
    then show ?thesis
    proof cases
      case 1
      then have "d = c" using de c by simp
      then show ?thesis
        using td [OF k(2) de(2)] 1 k(3) sub 0 pN(2) [OF k(2) de(2)] by auto
    next
      case 2
      then have "e = c" using de c by simp
      then show ?thesis
        using td [OF k(1) de(1)] 2 k(3) sub 0 pN(2) [OF k(1) de(1)] by auto
    next
      case 3
      then show ?thesis using td [OF k(1) de(1)] td [OF k(2) de(2)] 0 by simp
    qed
  qed
  ultimately show "wf_pt (Suc l) ok m' p" using okt by auto
  show "leaf (Suc l) m' p va = (if PX (Suc l) va = i then leaf l m' c va else leaf (Suc l) m p va)"
    using chl [OF PX_lt] c leaf_frame [OF oth [OF PX_lt]] by (auto split: option.split)
  show "slot (Suc l) m' p va = (if PX (Suc l) va = i then slot l m' c va else slot (Suc l) m p va)"
    using chl [OF PX_lt] c slot_frame [OF oth [OF PX_lt]] by (auto split: option.split)
qed

text \<open>A store into a last-level entry changes the translation of one page and nothing else.\<close>

definition same_path :: "nat \<Rightarrow> u64 \<Rightarrow> u64 \<Rightarrow> bool" where
  "same_path l va vb \<longleftrightarrow> (\<forall>k \<le> l. PX k va = PX k vb)"

lemma same_path_Suc: "same_path (Suc l) va vb \<longleftrightarrow> PX (Suc l) va = PX (Suc l) vb \<and> same_path l va vb"
  by (auto simp: same_path_def le_Suc_eq)

lemma slot_same_path: "same_path l va vb \<Longrightarrow> slot l m p va = slot l m p vb"
proof (induction l arbitrary: p)
  case 0
  then show ?case by (simp add: same_path_def)
next
  case (Suc l)
  then have "PX (Suc l) va = PX (Suc l) vb" "same_path l va vb" by (auto simp: same_path_Suc)
  then show ?case using Suc.IH by (auto split: option.split)
qed

lemma slot_table:
  "slot l m p va = Some a \<Longrightarrow> \<exists>q \<in> tables l m p. \<exists>i. i < 512 \<and> a = q + 8 * i"
proof (induction l arbitrary: p)
  case 0
  then show ?case using PX_lt by auto
next
  case (Suc l)
  then obtain c where c: "child m p (PX (Suc l) va) = Some c" "slot l m c va = Some a"
    by (auto split: option.splits)
  from Suc.IH [OF c(2)] obtain q i where "q \<in> tables l m c" "i < 512" "a = q + 8 * i" by auto
  then show ?case using c(1) PX_lt [of "Suc l" va] by (metis in_tables_Suc)
qed

lemma store_leaf:
  assumes "wf_pt l ok m p" "slot l m p va = Some a" "\<And>q. ok q \<Longrightarrow> aligned 12 q"
  shows "wf_pt l ok (store64 a v m) p \<and> tables l (store64 a v m) p = tables l m p \<and>
         differ_in (tables l m p) m (store64 a v m) \<and>
         (\<forall>vb. slot l (store64 a v m) p vb = slot l m p vb) \<and>
         (\<forall>vb. leaf l (store64 a v m) p vb = (if same_path l va vb then v else leaf l m p vb))"
  using assms(1,2)
proof (induction l arbitrary: p)
  case 0
  then have a: "a = p + 8 * PX 0 va" "aligned 12 p" using assms(3) by auto
  then show ?case
    using 0 store_entry_other [OF PX_lt, of p _ 0 va v m] entry_store [OF a(2,2) PX_lt PX_lt, of 0 va v m 0]
    by (auto simp: differ_in_def same_path_def)
next
  case (Suc l)
  let ?i = "PX (Suc l) va" let ?m = "store64 a v m"
  from Suc.prems(2) obtain c where c: "child m p ?i = Some c" "slot l m c va = Some a"
    by (auto split: option.splits)
  note wc = wf_pt_child [OF Suc.prems(1) PX_lt c(1)]
  note IH = Suc.IH [OF wc(1) c(2)]
  have sub: "tables l ?m c \<subseteq> tables l m c \<union> {}" "tables l m c \<subseteq> tables l ?m c" using IH by auto
  have "differ_in (tables l m c \<union> {}) m ?m" using IH by simp
  note u = update_child [OF Suc.prems(1) PX_lt c(1) assms(3) this _ _ _ sub, simplified]
  have wf': "wf_pt l ok ?m c" using IH by simp
  have "tables (Suc l) ?m p = tables (Suc l) m p" using u(2) [OF wf'] IH wc(3) by auto
  moreover have "differ_in (tables (Suc l) m p) m ?m"
    by (rule differ_in_mono [of "tables l m c"]) (use IH wc(3) in auto)
  ultimately show ?case
    using u(3-5) [OF wf'] IH c by (auto simp: same_path_Suc)
qed

text \<open>A page of zeros is an empty table of any level.\<close>

definition zeroed :: "u64 \<Rightarrow> memory \<Rightarrow> bool" where
  "zeroed q m \<longleftrightarrow> (\<forall>a. in_page q a \<longrightarrow> m a = 0)"

lemma entry_zeroed: "zeroed q m \<Longrightarrow> i < 512 \<Longrightarrow> entry m q i = 0"
  unfolding entry_def by (rule load64_zero) (simp add: zeroed_def in_page_entry)

lemma child_zeroed: "zeroed q m \<Longrightarrow> i < 512 \<Longrightarrow> child m q i = None"
  by (simp add: child_def entry_zeroed)

lemma empty_table:
  assumes "zeroed q m"
  shows "tables l m q = {q}" "ok q \<Longrightarrow> wf_pt l ok m q" "leaf l m q va = 0"
proof -
  show T: "tables l m q = {q}" for l
    by (cases l) (simp, auto simp: in_tables_Suc child_zeroed [OF assms] simp del: tables.simps)
  show "ok q \<Longrightarrow> wf_pt l ok m q" by (cases l) (simp_all add: child_zeroed [OF assms])
  show "leaf l m q va = 0"
    by (cases l) (simp_all add: child_zeroed [OF assms PX_lt] entry_zeroed [OF assms PX_lt])
qed

lemma insert_table:
  assumes wf: "wf_pt (Suc l) ok m p" and i: "i < 512" and c: "child m p i = None"
    and al: "\<And>q. ok q \<Longrightarrow> aligned 12 q"
    and q: "ok q" "q \<notin> tables (Suc l) m p" "zeroed q m"
    and m': "m' = store64 (p + 8 * i) (PA2PTE q OR PTE_V) m"
  shows "child m' p i = Some q" "j < 512 \<Longrightarrow> j \<noteq> i \<Longrightarrow> child m' p j = child m p j"
    "zeroed q m'" "tables (Suc l) m' p = insert q (tables (Suc l) m p)"
    "wf_pt (Suc l) ok m' p" "differ_in {p} m m'" "leaf (Suc l) m' p va = leaf (Suc l) m p va"
proof -
  have p: "ok p" "aligned 12 p" "aligned 12 q" "p \<noteq> q" using wf q al by auto
  show diff: "differ_in {p} m m'"
    using store_entry_other [OF i, of p] by (simp add: differ_in_def m')
  have agr: "agree R m m'" if "R \<subseteq> tables (Suc l) m p \<union> {q}" "p \<notin> R" for R
    by (rule differ_in_agree [OF diff]) (use that al wf_pt_ok [OF wf] q(1) p in blast)+
  have f: "take_bit 10 PTE_V = PTE_V" by (simp add: PTE_V_def)
  have e: "entry m' p j = (if j = i then PA2PTE q OR PTE_V else entry m p j)" if "j < 512" for j
    using entry_store [OF p(2,2) i that] by (simp add: m')
  have ci: "child m' p i = Some q"
    using e [OF i] PTE2PA_PA2PTE [OF p(3) f] by (simp add: child_def valid_PA2PTE) (simp add: valid_def PTE_V_def)
  then show "child m' p i = Some q" .
  show cj: "child m' p j = child m p j" if "j < 512" "j \<noteq> i" for j
    using e that by (simp add: child_def)
  have "agree {q} m m'" by (rule agr) (use p in auto)
  then show zq: "zeroed q m'" using q(3) by (auto simp: zeroed_def agree_def)
  note eq = empty_table [OF zq]
  have oth: "agree (tables l m d) m m'" if "k < 512" "child m p k = Some d" for k d
    by (rule agr) (use wf_pt_child [OF wf that] in auto)
  have td: "tables l m' d = tables l m d" "wf_pt l ok m' d" if "k < 512" "child m p k = Some d" for k d
    using tables_frame [OF oth [OF that]] wf_pt_frame [OF wf_pt_child(1) [OF wf that] oth [OF that]] by auto
  have cases: "k \<noteq> i \<and> child m p k = Some d \<or> k = i \<and> d = q" if "k < 512" "child m' p k = Some d" for k d
    using that ci cj [of k] by (cases "k = i") auto
  show "tables (Suc l) m' p = insert q (tables (Suc l) m p)"
  proof (rule set_eqI)
    fix x
    have "x \<in> insert q (tables (Suc l) m p)" if "x \<in> tables (Suc l) m' p"
    proof -
      from that consider "x = p" | k d where "k < 512" "child m' p k = Some d" "x \<in> tables l m' d"
        by (auto simp only: in_tables_Suc)
      then show ?thesis
      proof cases
        case (2 k d)
        then show ?thesis
          using cases [OF 2(1,2)] td(1) [of k d] eq(1) in_tables_Suc [of x l m p] by auto
      qed simp
    qed
    moreover have "x \<in> tables (Suc l) m' p" if "x \<in> tables (Suc l) m p"
    proof -
      from that consider "x = p" | k d where "k < 512" "child m p k = Some d" "x \<in> tables l m d"
        by (auto simp only: in_tables_Suc)
      then show ?thesis
      proof cases
        case (2 k d)
        then have "k \<noteq> i" using c by auto
        then show ?thesis
          using 2 cj [of k] td(1) [of k d] in_tables_Suc [of x l m' p] by auto
      qed simp
    qed
    moreover have "q \<in> tables (Suc l) m' p" using ci i in_tables_Suc [of q l m' p] by auto
    ultimately show "x \<in> tables (Suc l) m' p \<longleftrightarrow> x \<in> insert q (tables (Suc l) m p)" by blast
  qed
  have qd: "q \<notin> tables l m d" if "k < 512" "child m p k = Some d" for k d
    using q(2) wf_pt_child(3) [OF wf that] by auto
  have "wf_pt l ok m' d \<and> p \<notin> tables l m' d \<and> pointer (entry m' p k)"
    if "k < 512" "child m' p k = Some d" for k d
    using cases [OF that] td [of k d] that(1) wf_pt_child(2,5) [OF wf, of k d] eq q(1) p(4)
      e [OF that(1)] pointer_PA2PTE by auto
  moreover have "tables l m' d \<inter> tables l m' f = {}"
    if k: "k < 512" "k' < 512" "k \<noteq> k'" "child m' p k = Some d" "child m' p k' = Some f" for k k' d f
  proof -
    consider "k = i" "d = q" "child m p k' = Some f" | "k' = i" "f = q" "child m p k = Some d"
      | "child m p k = Some d" "child m p k' = Some f"
      using cases [OF k(1,4)] cases [OF k(2,5)] k(3) by auto
    then show ?thesis
    proof cases
      case 1 then show ?thesis using td(1) [OF k(2) 1(3)] qd [OF k(2) 1(3)] eq(1) by auto
    next
      case 2 then show ?thesis using td(1) [OF k(1) 2(3)] qd [OF k(1) 2(3)] eq(1) by auto
    next
      case 3 then show ?thesis using td(1) [OF k(1) 3(1)] td(1) [OF k(2) 3(2)] wf k by auto
    qed
  qed
  ultimately show "wf_pt (Suc l) ok m' p" using p(1) by auto
  show "leaf (Suc l) m' p va = leaf (Suc l) m p va"
  proof (cases "PX (Suc l) va = i")
    case True
    then show ?thesis using ci c eq(3) by simp
  next
    case False
    then show ?thesis
      using cj [OF PX_lt False] leaf_frame [OF oth [OF PX_lt]] by (auto split: option.split)
  qed
qed

subsection \<open>Walking\<close>

lemma page_aligned: "page kend p \<Longrightarrow> aligned 12 p"
  by (simp add: page_def)

lemma km_free_mem:
  assumes "km_free kend s F" "differ_in P (mem s) m" "P \<inter> F = {}" "\<And>p. p \<in> P \<Longrightarrow> page kend p"
  shows "km_free kend (s\<lparr>mem := m\<rparr>) F"
  by (rule km_free_write [OF assms(1,4)]) (use assms(2,3) in \<open>auto simp: differ_in_def\<close>)

definition pt_inv :: "u64 \<Rightarrow> nat \<Rightarrow> 'z kmst_scheme \<Rightarrow> u64 set \<Rightarrow> u64 \<Rightarrow> bool" where
  "pt_inv kend l s F p \<longleftrightarrow>
     km_free kend s F \<and> wf_pt l (page kend) (mem s) p \<and> tables l (mem s) p \<inter> F = {}"

text \<open>
  What a walk may do: take free pages, turn them into tables of the tree, and leave every
  translation and every byte outside the tree alone.
\<close>

definition walked ::
  "u64 \<Rightarrow> nat \<Rightarrow> u64 \<Rightarrow> 'z kmst_scheme \<Rightarrow> u64 set \<Rightarrow> 'z kmst_scheme \<Rightarrow> u64 set \<Rightarrow> bool" where
  "walked kend l p s F s' F' \<longleftrightarrow>
     pt_inv kend l s' F' p \<and> F' \<subseteq> F \<and>
     tables l (mem s') p = tables l (mem s) p \<union> (F - F') \<and>
     differ_in (tables l (mem s) p \<union> (F - F')) (mem s) (mem s') \<and>
     (\<forall>va. leaf l (mem s') p va = leaf l (mem s) p va) \<and>
     held s' = held s \<and> kmst.more s' = kmst.more s"

lemma walked_refl: "pt_inv kend l s F p \<Longrightarrow> walked kend l p s F s F"
  by (simp add: walked_def)

lemma walk_level_noalloc:
  "walk_level l p va False s = Some (case slot l (mem s) p va of None \<Rightarrow> 0 | Some a \<Rightarrow> a, s)"
proof (induction l arbitrary: p)
  case (Suc l)
  have e: "child (mem s) p (PX (Suc l) va) =
      (if load_pte (p + 8 * PX (Suc l) va) s AND PTE_V \<noteq> 0
       then Some (PTE2PA (load_pte (p + 8 * PX (Suc l) va) s)) else None)"
    by (simp add: child_def valid_def entry_def load_pte_def)
  show ?case using Suc.IH by (auto simp: e Let_def)
qed simp

lemma walked_up:
  assumes inv: "pt_inv kend (Suc l) s F p" and c: "child (mem s) p (PX (Suc l) va) = Some c"
    and w: "walked kend l c s F s' F'"
  shows "walked kend (Suc l) p s F s' F'"
    and "slot (Suc l) (mem s') p va = slot l (mem s') c va"
proof -
  have wf: "wf_pt (Suc l) (page kend) (mem s) p" and km: "km_free kend s F"
    and dj: "tables (Suc l) (mem s) p \<inter> F = {}" using inv by (auto simp only: pt_inv_def)
  let ?N = "F - F'"
  have "differ_in (tables l (mem s) c \<union> ?N) (mem s) (mem s')"
    and "wf_pt l (page kend) (mem s') c"
    and T: "tables l (mem s') c = tables l (mem s) c \<union> ?N"
    and lf: "leaf l (mem s') c vb = leaf l (mem s) c vb"
    and km': "km_free kend s' F'" "F' \<subseteq> F" for vb
    using w by (auto simp: walked_def pt_inv_def)
  moreover have "?N \<inter> tables (Suc l) (mem s) p = {}" using dj by blast
  moreover have "page kend q" if "q \<in> ?N" for q using kp.inv_valid [OF km] that by auto
  ultimately have u:
    "tables (Suc l) (mem s') p = tables (Suc l) (mem s) p \<union> tables l (mem s') c"
    "wf_pt (Suc l) (page kend) (mem s') p"
    "leaf (Suc l) (mem s') p vb =
       (if PX (Suc l) vb = PX (Suc l) va then leaf l (mem s') c vb else leaf (Suc l) (mem s) p vb)"
    "slot (Suc l) (mem s') p va = slot l (mem s') c va" for vb
    using update_child(2-5) [OF wf PX_lt c page_aligned, where N = ?N and m' = "mem s'"] by auto
  have sub: "tables l (mem s) c \<subseteq> tables (Suc l) (mem s) p" by (rule wf_pt_child(3) [OF wf PX_lt c])
  have T': "tables (Suc l) (mem s') p = tables (Suc l) (mem s) p \<union> ?N" using u(1) T sub by auto
  have "differ_in (tables (Suc l) (mem s) p \<union> ?N) (mem s) (mem s')"
    by (rule differ_in_mono [of "tables l (mem s) c \<union> ?N"]) (use w sub in \<open>auto simp: walked_def\<close>)
  moreover have "leaf (Suc l) (mem s') p vb = leaf (Suc l) (mem s) p vb" for vb
    using u(3) [of vb] lf [of vb] c by auto
  moreover have "tables (Suc l) (mem s') p \<inter> F' = {}" using T' dj km' by blast
  ultimately show "walked kend (Suc l) p s F s' F'"
    using w T' u(2) km' unfolding walked_def pt_inv_def by blast
  show "slot (Suc l) (mem s') p va = slot l (mem s') c va" by (rule u(4))
qed

lemma walked_trans:
  assumes "walked kend l p s F s1 F1" "walked kend l p s1 F1 s2 F2"
  shows "walked kend l p s F s2 F2"
proof -
  have F: "F2 \<subseteq> F1" "F1 \<subseteq> F" using assms by (auto simp: walked_def)
  have T1: "tables l (mem s1) p = tables l (mem s) p \<union> (F - F1)"
    and T2: "tables l (mem s2) p = tables l (mem s1) p \<union> (F1 - F2)"
    using assms by (auto simp: walked_def)
  have "differ_in (tables l (mem s) p \<union> (F - F1)) (mem s) (mem s1)"
    "differ_in (tables l (mem s1) p \<union> (F1 - F2)) (mem s1) (mem s2)"
    using assms by (simp_all add: walked_def)
  from differ_in_trans [OF this] have "differ_in (tables l (mem s) p \<union> (F - F2)) (mem s) (mem s2)"
    by (rule differ_in_mono) (use F T1 in blast)
  moreover have "tables l (mem s2) p = tables l (mem s) p \<union> (F - F2)" using T1 T2 F by blast
  ultimately show ?thesis using assms F unfolding walked_def by auto
qed

lemma new_table:
  assumes inv: "pt_inv kend (Suc l) s F p" and i: "i < 512" and c: "child (mem s) p i = None"
    and k: "kalloc s = Some (q, s1)" "q \<in> F" "km_free kend s1 (F - {q})" "km_frame q s s1"
      "\<forall>a. in_page q a \<longrightarrow> mem s1 a = 0"
    and s2: "s2 = store_pte (p + 8 * i) (PA2PTE q OR PTE_V) (zero_page q s1)"
  shows "walked kend (Suc l) p s F s2 (F - {q})" "child (mem s2) p i = Some q"
proof -
  have wf: "wf_pt (Suc l) (page kend) (mem s) p" and km: "km_free kend s F"
    and dj: "tables (Suc l) (mem s) p \<inter> F = {}" using inv by (auto simp only: pt_inv_def)
  have q: "page kend q" "q \<notin> tables (Suc l) (mem s) p" using kp.inv_valid [OF km k(2)] k(2) dj by auto
  have p: "page kend p" "p \<notin> F" using wf dj by auto
  let ?m = "mem (zero_page q s1)"
  have m: "differ_in {q} (mem s) ?m" "zeroed q ?m"
    using k(4) by (auto simp: differ_in_def zero_page_def memset_page km_frame_def zeroed_def)
  have agr: "agree (tables (Suc l) (mem s) p) (mem s) ?m"
    by (rule differ_in_agree [OF m(1)]) (use q wf_pt_ok [OF wf] page_aligned in auto)
  note fr = tables_frame [OF agr] wf_pt_frame [OF wf agr] leaf_frame [OF agr]
  have c': "child ?m p i = None" using agree_child(1) [OF agr i] c by simp
  have m2: "mem s2 = store64 (p + 8 * i) (PA2PTE q OR PTE_V) ?m" by (simp add: s2 store_pte_def)
  have "q \<notin> tables (Suc l) ?m p" using q fr(1) by simp
  note ins = insert_table [OF fr(2) i c' page_aligned q(1) this m(2) m2]
  show "child (mem s2) p i = Some q" by (rule ins(1))
  have d2: "differ_in {p, q} (mem s) (mem s2)"
    using differ_in_trans [OF m(1) ins(6)] by (simp add: insert_commute)
  have d1: "differ_in {p, q} (mem s1) (mem s2)"
    using ins(6) by (auto simp: differ_in_def zero_page_def memset_page)
  have "s2 = s1\<lparr>mem := mem s2\<rparr>" by (simp add: s2 store_pte_def zero_page_def)
  moreover have "km_free kend (s1\<lparr>mem := mem s2\<rparr>) (F - {q})"
    by (rule km_free_mem [OF k(3) d1]) (use p q in auto)
  ultimately have km2: "km_free kend s2 (F - {q})" by simp
  have T: "tables (Suc l) (mem s2) p = insert q (tables (Suc l) (mem s) p)" using ins(4) fr(1) by simp
  have "tables (Suc l) (mem s2) p \<inter> (F - {q}) = {}" unfolding T using dj by blast
  moreover have "differ_in (tables (Suc l) (mem s) p \<union> (F - (F - {q}))) (mem s) (mem s2)"
    by (rule differ_in_mono [OF d2]) (use k(2) in auto)
  moreover have "tables (Suc l) (mem s2) p = tables (Suc l) (mem s) p \<union> (F - (F - {q}))"
    unfolding T using k(2) by blast
  moreover have "held s2 = held s" "kmst.more s2 = kmst.more s"
    using k(4) by (auto simp: s2 store_pte_def zero_page_def km_frame_def)
  moreover have "leaf (Suc l) (mem s2) p va = leaf (Suc l) (mem s) p va" for va
    using ins(7) [where va = va] fr(3) [of va] by (rule trans)
  moreover have "F - {q} \<subseteq> F" by blast
  ultimately show "walked kend (Suc l) p s F s2 (F - {q})"
    using km2 ins(5) unfolding walked_def pt_inv_def by (intro conjI allI)
qed

lemma walk_level_alloc:
  assumes "pt_inv kend l s F p"
  shows "\<exists>a s' F'. walk_level l p va True s = Some (a, s') \<and> walked kend l p s F s' F' \<and>
           (a = 0 \<and> F' = {} \<or> slot l (mem s') p va = Some a)"
  using assms
proof (induction l arbitrary: s F p)
  case 0
  then show ?case using walked_refl [OF 0] by auto
next
  case (Suc l)
  let ?i = "PX (Suc l) va" let ?pte = "p + 8 * PX (Suc l) va"
  have wf: "wf_pt (Suc l) (page kend) (mem s) p" and km: "km_free kend s F"
    and dj: "tables (Suc l) (mem s) p \<inter> F = {}" using Suc.prems by (auto simp only: pt_inv_def)
  have e: "child (mem s) p ?i =
      (if load_pte ?pte s AND PTE_V \<noteq> 0 then Some (PTE2PA (load_pte ?pte s)) else None)"
    by (simp add: child_def valid_def entry_def load_pte_def)
  show ?case
  proof (cases "child (mem s) p ?i")
    case (Some c)
    have "pt_inv kend l s F c"
      using wf_pt_child(1,3) [OF wf PX_lt Some] km dj unfolding pt_inv_def by blast
    from Suc.IH [OF this] obtain a s' F' where w: "walk_level l c va True s = Some (a, s')"
        "walked kend l c s F s' F'" "a = 0 \<and> F' = {} \<or> slot l (mem s') c va = Some a" by blast
    have "walk_level (Suc l) p va True s = Some (a, s')"
      using w(1) e Some by (auto simp: Let_def split: if_splits)
    then show ?thesis using walked_up [OF Suc.prems Some w(2)] w(3) by auto
  next
    case None
    then have nv: "load_pte ?pte s AND PTE_V = 0" using e by (auto split: if_splits)
    show ?thesis
    proof (cases "F = {}")
      case True
      then have k: "kalloc s = Some (0, inc_freecnt s)" "km_free kend (inc_freecnt s) {}"
        using km_free_none [of kend s] km by auto
      have "walked kend (Suc l) p s F (inc_freecnt s) {}"
        using wf k(2) True by (auto simp: walked_def pt_inv_def simp del: wf_pt.simps leaf.simps tables.simps)
      then show ?thesis using k nv by (auto simp: Let_def)
    next
      case False
      from km_free_alloc [OF km False] obtain q s1 where q: "kalloc s = Some (q, s1)" "q \<noteq> 0" "q \<in> F"
          "km_free kend s1 (F - {q})" "km_frame q s s1" "\<forall>a. in_page q a \<longrightarrow> mem s1 a = 0" by blast
      define s2 where "s2 = store_pte ?pte (PA2PTE q OR PTE_V) (zero_page q s1)"
      note nt = new_table [OF Suc.prems PX_lt None q(1,3-6) s2_def]
      have inv2: "pt_inv kend (Suc l) s2 (F - {q}) p" using nt(1) by (simp only: walked_def)
      have "pt_inv kend l s2 (F - {q}) q"
        using wf_pt_child(1,3) [OF _ PX_lt nt(2)] inv2 unfolding pt_inv_def by blast
      from Suc.IH [OF this] obtain a s' F' where w: "walk_level l q va True s2 = Some (a, s')"
          "walked kend l q s2 (F - {q}) s' F'" "a = 0 \<and> F' = {} \<or> slot l (mem s') q va = Some a" by blast
      note up = walked_up [OF inv2 nt(2) w(2)]
      have "walk_level (Suc l) p va True s = Some (a, s')"
        using nv q(1,2) w(1) by (simp add: Let_def s2_def)
      then show ?thesis using walked_trans [OF nt(1) up(1)] up(2) w(3) by auto
    qed
  qed
qed

subsection \<open>Virtual addresses\<close>

lemma bit_PX: "bit (PX l va) n \<longleftrightarrow> n < 9 \<and> bit va (12 + 9 * l + n)"
proof -
  have "(0x1FF :: u64) = mask 9" by (simp add: mask_eq_exp_minus_1)
  then have "PX l va = take_bit 9 (drop_bit (12 + 9 * l) va)"
    by (simp add: PX_def take_bit_eq_mask)
  then show ?thesis by (simp add: bit_take_bit_iff bit_drop_bit_eq)
qed

lemma MAXVA_unat: "va < MAXVA \<longleftrightarrow> unat va < 2 ^ 38"
  by (simp add: MAXVA_def word_less_nat_alt)

lemma high_bits: "va < MAXVA \<Longrightarrow> 38 \<le> n \<Longrightarrow> \<not> bit va n"
proof -
  assume "va < MAXVA" and n: "38 \<le> n"
  then have "unat va < 2 ^ 38" by (simp add: MAXVA_unat)
  also have "(2 :: nat) ^ 38 \<le> 2 ^ n" using n by (rule power_increasing) simp
  finally have "unat va < 2 ^ n" .
  then have "\<not> bit (unat va) n" by (simp add: bit_iff_odd)
  then show ?thesis by (simp add: bit_unsigned_iff)
qed

lemma bit_PGROUNDDOWN: "bit (PGROUNDDOWN a) n \<longleftrightarrow> 12 \<le> n \<and> bit a n"
  by (auto simp: PGROUNDDOWN_push bit_push_bit_iff bit_drop_bit_eq dest: bit_imp_le_length)

lemma same_path_page:
  assumes "va < MAXVA" "vb < MAXVA"
  shows "same_path 2 va vb \<longleftrightarrow> PGROUNDDOWN va = PGROUNDDOWN vb"
proof
  assume s: "same_path 2 va vb"
  have e: "bit va (12 + 9 * k + n) = bit vb (12 + 9 * k + n)" if "k \<le> 2" "n < 9" for k n
    using s that bit_PX [of k va n] bit_PX [of k vb n] by (simp add: same_path_def)
  show "PGROUNDDOWN va = PGROUNDDOWN vb"
  proof (rule bit_word_eqI)
    fix n assume "n < LENGTH(64)"
    consider "n < 12" | k j where "n = 12 + 9 * k + j" "k \<le> 2" "j < 9" | "39 \<le> n"
    proof -
      have "12 \<le> n \<Longrightarrow> n < 39 \<Longrightarrow> n = 12 + 9 * ((n - 12) div 9) + (n - 12) mod 9" by simp
      moreover have "n < 39 \<Longrightarrow> (n - 12) div 9 \<le> 2" by auto
      ultimately show ?thesis
        using that by (metis mod_less_divisor not_less zero_less_numeral)
    qed
    then show "bit (PGROUNDDOWN va) n = bit (PGROUNDDOWN vb) n"
      by cases (use e assms high_bits in \<open>auto simp: bit_PGROUNDDOWN\<close>)
  qed
next
  assume "PGROUNDDOWN va = PGROUNDDOWN vb"
  then have "bit va n = bit vb n" if "12 \<le> n" for n
    using that by (metis bit_PGROUNDDOWN)
  then show "same_path 2 va vb"
    unfolding same_path_def by (auto intro!: bit_word_eqI simp: bit_PX)
qed

lemma PGROUNDDOWN_aligned: "aligned 12 a \<Longrightarrow> PGROUNDDOWN a = a"
proof -
  assume "aligned 12 a"
  then obtain q where "unat a = 4096 * q" by (auto simp: aligned_dvd dvd_def)
  then have "unat (PGROUNDDOWN a) = unat a" by (simp add: unat_PGROUNDDOWN)
  then show ?thesis by (rule unsigned_word_eqI)
qed

lemma PGROUNDDOWN_idem [simp]: "PGROUNDDOWN (PGROUNDDOWN a) = PGROUNDDOWN a"
  by (simp add: PGROUNDDOWN_aligned)

lemma PGROUNDDOWN_le: "PGROUNDDOWN a \<le> a"
  by (simp add: word_le_nat_alt unat_PGROUNDDOWN)

lemma PGROUNDDOWN_eq_iff:
  assumes "aligned 12 a"
  shows "PGROUNDDOWN b = a \<longleftrightarrow> unat a \<le> unat b \<and> unat b < unat a + 4096"
proof -
  obtain q where q: "unat a = 4096 * q" using assms by (auto simp: aligned_dvd dvd_def)
  have "PGROUNDDOWN b = a \<longleftrightarrow> unat (PGROUNDDOWN b) = unat a" by (auto intro: unsigned_word_eqI)
  also have "\<dots> \<longleftrightarrow> unat b div 4096 = q" using q by (simp add: unat_PGROUNDDOWN)
  also have "\<dots> \<longleftrightarrow> unat a \<le> unat b \<and> unat b < unat a + 4096" using q by auto
  finally show ?thesis .
qed

lemma slot_nonzero:
  assumes "wf_pt l (page kend) m p" "slot l m p va = Some a"
  shows "a \<noteq> 0"
proof -
  obtain q i where q: "q \<in> tables l m p" "i < 512" "a = q + 8 * i" using slot_table [OF assms(2)] by blast
  have "page kend q" using wf_pt_ok [OF assms(1) q(1)] .
  then have "q \<noteq> 0" "q < PHYSTOP" by (auto simp: page_def)
  then have "0 < unat q" "unat q < 2686451712"
    using unat_PHYSTOP by (auto simp: unat_eq_0 word_less_nat_alt) (metis not_gr_zero unat_eq_0)
  moreover have "unat (8 * i) < 4096" using unat_index [OF q(2)] by auto
  ultimately have "unat (q + of_nat (unat (8 * i))) = unat q + unat (8 * i)"
    by (intro unat_add_lt) simp
  then have "unat a \<noteq> 0" using q(3) \<open>0 < unat q\<close> by simp
  then show ?thesis by auto
qed

lemma walk_noalloc:
  assumes "va < MAXVA"
  shows "walk p va False s = Some (case slot 2 (mem s) p va of None \<Rightarrow> 0 | Some a \<Rightarrow> a, s)"
  using assms by (simp add: walk_def walk_level_noalloc)

lemma walk_found:
  assumes "wf_pt 2 (page kend) (mem s) p" "va < MAXVA" "valid (leaf 2 (mem s) p va)"
  shows "\<exists>a. walk p va False s = Some (a, s) \<and> a \<noteq> 0 \<and> slot 2 (mem s) p va = Some a \<and>
           load_pte a s = leaf 2 (mem s) p va"
proof -
  obtain a where a: "slot 2 (mem s) p va = Some a"
    using assms(3) by (cases "slot 2 (mem s) p va") (auto simp: leaf_slot)
  then show ?thesis
    using slot_nonzero [OF assms(1) a] walk_noalloc [OF assms(2), of p s]
    by (auto simp: leaf_slot load_pte_def)
qed

text \<open>The byte that user code sees at a virtual address, when it is mapped for it.\<close>

definition user_ok :: "memory \<Rightarrow> u64 \<Rightarrow> u64 \<Rightarrow> bool" where
  "user_ok m p va \<longleftrightarrow> va < MAXVA \<and> valid (leaf 2 m p va) \<and> leaf 2 m p va AND PTE_U \<noteq> 0 \<and>
     PTE2PA (leaf 2 m p va) \<noteq> 0"

definition translate :: "memory \<Rightarrow> u64 \<Rightarrow> u64 \<Rightarrow> u64" where
  "translate m p va = PTE2PA (leaf 2 m p va) + (va - PGROUNDDOWN va)"

lemma leaf_PGROUNDDOWN: "va < MAXVA \<Longrightarrow> leaf 2 m p (PGROUNDDOWN va) = leaf 2 m p va"
proof -
  assume v: "va < MAXVA"
  then have "PGROUNDDOWN va < MAXVA" using PGROUNDDOWN_le by (rule le_less_trans [rotated])
  then have "same_path 2 (PGROUNDDOWN va) va" using v by (simp add: same_path_page)
  then have "slot 2 m p (PGROUNDDOWN va) = slot 2 m p va" by (rule slot_same_path)
  then show ?thesis by (simp only: leaf_slot)
qed

lemma walkaddr_eq:
  assumes "wf_pt 2 (page kend) (mem s) p"
  shows "walkaddr p va s = Some (if user_ok (mem s) p va then PTE2PA (leaf 2 (mem s) p va) else 0, s)"
proof (cases "va < MAXVA")
  case False
  then show ?thesis by (auto simp: walkaddr_def user_ok_def not_less)
next
  case True
  have w: "walk p va False s = Some (case slot 2 (mem s) p va of None \<Rightarrow> 0 | Some a \<Rightarrow> a, s)"
    by (rule walk_noalloc [OF True])
  have nm: "\<not> MAXVA \<le> va" using True by simp
  show ?thesis
  proof (cases "slot 2 (mem s) p va")
    case None
    then show ?thesis using nm w by (simp add: walkaddr_def user_ok_def leaf_slot)
  next
    case (Some a)
    then show ?thesis
      using nm True w slot_nonzero [OF assms Some]
      by (auto simp: walkaddr_def user_ok_def leaf_slot valid_def load_pte_def)
  qed
qed

end
