(* ===== verification/XV_Vm.thy ===== *)
theory XV_Vm
  imports XV_Pagetable
begin

section \<open>Virtual memory\<close>

text \<open>
  The rest of \<^verbatim>\<open>kernel/mm/vm.c\<close> (the RISC-V build): mapping and unmapping of ranges, growing,
  shrinking, copying and freeing user address spaces, and copies between kernel and user
  memory.  \<open>uspace\<close> is the invariant of a user address space: its tables, its frames and the
  free pages are apart, and no frame is mapped twice.  A panic is the value \<open>None\<close>; where the
  code returns 0 or -1 the model returns the number.  Flushing the TLB and writing \<^verbatim>\<open>satp\<close>
  have no counterpart.
\<close>

partial_function (option) mappages_loop ::
  "u64 \<Rightarrow> u64 \<Rightarrow> u64 \<Rightarrow> u64 \<Rightarrow> u64 \<Rightarrow> 'z kmst_scheme \<Rightarrow> (int \<times> 'z kmst_scheme) option" where
  "mappages_loop pagetable a alast pa perm s = do {
     (pte, s) \<leftarrow> walk pagetable a True s;
     if pte = 0 then Some (- 1, s)
     else if load_pte pte s AND PTE_V \<noteq> 0 then None
     else do {
       let s = store_pte pte (PA2PTE pa OR perm OR PTE_V) s;
       if a = alast then Some (0, s)
       else mappages_loop pagetable (a + PGSIZE) alast (pa + PGSIZE) perm s
     }
   }"

definition mappages ::
  "u64 \<Rightarrow> u64 \<Rightarrow> u64 \<Rightarrow> u64 \<Rightarrow> u64 \<Rightarrow> 'z kmst_scheme \<Rightarrow> (int \<times> 'z kmst_scheme) option" where
  "mappages pagetable va sz pa perm s =
     (if sz = 0 then None
      else mappages_loop pagetable (PGROUNDDOWN va) (PGROUNDDOWN (va + sz - 1)) pa perm s)"

definition kvmmap ::
  "u64 \<Rightarrow> u64 \<Rightarrow> u64 \<Rightarrow> u64 \<Rightarrow> u64 \<Rightarrow> 'z kmst_scheme \<Rightarrow> 'z kmst_scheme option" where
  "kvmmap kpgtbl va pa sz perm s = do {
     (r, s) \<leftarrow> mappages kpgtbl va sz pa perm s;
     if r \<noteq> 0 then None else Some s
   }"

partial_function (option) uvmunmap_loop ::
  "u64 \<Rightarrow> u64 \<Rightarrow> u64 \<Rightarrow> u64 \<Rightarrow> bool \<Rightarrow> 'z kmst_scheme \<Rightarrow> 'z kmst_scheme option" where
  "uvmunmap_loop kend pagetable a alast do_free s =
     (if a < alast then do {
        (pte, s) \<leftarrow> walk pagetable a False s;
        ensure (pte \<noteq> 0);
        ensure (load_pte pte s AND PTE_V \<noteq> 0);
        ensure (PTE_FLAGS (load_pte pte s) \<noteq> PTE_V);
        s \<leftarrow> (if do_free then kfree kend (PTE2PA (load_pte pte s)) s else Some s);
        let s = store_pte pte 0 s;
        uvmunmap_loop kend pagetable (a + PGSIZE) alast do_free s
      }
      else Some s)"

definition uvmunmap ::
  "u64 \<Rightarrow> u64 \<Rightarrow> u64 \<Rightarrow> u64 \<Rightarrow> bool \<Rightarrow> 'z kmst_scheme \<Rightarrow> 'z kmst_scheme option" where
  "uvmunmap kend pagetable va npages do_free s =
     (if va mod PGSIZE \<noteq> 0 then None
      else uvmunmap_loop kend pagetable va (va + npages * PGSIZE) do_free s)"

definition uvmdealloc ::
  "u64 \<Rightarrow> u64 \<Rightarrow> u64 \<Rightarrow> u64 \<Rightarrow> 'z kmst_scheme \<Rightarrow> (u64 \<times> 'z kmst_scheme) option" where
  "uvmdealloc kend pagetable oldsz newsz s =
     (if oldsz \<le> newsz then Some (oldsz, s)
      else if PGROUNDUP newsz < PGROUNDUP oldsz then do {
        let npages = scast (ucast ((PGROUNDUP oldsz - PGROUNDUP newsz) div PGSIZE) :: u32);
        s \<leftarrow> uvmunmap kend pagetable (PGROUNDUP newsz) npages True s;
        Some (newsz, s)
      }
      else Some (newsz, s))"

partial_function (option) uvmalloc_loop ::
  "u64 \<Rightarrow> u64 \<Rightarrow> u64 \<Rightarrow> u64 \<Rightarrow> u64 \<Rightarrow> u64 \<Rightarrow> 'z kmst_scheme \<Rightarrow> (u64 \<times> 'z kmst_scheme) option" where
  "uvmalloc_loop kend pagetable a oldsz newsz xperm s =
     (if a < newsz then do {
        (p, s) \<leftarrow> kzalloc s;
        if p = 0 then do {
          (_, s) \<leftarrow> uvmdealloc kend pagetable a oldsz s;
          Some (0, s)
        }
        else do {
          let s = zero_page p s;
          (r, s) \<leftarrow> mappages pagetable a PGSIZE p (PTE_R OR PTE_U OR xperm) s;
          if r \<noteq> 0 then do {
            s \<leftarrow> kfree kend p s;
            (_, s) \<leftarrow> uvmdealloc kend pagetable a oldsz s;
            Some (0, s)
          }
          else uvmalloc_loop kend pagetable (a + PGSIZE) oldsz newsz xperm s
        }
      }
      else Some (newsz, s))"

definition uvmalloc ::
  "u64 \<Rightarrow> u64 \<Rightarrow> u64 \<Rightarrow> u64 \<Rightarrow> u64 \<Rightarrow> 'z kmst_scheme \<Rightarrow> (u64 \<times> 'z kmst_scheme) option" where
  "uvmalloc kend pagetable oldsz newsz xperm s =
     (if newsz < oldsz then Some (oldsz, s)
      else let oldsz = PGROUNDUP oldsz in
           uvmalloc_loop kend pagetable oldsz oldsz newsz xperm s)"

partial_function (option) freewalk_from ::
  "u64 \<Rightarrow> u64 \<Rightarrow> u64 \<Rightarrow> 'z kmst_scheme \<Rightarrow> 'z kmst_scheme option" where
  "freewalk_from kend pagetable i s =
     (if i < 512 then
        (let pte = load_pte (pagetable + 8 * i) s in
         if pte AND PTE_V \<noteq> 0 \<and> pte AND (PTE_R OR PTE_W OR PTE_X) = 0 then do {
           s \<leftarrow> freewalk_from kend (PTE2PA pte) 0 s;
           let s = store_pte (pagetable + 8 * i) 0 s;
           freewalk_from kend pagetable (i + 1) s
         }
         else if pte AND PTE_V \<noteq> 0 then None
         else freewalk_from kend pagetable (i + 1) s)
      else kfree kend pagetable s)"

definition freewalk :: "u64 \<Rightarrow> u64 \<Rightarrow> 'z kmst_scheme \<Rightarrow> 'z kmst_scheme option" where
  "freewalk kend pagetable s = freewalk_from kend pagetable 0 s"

definition uvmfree :: "u64 \<Rightarrow> u64 \<Rightarrow> u64 \<Rightarrow> 'z kmst_scheme \<Rightarrow> 'z kmst_scheme option" where
  "uvmfree kend pagetable sz s = do {
     s \<leftarrow> (if sz > 0 then uvmunmap kend pagetable 0 (PGROUNDUP sz div PGSIZE) True s else Some s);
     freewalk kend pagetable s
   }"

partial_function (option) uvmcopy_loop ::
  "u64 \<Rightarrow> u64 \<Rightarrow> u64 \<Rightarrow> u64 \<Rightarrow> u64 \<Rightarrow> 'z kmst_scheme \<Rightarrow> (int \<times> 'z kmst_scheme) option" where
  "uvmcopy_loop kend old new i sz s =
     (if i < sz then do {
        (pte, s) \<leftarrow> walk old i False s;
        ensure (pte \<noteq> 0);
        ensure (load_pte pte s AND PTE_V \<noteq> 0);
        let pa = PTE2PA (load_pte pte s);
        let flags = PTE_FLAGS (load_pte pte s);
        (p, s) \<leftarrow> kalloc s;
        if p = 0 then do {
          s \<leftarrow> uvmunmap kend new 0 (i div PGSIZE) True s;
          Some (- 1, s)
        }
        else do {
          let s = s\<lparr>mem := memmove p pa (ucast PGSIZE) (mem s)\<rparr>;
          (r, s) \<leftarrow> mappages new i PGSIZE p flags s;
          if r \<noteq> 0 then do {
            s \<leftarrow> kfree kend p s;
            s \<leftarrow> uvmunmap kend new 0 (i div PGSIZE) True s;
            Some (- 1, s)
          }
          else uvmcopy_loop kend old new (i + PGSIZE) sz s
        }
      }
      else Some (0, s))"

definition uvmcopy ::
  "u64 \<Rightarrow> u64 \<Rightarrow> u64 \<Rightarrow> u64 \<Rightarrow> 'z kmst_scheme \<Rightarrow> (int \<times> 'z kmst_scheme) option" where
  "uvmcopy kend old new sz s = uvmcopy_loop kend old new 0 sz s"

definition uvmclear :: "u64 \<Rightarrow> u64 \<Rightarrow> 'z kmst_scheme \<Rightarrow> 'z kmst_scheme option" where
  "uvmclear pagetable va s = do {
     (pte, s) \<leftarrow> walk pagetable va False s;
     ensure (pte \<noteq> 0);
     Some (store_pte pte (load_pte pte s AND NOT PTE_U) s)
   }"

definition uvmadd :: "u64 \<Rightarrow> u64 \<Rightarrow> u64 \<Rightarrow> 'z kmst_scheme \<Rightarrow> 'z kmst_scheme option" where
  "uvmadd pagetable va perm s = do {
     (pte, s) \<leftarrow> walk pagetable va False s;
     ensure (pte \<noteq> 0);
     ensure (load_pte pte s AND PTE_V \<noteq> 0);
     ensure (PTE_FLAGS (load_pte pte s) \<noteq> PTE_V);
     Some (store_pte pte (load_pte pte s OR perm) s)
   }"

partial_function (option) copyout ::
  "u64 \<Rightarrow> u64 \<Rightarrow> u64 \<Rightarrow> u64 \<Rightarrow> 'z kmst_scheme \<Rightarrow> (int \<times> 'z kmst_scheme) option" where
  "copyout pagetable dstva src len s =
     (if len > 0 then do {
        let va0 = PGROUNDDOWN dstva;
        (pa0, s) \<leftarrow> walkaddr pagetable va0 s;
        if pa0 = 0 then Some (- 1, s)
        else do {
          let n = PGSIZE - (dstva - va0);
          let n = (if n > len then len else n);
          let s = s\<lparr>mem := memmove (pa0 + (dstva - va0)) src (ucast n) (mem s)\<rparr>;
          copyout pagetable (va0 + PGSIZE) (src + n) (len - n) s
        }
      }
      else Some (0, s))"

partial_function (option) copyin ::
  "u64 \<Rightarrow> u64 \<Rightarrow> u64 \<Rightarrow> u64 \<Rightarrow> 'z kmst_scheme \<Rightarrow> (int \<times> 'z kmst_scheme) option" where
  "copyin pagetable dst srcva len s =
     (if len > 0 then do {
        let va0 = PGROUNDDOWN srcva;
        (pa0, s) \<leftarrow> walkaddr pagetable va0 s;
        if pa0 = 0 then Some (- 1, s)
        else do {
          let n = PGSIZE - (srcva - va0);
          let n = (if n > len then len else n);
          let s = s\<lparr>mem := memmove dst (pa0 + (srcva - va0)) (ucast n) (mem s)\<rparr>;
          copyin pagetable (dst + n) (va0 + PGSIZE) (len - n) s
        }
      }
      else Some (0, s))"

text \<open>The inner loop of \<^verbatim>\<open>copyinstr\<close>: whether a NUL was met, and \<open>dst\<close> and \<open>max\<close> after it.\<close>

primrec copyinstr_page ::
  "nat \<Rightarrow> u64 \<Rightarrow> u64 \<Rightarrow> u64 \<Rightarrow> memory \<Rightarrow> bool \<times> u64 \<times> u64 \<times> memory" where
  "copyinstr_page 0 p dst mx m = (False, dst, mx, m)"
| "copyinstr_page (Suc n) p dst mx m =
     (if m p = 0 then (True, dst, mx, m(dst := 0))
      else copyinstr_page n (p + 1) (dst + 1) (mx - 1) (m(dst := m p)))"

partial_function (option) copyinstr ::
  "u64 \<Rightarrow> u64 \<Rightarrow> u64 \<Rightarrow> u64 \<Rightarrow> 'z kmst_scheme \<Rightarrow> (int \<times> 'z kmst_scheme) option" where
  "copyinstr pagetable dst srcva mx s =
     (if mx > 0 then do {
        let va0 = PGROUNDDOWN srcva;
        (pa0, s) \<leftarrow> walkaddr pagetable va0 s;
        if pa0 = 0 then Some (- 1, s)
        else do {
          let n = PGSIZE - (srcva - va0);
          let n = (if n > mx then mx else n);
          let (got_null, dst, mx, m) =
            copyinstr_page (unat n) (pa0 + (srcva - va0)) dst mx (mem s);
          let s = s\<lparr>mem := m\<rparr>;
          if got_null then Some (0, s) else copyinstr pagetable dst (va0 + PGSIZE) mx s
        }
      }
      else Some (- 1, s))"

definition uvm_thread_trapframe ::
  "u64 \<Rightarrow> u64 \<Rightarrow> u64 \<Rightarrow> 'z kmst_scheme \<Rightarrow> (u64 \<times> 'z kmst_scheme) option" where
  "uvm_thread_trapframe kend pagetable idx s = do {
     (pa, s) \<leftarrow> kzalloc s;
     (r, s) \<leftarrow> mappages pagetable (THREAD_TRAPFRAME idx) PGSIZE pa (PTE_R OR PTE_W) s;
     if r < 0 then do { s \<leftarrow> kfree kend pa s; Some (0, s) } else Some (pa, s)
   }"

definition map_ustack ::
  "u64 \<Rightarrow> u64 \<Rightarrow> u64 \<Rightarrow> u32 \<Rightarrow> 'z kmst_scheme \<Rightarrow> (u64 \<times> 'z kmst_scheme) option" where
  "map_ustack kend pagetable stack_low pages s = do {
     let stack_low_aligned = PGROUNDUP stack_low;
     let stack_high = stack_low_aligned + scast ((pages + 1) * 4096);
     (sz1, s) \<leftarrow> uvmalloc kend pagetable stack_low_aligned stack_high PTE_W s;
     if sz1 = 0 then Some (0, s)
     else do { s \<leftarrow> uvmclear pagetable stack_low_aligned s; Some (sz1, s) }
   }"

partial_function (option) uvmfirst_loop ::
  "u64 \<Rightarrow> u64 \<Rightarrow> u64 \<Rightarrow> u64 \<Rightarrow> 'z kmst_scheme \<Rightarrow> 'z kmst_scheme option" where
  "uvmfirst_loop pagetable src i sz s =
     (if i < sz then do {
        (p, s) \<leftarrow> kalloc s;
        ensure (p \<noteq> 0);
        let s = zero_page p s;
        (r, s) \<leftarrow> mappages pagetable i PGSIZE p (PTE_W OR PTE_R OR PTE_X OR PTE_U) s;
        ensure (r = 0);
        let n = (if PGSIZE < sz - i then PGSIZE else sz - i);
        let s = s\<lparr>mem := memmove p (src + i) (ucast n) (mem s)\<rparr>;
        uvmfirst_loop pagetable src (i + PGSIZE) sz s
      }
      else Some s)"

definition uvmfirst :: "u64 \<Rightarrow> u64 \<Rightarrow> u32 \<Rightarrow> 'z kmst_scheme \<Rightarrow> 'z kmst_scheme option" where
  "uvmfirst pagetable src sz s = uvmfirst_loop pagetable src 0 (ucast sz) s"

subsection \<open>The page table of the kernel\<close>

definition KSTACK_PAGE :: nat where "KSTACK_PAGE = 64"

definition NTHREADS :: nat where "NTHREADS = 16 * 4"

definition KSTACK :: "nat \<Rightarrow> u64" where
  "KSTACK t = TRAMPOLINE - of_nat ((t + 1) * (KSTACK_PAGE + 1)) * PGSIZE"

text \<open>The inner loop of \<^verbatim>\<open>thread_mapstacks\<close>, for the first \<open>n\<close> pages of a stack, and the outer loop,
  for the first \<open>n\<close> threads.\<close>

primrec mapstack :: "u64 \<Rightarrow> u64 \<Rightarrow> nat \<Rightarrow> 'z kmst_scheme \<Rightarrow> 'z kmst_scheme option" where
  "mapstack kpgtbl va 0 s = Some s"
| "mapstack kpgtbl va (Suc i) s = do {
     s \<leftarrow> mapstack kpgtbl va i s;
     (pa, s) \<leftarrow> kzalloc s;
     ensure (pa \<noteq> 0);
     (r, s) \<leftarrow> mappages kpgtbl (va + of_nat i * PGSIZE) PGSIZE pa (PTE_R OR PTE_W) s;
     ensure (\<not> r < 0);
     Some s
   }"

primrec mapstacks :: "u64 \<Rightarrow> nat \<Rightarrow> 'z kmst_scheme \<Rightarrow> 'z kmst_scheme option" where
  "mapstacks kpgtbl 0 s = Some s"
| "mapstacks kpgtbl (Suc t) s = do {
     s \<leftarrow> mapstacks kpgtbl t s;
     mapstack kpgtbl (KSTACK t) KSTACK_PAGE s
   }"

definition thread_mapstacks :: "u64 \<Rightarrow> 'z kmst_scheme \<Rightarrow> 'z kmst_scheme option" where
  "thread_mapstacks kpgtbl s = mapstacks kpgtbl NTHREADS s"

definition FINISHER_BASE :: u64 where "FINISHER_BASE = 0x100000"
definition UART0 :: u64 where "UART0 = 0x10000000"
definition VIRTIO0 :: u64 where "VIRTIO0 = 0x10001000"
definition PLIC :: u64 where "PLIC = 0x0c000000"

text \<open>The addresses \<open>etext\<close> and \<open>trampoline\<close> come from the linker.\<close>

definition kvmmake :: "u64 \<Rightarrow> u64 \<Rightarrow> 'z kmst_scheme \<Rightarrow> (u64 \<times> 'z kmst_scheme) option" where
  "kvmmake etext trampoline s = do {
     (kpgtbl, s) \<leftarrow> kalloc s;
     let s = zero_page kpgtbl s;
     s \<leftarrow> kvmmap kpgtbl FINISHER_BASE FINISHER_BASE PGSIZE (PTE_R OR PTE_W) s;
     s \<leftarrow> kvmmap kpgtbl UART0 UART0 PGSIZE (PTE_R OR PTE_W) s;
     s \<leftarrow> kvmmap kpgtbl VIRTIO0 VIRTIO0 PGSIZE (PTE_R OR PTE_W) s;
     s \<leftarrow> kvmmap kpgtbl PLIC PLIC 0x400000 (PTE_R OR PTE_W) s;
     s \<leftarrow> kvmmap kpgtbl KERNBASE KERNBASE (etext - KERNBASE) (PTE_R OR PTE_X) s;
     s \<leftarrow> kvmmap kpgtbl etext etext (PHYSTOP - etext) (PTE_R OR PTE_W) s;
     s \<leftarrow> kvmmap kpgtbl TRAMPOLINE trampoline PGSIZE (PTE_R OR PTE_X) s;
     s \<leftarrow> thread_mapstacks kpgtbl s;
     Some (kpgtbl, s)
   }"

subsection \<open>Changing translations\<close>

text \<open>
  \<open>remap\<close>: the tree of tables has grown by some of the free pages, the translations are now
  \<open>L\<close>, and no byte outside the tree has changed; the half of the root table above \<^verbatim>\<open>MAXVA\<close>
  translates as before.
\<close>

definition high_same :: "u64 \<Rightarrow> 'z kmst_scheme \<Rightarrow> 'z kmst_scheme \<Rightarrow> bool" where
  "high_same root s s' \<longleftrightarrow> (\<forall>va. 256 \<le> PX 2 va \<longrightarrow> leaf 2 (mem s') root va = leaf 2 (mem s) root va)"

lemma high_same_refl [simp]: "high_same root s s"
  by (simp add: high_same_def)

lemma high_same_trans: "high_same root s s1 \<Longrightarrow> high_same root s1 s2 \<Longrightarrow> high_same root s s2"
  by (simp add: high_same_def)

lemma high_sameI: "(\<And>va. leaf 2 (mem s') root va = leaf 2 (mem s) root va) \<Longrightarrow> high_same root s s'"
  by (simp add: high_same_def)

definition remap ::
  "u64 \<Rightarrow> u64 \<Rightarrow> 'z kmst_scheme \<Rightarrow> u64 set \<Rightarrow> 'z kmst_scheme \<Rightarrow> u64 set \<Rightarrow> (u64 \<Rightarrow> u64) \<Rightarrow> bool" where
  "remap kend root s F s' F' L \<longleftrightarrow>
     pt_inv kend 2 s' F' root \<and> F' \<subseteq> F \<and>
     tables 2 (mem s') root = tables 2 (mem s) root \<union> (F - F') \<and>
     differ_in (tables 2 (mem s) root \<union> (F - F')) (mem s) (mem s') \<and>
     (\<forall>va < MAXVA. leaf 2 (mem s') root va = L va) \<and> high_same root s s' \<and>
     held s' = held s \<and> kmst.more s' = kmst.more s"

lemma remap_refl: "pt_inv kend 2 s F root \<Longrightarrow> remap kend root s F s F (leaf 2 (mem s) root)"
  by (simp add: remap_def)

lemma remap_walked:
  "walked kend 2 root s F s' F' \<Longrightarrow> remap kend root s F s' F' (leaf 2 (mem s) root)"
  by (simp add: remap_def walked_def high_same_def)

lemma remap_cong:
  "remap kend root s F s' F' L \<Longrightarrow> (\<And>va. va < MAXVA \<Longrightarrow> L va = L' va) \<Longrightarrow> remap kend root s F s' F' L'"
  by (simp add: remap_def)

lemma remap_trans:
  assumes 1: "remap kend root s F s1 F1 L1" and 2: "remap kend root s1 F1 s2 F2 L2"
  shows "remap kend root s F s2 F2 L2"
proof -
  have F: "F2 \<subseteq> F1" "F1 \<subseteq> F" using assms by (auto simp: remap_def)
  have T1: "tables 2 (mem s1) root = tables 2 (mem s) root \<union> (F - F1)"
    and T2: "tables 2 (mem s2) root = tables 2 (mem s1) root \<union> (F1 - F2)"
    using assms by (auto simp: remap_def)
  have "differ_in (tables 2 (mem s) root \<union> (F - F1)) (mem s) (mem s1)"
    "differ_in (tables 2 (mem s1) root \<union> (F1 - F2)) (mem s1) (mem s2)"
    using assms by (simp_all add: remap_def)
  from differ_in_trans [OF this] have "differ_in (tables 2 (mem s) root \<union> (F - F2)) (mem s) (mem s2)"
    by (rule differ_in_mono) (use F T1 in blast)
  moreover have "tables 2 (mem s2) root = tables 2 (mem s) root \<union> (F - F2)" using T1 T2 F by blast
  ultimately show ?thesis using assms F high_same_trans unfolding remap_def by auto
qed

lemma store_pte_sel [simp]:
  "held (store_pte a v s) = held s" "kmst.more (store_pte a v s) = kmst.more s"
  "mem (store_pte a v s) = store64 a v (mem s)" "freelist (store_pte a v s) = freelist s"
  by (simp_all add: store_pte_def)

lemma PX_low: "va < MAXVA \<Longrightarrow> PX 2 va < 256"
proof -
  assume va: "va < MAXVA"
  have "PX 2 va = take_bit 8 (PX 2 va)"
  proof (rule bit_word_eqI)
    fix n
    have "\<not> bit va (30 + n)" if "\<not> n < 8" using high_bits [OF va, of "30 + n"] that by simp
    then show "bit (PX 2 va) n = bit (take_bit 8 (PX 2 va)) n" by (auto simp: bit_take_bit_iff bit_PX)
  qed
  then have "unat (PX 2 va) = take_bit 8 (unat (PX 2 va))" by (metis unsigned_take_bit_eq)
  then have "unat (PX 2 va) < 256" by (simp add: take_bit_nat_def)
  then show ?thesis by (simp add: word_less_nat_alt)
qed

lemma remap_store:
  assumes r: "remap kend root s F s1 F1 L" and a: "slot 2 (mem s1) root va = Some a" "va < MAXVA"
  shows "remap kend root s F (store_pte a v s1) F1 (\<lambda>vb. if PGROUNDDOWN vb = PGROUNDDOWN va then v else L vb)"
proof -
  have inv: "km_free kend s1 F1" "wf_pt 2 (page kend) (mem s1) root" "tables 2 (mem s1) root \<inter> F1 = {}"
    using r by (auto simp: remap_def pt_inv_def)
  note sl = store_leaf [OF inv(2) a(1) page_aligned, where v = v]
  let ?s = "store_pte a v s1"
  have "km_free kend (s1\<lparr>mem := store64 a v (mem s1)\<rparr>) F1"
    by (rule km_free_mem [OF inv(1), of "tables 2 (mem s1) root"])
      (use sl inv wf_pt_ok [OF inv(2)] in auto)
  then have "pt_inv kend 2 ?s F1 root"
    using sl inv(3) by (simp add: pt_inv_def) (simp add: store_pte_def)
  moreover have T: "tables 2 (mem ?s) root = tables 2 (mem s1) root" using sl by simp
  moreover have "differ_in (tables 2 (mem s) root \<union> (F - F1)) (mem s) (mem ?s)"
  proof -
    have "differ_in (tables 2 (mem s) root \<union> (F - F1)) (mem s) (mem s1)"
      "differ_in (tables 2 (mem s1) root) (mem s1) (mem ?s)" using r sl by (auto simp: remap_def)
    from differ_in_trans [OF this] show ?thesis
      by (rule differ_in_mono) (use r in \<open>auto simp: remap_def\<close>)
  qed
  moreover have "leaf 2 (mem ?s) root vb = (if PGROUNDDOWN vb = PGROUNDDOWN va then v else L vb)"
    if "vb < MAXVA" for vb
    using sl that a(2) r by (auto simp: same_path_page remap_def)
  moreover have "high_same root s ?s"
  proof -
    have "\<not> same_path 2 va vb" if "256 \<le> PX 2 vb" for vb
      using that PX_low [OF a(2)] by (auto simp: same_path_def not_less dest!: spec [of _ "2 :: nat"])
    then show ?thesis using r sl by (simp add: remap_def high_same_def)
  qed
  ultimately show ?thesis using r unfolding remap_def by simp
qed

lemma map_page:
  assumes inv: "pt_inv kend 2 s F root" and va: "va < MAXVA" "\<not> valid (leaf 2 (mem s) root va)"
  shows "\<exists>a s1 F'. walk root va True s = Some (a, s1) \<and>
     (a = 0 \<and> F' = {} \<and> remap kend root s F s1 F' (leaf 2 (mem s) root) \<or>
      a \<noteq> 0 \<and> load_pte a s1 AND PTE_V = 0 \<and> (\<forall>v. remap kend root s F (store_pte a v s1) F'
        (\<lambda>vb. if PGROUNDDOWN vb = PGROUNDDOWN va then v else leaf 2 (mem s) root vb)))"
proof -
  obtain a s1 F' where w: "walk root va True s = Some (a, s1)" "walked kend 2 root s F s1 F'"
      "a = 0 \<and> F' = {} \<or> slot 2 (mem s1) root va = Some a"
    using walk_level_alloc [OF inv, of va] va(1) by (auto simp: walk_def not_le)
  note rm = remap_walked [OF w(2)]
  show ?thesis
  proof (cases "slot 2 (mem s1) root va = Some a")
    case True
    have "wf_pt 2 (page kend) (mem s1) root" using w(2) by (simp add: walked_def pt_inv_def)
    then have "a \<noteq> 0" using True by (rule slot_nonzero)
    moreover have "load_pte a s1 = leaf 2 (mem s1) root va" using True by (simp add: leaf_slot load_pte_def)
    moreover have "leaf 2 (mem s1) root va = leaf 2 (mem s) root va" using w(2) by (simp add: walked_def)
    ultimately show ?thesis using w(1) remap_store [OF rm True va(1)] va(2) by (auto simp: valid_def)
  next
    case False
    then show ?thesis using w rm by auto
  qed
qed

text \<open>The translations after mapping \<open>k\<close> pages from \<open>a\<close> on to the frames from \<open>pa\<close> on.\<close>

definition map_range :: "u64 \<Rightarrow> nat \<Rightarrow> u64 \<Rightarrow> u64 \<Rightarrow> (u64 \<Rightarrow> u64) \<Rightarrow> u64 \<Rightarrow> u64" where
  "map_range a k pa perm L vb =
     (if unat a \<le> unat vb \<and> unat vb < unat a + 4096 * k
      then PA2PTE (pa + (PGROUNDDOWN vb - a)) OR perm OR PTE_V else L vb)"

lemma map_range_0 [simp]: "map_range a 0 pa perm L = L"
  by (auto simp: map_range_def fun_eq_iff)

lemma mappages_loop_range:
  assumes "pt_inv kend 2 s F root" "aligned 12 a" "unat a + 4096 * n < 2 ^ 38"
    "\<And>va. unat a \<le> unat va \<Longrightarrow> unat va < unat a + 4096 * Suc n \<Longrightarrow> \<not> valid (leaf 2 (mem s) root va)"
  shows "\<exists>r s' F' k. mappages_loop root a (a + of_nat n * PGSIZE) pa perm s = Some (r, s') \<and>
           remap kend root s F s' F' (map_range a k pa perm (leaf 2 (mem s) root)) \<and>
           (r = 0 \<and> k = Suc n \<or> r = - 1 \<and> k \<le> n \<and> F' = {})"
  using assms
proof (induction n arbitrary: a pa s F)
  case 0
  have va: "a < MAXVA" "\<not> valid (leaf 2 (mem s) root a)" using 0 by (auto simp: MAXVA_unat)
  have pd: "PGROUNDDOWN vb = PGROUNDDOWN a \<longleftrightarrow> unat a \<le> unat vb \<and> unat vb < unat a + 4096" for vb
    using PGROUNDDOWN_eq_iff [OF 0(2), of vb] PGROUNDDOWN_aligned [OF 0(2)] by simp
  obtain b s1 F' where w: "walk root a True s = Some (b, s1)" and c:
     "b = 0 \<and> F' = {} \<and> remap kend root s F s1 F' (leaf 2 (mem s) root) \<or>
      b \<noteq> 0 \<and> load_pte b s1 AND PTE_V = 0 \<and> (\<forall>v. remap kend root s F (store_pte b v s1) F'
        (\<lambda>vb. if PGROUNDDOWN vb = PGROUNDDOWN a then v else leaf 2 (mem s) root vb))"
    using map_page [OF 0(1) va] by blast
  from c show ?case
  proof
    assume h: "b = 0 \<and> F' = {} \<and> remap kend root s F s1 F' (leaf 2 (mem s) root)"
    then have "remap kend root s F s1 F' (map_range a 0 pa perm (leaf 2 (mem s) root))"
      by auto
    then show ?case using w h by (subst mappages_loop.simps) auto
  next
    assume h: "b \<noteq> 0 \<and> load_pte b s1 AND PTE_V = 0 \<and> (\<forall>v. remap kend root s F (store_pte b v s1) F'
        (\<lambda>vb. if PGROUNDDOWN vb = PGROUNDDOWN a then v else leaf 2 (mem s) root vb))"
    let ?v = "PA2PTE pa OR perm OR PTE_V"
    have "remap kend root s F (store_pte b ?v s1) F'
        (\<lambda>vb. if PGROUNDDOWN vb = PGROUNDDOWN a then ?v else leaf 2 (mem s) root vb)" using h by blast
    then have "remap kend root s F (store_pte b ?v s1) F' (map_range a (Suc 0) pa perm (leaf 2 (mem s) root))"
    proof (rule remap_cong)
      fix vb assume "vb < MAXVA"
      show "(if PGROUNDDOWN vb = PGROUNDDOWN a then ?v else leaf 2 (mem s) root vb) =
          map_range a (Suc 0) pa perm (leaf 2 (mem s) root) vb"
        using pd [of vb] PGROUNDDOWN_aligned [OF 0(2)]
        by (cases "PGROUNDDOWN vb = a") (auto simp: map_range_def)
    qed
    then show ?case using w h by (subst mappages_loop.simps) (auto intro!: exI [of _ "Suc 0"])
  qed
next
  case (Suc n)
  have va: "a < MAXVA" "\<not> valid (leaf 2 (mem s) root a)" using Suc.prems by (auto simp: MAXVA_unat)
  have pa: "PGROUNDDOWN a = a" using PGROUNDDOWN_aligned [OF Suc.prems(2)] .
  have ua: "unat (a + PGSIZE) = unat a + 4096"
    using unat_add_lt [of a 4096] Suc.prems(3) by (simp add: PGSIZE_def)
  have ne: "a \<noteq> a + of_nat (Suc n) * PGSIZE"
  proof
    assume e: "a = a + of_nat (Suc n) * PGSIZE"
    have "unat (a + of_nat (4096 * Suc n)) = unat a + 4096 * Suc n"
      by (rule unat_add_lt) (use Suc.prems(3) in simp)
    moreover have "of_nat (4096 * Suc n) = of_nat (Suc n) * PGSIZE" by (simp add: PGSIZE_def)
    ultimately show False using e by simp
  qed
  obtain b s1 F1 where w: "walk root a True s = Some (b, s1)" and c:
     "b = 0 \<and> F1 = {} \<and> remap kend root s F s1 F1 (leaf 2 (mem s) root) \<or>
      b \<noteq> 0 \<and> load_pte b s1 AND PTE_V = 0 \<and> (\<forall>v. remap kend root s F (store_pte b v s1) F1
        (\<lambda>vb. if PGROUNDDOWN vb = PGROUNDDOWN a then v else leaf 2 (mem s) root vb))"
    using map_page [OF Suc.prems(1) va] by blast
  from c show ?case
  proof
    assume h: "b = 0 \<and> F1 = {} \<and> remap kend root s F s1 F1 (leaf 2 (mem s) root)"
    then have "remap kend root s F s1 F1 (map_range a 0 pa perm (leaf 2 (mem s) root))"
      by auto
    then show ?case using w h by (subst mappages_loop.simps) (auto intro!: exI [of _ "0 :: nat"])
  next
    assume h: "b \<noteq> 0 \<and> load_pte b s1 AND PTE_V = 0 \<and> (\<forall>v. remap kend root s F (store_pte b v s1) F1
        (\<lambda>vb. if PGROUNDDOWN vb = PGROUNDDOWN a then v else leaf 2 (mem s) root vb))"
    let ?v = "PA2PTE pa OR perm OR PTE_V" let ?s = "store_pte b ?v s1"
    have r1: "remap kend root s F ?s F1 (\<lambda>vb. if PGROUNDDOWN vb = a then ?v else leaf 2 (mem s) root vb)"
      using h pa by auto
    have lf: "leaf 2 (mem ?s) root vb = (if PGROUNDDOWN vb = a then ?v else leaf 2 (mem s) root vb)"
      if "vb < MAXVA" for vb using r1 that by (simp add: remap_def)
    have "\<exists>r s' F' k. mappages_loop root (a + PGSIZE) (a + PGSIZE + of_nat n * PGSIZE) (pa + PGSIZE) perm ?s
        = Some (r, s') \<and> remap kend root ?s F1 s' F' (map_range (a + PGSIZE) k (pa + PGSIZE) perm (leaf 2 (mem ?s) root)) \<and>
        (r = 0 \<and> k = Suc n \<or> r = - 1 \<and> k \<le> n \<and> F' = {})"
    proof (rule Suc.IH)
      show "pt_inv kend 2 ?s F1 root" using r1 by (simp add: remap_def)
      show "aligned 12 (a + PGSIZE)" using Suc.prems(2) by (rule aligned_add_PGSIZE)
      show "unat (a + PGSIZE) + 4096 * n < 2 ^ 38" using ua Suc.prems(3) by simp
      fix vb :: u64 assume vb: "unat (a + PGSIZE) \<le> unat vb" "unat vb < unat (a + PGSIZE) + 4096 * Suc n"
      then have "\<not> valid (leaf 2 (mem s) root vb)" using Suc.prems(4) [of vb] ua by simp
      moreover have "PGROUNDDOWN vb \<noteq> a" using PGROUNDDOWN_eq_iff [OF Suc.prems(2), of vb] vb ua by simp
      moreover have "vb < MAXVA"
      proof -
        have "unat vb < unat a + 4096 * Suc n + 4096" using vb ua by simp
        moreover have "unat a + 4096 * Suc n + 4096 \<le> 2 ^ 38"
        proof -
          obtain q where "unat a = 4096 * q" using Suc.prems(2) by (auto simp: aligned_dvd dvd_def)
          then have "4096 * (q + Suc n) < 4096 * 67108864" using Suc.prems(3) by simp
          then have "q + Suc n < 67108864" by (rule nat_mult_less_cancel1 [THEN iffD1, rotated]) simp
          then show ?thesis using \<open>unat a = 4096 * q\<close> by simp
        qed
        ultimately show ?thesis by (simp add: MAXVA_unat)
      qed
      ultimately show "\<not> valid (leaf 2 (mem ?s) root vb)" using lf by simp
    qed
    then obtain r s' F' k where IH:
        "mappages_loop root (a + PGSIZE) (a + PGSIZE + of_nat n * PGSIZE) (pa + PGSIZE) perm ?s = Some (r, s')"
        "remap kend root ?s F1 s' F' (map_range (a + PGSIZE) k (pa + PGSIZE) perm (leaf 2 (mem ?s) root))"
        "r = 0 \<and> k = Suc n \<or> r = - 1 \<and> k \<le> n \<and> F' = {}" by blast
    have "remap kend root s F s' F' (map_range a (Suc k) pa perm (leaf 2 (mem s) root))"
    proof (rule remap_cong [OF remap_trans [OF r1 IH(2)]])
      fix vb assume vb: "vb < MAXVA"
      have "pa + PGSIZE + (PGROUNDDOWN vb - (a + PGSIZE)) = pa + (PGROUNDDOWN vb - a)" by simp
      moreover have "PGROUNDDOWN vb = a \<longleftrightarrow> unat a \<le> unat vb \<and> unat vb < unat a + 4096"
        by (rule PGROUNDDOWN_eq_iff [OF Suc.prems(2)])
      ultimately show "map_range (a + PGSIZE) k (pa + PGSIZE) perm (leaf 2 (mem ?s) root) vb =
          map_range a (Suc k) pa perm (leaf 2 (mem s) root) vb"
        using lf [OF vb] ua by (auto simp: map_range_def simp del: store_pte_sel)
    qed
    moreover have "mappages_loop root a (a + of_nat (Suc n) * PGSIZE) pa perm s = Some (r, s')"
      using w h ne IH(1) by (subst mappages_loop.simps) (simp add: algebra_simps del: store_pte_sel)
    ultimately show ?case using IH(3) by (intro exI [of _ r] exI [of _ s'] exI [of _ F'] exI [of _ "Suc k"]) auto
  qed
qed

subsection \<open>User address spaces\<close>

definition frame_of :: "memory \<Rightarrow> u64 \<Rightarrow> u64 \<Rightarrow> u64" where
  "frame_of m root va = PTE2PA (leaf 2 m root va)"

text \<open>
  \<open>uspace kend s F root V\<close>: \<open>V\<close> are the virtual pages that own their frame; the frames are
  allocatable pages, distinct, neither free nor tables.
\<close>

definition uspace :: "u64 \<Rightarrow> 'z kmst_scheme \<Rightarrow> u64 set \<Rightarrow> u64 \<Rightarrow> u64 set \<Rightarrow> bool" where
  "uspace kend s F root V \<longleftrightarrow>
     pt_inv kend 2 s F root \<and>
     (\<forall>va \<in> V. aligned 12 va \<and> va < MAXVA \<and> valid (leaf 2 (mem s) root va) \<and>
        PTE_FLAGS (leaf 2 (mem s) root va) \<noteq> PTE_V \<and> page kend (frame_of (mem s) root va) \<and>
        frame_of (mem s) root va \<notin> F \<and> frame_of (mem s) root va \<notin> tables 2 (mem s) root) \<and>
     inj_on (frame_of (mem s) root) V"

definition frames_of :: "memory \<Rightarrow> u64 \<Rightarrow> u64 set \<Rightarrow> u64 set" where
  "frames_of m root V = frame_of m root ` V"

text \<open>The pages that belong to an address space: its tables and its frames.\<close>

definition space_pages :: "memory \<Rightarrow> u64 \<Rightarrow> u64 set \<Rightarrow> u64 set" where
  "space_pages m root V = tables 2 m root \<union> frames_of m root V"

lemma uspace_pt: "uspace kend s F root V \<Longrightarrow> pt_inv kend 2 s F root"
  by (simp add: uspace_def)

lemma uspaceD:
  assumes "uspace kend s F root V" "va \<in> V"
  shows "aligned 12 va" "va < MAXVA" "valid (leaf 2 (mem s) root va)"
    "PTE_FLAGS (leaf 2 (mem s) root va) \<noteq> PTE_V" "page kend (frame_of (mem s) root va)"
    "frame_of (mem s) root va \<notin> F" "frame_of (mem s) root va \<notin> tables 2 (mem s) root"
  using assms by (auto simp: uspace_def)

lemma space_pages_ok:
  assumes "uspace kend s F root V" "p \<in> space_pages (mem s) root V"
  shows "page kend p" "p \<notin> F"
  using assms wf_pt_ok [of 2 "page kend" "mem s" root p]
  by (auto simp: uspace_def space_pages_def frames_of_def pt_inv_def)

text \<open>Whatever else happens, an address space is safe from changes outside its pages.\<close>

lemma uspace_frame:
  assumes u: "uspace kend s F root V" and d: "differ_in P (mem s) (mem s')"
    and P: "P \<inter> space_pages (mem s) root V = {}" "\<And>p. p \<in> P \<Longrightarrow> aligned 12 p"
    and km: "km_free kend s' F'" and F': "F' \<inter> space_pages (mem s) root V = {}"
  shows "uspace kend s' F' root V \<and> tables 2 (mem s') root = tables 2 (mem s) root \<and>
         (\<forall>va. leaf 2 (mem s') root va = leaf 2 (mem s) root va) \<and>
         agree (space_pages (mem s) root V) (mem s) (mem s')"
proof -
  have ag: "agree (space_pages (mem s) root V) (mem s) (mem s')"
    by (rule differ_in_agree [OF d P(1)]) (use P(2) space_pages_ok(1) [OF u] page_aligned in blast)
  then have at: "agree (tables 2 (mem s) root) (mem s) (mem s')"
    by (rule agree_mono) (simp add: space_pages_def)
  note fr = tables_frame [OF at] leaf_frame [OF at]
  have wf: "wf_pt 2 (page kend) (mem s) root" using u by (simp add: uspace_def pt_inv_def)
  have "pt_inv kend 2 s' F' root"
    using wf_pt_frame [OF wf at] km F' fr(1) by (auto simp: pt_inv_def space_pages_def)
  moreover have "frame_of (mem s') root = frame_of (mem s) root" using fr(2) by (auto simp: frame_of_def)
  moreover have "frame_of (mem s) root va \<notin> F'" if "va \<in> V" for va
    using F' that by (auto simp: space_pages_def frames_of_def)
  ultimately show ?thesis using u fr ag by (auto simp: uspace_def)
qed

lemma uspace_remap:
  assumes u: "uspace kend s F root V" and r: "remap kend root s F s' F' L"
    and L: "\<And>va. va \<in> V \<Longrightarrow> L va = leaf 2 (mem s) root va"
  shows "uspace kend s' F' root V" "va \<in> V \<Longrightarrow> frame_of (mem s') root va = frame_of (mem s) root va"
    "agree (frames_of (mem s) root V) (mem s) (mem s')"
proof -
  have lf: "leaf 2 (mem s') root va = leaf 2 (mem s) root va" if "va \<in> V" for va
    using r L [OF that] uspaceD(2) [OF u that] by (simp add: remap_def)
  then show f: "va \<in> V \<Longrightarrow> frame_of (mem s') root va = frame_of (mem s) root va" for va
    by (simp add: frame_of_def)
  have T: "tables 2 (mem s') root = tables 2 (mem s) root \<union> (F - F')" "F' \<subseteq> F" "pt_inv kend 2 s' F' root"
    using r by (auto simp: remap_def)
  have "inj_on (frame_of (mem s') root) V"
    using u f by (auto simp: uspace_def inj_on_def)
  moreover have "frame_of (mem s') root va \<notin> tables 2 (mem s') root \<and> frame_of (mem s') root va \<notin> F'"
    if "va \<in> V" for va using T f [OF that] uspaceD(6,7) [OF u that] by auto
  ultimately show "uspace kend s' F' root V"
    unfolding uspace_def using T(3) lf f uspaceD [OF u] by auto
  have d: "differ_in (tables 2 (mem s) root \<union> (F - F')) (mem s) (mem s')" using r by (simp add: remap_def)
  show "agree (frames_of (mem s) root V) (mem s) (mem s')"
  proof (rule differ_in_agree [OF d])
    show "(tables 2 (mem s) root \<union> (F - F')) \<inter> frames_of (mem s) root V = {}"
      using uspaceD(6,7) [OF u] by (auto simp: frames_of_def)
    fix p assume "p \<in> tables 2 (mem s) root \<union> (F - F') \<union> frames_of (mem s) root V"
    moreover have "page kend q" if "q \<in> F" for q
      using u that kp.inv_valid by (auto simp: uspace_def pt_inv_def)
    ultimately show "aligned 12 p"
      using space_pages_ok(1) [OF u, of p] page_aligned by (auto simp: space_pages_def)
  qed
qed

lemma uspace_insert:
  assumes u: "uspace kend s F root V" and va: "aligned 12 va" "va < MAXVA"
    and lf: "valid (leaf 2 (mem s) root va)" "PTE_FLAGS (leaf 2 (mem s) root va) \<noteq> PTE_V"
    and f: "page kend (frame_of (mem s) root va)" "frame_of (mem s) root va \<notin> F"
      "frame_of (mem s) root va \<notin> tables 2 (mem s) root"
      "frame_of (mem s) root va \<notin> frames_of (mem s) root (V - {va})"
  shows "uspace kend s F root (insert va V)"
proof -
  have "inj_on (frame_of (mem s) root) (insert va V)"
    using u f(4) by (auto simp: uspace_def inj_on_insert frames_of_def)
  then show ?thesis using u va lf f by (auto simp: uspace_def)
qed

subsection \<open>Mapping one page, unmapping pages\<close>

lemma mappages_page:
  assumes inv: "pt_inv kend 2 s F root" and va: "aligned 12 va" "va < MAXVA"
    and nv: "\<not> valid (leaf 2 (mem s) root va)"
  shows "\<exists>r s' F'. mappages root va PGSIZE pa perm s = Some (r, s') \<and>
     (r = 0 \<and> remap kend root s F s' F'
         (\<lambda>vb. if PGROUNDDOWN vb = va then PA2PTE pa OR perm OR PTE_V else leaf 2 (mem s) root vb) \<or>
      r = - 1 \<and> F' = {} \<and> remap kend root s F s' F' (leaf 2 (mem s) root))"
proof -
  obtain q where q: "unat va = 4096 * q" using va(1) by (auto simp: aligned_dvd dvd_def)
  have lt: "unat va + 4096 \<le> 2 ^ 38" using va(2) q by (simp add: MAXVA_unat)
  have "unat (va + of_nat 4095) = unat va + 4095" by (rule unat_add_lt) (use lt in simp)
  then have last: "PGROUNDDOWN (va + PGSIZE - 1) = va"
    using va(1) by (simp add: PGROUNDDOWN_eq_iff PGSIZE_def add_diff_eq [symmetric])
  have pd: "PGROUNDDOWN va = va" by (rule PGROUNDDOWN_aligned [OF va(1)])
  have nv': "\<not> valid (leaf 2 (mem s) root vb)" if "unat va \<le> unat vb" "unat vb < unat va + 4096 * Suc 0" for vb
  proof -
    have "PGROUNDDOWN vb = va" using that va(1) by (simp add: PGROUNDDOWN_eq_iff)
    moreover have "vb < MAXVA" using that lt by (simp add: MAXVA_unat)
    ultimately show ?thesis using leaf_PGROUNDDOWN [of vb "mem s" root] nv by simp
  qed
  have lt0: "unat va + 4096 * 0 < 2 ^ 38" using lt by simp
  from mappages_loop_range [OF inv va(1) lt0 nv'] obtain r s' F' k where
      "mappages_loop root va (va + of_nat 0 * PGSIZE) pa perm s = Some (r, s')"
      and rm: "remap kend root s F s' F' (map_range va k pa perm (leaf 2 (mem s) root))"
      and c: "r = 0 \<and> k = Suc 0 \<or> r = - 1 \<and> k \<le> 0 \<and> F' = {}" by blast
  then have m: "mappages root va PGSIZE pa perm s = Some (r, s')"
    using last pd by (simp add: mappages_def PGSIZE_def)
  from c show ?thesis
  proof
    assume r: "r = 0 \<and> k = Suc 0"
    have "remap kend root s F s' F' (\<lambda>vb. if PGROUNDDOWN vb = va then PA2PTE pa OR perm OR PTE_V else leaf 2 (mem s) root vb)"
    proof (rule remap_cong [OF rm])
      fix vb
      show "map_range va k pa perm (leaf 2 (mem s) root) vb =
          (if PGROUNDDOWN vb = va then PA2PTE pa OR perm OR PTE_V else leaf 2 (mem s) root vb)"
        using PGROUNDDOWN_eq_iff [OF va(1), of vb] r by (cases "PGROUNDDOWN vb = va") (auto simp: map_range_def)
    qed
    then show ?thesis using m r by blast
  next
    assume r: "r = - 1 \<and> k \<le> 0 \<and> F' = {}"
    then have "remap kend root s F s' F' (leaf 2 (mem s) root)" using rm by simp
    then show ?thesis using m r by blast
  qed
qed

lemma aligned_PGROUNDDOWN_neq:
  "aligned 12 va \<Longrightarrow> aligned 12 vb \<Longrightarrow> vb \<noteq> va \<Longrightarrow> PGROUNDDOWN vb \<noteq> va"
  by (simp add: PGROUNDDOWN_aligned)

text \<open>One round of \<^verbatim>\<open>uvmunmap\<close> that frees the frame.\<close>

lemma unmap_page:
  assumes u: "uspace kend s F root V" and va: "va \<in> V"
  shows "\<exists>a s1. walk root va False s = Some (a, s) \<and> a \<noteq> 0 \<and> load_pte a s AND PTE_V \<noteq> 0 \<and>
     PTE_FLAGS (load_pte a s) \<noteq> PTE_V \<and> kfree kend (PTE2PA (load_pte a s)) s = Some s1 \<and>
     uspace kend (store_pte a 0 s1) (insert (frame_of (mem s) root va) F) root (V - {va}) \<and>
     tables 2 (mem (store_pte a 0 s1)) root = tables 2 (mem s) root \<and>
     differ_in (insert (frame_of (mem s) root va) (tables 2 (mem s) root)) (mem s) (mem (store_pte a 0 s1)) \<and>
     (\<forall>vb < MAXVA. leaf 2 (mem (store_pte a 0 s1)) root vb = (if PGROUNDDOWN vb = va then 0 else leaf 2 (mem s) root vb)) \<and>
     high_same root s (store_pte a 0 s1) \<and> held s1 = held s \<and> kmst.more s1 = kmst.more s"
proof -
  note d = uspaceD [OF u va]
  let ?f = "frame_of (mem s) root va"
  have wf: "wf_pt 2 (page kend) (mem s) root" and km: "km_free kend s F"
    using u by (auto simp: uspace_def pt_inv_def)
  obtain a where a: "walk root va False s = Some (a, s)" "a \<noteq> 0" "slot 2 (mem s) root va = Some a"
      "load_pte a s = leaf 2 (mem s) root va" using walk_found [OF wf d(2,3)] by blast
  have f: "PTE2PA (load_pte a s) = ?f" using a(4) by (simp add: frame_of_def)
  obtain s1 where k: "kfree kend ?f s = Some s1" "km_free kend s1 (insert ?f F)" "km_frame ?f s s1"
    using km_free_free [OF km d(5,6)] by blast
  have df: "differ_in {?f} (mem s) (mem s1)" using k(3) by (auto simp: differ_in_def km_frame_def)
  have V': "va \<notin> V - {va}" "uspace kend s F root (V - {va})"
    using u by (auto simp: uspace_def inj_on_diff)
  have fn: "?f \<notin> frames_of (mem s) root (V - {va})"
    using u va by (auto simp: uspace_def frames_of_def inj_on_def)
  have "uspace kend s1 (insert ?f F) root (V - {va}) \<and> tables 2 (mem s1) root = tables 2 (mem s) root \<and>
      (\<forall>vb. leaf 2 (mem s1) root vb = leaf 2 (mem s) root vb) \<and>
      agree (space_pages (mem s) root (V - {va})) (mem s) (mem s1)"
  proof (rule uspace_frame [OF V'(2) df])
    show "{?f} \<inter> space_pages (mem s) root (V - {va}) = {}" using d(7) fn by (auto simp: space_pages_def)
    show "insert ?f F \<inter> space_pages (mem s) root (V - {va}) = {}"
      using d(7) fn space_pages_ok(2) [OF V'(2)] by (auto simp: space_pages_def)
  qed (use d(5) k(2) page_aligned in auto)
  then have u1: "uspace kend s1 (insert ?f F) root (V - {va})"
    and T1: "tables 2 (mem s1) root = tables 2 (mem s) root"
    and L1: "\<And>vb. leaf 2 (mem s1) root vb = leaf 2 (mem s) root vb"
    and ag: "agree (space_pages (mem s) root (V - {va})) (mem s) (mem s1)" by auto
  have "slot 2 (mem s1) root va = Some a"
    using slot_frame [of 2 "mem s" root "mem s1" va] agree_mono [OF ag] a(3) by (simp add: space_pages_def)
  from remap_store [OF remap_refl [OF uspace_pt [OF u1]] this d(2), of 0]
  have r: "remap kend root s1 (insert ?f F) (store_pte a 0 s1) (insert ?f F)
      (\<lambda>vb. if PGROUNDDOWN vb = va then 0 else leaf 2 (mem s) root vb)"
    by (rule remap_cong) (use PGROUNDDOWN_aligned [OF d(1)] L1 in simp)
  have "uspace kend (store_pte a 0 s1) (insert ?f F) root (V - {va})"
  proof (rule uspace_remap(1) [OF u1 r])
    fix vb assume "vb \<in> V - {va}"
    then show "(if PGROUNDDOWN vb = va then 0 else leaf 2 (mem s) root vb) = leaf 2 (mem s1) root vb"
      using aligned_PGROUNDDOWN_neq [OF d(1), of vb] uspaceD(1) [OF u, of vb] L1 by auto
  qed
  moreover have "differ_in (insert ?f (tables 2 (mem s) root)) (mem s) (mem (store_pte a 0 s1))"
    using differ_in_trans [OF df, of "tables 2 (mem s) root" "mem (store_pte a 0 s1)"] r T1
    by (simp add: remap_def)
  moreover have "high_same root s (store_pte a 0 s1)"
    using high_same_trans [OF high_sameI [OF L1]] r by (simp add: remap_def)
  ultimately show ?thesis
    using a k d(3,4) f r T1 by (auto simp: remap_def valid_def km_frame_def simp del: store_pte_sel(3))
qed

definition vpages :: "u64 \<Rightarrow> nat \<Rightarrow> u64 set" where
  "vpages a n = set (pages_from a n)"

lemma vpages_0 [simp]: "vpages a 0 = {}"
  by (simp add: vpages_def pages_from_def)

lemma vpages_Suc: "vpages a (Suc n) = insert a (vpages (a + PGSIZE) n)"
  by (simp add: vpages_def pages_from_Suc)

lemma unat_add_PGSIZE: "unat a + 4096 * Suc n \<le> 2 ^ 38 \<Longrightarrow> unat (a + PGSIZE) = unat a + 4096"
  using unat_add_lt [of a 4096] by (simp add: PGSIZE_def)

lemma vpages_iff:
  assumes "aligned 12 a" "unat a + 4096 * n \<le> 2 ^ 38"
  shows "PGROUNDDOWN vb \<in> vpages a n \<longleftrightarrow> unat a \<le> unat vb \<and> unat vb < unat a + 4096 * n"
  using assms
proof (induction n arbitrary: a)
  case (Suc n)
  have u: "unat (a + PGSIZE) = unat a + 4096" by (rule unat_add_PGSIZE [OF Suc.prems(2)])
  have "PGROUNDDOWN vb \<in> vpages (a + PGSIZE) n \<longleftrightarrow>
      unat (a + PGSIZE) \<le> unat vb \<and> unat vb < unat (a + PGSIZE) + 4096 * n"
    by (rule Suc.IH) (use Suc.prems u aligned_add_PGSIZE in auto)
  then show ?case using PGROUNDDOWN_eq_iff [OF Suc.prems(1), of vb] u by (auto simp: vpages_Suc)
qed simp

lemma vpages_aligned: "aligned 12 a \<Longrightarrow> va \<in> vpages a n \<Longrightarrow> aligned 12 va"
  by (induction n arbitrary: a) (auto simp: vpages_Suc dest: aligned_add_PGSIZE)

lemma vpages_mem_iff:
  assumes "aligned 12 a" "unat a + 4096 * n \<le> 2 ^ 38" "aligned 12 va"
  shows "va \<in> vpages a n \<longleftrightarrow> unat a \<le> unat va \<and> unat va < unat a + 4096 * n"
  using vpages_iff [OF assms(1,2), of va] PGROUNDDOWN_aligned [OF assms(3)] by simp

lemma lt_add_pages:
  assumes "unat a + 4096 * Suc n \<le> 2 ^ 38"
  shows "a < a + of_nat (Suc n) * PGSIZE"
proof -
  have e: "a + of_nat (Suc n) * PGSIZE = a + of_nat (4096 * Suc n)" by (simp add: PGSIZE_def)
  have "unat (a + of_nat (4096 * Suc n)) = unat a + 4096 * Suc n"
    by (rule unat_add_lt) (use assms in simp)
  then show ?thesis unfolding e by (simp add: word_less_nat_alt)
qed

lemma frames_of_cong:
  "(\<And>va. va \<in> V \<Longrightarrow> leaf 2 m' root va = leaf 2 m root va) \<Longrightarrow> frames_of m' root V = frames_of m root V"
  by (simp add: frames_of_def frame_of_def)

lemma frames_of_insert: "frames_of m root (insert va V) = insert (frame_of m root va) (frames_of m root V)"
  by (simp add: frames_of_def)

lemma frames_of_empty [simp]: "frames_of m root {} = {}"
  by (simp add: frames_of_def)

lemma uvmunmap_loop_free:
  assumes "uspace kend s F root V" "aligned 12 a" "unat a + 4096 * n \<le> 2 ^ 38" "vpages a n \<subseteq> V"
  shows "\<exists>s'. uvmunmap_loop kend root a (a + of_nat n * PGSIZE) True s = Some s' \<and>
     uspace kend s' (F \<union> frames_of (mem s) root (vpages a n)) root (V - vpages a n) \<and>
     tables 2 (mem s') root = tables 2 (mem s) root \<and>
     differ_in (tables 2 (mem s) root \<union> frames_of (mem s) root (vpages a n)) (mem s) (mem s') \<and>
     (\<forall>vb < MAXVA. leaf 2 (mem s') root vb =
        (if PGROUNDDOWN vb \<in> vpages a n then 0 else leaf 2 (mem s) root vb)) \<and>
     high_same root s s' \<and> held s' = held s \<and> kmst.more s' = kmst.more s"
  using assms
proof (induction n arbitrary: s F V a)
  case 0
  then show ?case by (subst uvmunmap_loop.simps) simp
next
  case (Suc n)
  let ?P = "vpages (a + PGSIZE) n" let ?f = "frame_of (mem s) root a"
  have u: "unat (a + PGSIZE) = unat a + 4096" by (rule unat_add_PGSIZE [OF Suc.prems(3)])
  have al: "aligned 12 (a + PGSIZE)" by (rule aligned_add_PGSIZE [OF Suc.prems(2)])
  have bnd: "unat (a + PGSIZE) + 4096 * n \<le> 2 ^ 38" using u Suc.prems(3) by simp
  have aV: "a \<in> V" using Suc.prems(4) by (simp add: vpages_Suc)
  have aP: "a \<notin> ?P" using vpages_mem_iff [OF al bnd Suc.prems(2)] u by simp
  obtain b s1 where w: "walk root a False s = Some (b, s)" "b \<noteq> 0" "load_pte b s AND PTE_V \<noteq> 0"
      "PTE_FLAGS (load_pte b s) \<noteq> PTE_V" "kfree kend (PTE2PA (load_pte b s)) s = Some s1"
    and s2: "uspace kend (store_pte b 0 s1) (insert ?f F) root (V - {a})"
      "tables 2 (mem (store_pte b 0 s1)) root = tables 2 (mem s) root"
      "differ_in (insert ?f (tables 2 (mem s) root)) (mem s) (mem (store_pte b 0 s1))"
      "\<And>vb. vb < MAXVA \<Longrightarrow> leaf 2 (mem (store_pte b 0 s1)) root vb =
          (if PGROUNDDOWN vb = a then 0 else leaf 2 (mem s) root vb)"
      "held s1 = held s" "kmst.more s1 = kmst.more s" "high_same root s (store_pte b 0 s1)"
    using unmap_page [OF Suc.prems(1) aV] by blast
  let ?s2 = "store_pte b 0 s1"
  have PV: "?P \<subseteq> V - {a}" using Suc.prems(4) aP by (auto simp: vpages_Suc)
  have "frames_of (mem ?s2) root ?P = frames_of (mem s) root ?P"
  proof (rule frames_of_cong)
    fix va assume va: "va \<in> ?P"
    then have "va \<in> V" "va \<noteq> a" using PV by auto
    then show "leaf 2 (mem ?s2) root va = leaf 2 (mem s) root va"
      using s2(4) [of va] uspaceD(1,2) [OF Suc.prems(1), of va]
        aligned_PGROUNDDOWN_neq [OF Suc.prems(2), of va] by simp
  qed
  with Suc.IH [OF s2(1) al bnd PV] s2(2) obtain s' where IH:
      "uvmunmap_loop kend root (a + PGSIZE) (a + PGSIZE + of_nat n * PGSIZE) True ?s2 = Some s'"
      "uspace kend s' (insert ?f F \<union> frames_of (mem s) root ?P) root (V - {a} - ?P)"
      "tables 2 (mem s') root = tables 2 (mem s) root"
      "differ_in (tables 2 (mem s) root \<union> frames_of (mem s) root ?P) (mem ?s2) (mem s')"
      "\<And>vb. vb < MAXVA \<Longrightarrow> leaf 2 (mem s') root vb =
          (if PGROUNDDOWN vb \<in> ?P then 0 else leaf 2 (mem ?s2) root vb)"
      "held s' = held s" "kmst.more s' = kmst.more s" "high_same root ?s2 s'"
    using s2(5,6) by (auto simp del: store_pte_sel(3))
  have lt: "a < a + of_nat (Suc n) * PGSIZE" by (rule lt_add_pages [OF Suc.prems(3)])
  have e: "a + of_nat (Suc n) * PGSIZE = a + PGSIZE + of_nat n * PGSIZE" by (simp add: algebra_simps)
  have "uvmunmap_loop kend root a (a + of_nat (Suc n) * PGSIZE) True s = Some s'"
    using w lt IH(1) unfolding e by (subst uvmunmap_loop.simps) simp
  moreover have "uspace kend s' (F \<union> frames_of (mem s) root (vpages a (Suc n))) root (V - vpages a (Suc n))"
    using IH(2) by (simp add: vpages_Suc frames_of_insert Diff_insert2 [symmetric])
  moreover have "differ_in (tables 2 (mem s) root \<union> frames_of (mem s) root (vpages a (Suc n))) (mem s) (mem s')"
    by (rule differ_in_mono [OF differ_in_trans [OF s2(3) IH(4)]]) (auto simp: vpages_Suc frames_of_insert)
  moreover have "leaf 2 (mem s') root vb = (if PGROUNDDOWN vb \<in> vpages a (Suc n) then 0 else leaf 2 (mem s) root vb)"
    if "vb < MAXVA" for vb using IH(5) [OF that] s2(4) [OF that] by (auto simp: vpages_Suc)
  moreover have "high_same root s s'" by (rule high_same_trans [OF s2(7) IH(8)])
  ultimately show ?case using IH(3,6,7) by blast
qed

lemma uvmunmap_free:
  assumes "uspace kend s F root V" "aligned 12 a" "unat a + 4096 * n \<le> 2 ^ 38" "vpages a n \<subseteq> V"
  shows "\<exists>s'. uvmunmap kend root a (of_nat n) True s = Some s' \<and>
     uspace kend s' (F \<union> frames_of (mem s) root (vpages a n)) root (V - vpages a n) \<and>
     tables 2 (mem s') root = tables 2 (mem s) root \<and>
     differ_in (tables 2 (mem s) root \<union> frames_of (mem s) root (vpages a n)) (mem s) (mem s') \<and>
     (\<forall>vb < MAXVA. leaf 2 (mem s') root vb =
        (if PGROUNDDOWN vb \<in> vpages a n then 0 else leaf 2 (mem s) root vb)) \<and>
     high_same root s s' \<and> held s' = held s \<and> kmst.more s' = kmst.more s"
  using uvmunmap_loop_free [OF assms] assms(2) by (simp add: uvmunmap_def aligned12_mod)

subsection \<open>Growing and shrinking\<close>

lemma PGROUNDUP_aligned: "aligned 12 a \<Longrightarrow> unat a \<le> 2 ^ 64 - 4096 \<Longrightarrow> PGROUNDUP a = a"
proof -
  assume "aligned 12 a" and le: "unat a \<le> 2 ^ 64 - 4096"
  then obtain q where "unat a = 4096 * q" by (auto simp: aligned_dvd dvd_def)
  then have "unat (PGROUNDUP a) = unat a" using unat_PGROUNDUP [OF le] by simp
  then show ?thesis by (rule unsigned_word_eqI)
qed

lemma unat_add_pages:
  assumes "unat a + 4096 * n \<le> 2 ^ 38"
  shows "unat (a + of_nat n * PGSIZE) = unat a + 4096 * n"
proof -
  have "a + of_nat n * PGSIZE = a + of_nat (4096 * n)" by (simp add: PGSIZE_def)
  moreover have "unat (a + of_nat (4096 * n)) = unat a + 4096 * n"
    by (rule unat_add_lt) (use assms in simp)
  ultimately show ?thesis by simp
qed

lemma aligned_add_pages: "aligned 12 a \<Longrightarrow> aligned 12 (a + of_nat n * PGSIZE)"
proof (induction n)
  case (Suc n)
  then show ?case using aligned_add_PGSIZE [of "a + of_nat n * PGSIZE"] by (simp add: algebra_simps)
qed simp

definition npages :: "u64 \<Rightarrow> u64 \<Rightarrow> nat" where
  "npages lo hi = (unat (PGROUNDUP hi) - unat (PGROUNDUP lo)) div 4096"

lemma npages_add:
  assumes "lo \<le> hi" "unat hi \<le> 2 ^ 38"
  shows "unat (PGROUNDUP lo) + 4096 * npages lo hi = unat (PGROUNDUP hi)"
    "PGROUNDUP lo + of_nat (npages lo hi) * PGSIZE = PGROUNDUP hi" "unat (PGROUNDUP hi) \<le> 2 ^ 38"
proof -
  have le: "unat lo \<le> unat hi" using assms(1) by (simp add: word_le_nat_alt)
  have u: "unat (PGROUNDUP lo) = 4096 * ((unat lo + 4095) div 4096)"
    "unat (PGROUNDUP hi) = 4096 * ((unat hi + 4095) div 4096)"
    using le assms(2) by (simp_all add: unat_PGROUNDUP)
  have "(unat lo + 4095) div 4096 \<le> (unat hi + 4095) div 4096" using le by (simp add: div_le_mono)
  then show e: "unat (PGROUNDUP lo) + 4096 * npages lo hi = unat (PGROUNDUP hi)"
    unfolding npages_def u by (simp add: diff_mult_distrib2 [symmetric])
  have "(unat hi + 4095) div 4096 \<le> (2 ^ 38 + 4095) div 4096" by (rule div_le_mono) (use assms(2) in simp)
  then show b: "unat (PGROUNDUP hi) \<le> 2 ^ 38" unfolding u by simp
  show "PGROUNDUP lo + of_nat (npages lo hi) * PGSIZE = PGROUNDUP hi"
    by (rule unsigned_word_eqI) (use unat_add_pages [of "PGROUNDUP lo" "npages lo hi"] e b in simp)
qed

lemma uvmdealloc_eq:
  assumes le: "newsz \<le> oldsz" and b: "unat oldsz \<le> 2 ^ 38"
  shows "uvmdealloc kend root oldsz newsz s =
     map_option (Pair newsz) (uvmunmap kend root (PGROUNDUP newsz) (of_nat (npages newsz oldsz)) True s)"
proof -
  let ?a = "PGROUNDUP newsz" let ?b = "PGROUNDUP oldsz" let ?n = "npages newsz oldsz"
  note na = npages_add [OF le b]
  have none: "uvmunmap kend root ?a 0 True s = Some s"
    using aligned_PGROUNDUP [of newsz] by (simp add: uvmunmap_def uvmunmap_loop.simps [of _ _ ?a ?a] aligned12_mod)
  show ?thesis
  proof (cases "?a < ?b")
    case False
    then have "?n = 0" using na(1) by (simp add: word_less_nat_alt)
    then show ?thesis using none False le by (auto simp: uvmdealloc_def)
  next
    case True
    have lt: "\<not> oldsz \<le> newsz" using True le by (auto dest: order.antisym)
    have "(?b - ?a) div PGSIZE = of_nat ?n"
    proof (rule unsigned_word_eqI)
      have n: "?n \<le> 67108864" using na(1,3) by simp
      have "unat (?b - ?a) = 4096 * ?n" using True na(1) by (simp add: unat_sub word_less_nat_alt word_le_nat_alt)
      then show "unat ((?b - ?a) div PGSIZE) = unat (of_nat ?n :: u64)"
        using n by (simp add: unat_div PGSIZE_def unat_of_nat take_bit_nat_eq_self)
    qed
    moreover have "scast (ucast (of_nat ?n :: u64) :: u32) = (of_nat ?n :: u64)"
    proof -
      have "?n < 2 ^ 31" using na(1,3) by simp
      then have "sint (ucast (of_nat ?n :: u64) :: u32) = int ?n"
        by (simp add: unsigned_of_nat take_bit_nat_eq_self sint_uint signed_take_bit_eq_if_positive
            bit_iff_odd take_bit_int_eq_self)
      then show ?thesis by (simp add: scast_eq)
    qed
    ultimately have np: "scast (ucast ((?b - ?a) div PGSIZE) :: u32) = (of_nat ?n :: u64)" by simp
    show ?thesis
      unfolding uvmdealloc_def np Let_def using lt True
      by (cases "uvmunmap kend root ?a (of_nat ?n) True s") auto
  qed
qed

lemma uvmdealloc_pages:
  assumes al: "aligned 12 a" and b: "unat a + 4096 * n \<le> 2 ^ 38"
  shows "uvmdealloc kend root (a + of_nat n * PGSIZE) a s =
     map_option (Pair a) (uvmunmap kend root a (of_nat n) True s)"
proof -
  let ?b = "a + of_nat n * PGSIZE"
  have ub: "unat ?b = unat a + 4096 * n" by (rule unat_add_pages [OF b])
  have ru: "PGROUNDUP a = a" "PGROUNDUP ?b = ?b"
    using al aligned_add_pages [OF al, of n] ub b by (auto intro!: PGROUNDUP_aligned)
  have "npages a ?b = n" using ub by (simp add: npages_def ru)
  moreover have "a \<le> ?b" using ub by (simp add: word_le_nat_alt)
  ultimately show ?thesis using uvmdealloc_eq [of a ?b kend root s] ub b ru by simp
qed

text \<open>The bytes of a page, by their offset.\<close>

definition page_has :: "u64 \<Rightarrow> (u64 \<Rightarrow> u8) \<Rightarrow> memory \<Rightarrow> bool" where
  "page_has p c m \<longleftrightarrow> (\<forall>a. in_page p a \<longrightarrow> m a = c (a - p))"

lemma page_has_agree: "page_has p c m \<Longrightarrow> agree {p} m m' \<Longrightarrow> page_has p c m'"
  by (simp add: page_has_def agree_def)

lemma zeroed_has: "zeroed p m \<longleftrightarrow> page_has p (\<lambda>_. 0) m"
  by (simp add: zeroed_def page_has_def)

text \<open>
  \<open>grown\<close>: the space has the \<open>k\<close> pages from \<open>a\<close> on as well, with the flags \<open>fl\<close> and the contents
  \<open>c\<close>; every free page that is gone is a table or a frame of the space, and nothing else has
  changed.
\<close>

definition grown ::
  "u64 \<Rightarrow> u64 \<Rightarrow> 'z kmst_scheme \<Rightarrow> u64 set \<Rightarrow> u64 set \<Rightarrow> 'z kmst_scheme \<Rightarrow> u64 set \<Rightarrow> u64 \<Rightarrow> nat \<Rightarrow>
   (u64 \<Rightarrow> u64) \<Rightarrow> (u64 \<Rightarrow> u64 \<Rightarrow> u8) \<Rightarrow> bool"
where
  "grown kend root s F V s' F' a k fl c \<longleftrightarrow>
     uspace kend s' F' root (V \<union> vpages a k) \<and>
     tables 2 (mem s) root \<subseteq> tables 2 (mem s') root \<and>
     F = F' \<union> (tables 2 (mem s') root - tables 2 (mem s) root) \<union> frames_of (mem s') root (vpages a k) \<and>
     differ_in (tables 2 (mem s) root \<union> F) (mem s) (mem s') \<and>
     (\<forall>vb < MAXVA. PGROUNDDOWN vb \<notin> vpages a k \<longrightarrow> leaf 2 (mem s') root vb = leaf 2 (mem s) root vb) \<and>
     (\<forall>va \<in> vpages a k. PTE_FLAGS (leaf 2 (mem s') root va) = fl va \<and>
        page_has (frame_of (mem s') root va) (c va) (mem s')) \<and>
     held s' = held s \<and> kmst.more s' = kmst.more s"

text \<open>\<open>kept\<close>: the space is as it was, up to tables that were added to it.\<close>

definition kept ::
  "u64 \<Rightarrow> u64 \<Rightarrow> 'z kmst_scheme \<Rightarrow> u64 set \<Rightarrow> u64 set \<Rightarrow> 'z kmst_scheme \<Rightarrow> u64 set \<Rightarrow> bool" where
  "kept kend root s F V s' F' \<longleftrightarrow>
     uspace kend s' F' root V \<and> tables 2 (mem s) root \<subseteq> tables 2 (mem s') root \<and>
     F = F' \<union> (tables 2 (mem s') root - tables 2 (mem s) root) \<and>
     differ_in (tables 2 (mem s) root \<union> F) (mem s) (mem s') \<and>
     (\<forall>vb < MAXVA. leaf 2 (mem s') root vb = leaf 2 (mem s) root vb) \<and>
     held s' = held s \<and> kmst.more s' = kmst.more s"

lemma grownD:
  assumes "grown kend root s F V s' F' a k fl c"
  shows "uspace kend s' F' root (V \<union> vpages a k)"
    "tables 2 (mem s) root \<subseteq> tables 2 (mem s') root"
    "F = F' \<union> (tables 2 (mem s') root - tables 2 (mem s) root) \<union> frames_of (mem s') root (vpages a k)"
    "differ_in (tables 2 (mem s) root \<union> F) (mem s) (mem s')"
    "vb < MAXVA \<Longrightarrow> PGROUNDDOWN vb \<notin> vpages a k \<Longrightarrow> leaf 2 (mem s') root vb = leaf 2 (mem s) root vb"
    "va \<in> vpages a k \<Longrightarrow> PTE_FLAGS (leaf 2 (mem s') root va) = fl va"
    "va \<in> vpages a k \<Longrightarrow> page_has (frame_of (mem s') root va) (c va) (mem s')"
    "held s' = held s" "kmst.more s' = kmst.more s"
  using assms unfolding grown_def by blast+

lemma free_pages_ok: "pt_inv kend l s F root \<Longrightarrow> p \<in> F \<Longrightarrow> page kend p"
  using kp.inv_valid by (auto simp: pt_inv_def)

lemma grown_0: "uspace kend s F root V \<Longrightarrow> grown kend root s F V s F a 0 fl c"
  by (simp add: grown_def)

lemma grown_more:
  assumes g: "grown kend root s F V s1 F1 a k fl c"
    and u: "uspace kend s2 F2 root (V \<union> vpages a k)"
    and T: "tables 2 (mem s1) root \<subseteq> tables 2 (mem s2) root"
    and F: "F1 = F2 \<union> (tables 2 (mem s2) root - tables 2 (mem s1) root)"
    and d: "differ_in (tables 2 (mem s1) root \<union> F1) (mem s1) (mem s2)"
    and L: "\<And>vb. vb < MAXVA \<Longrightarrow> leaf 2 (mem s2) root vb = leaf 2 (mem s1) root vb"
    and h: "held s2 = held s1" "kmst.more s2 = kmst.more s1"
  shows "grown kend root s F V s2 F2 a k fl c"
proof -
  let ?P = "vpages a k"
  have u1: "uspace kend s1 F1 root (V \<union> ?P)" by (rule grownD(1) [OF g])
  have lt: "va < MAXVA" if "va \<in> ?P" for va using uspaceD(2) [OF u1] that by auto
  have fr: "frames_of (mem s2) root ?P = frames_of (mem s1) root ?P"
    by (rule frames_of_cong) (use L lt in auto)
  have d12: "differ_in (tables 2 (mem s) root \<union> F) (mem s) (mem s2)"
  proof -
    have "differ_in (tables 2 (mem s) root \<union> F) (mem s) (mem s1)" by (rule grownD(4) [OF g])
    from differ_in_trans [OF this d] show ?thesis
      by (rule differ_in_mono) (use grownD(2,3) [OF g] in blast)
  qed
  have ag: "agree (frames_of (mem s1) root (V \<union> ?P)) (mem s1) (mem s2)"
  proof (rule differ_in_agree [OF d])
    show "(tables 2 (mem s1) root \<union> F1) \<inter> frames_of (mem s1) root (V \<union> ?P) = {}"
      using uspaceD(6,7) [OF u1] by (auto simp: frames_of_def)
    show "aligned 12 p" if "p \<in> tables 2 (mem s1) root \<union> F1 \<union> frames_of (mem s1) root (V \<union> ?P)" for p
      using that space_pages_ok(1) [OF u1, of p] free_pages_ok [OF uspace_pt [OF u1], of p] page_aligned
      by (auto simp: space_pages_def)
  qed
  have z: "page_has (frame_of (mem s2) root va) (c va) (mem s2)" "PTE_FLAGS (leaf 2 (mem s2) root va) = fl va"
    if va: "va \<in> ?P" for va
  proof -
    have "frame_of (mem s2) root va = frame_of (mem s1) root va" using L lt [OF va] by (simp add: frame_of_def)
    moreover have "agree {frame_of (mem s1) root va} (mem s1) (mem s2)"
      by (rule agree_mono [OF ag]) (use va in \<open>auto simp: frames_of_def\<close>)
    ultimately show "page_has (frame_of (mem s2) root va) (c va) (mem s2)"
      using grownD(7) [OF g va] page_has_agree by simp
    show "PTE_FLAGS (leaf 2 (mem s2) root va) = fl va" using grownD(6) [OF g va] L lt [OF va] by simp
  qed
  have "F = F2 \<union> (tables 2 (mem s2) root - tables 2 (mem s) root) \<union> frames_of (mem s2) root ?P"
    using grownD(2,3) [OF g] F T fr by blast
  then show ?thesis
    using u d12 z T grownD(2,5,8,9) [OF g] L h unfolding grown_def by (intro conjI allI ballI impI) auto
qed

lemma grown_undo:
  assumes g: "grown kend root s F V s1 F1 a k fl c" and al: "aligned 12 a"
    and b: "unat a + 4096 * k \<le> 2 ^ 38" and V: "V \<inter> vpages a k = {}"
    and un: "\<And>vb. vb < MAXVA \<Longrightarrow> PGROUNDDOWN vb \<in> vpages a k \<Longrightarrow> leaf 2 (mem s) root vb = 0"
  shows "\<exists>s'. uvmunmap kend root a (of_nat k) True s1 = Some s' \<and>
           kept kend root s F V s' (F1 \<union> frames_of (mem s1) root (vpages a k))"
proof -
  let ?P = "vpages a k" let ?F = "F1 \<union> frames_of (mem s1) root ?P"
  have u1: "uspace kend s1 F1 root (V \<union> ?P)" by (rule grownD(1) [OF g])
  obtain s' where s': "uvmunmap kend root a (of_nat k) True s1 = Some s'"
     "uspace kend s' ?F root (V \<union> ?P - ?P)" "tables 2 (mem s') root = tables 2 (mem s1) root"
     "differ_in (tables 2 (mem s1) root \<union> frames_of (mem s1) root ?P) (mem s1) (mem s')"
     "\<And>vb. vb < MAXVA \<Longrightarrow> leaf 2 (mem s') root vb =
        (if PGROUNDDOWN vb \<in> ?P then 0 else leaf 2 (mem s1) root vb)"
     "held s' = held s1" "kmst.more s' = kmst.more s1"
    using uvmunmap_free [OF u1 al b] by auto
  have "V \<union> ?P - ?P = V" using V by blast
  then have "uspace kend s' ?F root V" using s'(2) by simp
  moreover have "differ_in (tables 2 (mem s) root \<union> F) (mem s) (mem s')"
  proof -
    have "differ_in (tables 2 (mem s) root \<union> F) (mem s) (mem s1)" by (rule grownD(4) [OF g])
    from differ_in_trans [OF this s'(4)] show ?thesis
      by (rule differ_in_mono) (use grownD(2,3) [OF g] in blast)
  qed
  moreover have "leaf 2 (mem s') root vb = leaf 2 (mem s) root vb" if "vb < MAXVA" for vb
    using s'(5) [OF that] grownD(5) [OF g that] un [OF that] by simp
  moreover have "F = ?F \<union> (tables 2 (mem s') root - tables 2 (mem s) root)"
    using grownD(3) [OF g] s'(3) by blast
  ultimately have "kept kend root s F V s' ?F"
    using grownD(2,8,9) [OF g] s'(3,6,7) unfolding kept_def by auto
  then show ?thesis using s'(1) by blast
qed

subsection \<open>Taking, writing, mapping and giving back a page\<close>

text \<open>The space and its contents are the same in both states.\<close>

definition same_space :: "u64 \<Rightarrow> u64 set \<Rightarrow> 'z kmst_scheme \<Rightarrow> 'z kmst_scheme \<Rightarrow> bool" where
  "same_space root W s s' \<longleftrightarrow>
     tables 2 (mem s') root = tables 2 (mem s) root \<and>
     (\<forall>va. leaf 2 (mem s') root va = leaf 2 (mem s) root va) \<and>
     agree (space_pages (mem s) root W) (mem s) (mem s') \<and>
     held s' = held s \<and> kmst.more s' = kmst.more s"

lemma space_pages_same: "same_space root W s s' \<Longrightarrow> space_pages (mem s') root W' = space_pages (mem s) root W'"
  by (auto simp: same_space_def space_pages_def frames_of_def frame_of_def)

lemma same_space_trans:
  assumes "same_space root W s s1" "same_space root W s1 s2"
  shows "same_space root W s s2"
  using assms space_pages_same [OF assms(1), of W] by (auto simp: same_space_def agree_def)

lemma take_page:
  assumes u: "uspace kend s F root W" and F: "F \<noteq> {}"
  shows "\<exists>p s'. kalloc s = Some (p, s') \<and> p \<noteq> 0 \<and> p \<in> F \<and> page kend p \<and>
     uspace kend s' (F - {p}) root W \<and> same_space root W s s' \<and>
     differ_in {p} (mem s) (mem s') \<and> zeroed p (mem s')"
proof -
  have km: "km_free kend s F" using u by (simp add: uspace_def pt_inv_def)
  obtain p s' where p: "kalloc s = Some (p, s')" "p \<noteq> 0" "p \<in> F" "km_free kend s' (F - {p})"
      "km_frame p s s'" "\<forall>a. in_page p a \<longrightarrow> mem s' a = 0" using km_free_alloc [OF km F] by blast
  have pg: "page kend p" using kp.inv_valid [OF km p(3)] .
  have d: "differ_in {p} (mem s) (mem s')" using p(5) by (simp add: differ_in_def km_frame_def)
  have "uspace kend s' (F - {p}) root W \<and> tables 2 (mem s') root = tables 2 (mem s) root \<and>
      (\<forall>va. leaf 2 (mem s') root va = leaf 2 (mem s) root va) \<and>
      agree (space_pages (mem s) root W) (mem s) (mem s')"
    by (rule uspace_frame [OF u d _ _ p(4)]) (use space_pages_ok(2) [OF u] p(3) pg page_aligned in auto)
  then show ?thesis using p pg d by (auto simp: same_space_def km_frame_def zeroed_def)
qed

lemma take_no_page:
  assumes u: "uspace kend s {} root W"
  shows "kalloc s = Some (0, inc_freecnt s)" "uspace kend (inc_freecnt s) {} root W"
  using u km_free_none [of kend s] by (auto simp: uspace_def pt_inv_def)

lemma write_page:
  assumes u: "uspace kend s F root W" and p: "page kend p" "p \<notin> F" "p \<notin> space_pages (mem s) root W"
    and d: "differ_in {p} (mem s) m"
  shows "uspace kend (s\<lparr>mem := m\<rparr>) F root W" "same_space root W s (s\<lparr>mem := m\<rparr>)"
proof -
  have km: "km_free kend s F" using u by (simp add: uspace_def pt_inv_def)
  have "km_free kend (s\<lparr>mem := m\<rparr>) F" by (rule km_free_mem [OF km d]) (use p in auto)
  then have "uspace kend (s\<lparr>mem := m\<rparr>) F root W \<and> tables 2 (mem (s\<lparr>mem := m\<rparr>)) root = tables 2 (mem s) root \<and>
      (\<forall>va. leaf 2 (mem (s\<lparr>mem := m\<rparr>)) root va = leaf 2 (mem s) root va) \<and>
      agree (space_pages (mem s) root W) (mem s) (mem (s\<lparr>mem := m\<rparr>))"
    by (intro uspace_frame [OF u]) (use d p space_pages_ok(2) [OF u] page_aligned in auto)
  then show "uspace kend (s\<lparr>mem := m\<rparr>) F root W" "same_space root W s (s\<lparr>mem := m\<rparr>)"
    by (auto simp: same_space_def)
qed

lemma give_page:
  assumes u: "uspace kend s F root W" and p: "page kend p" "p \<notin> F" "p \<notin> space_pages (mem s) root W"
  shows "\<exists>s'. kfree kend p s = Some s' \<and> uspace kend s' (insert p F) root W \<and>
     same_space root W s s' \<and> differ_in {p} (mem s) (mem s')"
proof -
  have km: "km_free kend s F" using u by (simp add: uspace_def pt_inv_def)
  obtain s' where s': "kfree kend p s = Some s'" "km_free kend s' (insert p F)" "km_frame p s s'"
    using km_free_free [OF km p(1,2)] by blast
  have d: "differ_in {p} (mem s) (mem s')" using s'(3) by (simp add: differ_in_def km_frame_def)
  have "uspace kend s' (insert p F) root W \<and> tables 2 (mem s') root = tables 2 (mem s) root \<and>
      (\<forall>va. leaf 2 (mem s') root va = leaf 2 (mem s) root va) \<and>
      agree (space_pages (mem s) root W) (mem s) (mem s')"
    by (rule uspace_frame [OF u d _ _ s'(2)]) (use space_pages_ok(2) [OF u] p page_aligned in auto)
  then show ?thesis using s' d by (auto simp: same_space_def km_frame_def)
qed

lemma map_owned:
  assumes u: "uspace kend s F root W" and p: "page kend p" "p \<notin> F" "p \<notin> space_pages (mem s) root W"
    and va: "aligned 12 va" "va < MAXVA" "\<not> valid (leaf 2 (mem s) root va)"
    and fl: "take_bit 10 fl = fl" "fl OR PTE_V \<noteq> PTE_V"
  shows "\<exists>r s' F'. mappages root va PGSIZE p fl s = Some (r, s') \<and> F' \<subseteq> F \<and>
     tables 2 (mem s') root = tables 2 (mem s) root \<union> (F - F') \<and>
     differ_in (tables 2 (mem s) root \<union> (F - F')) (mem s) (mem s') \<and>
     held s' = held s \<and> kmst.more s' = kmst.more s \<and>
     (r = 0 \<and> uspace kend s' F' root (insert va W) \<and> frame_of (mem s') root va = p \<and>
        PTE_FLAGS (leaf 2 (mem s') root va) = (fl OR PTE_V) \<and>
        (\<forall>vb < MAXVA. PGROUNDDOWN vb \<noteq> va \<longrightarrow> leaf 2 (mem s') root vb = leaf 2 (mem s) root vb) \<or>
      r = - 1 \<and> F' = {} \<and> uspace kend s' F' root W \<and>
        (\<forall>vb < MAXVA. leaf 2 (mem s') root vb = leaf 2 (mem s) root vb))"
proof -
  let ?e = "PA2PTE p OR fl OR PTE_V"
  have f10: "take_bit 10 (fl OR PTE_V) = fl OR PTE_V" using fl(1) by (simp add: PTE_V_def)
  have e: "PTE2PA ?e = p" "PTE_FLAGS ?e = fl OR PTE_V" "valid ?e"
    using PTE2PA_PA2PTE [OF page_aligned [OF p(1)] f10] PTE_FLAGS_PA2PTE [OF f10]
    by (simp_all add: or.assoc valid_bit bit_or_iff bit_PA2PTE PTE_V_def)
  have vW: "va \<notin> W" using uspaceD(3) [OF u, of va] va(3) by blast
  obtain r s' F' where m: "mappages root va PGSIZE p fl s = Some (r, s')" and c:
     "r = 0 \<and> remap kend root s F s' F' (\<lambda>vb. if PGROUNDDOWN vb = va then ?e else leaf 2 (mem s) root vb) \<or>
      r = - 1 \<and> F' = {} \<and> remap kend root s F s' F' (leaf 2 (mem s) root)"
    using mappages_page [OF uspace_pt [OF u] va] by blast
  from c show ?thesis
  proof
    assume h: "r = 0 \<and> remap kend root s F s' F' (\<lambda>vb. if PGROUNDDOWN vb = va then ?e else leaf 2 (mem s) root vb)"
    then have rm: "remap kend root s F s' F' (\<lambda>vb. if PGROUNDDOWN vb = va then ?e else leaf 2 (mem s) root vb)" by blast
    have W: "(if PGROUNDDOWN vb = va then ?e else leaf 2 (mem s) root vb) = leaf 2 (mem s) root vb" if "vb \<in> W" for vb
      using PGROUNDDOWN_aligned [of vb] uspaceD(1) [OF u that] that vW by auto
    note ur = uspace_remap [OF u rm W]
    have lf: "leaf 2 (mem s') root va = ?e"
      using rm va PGROUNDDOWN_aligned [OF va(1)] by (simp add: remap_def)
    then have fr: "frame_of (mem s') root va = p" using e(1) by (simp add: frame_of_def)
    have T: "tables 2 (mem s') root = tables 2 (mem s) root \<union> (F - F')" "F' \<subseteq> F" using rm by (auto simp: remap_def)
    have "frames_of (mem s') root (W - {va}) = frames_of (mem s) root W"
      using ur(2) vW by (simp add: frames_of_def)
    then have "uspace kend s' F' root (insert va W)"
      by (intro uspace_insert [OF ur(1) va(1,2)])
        (use lf fr e fl(2) p T in \<open>auto simp: space_pages_def\<close>)
    then show ?thesis using m h rm lf fr e T by (auto simp: remap_def)
  next
    assume h: "r = - 1 \<and> F' = {} \<and> remap kend root s F s' F' (leaf 2 (mem s) root)"
    then have rm: "remap kend root s F s' F' (leaf 2 (mem s) root)" by blast
    have "uspace kend s' F' root W" by (rule uspace_remap(1) [OF u rm refl])
    then show ?thesis using m h rm by (auto simp: remap_def)
  qed
qed

subsection \<open>Adding one page\<close>

lemma vpages_snoc: "vpages a (Suc k) = insert (a + of_nat k * PGSIZE) (vpages a k)"
  by (auto simp: vpages_def pages_from_def)

lemma agree_union: "agree P m m' \<Longrightarrow> agree R m m' \<Longrightarrow> agree (P \<union> R) m m'"
  by (auto simp: agree_def)

lemma agree_trans: "agree P m m1 \<Longrightarrow> agree P m1 m2 \<Longrightarrow> agree P m m2"
  by (auto simp: agree_def)

lemma grown_snoc:
  assumes g: "grown kend root s F V s1 F1 a k fl c" and va: "va = a + of_nat k * PGSIZE" "va \<notin> V \<union> vpages a k"
    and p: "p \<in> F1" "page_has p (c va) (mem s2)" and d2: "differ_in {p} (mem s1) (mem s2)"
    and T2: "tables 2 (mem s2) root = tables 2 (mem s1) root"
    and L2: "\<And>vb. leaf 2 (mem s2) root vb = leaf 2 (mem s1) root vb"
    and u3: "uspace kend s3 F3 root (insert va (V \<union> vpages a k))" and F3: "F3 \<subseteq> F1 - {p}"
    and T3: "tables 2 (mem s3) root = tables 2 (mem s1) root \<union> (F1 - {p} - F3)"
    and d3: "differ_in (tables 2 (mem s1) root \<union> (F1 - {p} - F3)) (mem s2) (mem s3)"
    and f3: "frame_of (mem s3) root va = p" "PTE_FLAGS (leaf 2 (mem s3) root va) = fl va"
    and L3: "\<And>vb. vb < MAXVA \<Longrightarrow> PGROUNDDOWN vb \<noteq> va \<Longrightarrow> leaf 2 (mem s3) root vb = leaf 2 (mem s2) root vb"
    and h: "held s3 = held s1" "kmst.more s3 = kmst.more s1"
  shows "grown kend root s F V s3 F3 a (Suc k) fl c"
proof -
  let ?P = "vpages a k" let ?T = "tables 2 (mem s1) root"
  have u1: "uspace kend s1 F1 root (V \<union> ?P)" by (rule grownD(1) [OF g])
  have TF: "?T \<inter> F1 = {}" using uspace_pt [OF u1] by (simp add: pt_inv_def)
  have al: "aligned 12 q" if "q \<in> ?T \<union> F1 \<union> frames_of (mem s1) root (V \<union> ?P)" for q
    using that space_pages_ok(1) [OF u1, of q] free_pages_ok [OF uspace_pt [OF u1], of q] page_aligned
    by (auto simp: space_pages_def)
  have d13: "differ_in (?T \<union> F1) (mem s1) (mem s3)"
    by (rule differ_in_mono [OF differ_in_trans [OF d2 d3]]) (use p(1) in auto)
  have fr: "frame_of (mem s3) root vb = frame_of (mem s1) root vb \<and>
      leaf 2 (mem s3) root vb = leaf 2 (mem s1) root vb" if "vb \<in> V \<union> ?P" for vb
  proof -
    have "PGROUNDDOWN vb \<noteq> va" using that va(2) PGROUNDDOWN_aligned [OF uspaceD(1) [OF u1 that]] by auto
    then show ?thesis using L3 [OF uspaceD(2) [OF u1 that]] L2 by (simp add: frame_of_def)
  qed
  have ag1: "agree (frames_of (mem s1) root (V \<union> ?P)) (mem s1) (mem s3)"
    by (rule differ_in_agree [OF d13]) (use uspaceD(6,7) [OF u1] al in \<open>auto simp: frames_of_def\<close>)
  have agp: "agree {p} (mem s2) (mem s3)"
    by (rule differ_in_agree [OF d3]) (use TF p(1) al in auto)
  have c: "PTE_FLAGS (leaf 2 (mem s3) root vb) = fl vb \<and> page_has (frame_of (mem s3) root vb) (c vb) (mem s3)"
    if vb: "vb \<in> vpages a (Suc k)" for vb
  proof (cases "vb = va")
    case True
    then show ?thesis using f3 page_has_agree [OF p(2) agp] by simp
  next
    case False
    then have P: "vb \<in> ?P" using vb va(1) by (simp add: vpages_snoc)
    have "agree {frame_of (mem s1) root vb} (mem s1) (mem s3)"
      by (rule agree_mono [OF ag1]) (use P in \<open>auto simp: frames_of_def\<close>)
    with page_has_agree [OF grownD(7) [OF g P]] show ?thesis using fr P grownD(6) [OF g P] by simp
  qed
  have fs: "frames_of (mem s3) root (vpages a (Suc k)) = insert p (frames_of (mem s1) root ?P)"
    using fr f3(1) by (simp add: vpages_snoc frames_of_insert va(1) [symmetric]) (auto simp: frames_of_def)
  have "F = F3 \<union> (tables 2 (mem s3) root - tables 2 (mem s) root) \<union> insert p (frames_of (mem s1) root ?P)"
    unfolding T3 using grownD(2,3) [OF g] TF F3 p(1) by blast
  moreover have "differ_in (tables 2 (mem s) root \<union> F) (mem s) (mem s3)"
    by (rule differ_in_mono [OF differ_in_trans [OF grownD(4) [OF g] d13]]) (use grownD(2,3) [OF g] in blast)
  moreover have "uspace kend s3 F3 root (V \<union> vpages a (Suc k))" using u3 va(1) by (simp add: vpages_snoc)
  moreover have "leaf 2 (mem s3) root vb = leaf 2 (mem s) root vb"
    if "vb < MAXVA" "PGROUNDDOWN vb \<notin> vpages a (Suc k)" for vb
    using that L3 L2 grownD(5) [OF g] va(1) by (simp add: vpages_snoc)
  moreover have "tables 2 (mem s) root \<subseteq> tables 2 (mem s3) root" using grownD(2) [OF g] T3 by blast
  ultimately show ?thesis
    unfolding grown_def fs using c grownD(8,9) [OF g] h by (intro conjI allI ballI impI) auto
qed

text \<open>
  One round of the loops that add a page: a page is taken and filled by the caller, then mapped,
  or given back when there is no page left for a table.
\<close>

lemma grow_step:
  assumes g: "grown kend root s F V s1 F1 a k fl c" and va: "va = a + of_nat k * PGSIZE" "aligned 12 va" "va < MAXVA"
    and nv: "\<not> valid (leaf 2 (mem s1) root va)" and F1: "F1 \<noteq> {}"
    and f: "take_bit 10 f = f" "f OR PTE_V \<noteq> PTE_V" "fl va = f OR PTE_V"
  shows "\<exists>p s2. kalloc s1 = Some (p, s2) \<and> p \<noteq> 0 \<and> p \<in> F1 \<and> page kend p \<and> zeroed p (mem s2) \<and>
     differ_in {p} (mem s1) (mem s2) \<and>
     (\<forall>m. differ_in {p} (mem s2) m \<longrightarrow> page_has p (c va) m \<longrightarrow>
       (\<exists>r s3. mappages root va PGSIZE p f (s2\<lparr>mem := m\<rparr>) = Some (r, s3) \<and>
          (r = 0 \<and> (\<exists>F3. grown kend root s F V s3 F3 a (Suc k) fl c) \<or>
           r = - 1 \<and> (\<exists>s4 F4. kfree kend p s3 = Some s4 \<and> grown kend root s F V s4 F4 a k fl c))))"
proof -
  let ?W = "V \<union> vpages a k"
  have u1: "uspace kend s1 F1 root ?W" by (rule grownD(1) [OF g])
  have vW: "va \<notin> ?W" using uspaceD(3) [OF u1] nv by blast
  have TF: "tables 2 (mem s1) root \<inter> F1 = {}" using uspace_pt [OF u1] by (simp add: pt_inv_def)
  obtain p s2 where k: "kalloc s1 = Some (p, s2)" "p \<noteq> 0" "p \<in> F1" "page kend p"
      "uspace kend s2 (F1 - {p}) root ?W" "same_space root ?W s1 s2" "differ_in {p} (mem s1) (mem s2)"
      "zeroed p (mem s2)" using take_page [OF u1 F1] by blast
  have pn: "p \<notin> space_pages (mem s2) root ?W"
    using space_pages_ok(2) [OF u1] k(3) space_pages_same [OF k(6)] by blast
  have "\<exists>r s3. mappages root va PGSIZE p f (s2\<lparr>mem := m\<rparr>) = Some (r, s3) \<and>
          (r = 0 \<and> (\<exists>F3. grown kend root s F V s3 F3 a (Suc k) fl c) \<or>
           r = - 1 \<and> (\<exists>s4 F4. kfree kend p s3 = Some s4 \<and> grown kend root s F V s4 F4 a k fl c))"
    if d: "differ_in {p} (mem s2) m" and c: "page_has p (c va) m" for m
  proof -
    let ?s = "s2\<lparr>mem := m\<rparr>"
    note w = write_page [OF k(5,4) _ pn d]
    have ss: "same_space root ?W s1 ?s" using same_space_trans [OF k(6) w(2)] by simp
    then have T: "tables 2 (mem ?s) root = tables 2 (mem s1) root"
      and L: "\<And>vb. leaf 2 (mem ?s) root vb = leaf 2 (mem s1) root vb"
      and h: "held ?s = held s1" "kmst.more ?s = kmst.more s1" unfolding same_space_def by blast+
    have pn': "p \<notin> space_pages (mem ?s) root ?W" using space_pages_same [OF w(2)] pn by simp
    have nv': "\<not> valid (leaf 2 (mem ?s) root va)" using nv L by simp
    have ds: "differ_in {p} (mem s1) (mem ?s)" using differ_in_trans [OF k(7) d] by simp
    obtain r s3 F3 where m: "mappages root va PGSIZE p f ?s = Some (r, s3)" "F3 \<subseteq> F1 - {p}"
        "tables 2 (mem s3) root = tables 2 (mem ?s) root \<union> (F1 - {p} - F3)"
        "differ_in (tables 2 (mem ?s) root \<union> (F1 - {p} - F3)) (mem ?s) (mem s3)"
        "held s3 = held ?s" "kmst.more s3 = kmst.more ?s"
      and cs: "r = 0 \<and> uspace kend s3 F3 root (insert va ?W) \<and> frame_of (mem s3) root va = p \<and>
          PTE_FLAGS (leaf 2 (mem s3) root va) = (f OR PTE_V) \<and>
          (\<forall>vb < MAXVA. PGROUNDDOWN vb \<noteq> va \<longrightarrow> leaf 2 (mem s3) root vb = leaf 2 (mem ?s) root vb) \<or>
        r = - 1 \<and> F3 = {} \<and> uspace kend s3 F3 root ?W \<and>
          (\<forall>vb < MAXVA. leaf 2 (mem s3) root vb = leaf 2 (mem ?s) root vb)"
      using map_owned [OF w(1) k(4) _ pn' va(2,3) nv' f(1,2)] by blast
    from cs show ?thesis
    proof
      assume r: "r = 0 \<and> uspace kend s3 F3 root (insert va ?W) \<and> frame_of (mem s3) root va = p \<and>
          PTE_FLAGS (leaf 2 (mem s3) root va) = (f OR PTE_V) \<and>
          (\<forall>vb < MAXVA. PGROUNDDOWN vb \<noteq> va \<longrightarrow> leaf 2 (mem s3) root vb = leaf 2 (mem ?s) root vb)"
      have "grown kend root s F V s3 F3 a (Suc k) fl c"
        by (rule grown_snoc [OF g va(1) vW k(3) _ ds T L _ m(2)])
          (use r c f(3) m(3-6) T h in simp_all)
      then show ?thesis using m(1) r by blast
    next
      assume r: "r = - 1 \<and> F3 = {} \<and> uspace kend s3 F3 root ?W \<and>
          (\<forall>vb < MAXVA. leaf 2 (mem s3) root vb = leaf 2 (mem ?s) root vb)"
      then have u3: "uspace kend s3 {} root ?W" and L3: "\<And>vb. vb < MAXVA \<Longrightarrow> leaf 2 (mem s3) root vb = leaf 2 (mem s1) root vb"
        using L by auto
      have T3: "tables 2 (mem s3) root = tables 2 (mem s1) root \<union> (F1 - {p})" using m(3) T r by simp
      have "frames_of (mem s3) root ?W = frames_of (mem s1) root ?W"
        by (rule frames_of_cong) (use L3 uspaceD(2) [OF u1] in blast)
      then have "p \<notin> space_pages (mem s3) root ?W"
        using T3 TF k(3) space_pages_ok(2) [OF u1, of p] by (auto simp: space_pages_def)
      then obtain s4 where s4: "kfree kend p s3 = Some s4" "uspace kend s4 {p} root ?W"
          "same_space root ?W s3 s4" "differ_in {p} (mem s3) (mem s4)"
        using give_page [OF u3 k(4)] by blast
      have "grown kend root s F V s4 {p} a k fl c"
      proof (rule grown_more [OF g s4(2)])
        have "differ_in (tables 2 (mem s1) root \<union> F1) (mem s1) (mem s3)"
          by (rule differ_in_mono [OF differ_in_trans [OF ds m(4)]]) (use T k(3) in auto)
        from differ_in_trans [OF this s4(4)] show "differ_in (tables 2 (mem s1) root \<union> F1) (mem s1) (mem s4)"
          by (rule differ_in_mono) (use k(3) in auto)
      qed (use s4(3) T3 TF k(3) L3 m(5,6) h in \<open>auto simp: same_space_def\<close>)
      then show ?thesis using m(1) r s4(1) by blast
    qed
  qed
  then show ?thesis using k by blast
qed

lemma unmapped_disjoint:
  assumes u: "uspace kend s F root V" and un: "\<And>vb. vb < MAXVA \<Longrightarrow> PGROUNDDOWN vb \<in> P \<Longrightarrow> leaf 2 (mem s) root vb = 0"
  shows "V \<inter> P = {}"
proof (rule ccontr)
  assume "V \<inter> P \<noteq> {}"
  then obtain va where va: "va \<in> V" "va \<in> P" by blast
  note d = uspaceD [OF u va(1)]
  have "leaf 2 (mem s) root va = 0" using un [OF d(2)] va(2) PGROUNDDOWN_aligned [OF d(1)] by simp
  then show False using d(3) by simp
qed

lemma vpages_mono: "k \<le> n \<Longrightarrow> vpages a k \<subseteq> vpages a n"
  by (auto simp: vpages_def pages_from_def)

lemma grown_next:
  assumes g: "grown kend root s F V s1 F1 a k fl c" and al: "aligned 12 a" and b: "unat a + 4096 * n \<le> 2 ^ 38" "k < n"
    and un: "\<And>vb. vb < MAXVA \<Longrightarrow> PGROUNDDOWN vb \<in> vpages a n \<Longrightarrow> leaf 2 (mem s) root vb = 0"
  shows "aligned 12 (a + of_nat k * PGSIZE)" "a + of_nat k * PGSIZE < MAXVA"
    "unat (a + of_nat k * PGSIZE) = unat a + 4096 * k"
    "leaf 2 (mem s1) root (a + of_nat k * PGSIZE) = 0"
proof -
  let ?va = "a + of_nat k * PGSIZE"
  show al': "aligned 12 ?va" by (rule aligned_add_pages [OF al])
  show ua: "unat ?va = unat a + 4096 * k" by (rule unat_add_pages) (use b in simp)
  show lt: "?va < MAXVA" using ua b by (simp add: MAXVA_unat)
  have "?va \<in> vpages a (Suc k)" by (simp add: vpages_snoc)
  then have n: "?va \<in> vpages a n" using vpages_mono [of "Suc k" n a] b(2) by auto
  have "?va \<notin> vpages a k" using vpages_mem_iff [OF al _ al', of k] ua b by simp
  then show "leaf 2 (mem s1) root ?va = 0"
    using grownD(5) [OF g lt] un [OF lt] n PGROUNDDOWN_aligned [OF al'] by simp
qed

lemma grown_dealloc:
  assumes g: "grown kend root s F V s1 F1 a k fl c" and al: "aligned 12 a" and b: "unat a + 4096 * n \<le> 2 ^ 38" "k \<le> n"
    and u: "uspace kend s F root V"
    and un: "\<And>vb. vb < MAXVA \<Longrightarrow> PGROUNDDOWN vb \<in> vpages a n \<Longrightarrow> leaf 2 (mem s) root vb = 0"
  shows "\<exists>s' F'. uvmdealloc kend root (a + of_nat k * PGSIZE) a s1 = Some (a, s') \<and> kept kend root s F V s' F'"
    "\<exists>s' F'. uvmunmap kend root a (of_nat k) True s1 = Some s' \<and> kept kend root s F V s' F'"
proof -
  have un': "vb < MAXVA \<Longrightarrow> PGROUNDDOWN vb \<in> vpages a k \<Longrightarrow> leaf 2 (mem s) root vb = 0" for vb
    using un vpages_mono [OF b(2), of a] by blast
  have V: "V \<inter> vpages a k = {}" by (rule unmapped_disjoint [OF u un'])
  have b': "unat a + 4096 * k \<le> 2 ^ 38" using b by simp
  show *: "\<exists>s' F'. uvmunmap kend root a (of_nat k) True s1 = Some s' \<and> kept kend root s F V s' F'"
    using grown_undo [OF g al b' V un'] by blast
  then show "\<exists>s' F'. uvmdealloc kend root (a + of_nat k * PGSIZE) a s1 = Some (a, s') \<and> kept kend root s F V s' F'"
    unfolding uvmdealloc_pages [OF al b'] by auto
qed

lemma mem_update_id [simp]: "s\<lparr>mem := mem s\<rparr> = s"
  by simp

text \<open>The permission bits that the callers pass.\<close>

lemma or_flags:
  assumes "take_bit 10 xperm = xperm"
  shows "take_bit 10 (PTE_R OR PTE_U OR xperm) = PTE_R OR PTE_U OR xperm"
    "(PTE_R OR PTE_U OR xperm) OR PTE_V \<noteq> PTE_V"
proof -
  show "take_bit 10 (PTE_R OR PTE_U OR xperm) = PTE_R OR PTE_U OR xperm"
    using assms by (simp add: PTE_R_def PTE_U_def)
  have "bit PTE_R 1" by (simp add: PTE_R_def bit_iff_odd)
  then have "bit ((PTE_R OR PTE_U OR xperm) OR PTE_V) 1" by (simp add: bit_or_iff)
  moreover have "\<not> bit PTE_V 1" by (simp add: PTE_V_def bit_iff_odd)
  ultimately show "(PTE_R OR PTE_U OR xperm) OR PTE_V \<noteq> PTE_V" by metis
qed

lemma memset_zeroed:
  assumes "zeroed p (mem s)"
  shows "zero_page p s = s"
proof -
  have "memset p 0 (ucast PGSIZE) (mem s) = mem s"
    using assms by (auto simp: memset_page zeroed_def fun_eq_iff)
  then show ?thesis by (simp add: zero_page_def)
qed

lemma uvmalloc_loop_grown:
  assumes "grown kend root s F V s1 F1 a k (\<lambda>_. (PTE_R OR PTE_U OR xperm) OR PTE_V) (\<lambda>_ _. 0)"
    and u: "uspace kend s F root V" and al: "aligned 12 a" and b: "unat a + 4096 * (k + j) \<le> 2 ^ 38"
    and xp: "take_bit 10 xperm = xperm"
    and un: "\<And>vb. vb < MAXVA \<Longrightarrow> PGROUNDDOWN vb \<in> vpages a (k + j) \<Longrightarrow> leaf 2 (mem s) root vb = 0"
    and n: "unat newsz \<le> unat a + 4096 * (k + j)" "unat a + 4096 * (k + j) < unat newsz + 4096"
  shows "\<exists>r s' F'. uvmalloc_loop kend root (a + of_nat k * PGSIZE) a newsz xperm s1 = Some (r, s') \<and>
     (r = newsz \<and> grown kend root s F V s' F' a (k + j) (\<lambda>_. (PTE_R OR PTE_U OR xperm) OR PTE_V) (\<lambda>_ _. 0) \<or>
      r = 0 \<and> kept kend root s F V s' F')"
  using assms(1) b un n
proof (induction j arbitrary: k s1 F1)
  case 0
  have "unat (a + of_nat k * PGSIZE) = unat a + 4096 * k" by (rule unat_add_pages) (use 0 in simp)
  then have "\<not> a + of_nat k * PGSIZE < newsz" using 0 by (simp add: word_less_nat_alt)
  then show ?case using 0 by (subst uvmalloc_loop.simps) auto
next
  case (Suc j)
  let ?va = "a + of_nat k * PGSIZE" let ?f = "PTE_R OR PTE_U OR xperm"
  note g = Suc.prems(1)
  have kn: "k < k + Suc j" by simp
  note nx = grown_next [OF g al Suc.prems(2) kn Suc.prems(3)]
  note ud = grown_dealloc(1) [OF _ al Suc.prems(2) less_imp_le [OF kn] u Suc.prems(3)]
  have lt: "?va < newsz" using nx(3) Suc.prems(5) by (simp add: word_less_nat_alt)
  note simps = uvmalloc_loop.simps [of kend root ?va a newsz xperm s1]
  show ?case
  proof (cases "F1 = {}")
    case True
    have u1: "uspace kend s1 {} root (V \<union> vpages a k)" using grownD(1) [OF g] True by simp
    have "grown kend root s F V (inc_freecnt s1) {} a k (\<lambda>_. ?f OR PTE_V) (\<lambda>_ _. 0)"
      by (rule grown_more [OF g take_no_page(2) [OF u1]]) (use True in auto)
    from ud [OF this] show ?thesis
      using lt take_no_page(1) [OF u1] by (auto simp: simps kzalloc_kalloc)
  next
    case False
    have nv: "\<not> valid (leaf 2 (mem s1) root ?va)" using nx(4) by simp
    obtain p s2 where k: "kalloc s1 = Some (p, s2)" "p \<noteq> 0" "zeroed p (mem s2)"
      and st: "\<And>m. differ_in {p} (mem s2) m \<Longrightarrow> page_has p (\<lambda>_. 0) m \<Longrightarrow>
       \<exists>r s3. mappages root ?va PGSIZE p ?f (s2\<lparr>mem := m\<rparr>) = Some (r, s3) \<and>
          (r = 0 \<and> (\<exists>F3. grown kend root s F V s3 F3 a (Suc k) (\<lambda>_. ?f OR PTE_V) (\<lambda>_ _. 0)) \<or>
           r = - 1 \<and> (\<exists>s4 F4. kfree kend p s3 = Some s4 \<and> grown kend root s F V s4 F4 a k (\<lambda>_. ?f OR PTE_V) (\<lambda>_ _. 0)))"
      using grow_step [OF g refl nx(1,2) nv False or_flags [OF xp] refl] by blast
    obtain r s3 where m: "mappages root ?va PGSIZE p ?f s2 = Some (r, s3)"
      and c: "r = 0 \<and> (\<exists>F3. grown kend root s F V s3 F3 a (Suc k) (\<lambda>_. ?f OR PTE_V) (\<lambda>_ _. 0)) \<or>
           r = - 1 \<and> (\<exists>s4 F4. kfree kend p s3 = Some s4 \<and> grown kend root s F V s4 F4 a k (\<lambda>_. ?f OR PTE_V) (\<lambda>_ _. 0))"
      using st [of "mem s2", OF differ_in_refl k(3) [unfolded zeroed_has]] unfolding mem_update_id by blast
    have z: "zero_page p s2 = s2" by (rule memset_zeroed [OF k(3)])
    from c show ?thesis
    proof
      assume r: "r = 0 \<and> (\<exists>F3. grown kend root s F V s3 F3 a (Suc k) (\<lambda>_. ?f OR PTE_V) (\<lambda>_ _. 0))"
      then obtain F3 where g3: "grown kend root s F V s3 F3 a (Suc k) (\<lambda>_. ?f OR PTE_V) (\<lambda>_ _. 0)" by blast
      have e: "?va + PGSIZE = a + of_nat (Suc k) * PGSIZE" by (simp add: algebra_simps)
      have "uvmalloc_loop kend root ?va a newsz xperm s1 =
          uvmalloc_loop kend root (a + of_nat (Suc k) * PGSIZE) a newsz xperm s3"
        using lt k m z r unfolding e [symmetric] by (simp add: simps kzalloc_kalloc)
      with Suc.IH [OF g3] Suc.prems(2-) show ?thesis by simp
    next
      assume r: "r = - 1 \<and> (\<exists>s4 F4. kfree kend p s3 = Some s4 \<and> grown kend root s F V s4 F4 a k (\<lambda>_. ?f OR PTE_V) (\<lambda>_ _. 0))"
      then obtain s4 F4 where g4: "kfree kend p s3 = Some s4"
          "grown kend root s F V s4 F4 a k (\<lambda>_. ?f OR PTE_V) (\<lambda>_ _. 0)" by blast
      from ud [OF g4(2)] show ?thesis using lt k m z r g4(1) by (auto simp: simps kzalloc_kalloc)
    qed
  qed
qed

text \<open>Nothing is mapped from \<open>lo\<close> up to \<open>hi\<close>, in whole pages.\<close>

definition unmapped :: "memory \<Rightarrow> u64 \<Rightarrow> u64 \<Rightarrow> u64 \<Rightarrow> bool" where
  "unmapped m root lo hi \<longleftrightarrow>
     (\<forall>va < MAXVA. PGROUNDUP lo \<le> va \<longrightarrow> va < PGROUNDUP hi \<longrightarrow> leaf 2 m root va = 0)"

lemma unmapped_vpages:
  assumes "unmapped m root lo hi" "lo \<le> hi" "unat hi \<le> 2 ^ 38" "vb < MAXVA"
    "PGROUNDDOWN vb \<in> vpages (PGROUNDUP lo) (npages lo hi)"
  shows "leaf 2 m root vb = 0"
proof -
  note na = npages_add [OF assms(2,3)]
  have "unat (PGROUNDUP lo) \<le> unat vb \<and> unat vb < unat (PGROUNDUP hi)"
    using assms(5) vpages_iff [OF aligned_PGROUNDUP, of lo "npages lo hi" vb] na by simp
  then show ?thesis using assms(1,4) by (simp add: unmapped_def word_le_nat_alt word_less_nat_alt)
qed

lemma uvmalloc_result:
  assumes "uspace kend s F root V" "oldsz \<le> newsz" "newsz \<le> MAXVA" "take_bit 10 xperm = xperm"
    "unmapped (mem s) root oldsz newsz"
  shows "\<exists>r s' F'. uvmalloc kend root oldsz newsz xperm s = Some (r, s') \<and>
     (r = newsz \<and> grown kend root s F V s' F' (PGROUNDUP oldsz) (npages oldsz newsz)
         (\<lambda>_. PTE_R OR PTE_U OR xperm OR PTE_V) (\<lambda>_ _. 0) \<or>
      r = 0 \<and> kept kend root s F V s' F')"
proof -
  let ?a = "PGROUNDUP oldsz" let ?n = "npages oldsz newsz"
  have b: "unat newsz \<le> 2 ^ 38" using assms(3) by (simp add: MAXVA_def word_le_nat_alt)
  note na = npages_add [OF assms(2) b]
  have ru: "unat newsz \<le> unat (PGROUNDUP newsz)" "unat (PGROUNDUP newsz) < unat newsz + 4096"
    using b by (simp_all add: unat_PGROUNDUP)
  have b': "unat ?a + 4096 * (0 + ?n) \<le> 2 ^ 38" using na by simp
  have un: "vb < MAXVA \<Longrightarrow> PGROUNDDOWN vb \<in> vpages ?a (0 + ?n) \<Longrightarrow> leaf 2 (mem s) root vb = 0" for vb
    using unmapped_vpages [OF assms(5,2) b] by simp
  have "\<not> newsz < oldsz" using assms(2) by simp
  then show ?thesis
    using uvmalloc_loop_grown [OF grown_0 [OF assms(1)] assms(1) aligned_PGROUNDUP b' assms(4) un, of newsz] na ru
    by (simp add: uvmalloc_def Let_def or.assoc)
qed

lemma uvmdealloc_undoes:
  assumes "uspace kend s F root V" "oldsz \<le> newsz" "newsz \<le> MAXVA" "take_bit 10 xperm = xperm"
    "unmapped (mem s) root oldsz newsz" "uvmalloc kend root oldsz newsz xperm s = Some (newsz, s1)"
  shows "\<exists>s' F'. uvmdealloc kend root newsz oldsz s1 = Some (oldsz, s') \<and> kept kend root s F V s' F'"
proof -
  let ?a = "PGROUNDUP oldsz" let ?n = "npages oldsz newsz"
  have b: "unat newsz \<le> 2 ^ 38" using assms(3) by (simp add: MAXVA_def word_le_nat_alt)
  note na = npages_add [OF assms(2) b]
  obtain F' where c: "grown kend root s F V s1 F' ?a ?n (\<lambda>_. PTE_R OR PTE_U OR xperm OR PTE_V) (\<lambda>_ _. 0) \<or>
      newsz = 0 \<and> kept kend root s F V s1 F'"
    using uvmalloc_result [OF assms(1-5)] assms(6) by auto
  then show ?thesis
  proof
    assume g: "grown kend root s F V s1 F' ?a ?n (\<lambda>_. PTE_R OR PTE_U OR xperm OR PTE_V) (\<lambda>_ _. 0)"
    have "\<exists>s' F'. uvmunmap kend root ?a (of_nat ?n) True s1 = Some s' \<and> kept kend root s F V s' F'"
      by (rule grown_dealloc(2) [OF g aligned_PGROUNDUP _ order.refl assms(1)])
        (use na unmapped_vpages [OF assms(5,2) b] in simp_all)
    then show ?thesis by (auto simp: uvmdealloc_eq [OF assms(2) b])
  next
    assume "newsz = 0 \<and> kept kend root s F V s1 F'"
    then show ?thesis using assms(2) by (auto simp: uvmdealloc_def)
  qed
qed

text \<open>
  C11: growing a user address space either maps zeroed pages of its own, with
  exactly the requested permissions, over the whole of the new range, or, when memory runs out,
  returns 0 with every page given back: the space is as before, and each page that is no longer
  free is one of its tables.  It never panics.  After a successful growth, \<^verbatim>\<open>uvmdealloc\<close> back to the
  old size restores every translation and frees every page of the growth but the tables.
\<close>

theorem uvmalloc_grows:
  assumes "uspace kend s F root V" "oldsz \<le> newsz" "newsz \<le> MAXVA" "take_bit 10 xperm = xperm"
    "unmapped (mem s) root oldsz newsz"
  shows "\<exists>r s' F'. uvmalloc kend root oldsz newsz xperm s = Some (r, s') \<and>
     (r = newsz \<and> grown kend root s F V s' F' (PGROUNDUP oldsz) (npages oldsz newsz)
         (\<lambda>_. PTE_R OR PTE_U OR xperm OR PTE_V) (\<lambda>_ _. 0) \<and>
         (\<exists>s'' F''. uvmdealloc kend root newsz oldsz s' = Some (oldsz, s'') \<and> kept kend root s F V s'' F'') \<or>
      r = 0 \<and> kept kend root s F V s' F')"
proof -
  obtain r s' F' where r: "uvmalloc kend root oldsz newsz xperm s = Some (r, s')"
    and c: "r = newsz \<and> grown kend root s F V s' F' (PGROUNDUP oldsz) (npages oldsz newsz)
         (\<lambda>_. PTE_R OR PTE_U OR xperm OR PTE_V) (\<lambda>_ _. 0) \<or> r = 0 \<and> kept kend root s F V s' F'"
    using uvmalloc_result [OF assms] by blast
  moreover have "\<exists>s'' F''. uvmdealloc kend root newsz oldsz s' = Some (oldsz, s'') \<and> kept kend root s F V s'' F''"
    if "r = newsz" by (rule uvmdealloc_undoes [OF assms]) (use r that in simp)
  ultimately show ?thesis by metis
qed

definition bare_root :: u64 where "bare_root = 0x80301000"

lemma bare_space: "uspace 0x80300000 one_page {0x80300000} bare_root {}"
proof -
  have z: "zeroed bare_root (mem one_page)" by (simp add: zeroed_def one_page_def)
  have p: "page 0x80300000 bare_root" "page 0x80300000 0x80300000"
    by (simp_all add: page_def bare_root_def aligned12_mod PGSIZE_def PHYSTOP_def KERNBASE_def)
  have "kmem_inv 0x80300000 one_page [0x80300000]"
    using p(2) by (simp add: kmem_inv_def one_page_def load64_zero)
  then have "km_free 0x80300000 one_page {0x80300000}"
    by (auto simp: km_free_def one_page_def)
  then show ?thesis using empty_table [OF z] p(1) by (simp add: uspace_def pt_inv_def bare_root_def)
qed

lemma bare_leaf: "leaf 2 (mem one_page) bare_root va = 0"
  by (rule empty_table(3)) (simp add: zeroed_def one_page_def)

theorem uvmalloc_grows_witness:
  "\<exists>r s' F'. uvmalloc 0x80300000 bare_root 0 5000 PTE_W one_page = Some (r, s') \<and>
     (r = 5000 \<and> grown 0x80300000 bare_root one_page {0x80300000} {} s' F' (PGROUNDUP 0) (npages 0 5000)
         (\<lambda>_. PTE_R OR PTE_U OR PTE_W OR PTE_V) (\<lambda>_ _. 0) \<and>
         (\<exists>s'' F''. uvmdealloc 0x80300000 bare_root 5000 0 s' = Some (0, s'') \<and>
            kept 0x80300000 bare_root one_page {0x80300000} {} s'' F'') \<or>
      r = 0 \<and> kept 0x80300000 bare_root one_page {0x80300000} {} s' F')"
  by (rule uvmalloc_grows [OF bare_space])
    (simp_all add: MAXVA_def PTE_W_def unmapped_def bare_leaf)

subsection \<open>Kernel stacks\<close>

lemma unat_KSTACK: "t < NTHREADS \<Longrightarrow> unat (KSTACK t) + (t + 1) * 65 * 4096 = 2 ^ 38 - 4096"
proof -
  assume t: "t < NTHREADS"
  let ?n = "(t + 1) * (KSTACK_PAGE + 1)"
  have n: "?n \<le> 4160" using t by (simp add: NTHREADS_def KSTACK_PAGE_def)
  have T: "unat TRAMPOLINE = 2 ^ 38 - 4096" by (simp add: TRAMPOLINE_def MAXVA_def PGSIZE_def)
  have w: "unat (of_nat ?n * PGSIZE :: u64) = 4096 * ?n" using unat_add_pages [of 0 ?n] n by simp
  then have "of_nat ?n * PGSIZE \<le> TRAMPOLINE" using T n by (simp add: word_le_nat_alt)
  from unat_sub [OF this] have "unat (KSTACK t) = 2 ^ 38 - 4096 - 4096 * ?n" unfolding KSTACK_def T w .
  then show ?thesis using n by (simp add: KSTACK_PAGE_def)
qed



end
