(* ===== verification/XV_Thread.thy ===== *)
theory XV_Thread
  imports XV_Queue XV_Vm
begin

section \<open>Threads and the scheduler\<close>

text \<open>
  \<^verbatim>\<open>kernel/sched/sched.c\<close> and the parts of \<^verbatim>\<open>kernel/sched/thread.c\<close> that move threads between
  states.  A TCB is known by its index in \<^verbatim>\<open>tcb_pool\<close>; a channel is an address, 0 is
  \<^verbatim>\<open>NULL\<close>.  Every CPU has the thread it runs (\<open>cputhread\<close>, the member \<^verbatim>\<open>thread\<close> of
  \<^verbatim>\<open>struct cpu\<close>).  A routine that gives up the CPU is split where \<^verbatim>\<open>swtch\<close> leaves the thread:
  \<^verbatim>\<open>swtch\<close> itself is assembly and saves and loads registers only.  The members of a TCB for its
  process, its user stack and its name are left out: no routine of this theory reads them.
\<close>

record tcb =
  t_state :: thread_state
  t_tid :: u32
  t_killed :: bool
  t_chan :: u64
  t_timeout :: u64
  t_wait_chan_entry :: "qid option"
  t_kstack :: u64
  t_ra :: u64
  t_sp :: u64
  t_saved :: "u64 list"
  t_set_child_tid :: u64
  t_clear_child_tid :: u64
  t_blocked :: u64
  t_signal :: u64
  t_pending_cnt :: int
  t_sig_processing :: u64

text \<open>The zeroed entry that \<^verbatim>\<open>tcb_pool\<close> starts with.\<close>

definition tcb_zero :: tcb where
  "tcb_zero = \<lparr>t_state = TCB_UNUSED, t_tid = 0, t_killed = False, t_chan = 0, t_timeout = 0, t_wait_chan_entry = None, t_kstack = 0,
     t_ra = 0, t_sp = 0, t_saved = [], t_set_child_tid = 0, t_clear_child_tid = 0, t_blocked = 0, t_signal = 0, t_pending_cnt = 0,
     t_sig_processing = 0\<rparr>"

record tst = qst +
  tcb_pool :: "nat \<Rightarrow> tcb"
  cputhread :: "nat \<Rightarrow> nat option"
  next_tid :: u32
  ticks :: u32

definition on_tcb :: "nat \<Rightarrow> (tcb \<Rightarrow> tcb) \<Rightarrow> 'z tst_scheme \<Rightarrow> 'z tst_scheme" where
  "on_tcb t f s = s\<lparr>tcb_pool := (tcb_pool s)(t := f (tcb_pool s t))\<rparr>"

definition mythread :: "nat \<Rightarrow> 'z tst_scheme \<Rightarrow> nat option" where
  "mythread c s = cputhread s c"

definition alloctid :: "'z tst_scheme \<Rightarrow> u32 \<times> 'z tst_scheme" where
  "alloctid s = (let (tid, next) = atomic_inc_return (next_tid s) in (tid, s\<lparr>next_tid := next\<rparr>))"

definition TCB_Q_ALL_INIT :: "'z tst_scheme \<Rightarrow> 'z tst_scheme" where
  "TCB_Q_ALL_INIT s =
     queue_init (TQ TCB_SLEEPING) TCB_STATE_QUEUE (queue_init (TQ TCB_RUNNABLE) TCB_STATE_QUEUE
       (queue_init (TQ TCB_USED) TCB_STATE_QUEUE (queue_init (TQ TCB_UNUSED) TCB_STATE_QUEUE s)))"

fun tcb_init_loop :: "nat list \<Rightarrow> 'z tst_scheme \<Rightarrow> 'z tst_scheme option" where
  "tcb_init_loop [] s = Some s"
| "tcb_init_loop (i # is) s = do {
     let s = on_tcb i (\<lambda>t. t\<lparr>t_state := TCB_UNUSED, t_kstack := KSTACK i\<rparr>) s;
     s \<leftarrow> queue_push_back_atomic (TQ TCB_UNUSED) i s;
     tcb_init_loop is s
   }"

definition tcb_init :: "'z tst_scheme \<Rightarrow> 'z tst_scheme option" where
  "tcb_init s = tcb_init_loop [0..<NTHREADS] (TCB_Q_ALL_INIT s)"

text \<open>
  \<^verbatim>\<open>g_tcb_queues\<close> has no queue for \<^verbatim>\<open>TCB_RUNNING\<close>: the entry is \<^verbatim>\<open>NULL\<close>, and pushing to it
  does not return.
\<close>

definition tcb_q_change_state :: "nat \<Rightarrow> thread_state \<Rightarrow> 'z tst_scheme \<Rightarrow> 'z tst_scheme option" where
  "tcb_q_change_state t state_new s = do {
     let old = t_state (tcb_pool s t);
     s \<leftarrow> (if old \<noteq> TCB_RUNNING then queue_remove_atomic (TQ old) t s
          else queue_remove t TCB_STATE_QUEUE s);
     ensure (state_new \<noteq> TCB_RUNNING);
     s \<leftarrow> queue_push_back_atomic (TQ state_new) t s;
     Some (on_tcb t (t_state_update (\<lambda>_. state_new)) s)
   }"

definition tcb_change2_running :: "nat \<Rightarrow> 'z tst_scheme \<Rightarrow> 'z tst_scheme" where
  "tcb_change2_running t s = on_tcb t (t_state_update (\<lambda>_. TCB_RUNNING)) s"

text \<open>
  \<^verbatim>\<open>thread_sched\<close> up to the switch: the CPU holds the lock of its thread and no other
  (\<^verbatim>\<open>noff\<close> is 1), so interrupts are off; and the thread is no longer running.
\<close>

definition thread_sched :: "nat \<Rightarrow> 'z tst_scheme \<Rightarrow> 'z tst_scheme option" where
  "thread_sched c s = do {
     t \<leftarrow> mythread c s;
     ensure (L_tcb t \<in> set (held s));
     ensure (length (held s) = 1);
     ensure (t_state (tcb_pool s t) \<noteq> TCB_RUNNING);
     Some s
   }"

text \<open>
  One round of \<^verbatim>\<open>thread_scheduler\<close>: up to the switch to the thread it has chosen (\<open>None\<close>
  when no thread is runnable), and from the return of that switch to the end of the round.
\<close>

definition scheduler_pick :: "nat \<Rightarrow> 'z tst_scheme \<Rightarrow> (nat option \<times> 'z tst_scheme) option" where
  "scheduler_pick c s = do {
     (r, s) \<leftarrow> queue_pop_atomic (TQ TCB_RUNNABLE) True s;
     (case r of
        None \<Rightarrow> Some (None, s)
      | Some t \<Rightarrow> do {
          s \<leftarrow> acquire (L_tcb t) s;
          let s = tcb_change2_running t s;
          Some (Some t, s\<lparr>cputhread := (cputhread s)(c := Some t)\<rparr>)
        })
   }"

definition scheduler_return :: "nat \<Rightarrow> nat \<Rightarrow> 'z tst_scheme \<Rightarrow> 'z tst_scheme option" where
  "scheduler_return c t s = release (L_tcb t) (s\<lparr>cputhread := (cputhread s)(c := None)\<rparr>)"

definition thread_yield_enter :: "nat \<Rightarrow> 'z tst_scheme \<Rightarrow> 'z tst_scheme option" where
  "thread_yield_enter c s = do {
     t \<leftarrow> mythread c s;
     s \<leftarrow> acquire (L_tcb t) s;
     s \<leftarrow> tcb_q_change_state t TCB_RUNNABLE s;
     thread_sched c s
   }"

definition thread_yield_exit :: "nat \<Rightarrow> 'z tst_scheme \<Rightarrow> 'z tst_scheme option" where
  "thread_yield_exit t s = release (L_tcb t) s"

definition TIMESPEC2TICKS :: "u64 \<Rightarrow> u64 \<Rightarrow> u64" where
  "TIMESPEC2TICKS tv_sec tv_nsec = tv_sec * 10 + tv_nsec * 10 div 1000000000"

definition get_timeout_ticks :: "u64 \<times> u64 \<Rightarrow> 'z tst_scheme \<Rightarrow> (u32 \<times> 'z tst_scheme) option" where
  "get_timeout_ticks ts s = do {
     s \<leftarrow> acquire L_ticks s;
     let ticks0 = ticks s;
     s \<leftarrow> release L_ticks s;
     let rticks = (ucast (TIMESPEC2TICKS (fst ts) (snd ts)) :: u32);
     Some (rticks + ticks0, s)
   }"

definition thread_sleep_enter ::
  "nat \<Rightarrow> u64 \<Rightarrow> lock \<Rightarrow> (u64 \<times> u64) option \<Rightarrow> 'z tst_scheme \<Rightarrow> 'z tst_scheme option" where
  "thread_sleep_enter c chan lk timeout s = do {
     t \<leftarrow> mythread c s;
     s \<leftarrow> acquire (L_tcb t) s;
     s \<leftarrow> release lk s;
     let s = on_tcb t (t_chan_update (\<lambda>_. chan)) s;
     s \<leftarrow> (case timeout of
            None \<Rightarrow> Some s
          | Some ts \<Rightarrow> do {
              (d, s) \<leftarrow> get_timeout_ticks ts s;
              Some (on_tcb t (t_timeout_update (\<lambda>_. ucast d)) s)
            });
     s \<leftarrow> tcb_q_change_state t TCB_SLEEPING s;
     thread_sched c s
   }"

definition thread_sleep_exit :: "nat \<Rightarrow> lock \<Rightarrow> 'z tst_scheme \<Rightarrow> 'z tst_scheme option" where
  "thread_sleep_exit t lk s = do {
     let s = on_tcb t (\<lambda>x. x\<lparr>t_chan := 0, t_timeout := 0\<rparr>) s;
     s \<leftarrow> release (L_tcb t) s;
     acquire lk s
   }"

text \<open>The three loops over \<^verbatim>\<open>tcb_pool\<close>; two of them stop at the first thread they wake.\<close>

fun wakeup_chan_loop :: "nat \<Rightarrow> u64 \<Rightarrow> nat list \<Rightarrow> 'z tst_scheme \<Rightarrow> 'z tst_scheme option" where
  "wakeup_chan_loop c chan [] s = Some s"
| "wakeup_chan_loop c chan (t # ts) s = do {
     s \<leftarrow> (if mythread c s \<noteq> Some t then do {
            s \<leftarrow> acquire (L_tcb t) s;
            s \<leftarrow> (if t_chan (tcb_pool s t) = chan \<and> t_state (tcb_pool s t) = TCB_SLEEPING
                 then tcb_q_change_state t TCB_RUNNABLE s else Some s);
            release (L_tcb t) s
          } else Some s);
     wakeup_chan_loop c chan ts s
   }"

definition thread_wakeup_chan :: "nat \<Rightarrow> u64 \<Rightarrow> 'z tst_scheme \<Rightarrow> 'z tst_scheme option" where
  "thread_wakeup_chan c chan s = wakeup_chan_loop c chan [0..<NTHREADS] s"

fun wakeup_timeout_loop :: "nat \<Rightarrow> u32 \<Rightarrow> nat list \<Rightarrow> 'z tst_scheme \<Rightarrow> 'z tst_scheme option" where
  "wakeup_timeout_loop c now [] s = Some s"
| "wakeup_timeout_loop c now (t # ts) s =
     (if mythread c s \<noteq> Some t then do {
        s \<leftarrow> acquire (L_tcb t) s;
        if t_state (tcb_pool s t) = TCB_SLEEPING \<and> t_timeout (tcb_pool s t) = ucast now
        then do {
          s \<leftarrow> tcb_q_change_state t TCB_RUNNABLE s;
          release (L_tcb t) s
        }
        else do { s \<leftarrow> release (L_tcb t) s; wakeup_timeout_loop c now ts s }
      }
      else wakeup_timeout_loop c now ts s)"

definition thread_wakeup_timeout :: "nat \<Rightarrow> u32 \<Rightarrow> 'z tst_scheme \<Rightarrow> 'z tst_scheme option" where
  "thread_wakeup_timeout c now s = wakeup_timeout_loop c now [0..<NTHREADS] s"

fun wakeup_chan_timeout_loop :: "nat \<Rightarrow> u64 \<Rightarrow> u32 \<Rightarrow> nat list \<Rightarrow> 'z tst_scheme \<Rightarrow> 'z tst_scheme option" where
  "wakeup_chan_timeout_loop c chan now [] s = Some s"
| "wakeup_chan_timeout_loop c chan now (t # ts) s =
     (if mythread c s \<noteq> Some t then do {
        s \<leftarrow> acquire (L_tcb t) s;
        if t_state (tcb_pool s t) = TCB_SLEEPING \<and> t_chan (tcb_pool s t) = chan \<and> t_timeout (tcb_pool s t) = ucast now
        then do {
          s \<leftarrow> tcb_q_change_state t TCB_RUNNABLE s;
          release (L_tcb t) (on_tcb t (t_timeout_update (\<lambda>_. 0)) s)
        }
        else do { s \<leftarrow> release (L_tcb t) s; wakeup_chan_timeout_loop c chan now ts s }
      }
      else wakeup_chan_timeout_loop c chan now ts s)"

definition thread_wakeup_chan_timeout :: "nat \<Rightarrow> u64 \<Rightarrow> u32 \<Rightarrow> 'z tst_scheme \<Rightarrow> 'z tst_scheme option" where
  "thread_wakeup_chan_timeout c chan now s = wakeup_chan_timeout_loop c chan now [0..<NTHREADS] s"

definition thread_wakeup_specific :: "nat \<Rightarrow> 'z tst_scheme \<Rightarrow> 'z tst_scheme option" where
  "thread_wakeup_specific t s = do {
     ensure (t_state (tcb_pool s t) = TCB_SLEEPING);
     ensure (t_chan (tcb_pool s t) \<noteq> 0 \<or> t_wait_chan_entry (tcb_pool s t) \<noteq> None);
     tcb_q_change_state t TCB_RUNNABLE (on_tcb t (t_chan_update (\<lambda>_. 0)) s)
   }"

definition thread_wakeup_specific_atomic :: "nat \<Rightarrow> 'z tst_scheme \<Rightarrow> 'z tst_scheme option" where
  "thread_wakeup_specific_atomic t s = do {
     s \<leftarrow> acquire (L_tcb t) s;
     s \<leftarrow> thread_wakeup_specific t s;
     release (L_tcb t) s
   }"

definition thread_setkilled :: "nat \<Rightarrow> 'z tst_scheme \<Rightarrow> 'z tst_scheme option" where
  "thread_setkilled t s = do {
     s \<leftarrow> acquire (L_tcb t) s;
     release (L_tcb t) (on_tcb t (t_killed_update (\<lambda>_. True)) s)
   }"

definition thread_killed :: "nat \<Rightarrow> 'z tst_scheme \<Rightarrow> (bool \<times> 'z tst_scheme) option" where
  "thread_killed t s = do {
     s \<leftarrow> acquire (L_tcb t) s;
     let k = t_killed (tcb_pool s t);
     s \<leftarrow> release (L_tcb t) s;
     Some (k, s)
   }"

definition sigpending_init :: "nat \<Rightarrow> 'z tst_scheme \<Rightarrow> 'z tst_scheme" where
  "sigpending_init t s =
     on_tcb t (t_signal_update (\<lambda>_. 0)) (s\<lparr>links := INIT_LIST_HEAD (LSigHead t) (links s)\<rparr>)"

text \<open>The new thread is returned with its lock held; the trapframe is set up by the caller.\<close>

definition alloc_thread :: "u64 \<Rightarrow> 'z tst_scheme \<Rightarrow> (nat option \<times> 'z tst_scheme) option" where
  "alloc_thread callback s = do {
     (r, s) \<leftarrow> queue_pop_atomic (TQ TCB_UNUSED) True s;
     (case r of
        None \<Rightarrow> Some (None, s)
      | Some t \<Rightarrow> do {
          s \<leftarrow> acquire (L_tcb t) s;
          let s = s\<lparr>links := INIT_LIST_HEAD (LThreads t) (links s)\<rparr>;
          let (tid, s) = alloctid s;
          let s = on_tcb t (\<lambda>x. x\<lparr>t_tid := tid, t_ra := callback,
                    t_sp := t_kstack x + of_nat KSTACK_PAGE * PGSIZE, t_saved := replicate 12 0, t_blocked := 0\<rparr>) s;
          let s = sigpending_init t s;
          s \<leftarrow> tcb_q_change_state t TCB_USED s;
          Some (Some t, on_tcb t (\<lambda>x. x\<lparr>t_set_child_tid := 0, t_clear_child_tid := 0, t_killed := False,
                    t_chan := 0, t_timeout := 0, t_wait_chan_entry := None\<rparr>) s)
        })
   }"

definition get_ticksnow :: "'z tst_scheme \<Rightarrow> (u32 \<times> 'z tst_scheme) option" where
  "get_ticksnow s = do {
     s \<leftarrow> acquire L_ticks s;
     let t = ticks s;
     s \<leftarrow> release L_ticks s;
     Some (t, s)
   }"

text \<open>The address of the variable \<^verbatim>\<open>ticks\<close>, the channel of the timer, is a parameter.\<close>

definition clockintr :: "u64 \<Rightarrow> nat \<Rightarrow> 'z tst_scheme \<Rightarrow> 'z tst_scheme option" where
  "clockintr ticks_addr c s = do {
     s \<leftarrow> acquire L_ticks s;
     let s = s\<lparr>ticks := ticks s + 1\<rparr>;
     s \<leftarrow> thread_wakeup_chan c ticks_addr s;
     s \<leftarrow> release L_ticks s;
     s \<leftarrow> acquire L_timeout s;
     s \<leftarrow> thread_wakeup_timeout c (ticks s) s;
     release L_timeout s
   }"

subsection \<open>Every thread is in the queue of its state\<close>

definition tqueues :: "qid set" where
  "tqueues = {TQ TCB_UNUSED, TQ TCB_USED, TQ TCB_RUNNABLE, TQ TCB_SLEEPING}"

fun qkind :: "qid \<Rightarrow> queue_type" where
  "qkind (TQ _) = TCB_STATE_QUEUE"
| "qkind (PQ _) = PCB_STATE_QUEUE"
| "qkind (CondQ _) = TCB_WAIT_QUEUE"
| "qkind (FutexQ _) = TCB_WAIT_QUEUE"

text \<open>
  \<open>W\<close> are the wait queues that are set up and \<open>T\<close> the threads that are in no state queue:
  those that run and one that the scheduler or \<^verbatim>\<open>alloc_thread\<close> has just taken out.  Their
  \<^verbatim>\<open>state_list\<close> is linked to itself.
\<close>

definition sched_inv :: "qid set \<Rightarrow> 'z tst_scheme \<Rightarrow> (qid \<Rightarrow> nat list) \<Rightarrow> nat set \<Rightarrow> bool" where
  "sched_inv W s Q T \<longleftrightarrow>
     queues_of (tqueues \<union> W) qkind s Q \<and> (\<forall>q \<in> W. qkind q = TCB_WAIT_QUEUE) \<and>
     (\<forall>t \<in> T. t < NTHREADS \<and> is_list (links s) (LTState t) []) \<and>
     (\<forall>t < NTHREADS. t \<notin> T \<longrightarrow> t_state (tcb_pool s t) \<noteq> TCB_RUNNING) \<and>
     (\<forall>t x. t \<in> set (Q (TQ x)) \<longleftrightarrow> t < NTHREADS \<and> t \<notin> T \<and> t_state (tcb_pool s t) = x)"

lemma TQ_in: "TQ x \<in> tqueues \<longleftrightarrow> x \<noteq> TCB_RUNNING"
  by (cases x) (auto simp: tqueues_def)

lemma sched_invD:
  assumes "sched_inv W s Q T"
  shows "queues_of (tqueues \<union> W) qkind s Q" "\<And>q. q \<in> W \<Longrightarrow> qkind q = TCB_WAIT_QUEUE"
    "\<And>t. t \<in> T \<Longrightarrow> is_list (links s) (LTState t) []" "\<And>t. t \<in> T \<Longrightarrow> t < NTHREADS"
    "\<And>t x. t \<in> set (Q (TQ x)) \<longleftrightarrow> t < NTHREADS \<and> t \<notin> T \<and> t_state (tcb_pool s t) = x"
    "\<And>t. t < NTHREADS \<Longrightarrow> t \<notin> T \<Longrightarrow> t_state (tcb_pool s t) \<noteq> TCB_RUNNING"
  using assms unfolding sched_inv_def by blast+

text \<open>What the routines of this theory leave alone, apart from the TCBs.\<close>

definition tframe :: "'z tst_scheme \<Rightarrow> 'z tst_scheme \<Rightarrow> bool" where
  "tframe s s' \<longleftrightarrow> held s' = held s \<and> mem s' = mem s \<and> freelist s' = freelist s \<and>
     g_freecnt s' = g_freecnt s \<and> qtype s' = qtype s \<and> cputhread s' = cputhread s \<and>
     next_tid s' = next_tid s \<and> ticks s' = ticks s \<and> tst.more s' = tst.more s \<and>
     (\<forall>a. \<not> qcell a \<longrightarrow> links s' a = links s a)"

lemma tframe_refl [simp, intro]: "tframe s s"
  by (simp add: tframe_def)

lemma tframe_trans [trans]: "tframe s t \<Longrightarrow> tframe t u \<Longrightarrow> tframe s u"
  by (simp add: tframe_def)

lemma qframe_tst:
  assumes "qframe s s'"
  shows "tcb_pool s' = tcb_pool s" "cputhread s' = cputhread s" "next_tid s' = next_tid s" "ticks s' = ticks s"
    "tst.more s' = tst.more s"
proof -
  have m: "qst.more s' = qst.more s" using assms by (simp add: qframe_def)
  show "tcb_pool s' = tcb_pool s" "cputhread s' = cputhread s" "next_tid s' = next_tid s" "ticks s' = ticks s"
    "tst.more s' = tst.more s"
    using m by (cases s, cases s', simp)+
qed

lemma qframe_tframe: "qframe s s' \<Longrightarrow> tframe s s'"
  using qframe_tst [of s s'] by (simp add: tframe_def qframe_def)

lemma on_tcb_sel [simp]:
  "held (on_tcb t f s) = held s" "links (on_tcb t f s) = links s" "qtype (on_tcb t f s) = qtype s"
  "qcnt (on_tcb t f s) = qcnt s" "cputhread (on_tcb t f s) = cputhread s" "ticks (on_tcb t f s) = ticks s"
  "next_tid (on_tcb t f s) = next_tid s" "mem (on_tcb t f s) = mem s" "tst.more (on_tcb t f s) = tst.more s"
  "tcb_pool (on_tcb t f s) = (tcb_pool s)(t := f (tcb_pool s t))"
  by (simp_all add: on_tcb_def)

lemma tframe_on_tcb [simp, intro]: "tframe s (on_tcb t f s)"
  by (simp add: tframe_def on_tcb_def)

text \<open>A state that differs only in locks and in cells of no queue has the same queues.\<close>

lemma queues_of_cong:
  assumes "queues_of D ty s Q" "qtype s' = qtype s" "\<And>a. qcell a \<Longrightarrow> links s' a = links s a"
    "\<And>q. q \<in> D \<Longrightarrow> L_queue q \<notin> set (held s')"
  shows "queues_of D ty s' Q"
proof -
  have "is_list (links s') (LQueue q) (map (cell (qtype s q)) (Q q))" if "q \<in> D" for q
    by (rule is_list_frame [of "links s"]) (use assms that in \<open>auto simp: queues_of_def queues_def\<close>)
  then show ?thesis using assms by (auto simp: queues_of_def queues_def)
qed

lemma sched_inv_cong:
  assumes i: "sched_inv W s Q T" and q: "qtype s' = qtype s" "\<And>a. qcell a \<Longrightarrow> links s' a = links s a"
    "\<And>q. q \<in> tqueues \<union> W \<Longrightarrow> L_queue q \<notin> set (held s')"
    and st: "\<And>t. t_state (tcb_pool s' t) = t_state (tcb_pool s t)"
  shows "sched_inv W s' Q T"
proof -
  have "is_list (links s') (LTState t) []" if "t \<in> T" for t
    using sched_invD(3) [OF i that] q(2) [of "LTState t"] by (simp add: is_list_empty qcell_def)
  then show ?thesis
    using queues_of_cong [OF sched_invD(1) [OF i] q] i st by (auto simp: sched_inv_def)
qed

lemma sched_inv_on_tcb [simp]:
  assumes "\<And>x. t_state (f x) = t_state x"
  shows "sched_inv W (on_tcb t f s) Q T = sched_inv W s Q T"
proof
  have held: "L_queue q \<notin> set (held s)" if "queues_of (tqueues \<union> W) qkind s Q \<or> queues_of (tqueues \<union> W) qkind (on_tcb t f s) Q" "q \<in> tqueues \<union> W" for q
    using that by (auto simp: queues_of_def)
  show "sched_inv W s Q T" if "sched_inv W (on_tcb t f s) Q T"
    by (rule sched_inv_cong [OF that]) (use assms held sched_invD(1) [OF that] in auto)
  show "sched_inv W (on_tcb t f s) Q T" if "sched_inv W s Q T"
    by (rule sched_inv_cong [OF that]) (use assms held sched_invD(1) [OF that] in auto)
qed

text \<open>Which cells the operations on a queue write.\<close>

lemma queue_remove_atomic_cells:
  assumes Q: "queues s D Q" and q: "q \<in> D" and n: "n \<in> set (Q q)" and r: "queue_remove_atomic q n s = Some s'"
    and a: "a \<noteq> LQueue q" "a \<notin> cell (qtype s q) ` set (Q q)"
  shows "links s' a = links s a"
proof -
  let ?c = "cell (qtype s q)"
  note d = queuesD [OF Q q]
  obtain ys zs where yz: "Q q = ys @ n # zs" using n by (metis split_list)
  then have "is_list (links s) (LQueue q) (map ?c ys @ ?c n # map ?c zs)" using d(2) by simp
  from list_del_reinit_list [OF this] obtain st where
      "list_del_reinit (?c n) (links s) = Some st"
      "\<And>a. a \<notin> insert (LQueue q) (set (map ?c ys @ ?c n # map ?c zs)) \<Longrightarrow> st a = links s a"
    by auto
  then show ?thesis
    using r a yz d(1)
    by (auto simp: queue_remove_atomic_def queue_entry_cell on_links_def acquire_def release_def Let_def image_Un split: if_splits)
qed

lemma queue_push_back_atomic_cells:
  assumes Q: "queues s D Q" and q: "q \<in> D" and n: "n \<notin> set (Q q)" and r: "queue_push_back_atomic q n s = Some s'"
    and a: "a \<noteq> LQueue q" "a \<notin> cell (qtype s q) ` set (n # Q q)"
  shows "links s' a = links s a"
proof -
  let ?c = "cell (qtype s q)"
  note d = queuesD [OF Q q]
  have "?c n \<notin> set (LQueue q # map ?c (Q q))" using n by (auto simp: cell_inj)
  from list_add_tail_list [OF d(2) this] obtain st where
      "list_add_tail (?c n) (LQueue q) (links s) = Some st"
      "\<And>a. a \<notin> insert (?c n) (insert (LQueue q) (set (map ?c (Q q)))) \<Longrightarrow> st a = links s a"
    by auto
  then show ?thesis
    using r a d(1)
    by (auto simp: queue_push_back_atomic_def queue_entry_cell on_links_def acquire_def release_def Let_def split: if_splits)
qed

lemma queue_remove_atomic_alone:
  assumes "is_list (links s) (LTState n) []" "qtype s q = TCB_STATE_QUEUE" "L_queue q \<notin> set (held s)"
  shows "queue_remove_atomic q n s = Some (s\<lparr>qcnt := (qcnt s)(q := qcnt s q - 1)\<rparr>)"
  using assms list_del_reinit_alone [OF assms(1)]
  by (simp add: queue_remove_atomic_def on_links_def acquire_def release_def Let_def)

lemma queue_remove_alone:
  assumes "is_list (links s) (LTState n) []"
  shows "queue_remove n TCB_STATE_QUEUE s = Some s"
  using list_del_reinit_alone [OF assms] by (simp add: queue_remove_def on_links_def)

definition drop_from :: "nat \<Rightarrow> thread_state \<Rightarrow> (qid \<Rightarrow> nat list) \<Rightarrow> qid \<Rightarrow> nat list" where
  "drop_from t x Q = Q(TQ x := removeAll t (Q (TQ x)))"

text \<open>The first half of \<^verbatim>\<open>tcb_q_change_state\<close>: afterwards the thread is in no state queue.\<close>

lemma leave_queue:
  assumes i: "sched_inv W s Q T" and t: "t < NTHREADS"
  shows "\<exists>s'. (if t_state (tcb_pool s t) \<noteq> TCB_RUNNING then queue_remove_atomic (TQ (t_state (tcb_pool s t))) t s
            else queue_remove t TCB_STATE_QUEUE s) = Some s' \<and> qframe s s' \<and>
          sched_inv W s' (drop_from t (t_state (tcb_pool s t)) Q) (insert t T)"
proof (cases "t \<in> T")
  case True
  let ?x = "t_state (tcb_pool s t)"
  note d = sched_invD [OF i]
  have a: "is_list (links s) (LTState t) []" using d(3) [OF True] .
  have Q: "drop_from t ?x Q = Q"
    using d(5) [of t ?x] True by (simp add: drop_from_def removeAll_id)
  have "\<exists>s'. (if ?x \<noteq> TCB_RUNNING then queue_remove_atomic (TQ ?x) t s else queue_remove t TCB_STATE_QUEUE s) = Some s' \<and>
      (\<exists>c. s' = s\<lparr>qcnt := c\<rparr>)"
  proof (cases "?x = TCB_RUNNING")
    case True
    then show ?thesis using queue_remove_alone [OF a] by (intro exI [of _ s]) (auto intro: exI [of _ "qcnt s"])
  next
    case False
    then have "TQ ?x \<in> tqueues \<union> W" by (simp add: TQ_in)
    then have "qtype s (TQ ?x) = TCB_STATE_QUEUE" "L_queue (TQ ?x) \<notin> set (held s)"
      using d(1) by (auto simp: queues_of_def)
    from queue_remove_atomic_alone [OF a this] show ?thesis using False by auto
  qed
  then obtain s' c where s': "(if ?x \<noteq> TCB_RUNNING then queue_remove_atomic (TQ ?x) t s else queue_remove t TCB_STATE_QUEUE s) = Some s'"
    "s' = s\<lparr>qcnt := c\<rparr>" by blast
  have "sched_inv W s' Q T"
    by (rule sched_inv_cong [OF i]) (use s'(2) d(1) in \<open>auto simp: queues_of_def\<close>)
  then show ?thesis using s' Q True by (auto simp: insert_absorb qframe_def)
next
  case False
  let ?x = "t_state (tcb_pool s t)"
  note d = sched_invD [OF i]
  have nr: "?x \<noteq> TCB_RUNNING" using d(6) [OF t False] .
  then have D: "TQ ?x \<in> tqueues \<union> W" by (simp add: TQ_in)
  have m: "t \<in> set (Q (TQ ?x))" using d(5) t False by simp
  have qu: "queues s (tqueues \<union> W) Q" and h: "L_queue (TQ ?x) \<notin> set (held s)" and ty: "qtype s (TQ ?x) = TCB_STATE_QUEUE"
    using d(1) D by (auto simp: queues_of_def)
  obtain s' where s': "queue_remove_atomic (TQ ?x) t s = Some s'"
      "queues s' (tqueues \<union> W) (Q(TQ ?x := removeAll t (Q (TQ ?x))))" "qframe s s'"
      "is_list (links s') (cell (qtype s (TQ ?x)) t) []"
    using queue_remove_atomic_ok [OF qu D m h] by blast
  have q': "queues_of (tqueues \<union> W) qkind s' (drop_from t ?x Q)"
    using queues_of_frame [OF d(1) s'(2,3)] by (simp add: drop_from_def)
  have T: "is_list (links s') (LTState u) []" if "u \<in> insert t T" for u
  proof (cases "u = t")
    case True
    then show ?thesis using s'(4) ty by (simp add: cell_def)
  next
    case False
    then have "u \<in> T" using that by simp
    then have "u \<notin> set (Q (TQ ?x))" using d(5) by blast
    then have "links s' (LTState u) = links s (LTState u)"
      by (intro queue_remove_atomic_cells [OF qu D m s'(1)]) (auto simp: ty cell_def)
    then show ?thesis using d(3) [OF \<open>u \<in> T\<close>] by (simp add: is_list_empty)
  qed
  have "sched_inv W s' (drop_from t ?x Q) (insert t T)"
    unfolding sched_inv_def
    using q' T d(2,4,6) t d(5) qframe_tst(1) [OF s'(3)] by (auto simp: drop_from_def)
  then show ?thesis using s' nr by auto
qed

lemma enter_queue:
  assumes i: "sched_inv W s Q T" and t: "t \<in> T" and x: "x \<noteq> TCB_RUNNING"
  shows "\<exists>s'. queue_push_back_atomic (TQ x) t s = Some s' \<and> qframe s s' \<and>
          sched_inv W (on_tcb t (t_state_update (\<lambda>_. x)) s') (Q(TQ x := Q (TQ x) @ [t])) (T - {t})"
proof -
  note d = sched_invD [OF i]
  have D: "TQ x \<in> tqueues \<union> W" using x by (simp add: TQ_in)
  have qu: "queues s (tqueues \<union> W) Q" and h: "L_queue (TQ x) \<notin> set (held s)" and ty: "qtype s (TQ x) = TCB_STATE_QUEUE"
    using d(1) D by (auto simp: queues_of_def)
  have no: "t \<notin> set (Q (TQ y))" for y using d(5) t by blast
  have "r \<in> tqueues \<union> W \<Longrightarrow> qtype s r = TCB_STATE_QUEUE \<Longrightarrow> \<exists>y. r = TQ y" for r
    using d(1,2) by (auto simp: queues_of_def tqueues_def)
  then have "\<not> queued s (tqueues \<union> W) Q (qtype s (TQ x)) t" using no ty by (auto simp: queued_def)
  from queue_push_back_atomic_ok [OF qu D this h] obtain s' where s': "queue_push_back_atomic (TQ x) t s = Some s'"
      "queues s' (tqueues \<union> W) (Q(TQ x := Q (TQ x) @ [t]))" "qframe s s'" by blast
  let ?s = "on_tcb t (t_state_update (\<lambda>_. x)) s'"
  have q': "queues_of (tqueues \<union> W) qkind s' (Q(TQ x := Q (TQ x) @ [t]))" by (rule queues_of_frame [OF d(1) s'(2,3)])
  have q'': "queues_of (tqueues \<union> W) qkind ?s (Q(TQ x := Q (TQ x) @ [t]))"
    by (rule queues_of_cong [OF q']) (use q' in \<open>auto simp: queues_of_def\<close>)
  have T: "is_list (links s') (LTState u) []" if u: "u \<in> T - {t}" for u
  proof -
    have "u \<notin> set (Q (TQ x))" using d(5) u by blast
    then have "links s' (LTState u) = links s (LTState u)"
      by (intro queue_push_back_atomic_cells [OF qu D no s'(1)]) (use u in \<open>auto simp: ty cell_def\<close>)
    then show ?thesis using d(3) [of u] u by (simp add: is_list_empty)
  qed
  have "sched_inv W ?s (Q(TQ x := Q (TQ x) @ [t])) (T - {t})"
    unfolding sched_inv_def
    using q'' T d(2,4,5,6) t x qframe_tst(1) [OF s'(3)] by auto
  then show ?thesis using s' by auto
qed

definition requeue :: "nat \<Rightarrow> thread_state \<Rightarrow> thread_state \<Rightarrow> (qid \<Rightarrow> nat list) \<Rightarrow> qid \<Rightarrow> nat list" where
  "requeue t x y Q = (drop_from t x Q)(TQ y := drop_from t x Q (TQ y) @ [t])"

lemma change_state_ok:
  assumes i: "sched_inv W s Q T" and t: "t < NTHREADS" and x: "x \<noteq> TCB_RUNNING"
  shows "\<exists>s'. tcb_q_change_state t x s = Some s' \<and> tframe s s' \<and>
          sched_inv W s' (requeue t (t_state (tcb_pool s t)) x Q) (T - {t}) \<and>
          tcb_pool s' = (tcb_pool s)(t := (tcb_pool s t)\<lparr>t_state := x\<rparr>)"
proof -
  let ?y = "t_state (tcb_pool s t)"
  obtain s1 where 1: "(if ?y \<noteq> TCB_RUNNING then queue_remove_atomic (TQ ?y) t s else queue_remove t TCB_STATE_QUEUE s) = Some s1"
      "qframe s s1" "sched_inv W s1 (drop_from t ?y Q) (insert t T)"
    using leave_queue [OF i t] by blast
  obtain s2 where 2: "queue_push_back_atomic (TQ x) t s1 = Some s2" "qframe s1 s2"
      "sched_inv W (on_tcb t (t_state_update (\<lambda>_. x)) s2) (requeue t ?y x Q) (insert t T - {t})"
    using enter_queue [OF 1(3) _ x, of t] by (auto simp: requeue_def)
  have fr: "tframe s s2" using tframe_trans [OF qframe_tframe [OF 1(2)] qframe_tframe [OF 2(2)]] .
  have p: "tcb_pool s2 = tcb_pool s" using qframe_tst(1) [OF 1(2)] qframe_tst(1) [OF 2(2)] by simp
  have "tcb_q_change_state t x s = Some (on_tcb t (t_state_update (\<lambda>_. x)) s2)"
    unfolding tcb_q_change_state_def Let_def using 1(1) 2(1) x by simp
  moreover have "tframe s (on_tcb t (t_state_update (\<lambda>_. x)) s2)" by (rule tframe_trans [OF fr]) simp
  ultimately show ?thesis using 2(3) p by auto
qed

text \<open>Taking and giving back locks of threads does not touch the queues.\<close>

definition qlock :: "lock \<Rightarrow> bool" where
  "qlock l \<longleftrightarrow> (\<exists>q. l = L_queue q)"

lemma qlock_simps [simp]:
  "\<not> qlock (L_tcb t)" "\<not> qlock L_ticks" "\<not> qlock L_timeout" "\<not> qlock L_wait" "\<not> qlock (L_pipe a)" "\<not> qlock L_futex"
  "\<not> qlock (L_sigpending t)" "\<not> qlock (L_proc t)" "\<not> qlock (L_sem k)" "qlock (L_queue q)"
  by (simp_all add: qlock_def)

lemma sched_inv_held:
  assumes "sched_inv W s Q T" "\<And>l. l \<in> set h \<Longrightarrow> qlock l \<Longrightarrow> l \<in> set (held s)"
  shows "sched_inv W (s\<lparr>held := h\<rparr>) Q T"
proof (rule sched_inv_cong [OF assms(1)])
  show "L_queue q \<notin> set (held (s\<lparr>held := h\<rparr>))" if "q \<in> tqueues \<union> W" for q
    using assms(2) [of "L_queue q"] sched_invD(1) [OF assms(1)] that by (auto simp: queues_of_def)
qed simp_all

lemma sched_inv_sel [simp]:
  "sched_inv W (s\<lparr>cputhread := x\<rparr>) Q T = sched_inv W s Q T"
  "sched_inv W (s\<lparr>ticks := y\<rparr>) Q T = sched_inv W s Q T"
  "sched_inv W (s\<lparr>next_tid := z\<rparr>) Q T = sched_inv W s Q T"
  by (auto simp: sched_inv_def queues_of_def queues_def)

lemma critical_section:
  assumes "l \<notin> set (held s)" "f (s\<lparr>held := l # held s\<rparr>) = Some s'" "held s' = l # held s"
  shows "(do { s \<leftarrow> acquire l s; s \<leftarrow> f s; release l s }) = Some (s'\<lparr>held := held s\<rparr>)"
  using assms by (simp add: acquire_def release_def)

lemma tframe_held:
  assumes "tframe (s\<lparr>held := h\<rparr>) s'"
  shows "held s' = h" "tframe s (s'\<lparr>held := held s\<rparr>)"
  using assms by (simp_all add: tframe_def)

lemma change_state_locked:
  assumes i: "sched_inv W s Q T" and t: "t < NTHREADS" and x: "x \<noteq> TCB_RUNNING" and l: "L_tcb t \<notin> set (held s)"
  shows "\<exists>s'. (do { s \<leftarrow> acquire (L_tcb t) s; s \<leftarrow> tcb_q_change_state t x s; release (L_tcb t) s }) = Some s' \<and> tframe s s' \<and>
          sched_inv W s' (requeue t (t_state (tcb_pool s t)) x Q) (T - {t}) \<and>
          tcb_pool s' = (tcb_pool s)(t := (tcb_pool s t)\<lparr>t_state := x\<rparr>)"
proof -
  let ?s = "s\<lparr>held := L_tcb t # held s\<rparr>"
  have "sched_inv W ?s Q T" by (rule sched_inv_held [OF i]) auto
  from change_state_ok [OF this t x] obtain s' where s': "tcb_q_change_state t x ?s = Some s'" "tframe ?s s'"
      "sched_inv W s' (requeue t (t_state (tcb_pool s t)) x Q) (T - {t})"
      "tcb_pool s' = (tcb_pool s)(t := (tcb_pool s t)\<lparr>t_state := x\<rparr>)" by auto
  note h = tframe_held [OF s'(2)]
  have "sched_inv W (s'\<lparr>held := held s\<rparr>) (requeue t (t_state (tcb_pool s t)) x Q) (T - {t})"
    by (rule sched_inv_held [OF s'(3)]) (simp add: h(1))
  then show ?thesis using critical_section [of _ s "tcb_q_change_state t x" s', OF l s'(1) h(1)] h(2) s'(4) by simp
qed

subsection \<open>Waking threads\<close>

text \<open>The sleeping threads \<open>ws\<close> become runnable, in this order.\<close>

definition wake_queues :: "nat list \<Rightarrow> (qid \<Rightarrow> nat list) \<Rightarrow> qid \<Rightarrow> nat list" where
  "wake_queues ws Q = Q(TQ TCB_SLEEPING := filter (\<lambda>t. t \<notin> set ws) (Q (TQ TCB_SLEEPING)),
     TQ TCB_RUNNABLE := Q (TQ TCB_RUNNABLE) @ ws)"

definition wake_tcbs :: "nat list \<Rightarrow> (nat \<Rightarrow> tcb) \<Rightarrow> nat \<Rightarrow> tcb" where
  "wake_tcbs ws P t = (if t \<in> set ws then (P t)\<lparr>t_state := TCB_RUNNABLE\<rparr> else P t)"

lemma wake_nil [simp]: "wake_queues [] Q = Q" "wake_tcbs [] P = P"
  by (simp_all add: wake_queues_def wake_tcbs_def fun_eq_iff)

lemma wake_cons:
  "wake_queues ws (requeue t TCB_SLEEPING TCB_RUNNABLE Q) = wake_queues (t # ws) Q"
  "t \<notin> set ws \<Longrightarrow> wake_tcbs ws (P(t := (P t)\<lparr>t_state := TCB_RUNNABLE\<rparr>)) = wake_tcbs (t # ws) P"
  by (auto simp: wake_queues_def requeue_def drop_from_def wake_tcbs_def fun_eq_iff removeAll_filter_not_eq intro: filter_cong)

definition sleeps_on :: "'z tst_scheme \<Rightarrow> u64 \<Rightarrow> nat \<Rightarrow> bool" where
  "sleeps_on s chan t \<longleftrightarrow> t_chan (tcb_pool s t) = chan \<and> t_state (tcb_pool s t) = TCB_SLEEPING"

lemma wake_one:
  assumes i: "sched_inv W s Q T" and t: "t < NTHREADS" and n: "t \<notin> T" and z: "t_state (tcb_pool s t) = TCB_SLEEPING"
    and l: "L_tcb t \<notin> set (held s)"
  shows "\<exists>s'. (do { s \<leftarrow> acquire (L_tcb t) s; s \<leftarrow> tcb_q_change_state t TCB_RUNNABLE s; release (L_tcb t) s }) = Some s' \<and>
          tframe s s' \<and> sched_inv W s' (requeue t TCB_SLEEPING TCB_RUNNABLE Q) T \<and>
          tcb_pool s' = (tcb_pool s)(t := (tcb_pool s t)\<lparr>t_state := TCB_RUNNABLE\<rparr>)"
  using change_state_locked [OF i t _ l, of TCB_RUNNABLE] n z by simp

lemma wakeup_chan_loop_ok:
  "sched_inv W s Q T \<Longrightarrow> distinct ts \<Longrightarrow> (\<And>t. t \<in> set ts \<Longrightarrow> t < NTHREADS) \<Longrightarrow>
   (\<And>t. t \<in> T \<Longrightarrow> t_state (tcb_pool s t) \<noteq> TCB_SLEEPING) \<Longrightarrow>
   (\<And>t. t \<in> set ts \<Longrightarrow> mythread c s \<noteq> Some t \<Longrightarrow> L_tcb t \<notin> set (held s)) \<Longrightarrow>
   ws = filter (\<lambda>t. mythread c s \<noteq> Some t \<and> sleeps_on s chan t) ts \<Longrightarrow>
   \<exists>s'. wakeup_chan_loop c chan ts s = Some s' \<and> tframe s s' \<and> sched_inv W s' (wake_queues ws Q) T \<and>
     tcb_pool s' = wake_tcbs ws (tcb_pool s)"
proof (induction ts arbitrary: s Q ws)
  case Nil
  then show ?case by auto
next
  case (Cons t ts)
  show ?case
  proof (cases "mythread c s \<noteq> Some t \<and> sleeps_on s chan t")
    case False
    have skip: "wakeup_chan_loop c chan (t # ts) s = wakeup_chan_loop c chan ts s"
      using False Cons.prems(5) [of t] by (auto simp: acquire_def release_def sleeps_on_def)
    have "\<exists>s'. wakeup_chan_loop c chan ts s = Some s' \<and> tframe s s' \<and> sched_inv W s' (wake_queues ws Q) T \<and>
        tcb_pool s' = wake_tcbs ws (tcb_pool s)"
      by (rule Cons.IH [OF Cons.prems(1)]) (use Cons.prems False in auto)
    then show ?thesis by (simp only: skip)
  next
    case True
    then have z: "t_state (tcb_pool s t) = TCB_SLEEPING" and my: "mythread c s \<noteq> Some t" by (auto simp: sleeps_on_def)
    have l: "L_tcb t \<notin> set (held s)" using Cons.prems(5) my by simp
    obtain s1 where 1: "(do { s \<leftarrow> acquire (L_tcb t) s; s \<leftarrow> tcb_q_change_state t TCB_RUNNABLE s; release (L_tcb t) s }) = Some s1"
        "tframe s s1" "sched_inv W s1 (requeue t TCB_SLEEPING TCB_RUNNABLE Q) T"
        "tcb_pool s1 = (tcb_pool s)(t := (tcb_pool s t)\<lparr>t_state := TCB_RUNNABLE\<rparr>)"
      using wake_one [OF Cons.prems(1) _ _ z l] Cons.prems(3,4) z by fastforce
    have st: "wakeup_chan_loop c chan (t # ts) s = wakeup_chan_loop c chan ts s1"
      using 1(1) True l by (auto simp: acquire_def sleeps_on_def)
    have my1: "mythread c s1 = mythread c s" "held s1 = held s" using 1(2) by (simp_all add: tframe_def mythread_def)
    let ?vs = "filter (\<lambda>u. mythread c s \<noteq> Some u \<and> sleeps_on s chan u) ts"
    have ws: "ws = t # ?vs" using Cons.prems(6) True by simp
    have "u \<in> set ts \<Longrightarrow> sleeps_on s1 chan u = sleeps_on s chan u" for u
      using Cons.prems(2) 1(4) by (auto simp: sleeps_on_def)
    then have vs: "?vs = filter (\<lambda>u. mythread c s1 \<noteq> Some u \<and> sleeps_on s1 chan u) ts"
      by (auto simp: my1 intro: filter_cong)
    have "\<exists>s'. wakeup_chan_loop c chan ts s1 = Some s' \<and> tframe s1 s' \<and>
        sched_inv W s' (wake_queues ?vs (requeue t TCB_SLEEPING TCB_RUNNABLE Q)) T \<and> tcb_pool s' = wake_tcbs ?vs (tcb_pool s1)"
      by (rule Cons.IH [OF 1(3) _ _ _ _ vs]) (use Cons.prems my1 1(4) in auto)
    then obtain s' where s': "wakeup_chan_loop c chan ts s1 = Some s'" "tframe s1 s'"
        "sched_inv W s' (wake_queues ?vs (requeue t TCB_SLEEPING TCB_RUNNABLE Q)) T" "tcb_pool s' = wake_tcbs ?vs (tcb_pool s1)"
      by blast
    have t: "t \<notin> set ?vs" using Cons.prems(2) by auto
    have "tcb_pool s' = wake_tcbs ws (tcb_pool s)" unfolding s'(4) 1(4) wake_cons(2) [OF t] ws by (rule refl)
    moreover have "sched_inv W s' (wake_queues ws Q) T" using s'(3) unfolding wake_cons(1) ws .
    ultimately show ?thesis using st s'(1) tframe_trans [OF 1(2) s'(2)] by (intro exI [of _ s']) metis
  qed
qed

text \<open>The threads whose deadline is now, in the order of the table.\<close>

definition due :: "nat \<Rightarrow> 'z tst_scheme \<Rightarrow> u32 \<Rightarrow> nat \<Rightarrow> bool" where
  "due c s now t \<longleftrightarrow> mythread c s \<noteq> Some t \<and> t_state (tcb_pool s t) = TCB_SLEEPING \<and> t_timeout (tcb_pool s t) = ucast now"

lemma wakeup_timeout_loop_ok:
  assumes i: "sched_inv W s Q T" and nz: "\<And>t. t \<in> T \<Longrightarrow> t_state (tcb_pool s t) \<noteq> TCB_SLEEPING"
  shows "(\<And>t. t \<in> set ts \<Longrightarrow> t < NTHREADS) \<Longrightarrow>
   (\<And>t. t \<in> set ts \<Longrightarrow> mythread c s \<noteq> Some t \<Longrightarrow> L_tcb t \<notin> set (held s)) \<Longrightarrow>
   ws = take 1 (filter (due c s now) ts) \<Longrightarrow>
   \<exists>s'. wakeup_timeout_loop c now ts s = Some s' \<and> tframe s s' \<and> sched_inv W s' (wake_queues ws Q) T \<and>
     tcb_pool s' = wake_tcbs ws (tcb_pool s)"
proof (induction ts)
  case Nil
  then show ?case using i by auto
next
  case (Cons t ts)
  show ?case
  proof (cases "due c s now t")
    case False
    have skip: "wakeup_timeout_loop c now (t # ts) s = wakeup_timeout_loop c now ts s"
      using False Cons.prems(2) [of t] by (auto simp: acquire_def release_def due_def)
    have "\<exists>s'. wakeup_timeout_loop c now ts s = Some s' \<and> tframe s s' \<and> sched_inv W s' (wake_queues ws Q) T \<and>
        tcb_pool s' = wake_tcbs ws (tcb_pool s)"
      by (rule Cons.IH) (use Cons.prems False in auto)
    then show ?thesis by (simp only: skip)
  next
    case True
    then have z: "t_state (tcb_pool s t) = TCB_SLEEPING" and my: "mythread c s \<noteq> Some t" by (auto simp: due_def)
    have l: "L_tcb t \<notin> set (held s)" using Cons.prems(2) my by simp
    obtain s1 where 1: "(do { s \<leftarrow> acquire (L_tcb t) s; s \<leftarrow> tcb_q_change_state t TCB_RUNNABLE s; release (L_tcb t) s }) = Some s1"
        "tframe s s1" "sched_inv W s1 (requeue t TCB_SLEEPING TCB_RUNNABLE Q) T"
        "tcb_pool s1 = (tcb_pool s)(t := (tcb_pool s t)\<lparr>t_state := TCB_RUNNABLE\<rparr>)"
      using wake_one [OF i _ _ z l] Cons.prems(1) nz z by fastforce
    have "wakeup_timeout_loop c now (t # ts) s = Some s1" using 1(1) True l by (auto simp: acquire_def due_def)
    moreover have "ws = [t]" using Cons.prems(3) True by simp
    ultimately show ?thesis
      using 1 wake_cons(1) [of "[]" t Q] wake_cons(2) [of t "[]" "tcb_pool s"] by (intro exI [of _ s1]) simp
  qed
qed

lemma wakeup_chan_timeout_loop_ok:
  assumes i: "sched_inv W s Q T" and nz: "\<And>t. t \<in> T \<Longrightarrow> t_state (tcb_pool s t) \<noteq> TCB_SLEEPING"
  shows "(\<And>t. t \<in> set ts \<Longrightarrow> t < NTHREADS) \<Longrightarrow>
   (\<And>t. t \<in> set ts \<Longrightarrow> mythread c s \<noteq> Some t \<Longrightarrow> L_tcb t \<notin> set (held s)) \<Longrightarrow>
   ws = take 1 (filter (\<lambda>t. due c s now t \<and> sleeps_on s chan t) ts) \<Longrightarrow>
   \<exists>s'. wakeup_chan_timeout_loop c chan now ts s = Some s' \<and> tframe s s' \<and> sched_inv W s' (wake_queues ws Q) T \<and>
     tcb_pool s' = (\<lambda>t. if t \<in> set ws then (tcb_pool s t)\<lparr>t_state := TCB_RUNNABLE, t_timeout := 0\<rparr> else tcb_pool s t)"
proof (induction ts)
  case Nil
  then show ?case using i by auto
next
  case (Cons t ts)
  show ?case
  proof (cases "due c s now t \<and> sleeps_on s chan t")
    case False
    have skip: "wakeup_chan_timeout_loop c chan now (t # ts) s = wakeup_chan_timeout_loop c chan now ts s"
      using False Cons.prems(2) [of t] by (auto simp: acquire_def release_def due_def sleeps_on_def)
    have "\<exists>s'. wakeup_chan_timeout_loop c chan now ts s = Some s' \<and> tframe s s' \<and> sched_inv W s' (wake_queues ws Q) T \<and>
        tcb_pool s' = (\<lambda>t. if t \<in> set ws then (tcb_pool s t)\<lparr>t_state := TCB_RUNNABLE, t_timeout := 0\<rparr> else tcb_pool s t)"
      by (rule Cons.IH) (use Cons.prems False in auto)
    then show ?thesis by (simp only: skip)
  next
    case True
    then have z: "t_state (tcb_pool s t) = TCB_SLEEPING" and my: "mythread c s \<noteq> Some t" by (auto simp: due_def)
    have l: "L_tcb t \<notin> set (held s)" using Cons.prems(2) my by simp
    let ?s = "s\<lparr>held := L_tcb t # held s\<rparr>"
    have "sched_inv W ?s Q T" by (rule sched_inv_held [OF i]) auto
    from change_state_ok [OF this, of t TCB_RUNNABLE] Cons.prems(1) obtain s1 where 1:
        "tcb_q_change_state t TCB_RUNNABLE ?s = Some s1" "tframe ?s s1"
        "sched_inv W s1 (requeue t TCB_SLEEPING TCB_RUNNABLE Q) (T - {t})"
        "tcb_pool s1 = (tcb_pool s)(t := (tcb_pool s t)\<lparr>t_state := TCB_RUNNABLE\<rparr>)" by (auto simp: z)
    have T: "T - {t} = T" using nz z by blast
    note h = tframe_held [OF 1(2)]
    let ?s2 = "on_tcb t (t_timeout_update (\<lambda>_. 0)) s1"
    let ?s3 = "?s2\<lparr>held := held s\<rparr>"
    have "wakeup_chan_timeout_loop c chan now (t # ts) s = Some ?s3"
      using True l 1(1) h(1) by (auto simp: acquire_def release_def due_def sleeps_on_def)
    moreover have "sched_inv W ?s3 (requeue t TCB_SLEEPING TCB_RUNNABLE Q) T"
      by (rule sched_inv_held) (use 1(3) T h(1) in simp_all)
    moreover have "tframe s ?s3" using h(2) by (simp add: tframe_def on_tcb_def)
    moreover have "ws = [t]" using Cons.prems(3) True by simp
    moreover have "tcb_pool ?s3 = (\<lambda>u. if u \<in> set [t] then (tcb_pool s u)\<lparr>t_state := TCB_RUNNABLE, t_timeout := 0\<rparr> else tcb_pool s u)"
      using 1(4) by (auto simp: fun_eq_iff on_tcb_def)
    ultimately show ?thesis using wake_cons(1) [of "[]" t Q] by (intro exI [of _ ?s3]) simp
  qed
qed

end
