(* ===== verification/XV_Sched.thy ===== *)
theory XV_Sched
  imports XV_Thread
begin

section \<open>The threads of all CPUs\<close>

text \<open>
  The routines of \<^verbatim>\<open>XV_Thread\<close> put together: every CPU runs a thread or its scheduler, and a
  step is what one CPU does between two points where it holds no lock.  The theory shows that
  every thread always is where its state says, that no routine panics on the way, and what the
  wakeups do.
\<close>

subsection \<open>States between the steps\<close>

text \<open>A thread runs exactly when some CPU, and then only one, has it as its thread.\<close>

definition sched_ok :: "qid set \<Rightarrow> 'z tst_scheme \<Rightarrow> (qid \<Rightarrow> nat list) \<Rightarrow> bool" where
  "sched_ok W s Q \<longleftrightarrow> sched_inv W s Q (ran (cputhread s)) \<and>
     (\<forall>t \<in> ran (cputhread s). t_state (tcb_pool s t) = TCB_RUNNING) \<and>
     (\<forall>c d t. cputhread s c = Some t \<longrightarrow> cputhread s d = Some t \<longrightarrow> c = d)"

lemma sched_okD:
  assumes "sched_ok W s Q"
  shows "sched_inv W s Q (ran (cputhread s))" "\<And>c t. cputhread s c = Some t \<Longrightarrow> t_state (tcb_pool s t) = TCB_RUNNING"
    "\<And>c t. cputhread s c = Some t \<Longrightarrow> t < NTHREADS" "\<And>c d t. cputhread s c = Some t \<Longrightarrow> cputhread s d = Some t \<Longrightarrow> c = d"
    "\<And>t. t < NTHREADS \<Longrightarrow> t_state (tcb_pool s t) = TCB_RUNNING \<longleftrightarrow> t \<in> ran (cputhread s)"
    "\<And>t. t \<in> ran (cputhread s) \<Longrightarrow> t_state (tcb_pool s t) \<noteq> TCB_SLEEPING"
proof -
  show i: "sched_inv W s Q (ran (cputhread s))" and r: "\<And>c t. cputhread s c = Some t \<Longrightarrow> t_state (tcb_pool s t) = TCB_RUNNING"
    and "\<And>c d t. cputhread s c = Some t \<Longrightarrow> cputhread s d = Some t \<Longrightarrow> c = d"
    using assms unfolding sched_ok_def ran_def by blast+
  show "\<And>c t. cputhread s c = Some t \<Longrightarrow> t < NTHREADS" using sched_invD(4) [OF i] by (auto simp: ran_def)
  show "\<And>t. t < NTHREADS \<Longrightarrow> t_state (tcb_pool s t) = TCB_RUNNING \<longleftrightarrow> t \<in> ran (cputhread s)"
    using sched_invD(6) [OF i] r unfolding ran_def by blast
  show "\<And>t. t \<in> ran (cputhread s) \<Longrightarrow> t_state (tcb_pool s t) \<noteq> TCB_SLEEPING"
    using r by (auto simp: ran_def)
qed

lemma sched_ok_held:
  assumes "sched_ok W s Q" "\<And>l. l \<in> set h \<Longrightarrow> qlock l \<Longrightarrow> l \<in> set (held s)"
  shows "sched_ok W (s\<lparr>held := h\<rparr>) Q"
  using assms sched_inv_held [OF sched_okD(1) [OF assms(1)], of h] by (simp add: sched_ok_def)

lemma sched_ok_on_tcb:
  assumes "sched_ok W s Q" "\<And>x. t_state (f x) = t_state x"
  shows "sched_ok W (on_tcb t f s) Q"
  using assms by (auto simp: sched_ok_def)

lemma sched_ok_sel [simp]:
  "sched_ok W (s\<lparr>ticks := y\<rparr>) Q = sched_ok W s Q"
  "sched_ok W (s\<lparr>next_tid := z\<rparr>) Q = sched_ok W s Q"
  by (auto simp: sched_ok_def)

text \<open>Sleeping threads that become runnable leave the threads that run as they are.\<close>

lemma sched_ok_wake:
  assumes o: "sched_ok W s Q" and fr: "tframe s s'" and i: "sched_inv W s' Q' (ran (cputhread s))"
    and z: "\<And>t. t_state (tcb_pool s t) = TCB_RUNNING \<Longrightarrow> t_state (tcb_pool s' t) = TCB_RUNNING"
  shows "sched_ok W s' Q'"
proof -
  have "cputhread s' = cputhread s" using fr by (simp add: tframe_def)
  then show ?thesis using o i z unfolding sched_ok_def by metis
qed

lemma wake_tcbs_running:
  assumes "\<And>t. t \<in> set ws \<Longrightarrow> t_state (P t) = TCB_SLEEPING" "t_state (P t) = TCB_RUNNING"
  shows "t_state (wake_tcbs ws P t) = TCB_RUNNING"
  using assms by (auto simp: wake_tcbs_def)

definition no_tcb_lock :: "'z lockst_scheme \<Rightarrow> bool" where
  "no_tcb_lock s \<longleftrightarrow> (\<forall>t. L_tcb t \<notin> set (held s))"

definition sleepers :: "nat \<Rightarrow> 'z tst_scheme \<Rightarrow> u64 \<Rightarrow> nat list" where
  "sleepers c s chan = filter (\<lambda>t. mythread c s \<noteq> Some t \<and> sleeps_on s chan t) [0..<NTHREADS]"

lemma wakeup_chan_ok:
  assumes o: "sched_ok W s Q" and l: "no_tcb_lock s"
  shows "\<exists>s'. thread_wakeup_chan c chan s = Some s' \<and> tframe s s' \<and>
          sched_ok W s' (wake_queues (sleepers c s chan) Q) \<and> tcb_pool s' = wake_tcbs (sleepers c s chan) (tcb_pool s)"
proof -
  note d = sched_okD [OF o]
  obtain s' where s': "thread_wakeup_chan c chan s = Some s'" "tframe s s'"
      "sched_inv W s' (wake_queues (sleepers c s chan) Q) (ran (cputhread s))" "tcb_pool s' = wake_tcbs (sleepers c s chan) (tcb_pool s)"
    using wakeup_chan_loop_ok [OF d(1), of "[0..<NTHREADS]" c "sleepers c s chan" chan] d(6) l
    by (auto simp: thread_wakeup_chan_def sleepers_def no_tcb_lock_def)
  have "sched_ok W s' (wake_queues (sleepers c s chan) Q)"
  proof (rule sched_ok_wake [OF o s'(2,3)])
    show "t_state (tcb_pool s' t) = TCB_RUNNING" if "t_state (tcb_pool s t) = TCB_RUNNING" for t
      unfolding s'(4) by (rule wake_tcbs_running) (simp_all add: sleepers_def sleeps_on_def that)
  qed
  then show ?thesis using s' by blast
qed

lemma wakeup_timeout_ok:
  assumes o: "sched_ok W s Q" and l: "no_tcb_lock s" and ws: "ws = take 1 (filter (due c s now) [0..<NTHREADS])"
  shows "\<exists>s'. thread_wakeup_timeout c now s = Some s' \<and> tframe s s' \<and> sched_ok W s' (wake_queues ws Q) \<and>
          tcb_pool s' = wake_tcbs ws (tcb_pool s)"
proof -
  note d = sched_okD [OF o]
  obtain s' where s': "thread_wakeup_timeout c now s = Some s'" "tframe s s'"
      "sched_inv W s' (wake_queues ws Q) (ran (cputhread s))" "tcb_pool s' = wake_tcbs ws (tcb_pool s)"
    using wakeup_timeout_loop_ok [OF d(1), of "[0..<NTHREADS]" c ws now] d(6) l ws
    by (auto simp: thread_wakeup_timeout_def no_tcb_lock_def)
  have "sched_ok W s' (wake_queues ws Q)"
  proof (rule sched_ok_wake [OF o s'(2,3)])
    have "set ws \<subseteq> {t. due c s now t}" using ws set_take_subset [of 1 "filter (due c s now) [0..<NTHREADS]"] by auto
    then show "t_state (tcb_pool s' t) = TCB_RUNNING" if "t_state (tcb_pool s t) = TCB_RUNNING" for t
      unfolding s'(4) by (intro wake_tcbs_running) (auto simp: due_def that)
  qed
  then show ?thesis using s' by blast
qed

text \<open>The timer interrupt: first the sleepers on the channel of the timer, then one of the threads whose deadline is now.\<close>

lemma clockintr_ok:
  assumes o: "sched_ok W s Q" and h: "held s = []"
    and s1: "P1 = wake_tcbs (sleepers c s ta) (tcb_pool s)"
    and ws: "ws = take 1 (filter (due c (s\<lparr>tcb_pool := P1\<rparr>) (ticks s + 1)) [0..<NTHREADS])"
  shows "\<exists>s'. clockintr ta c s = Some s' \<and> held s' = [] \<and> cputhread s' = cputhread s \<and> ticks s' = ticks s + 1 \<and>
          tst.more s' = tst.more s \<and> tcb_pool s' = wake_tcbs ws P1 \<and>
          sched_ok W s' (wake_queues ws (wake_queues (sleepers c s ta) Q))"
proof -
  let ?a = "s\<lparr>held := [L_ticks], ticks := ticks s + 1\<rparr>"
  have "sched_ok W (s\<lparr>held := [L_ticks]\<rparr>) Q" by (rule sched_ok_held [OF o]) auto
  then have "sched_ok W ?a Q" by simp
  moreover have "sleepers c ?a ta = sleepers c s ta" by (simp add: sleepers_def mythread_def sleeps_on_def)
  ultimately obtain b where b: "thread_wakeup_chan c ta ?a = Some b" "tframe ?a b"
      "sched_ok W b (wake_queues (sleepers c s ta) Q)" "tcb_pool b = P1"
    using wakeup_chan_ok [of W ?a Q c ta] by (auto simp: no_tcb_lock_def s1)
  have hb: "held b = [L_ticks]" "ticks b = ticks s + 1" "cputhread b = cputhread s" "tst.more b = tst.more s"
    using b(2) by (simp_all add: tframe_def)
  let ?d = "b\<lparr>held := [L_timeout]\<rparr>"
  have od: "sched_ok W ?d (wake_queues (sleepers c s ta) Q)" by (rule sched_ok_held [OF b(3)]) auto
  have "due c ?d (ticks s + 1) = due c (s\<lparr>tcb_pool := P1\<rparr>) (ticks s + 1)"
    by (simp add: fun_eq_iff due_def mythread_def b(4) hb)
  with wakeup_timeout_ok [OF od, of ws c "ticks s + 1"] ws obtain e where e: "thread_wakeup_timeout c (ticks s + 1) ?d = Some e"
      "tframe ?d e" "sched_ok W e (wake_queues ws (wake_queues (sleepers c s ta) Q))" "tcb_pool e = wake_tcbs ws P1"
    by (auto simp: no_tcb_lock_def b(4))
  have he: "held e = [L_timeout]" "ticks e = ticks s + 1" "cputhread e = cputhread s" "tst.more e = tst.more s"
    using e(2) hb by (simp_all add: tframe_def)
  have "clockintr ta c s = Some (e\<lparr>held := []\<rparr>)"
    using b(1) e(1) h hb he by (simp add: clockintr_def acquire_def release_def)
  moreover have "sched_ok W (e\<lparr>held := []\<rparr>) (wake_queues ws (wake_queues (sleepers c s ta) Q))"
    by (rule sched_ok_held [OF e(3)]) simp
  ultimately show ?thesis using he e(4) by simp
qed

subsection \<open>Taking threads out of their queues\<close>

lemma pop_as_remove:
  assumes Q: "queues s D Q" and q: "q \<in> D" "Q q = t # ts" and h: "L_queue q \<notin> set (held s)"
    and r: "queue_remove_atomic q t s = Some s'"
  shows "queue_pop_atomic q True s = Some (Some t, s'\<lparr>qcnt := qcnt s\<rparr>)"
proof -
  let ?s = "s\<lparr>held := L_queue q # held s\<rparr>"
  have Q': "queues ?s D Q" using Q by simp
  have ty: "qtype s q \<noteq> INODE_FREE_QUEUE" using queuesD(1) [OF Q q(1)] .
  have "\<not> queue_isempty q ?s" "queue_first_node q ?s = Some t"
    using queue_isempty_iff [OF Q' q(1)] queue_first_node_ok [OF Q' q] q(2) by simp_all
  then show ?thesis
    using r h ty
    by (auto simp: queue_pop_atomic_def queue_pop_def queue_remove_atomic_def queue_remove_def acquire_def release_def
        on_links_def queue_entry_cell Let_def split: if_splits)
qed

lemma pop_queue:
  assumes i: "sched_inv W s Q T" and x: "x \<noteq> TCB_RUNNING" and q: "Q (TQ x) = t # ts"
  shows "\<exists>s'. queue_pop_atomic (TQ x) True s = Some (Some t, s') \<and> qframe s s' \<and>
          sched_inv W s' (Q(TQ x := ts)) (insert t T) \<and> t < NTHREADS \<and> t \<notin> T \<and> t_state (tcb_pool s t) = x"
proof -
  note d = sched_invD [OF i]
  have t: "t < NTHREADS" "t \<notin> T" "t_state (tcb_pool s t) = x" using d(5) [of t x] q by auto
  have D: "TQ x \<in> tqueues \<union> W" using x by (simp add: TQ_in)
  have qu: "queues s (tqueues \<union> W) Q" and h: "L_queue (TQ x) \<notin> set (held s)" using d(1) D by (auto simp: queues_of_def)
  obtain s1 where 1: "queue_remove_atomic (TQ x) t s = Some s1" "qframe s s1" "sched_inv W s1 (drop_from t x Q) (insert t T)"
    using leave_queue [OF i t(1)] t(3) x by auto
  have "distinct (t # ts)" using queuesD(3) [OF qu D] q by simp
  then have "drop_from t x Q = Q(TQ x := ts)" using q by (auto simp: drop_from_def fun_eq_iff)
  moreover have "sched_inv W (s1\<lparr>qcnt := qcnt s\<rparr>) (drop_from t x Q) (insert t T)"
    by (rule sched_inv_cong [OF 1(3)]) (use sched_invD(1) [OF 1(3)] in \<open>auto simp: queues_of_def\<close>)
  moreover have "qframe s (s1\<lparr>qcnt := qcnt s\<rparr>)" using 1(2) by (simp add: qframe_def)
  ultimately show ?thesis using pop_as_remove [OF qu D q h 1(1)] t by simp
qed

lemma pop_empty:
  assumes i: "sched_inv W s Q T" and x: "x \<noteq> TCB_RUNNING" and q: "Q (TQ x) = []"
  shows "queue_pop_atomic (TQ x) True s = Some (None, s)"
proof -
  have D: "TQ x \<in> tqueues \<union> W" using x by (simp add: TQ_in)
  then have qu: "queues s (tqueues \<union> W) Q" and h: "L_queue (TQ x) \<notin> set (held s)"
    using sched_invD(1) [OF i] by (auto simp: queues_of_def)
  show ?thesis by (rule queue_pop_atomic_ok(1) [OF qu D h q])
qed

text \<open>A change of the state of a thread that is not running keeps it so.\<close>

lemma sched_inv_state:
  assumes i: "sched_inv W s Q T" and t: "t \<in> T"
  shows "sched_inv W (on_tcb t f s) Q T"
proof -
  note d = sched_invD [OF i]
  have "queues_of (tqueues \<union> W) qkind (on_tcb t f s) Q"
    by (rule queues_of_cong [OF d(1)]) (use d(1) in \<open>auto simp: queues_of_def\<close>)
  then show ?thesis using d(2-6) t by (auto simp: sched_inv_def)
qed

lemma scheduler_pick_ok:
  assumes o: "sched_ok W s Q" and c: "cputhread s c = None" and h: "held s = []" and q: "Q (TQ TCB_RUNNABLE) = t # ts"
  shows "\<exists>s'. scheduler_pick c s = Some (Some t, s') \<and> held s' = [L_tcb t] \<and>
          sched_ok W s' (Q(TQ TCB_RUNNABLE := ts)) \<and> cputhread s' = (cputhread s)(c := Some t) \<and> tst.more s' = tst.more s \<and> ticks s' = ticks s \<and>
          tcb_pool s' = (tcb_pool s)(t := (tcb_pool s t)\<lparr>t_state := TCB_RUNNING\<rparr>)"
proof -
  note d = sched_okD [OF o]
  obtain s1 where 1: "queue_pop_atomic (TQ TCB_RUNNABLE) True s = Some (Some t, s1)" "qframe s s1"
      "sched_inv W s1 (Q(TQ TCB_RUNNABLE := ts)) (insert t (ran (cputhread s)))" "t < NTHREADS" "t \<notin> ran (cputhread s)"
    using pop_queue [OF d(1) _ q] by auto
  note f = qframe_tst [OF 1(2)]
  have h1: "held s1 = []" using 1(2) h by (simp add: qframe_def)
  let ?a = "tcb_change2_running t (s1\<lparr>held := [L_tcb t]\<rparr>)"
  let ?s = "?a\<lparr>cputhread := (cputhread s)(c := Some t)\<rparr>"
  have ran: "ran ((cputhread s)(c := Some t)) = insert t (ran (cputhread s))" using c by simp
  have "sched_inv W (s1\<lparr>held := [L_tcb t]\<rparr>) (Q(TQ TCB_RUNNABLE := ts)) (insert t (ran (cputhread s)))"
    by (rule sched_inv_held [OF 1(3)]) auto
  then have "sched_inv W ?s (Q(TQ TCB_RUNNABLE := ts)) (insert t (ran (cputhread s)))"
    unfolding sched_inv_sel tcb_change2_running_def by (rule sched_inv_state) simp
  then have "sched_ok W ?s (Q(TQ TCB_RUNNABLE := ts))"
    using d(2,4) 1(5) unfolding sched_ok_def by (auto simp: ran tcb_change2_running_def f) (auto simp: ran_def)
  moreover have "scheduler_pick c s = Some (Some t, ?s)"
    using 1(1) h1 f by (simp add: scheduler_pick_def acquire_def tcb_change2_running_def)
  ultimately show ?thesis using f by (auto simp: tcb_change2_running_def)
qed

lemma ran_drop:
  assumes "m c = Some t" "\<And>b u. m b = Some u \<Longrightarrow> m c = Some u \<Longrightarrow> b = c"
  shows "ran (m(c := None)) = ran m - {t}"
proof (intro set_eqI iffI)
  fix u assume "u \<in> ran (m(c := None))"
  then obtain b where b: "b \<noteq> c" "m b = Some u" by (auto simp: ran_def split: if_splits)
  with assms have "u \<noteq> t" by blast
  then show "u \<in> ran m - {t}" using b by (auto simp: ran_def)
next
  fix u assume u: "u \<in> ran m - {t}"
  then obtain b where b: "m b = Some u" by (auto simp: ran_def)
  then have "b \<noteq> c" using u assms(1) by auto
  then show "u \<in> ran (m(c := None))" using b by (auto simp: ran_def)
qed

text \<open>
  The thread of CPU \<open>c\<close> has moved itself to another queue and switches to the scheduler, which
  gives its lock back.
\<close>

lemma leave_cpu_ok:
  assumes o: "sched_ok W s Q" and c: "cputhread s c = Some t" and h: "held s = [L_tcb t]" and x: "x \<noteq> TCB_RUNNING"
  shows "\<exists>s1 s'. tcb_q_change_state t x s = Some s1 \<and> thread_sched c s1 = Some s1 \<and> scheduler_return c t s1 = Some s' \<and>
          held s' = [] \<and> sched_ok W s' (requeue t TCB_RUNNING x Q) \<and> cputhread s' = (cputhread s)(c := None) \<and>
          tst.more s' = tst.more s \<and> ticks s' = ticks s \<and> tcb_pool s' = (tcb_pool s)(t := (tcb_pool s t)\<lparr>t_state := x\<rparr>)"
proof -
  note d = sched_okD [OF o]
  have r: "t_state (tcb_pool s t) = TCB_RUNNING" using d(2) [OF c] .
  obtain s1 where 1: "tcb_q_change_state t x s = Some s1" "tframe s s1"
      "sched_inv W s1 (requeue t TCB_RUNNING x Q) (ran (cputhread s) - {t})" "tcb_pool s1 = (tcb_pool s)(t := (tcb_pool s t)\<lparr>t_state := x\<rparr>)"
    using change_state_ok [OF d(1) d(3) [OF c] x] r by auto
  have f: "held s1 = [L_tcb t]" "cputhread s1 = cputhread s" "tst.more s1 = tst.more s" "ticks s1 = ticks s" using 1(2) h by (simp_all add: tframe_def)
  let ?s = "s1\<lparr>cputhread := (cputhread s)(c := None), held := []\<rparr>"
  have ran: "ran ((cputhread s)(c := None)) = ran (cputhread s) - {t}"
    using ran_drop [of "cputhread s" c t] c d(4) by blast
  have "sched_inv W (s1\<lparr>cputhread := (cputhread s)(c := None)\<rparr>) (requeue t TCB_RUNNING x Q) (ran (cputhread s) - {t})"
    using 1(3) by simp
  then have "sched_inv W ?s (requeue t TCB_RUNNING x Q) (ran (cputhread s) - {t})" by (rule sched_inv_held) simp
  then have "sched_ok W ?s (requeue t TCB_RUNNING x Q)"
    using d(2,4) unfolding sched_ok_def by (auto simp: ran 1(4)) (auto simp: ran_def)
  moreover have "thread_sched c s1 = Some s1" using f c x by (simp add: thread_sched_def mythread_def 1(4))
  moreover have "scheduler_return c t s1 = Some ?s" using f by (simp add: scheduler_return_def release_def)
  ultimately show ?thesis using 1 f by auto
qed

lemma yield_ok:
  assumes o: "sched_ok W s Q" and c: "cputhread s c = Some t" and h: "held s = []"
  shows "\<exists>s1 s'. thread_yield_enter c s = Some s1 \<and> scheduler_return c t s1 = Some s' \<and> held s' = [] \<and>
          sched_ok W s' (requeue t TCB_RUNNING TCB_RUNNABLE Q) \<and> cputhread s' = (cputhread s)(c := None) \<and>
          tst.more s' = tst.more s \<and> ticks s' = ticks s \<and> tcb_pool s' = (tcb_pool s)(t := (tcb_pool s t)\<lparr>t_state := TCB_RUNNABLE\<rparr>)"
proof -
  let ?s = "s\<lparr>held := [L_tcb t]\<rparr>"
  have "sched_ok W ?s Q" by (rule sched_ok_held [OF o]) auto
  from leave_cpu_ok [OF this, of c t TCB_RUNNABLE] c show ?thesis
    by (auto simp: thread_yield_enter_def mythread_def acquire_def h)
qed

lemma get_timeout_ticks_ok:
  "L_ticks \<notin> set (held s) \<Longrightarrow> get_timeout_ticks ts s = Some (ucast (TIMESPEC2TICKS (fst ts) (snd ts)) + ticks s, s)"
  by (simp add: get_timeout_ticks_def acquire_def release_def)

definition deadline :: "(u64 \<times> u64) option \<Rightarrow> u32 \<Rightarrow> u64 \<Rightarrow> u64" where
  "deadline timeout now old = (case timeout of None \<Rightarrow> old
     | Some ts \<Rightarrow> ucast (ucast (TIMESPEC2TICKS (fst ts) (snd ts)) + now :: u32))"

lemma sleep_ok:
  assumes o: "sched_ok W s Q" and c: "cputhread s c = Some t" and h: "held s = [lk]" and lk: "lk \<noteq> L_tcb t"
  shows "\<exists>s1 s'. thread_sleep_enter c chan lk timeout s = Some s1 \<and> scheduler_return c t s1 = Some s' \<and>
          held s' = [] \<and> sched_ok W s' (requeue t TCB_RUNNING TCB_SLEEPING Q) \<and> cputhread s' = (cputhread s)(c := None) \<and>
          tst.more s' = tst.more s \<and> ticks s' = ticks s \<and> tcb_pool s' = (tcb_pool s)(t := (tcb_pool s t)\<lparr>t_state := TCB_SLEEPING, t_chan := chan,
            t_timeout := deadline timeout (ticks s) (t_timeout (tcb_pool s t))\<rparr>)"
proof -
  let ?x = "tcb_pool s t"
  let ?y = "?x\<lparr>t_chan := chan, t_timeout := deadline timeout (ticks s) (t_timeout ?x)\<rparr>"
  let ?s = "s\<lparr>held := [L_tcb t], tcb_pool := (tcb_pool s)(t := ?y)\<rparr>"
  have "sched_ok W (s\<lparr>held := [L_tcb t]\<rparr>) Q" by (rule sched_ok_held [OF o]) auto
  then have "sched_ok W (on_tcb t (\<lambda>x. x\<lparr>t_chan := chan, t_timeout := deadline timeout (ticks s) (t_timeout x)\<rparr>) (s\<lparr>held := [L_tcb t]\<rparr>)) Q"
    by (rule sched_ok_on_tcb) simp
  then have "sched_ok W ?s Q" by (simp add: on_tcb_def)
  from leave_cpu_ok [OF this, of c t TCB_SLEEPING] c obtain s1 s' where 1: "tcb_q_change_state t TCB_SLEEPING ?s = Some s1"
      "thread_sched c s1 = Some s1" "scheduler_return c t s1 = Some s'" "held s' = []" "sched_ok W s' (requeue t TCB_RUNNING TCB_SLEEPING Q)"
      "cputhread s' = (cputhread s)(c := None)" "tst.more s' = tst.more s" "ticks s' = ticks s"
      "tcb_pool s' = (tcb_pool s)(t := ?y\<lparr>t_state := TCB_SLEEPING\<rparr>)" by auto
  have "thread_sleep_enter c chan lk timeout s = do { s \<leftarrow> tcb_q_change_state t TCB_SLEEPING ?s; thread_sched c s }"
    using c h lk by (cases timeout)
      (auto simp: thread_sleep_enter_def mythread_def acquire_def release_def get_timeout_ticks_ok deadline_def on_tcb_def)
  then show ?thesis using 1 by auto
qed

text \<open>A thread that has left its queue is made ready, and one that is created.\<close>

lemma change_ok:
  assumes o: "sched_ok W s Q" and t: "t < NTHREADS" "t \<notin> ran (cputhread s)" and x: "x \<noteq> TCB_RUNNING" and l: "L_tcb t \<notin> set (held s)"
  shows "\<exists>s'. (do { s \<leftarrow> acquire (L_tcb t) s; s \<leftarrow> tcb_q_change_state t x s; release (L_tcb t) s }) = Some s' \<and> tframe s s' \<and>
          sched_ok W s' (requeue t (t_state (tcb_pool s t)) x Q) \<and> tcb_pool s' = (tcb_pool s)(t := (tcb_pool s t)\<lparr>t_state := x\<rparr>)"
proof -
  note d = sched_okD [OF o]
  obtain s' where s': "(do { s \<leftarrow> acquire (L_tcb t) s; s \<leftarrow> tcb_q_change_state t x s; release (L_tcb t) s }) = Some s'" "tframe s s'"
      "sched_inv W s' (requeue t (t_state (tcb_pool s t)) x Q) (ran (cputhread s))" "tcb_pool s' = (tcb_pool s)(t := (tcb_pool s t)\<lparr>t_state := x\<rparr>)"
    using change_state_locked [OF d(1) t(1) x l] t(2) by auto
  have "cputhread s' = cputhread s" using s'(2) by (simp add: tframe_def)
  then have "sched_ok W s' (requeue t (t_state (tcb_pool s t)) x Q)"
    using o s'(3) t(2) unfolding sched_ok_def s'(4) by auto
  then show ?thesis using s' by blast
qed

lemma alloc_thread_ok:
  assumes o: "sched_ok W s Q" and h: "held s = []" and q: "Q (TQ TCB_UNUSED) = t # ts"
  shows "\<exists>s' Q'. alloc_thread callback s = Some (Some t, s') \<and> held s' = [L_tcb t] \<and> sched_ok W s' Q' \<and> (\<forall>k. Q' (CondQ k) = Q (CondQ k)) \<and>
          cputhread s' = cputhread s \<and> tst.more s' = tst.more s \<and> ticks s' = ticks s \<and> t_state (tcb_pool s' t) = TCB_USED \<and> t_tid (tcb_pool s' t) = next_tid s \<and>
          next_tid s' = next_tid s + 1 \<and> (\<forall>u. u \<noteq> t \<longrightarrow> tcb_pool s' u = tcb_pool s u)"
proof -
  note d = sched_okD [OF o]
  obtain s1 where 1: "queue_pop_atomic (TQ TCB_UNUSED) True s = Some (Some t, s1)" "qframe s s1"
      "sched_inv W s1 (Q(TQ TCB_UNUSED := ts)) (insert t (ran (cputhread s)))" "t < NTHREADS" "t \<notin> ran (cputhread s)"
    using pop_queue [OF d(1) _ q] by auto
  note f = qframe_tst [OF 1(2)]
  have h1: "held s1 = []" using 1(2) h by (simp add: qframe_def)
  define a where "a = sigpending_init t (on_tcb t (\<lambda>x. x\<lparr>t_tid := next_tid s, t_ra := callback,
      t_sp := t_kstack x + of_nat KSTACK_PAGE * PGSIZE, t_saved := replicate 12 0, t_blocked := 0\<rparr>)
      (s1\<lparr>held := [L_tcb t], links := INIT_LIST_HEAD (LThreads t) (links s1), next_tid := next_tid s + 1\<rparr>))"
  have sa: "held a = [L_tcb t]" "cputhread a = cputhread s" "tst.more a = tst.more s" "ticks a = ticks s" "t_state (tcb_pool a t) = t_state (tcb_pool s t)"
      "t_tid (tcb_pool a t) = next_tid s" "next_tid a = next_tid s + 1" "\<And>u. u \<noteq> t \<Longrightarrow> tcb_pool a u = tcb_pool s u"
    using f by (simp_all add: a_def sigpending_init_def on_tcb_def)
  have "sched_inv W a (Q(TQ TCB_UNUSED := ts)) (insert t (ran (cputhread s)))"
  proof (rule sched_inv_cong [OF 1(3)])
    show "L_queue q \<notin> set (held a)" for q by (simp add: sa)
    show "links a b = links s1 b" if "qcell b" for b
      using that by (cases b) (auto simp: a_def sigpending_init_def on_tcb_def INIT_LIST_HEAD_def set_next_def set_prev_def qcell_def)
  qed (simp_all add: a_def sigpending_init_def on_tcb_def)
  from change_state_ok [OF this 1(4), of TCB_USED] obtain b Q' where b: "tcb_q_change_state t TCB_USED a = Some b" "tframe a b"
      "sched_inv W b Q' (insert t (ran (cputhread s)) - {t})" "tcb_pool b = (tcb_pool a)(t := (tcb_pool a t)\<lparr>t_state := TCB_USED\<rparr>)" "\<forall>k. Q' (CondQ k) = Q (CondQ k)"
    by (auto simp: requeue_def drop_from_def)
  define e where "e = on_tcb t (\<lambda>x. x\<lparr>t_set_child_tid := 0, t_clear_child_tid := 0, t_killed := False,
      t_chan := 0, t_timeout := 0, t_wait_chan_entry := None\<rparr>) b"
  have T: "insert t (ran (cputhread s)) - {t} = ran (cputhread s)" using 1(5) by blast
  have fb: "held b = [L_tcb t]" "cputhread b = cputhread s" "tst.more b = tst.more s" "ticks b = ticks s" "next_tid b = next_tid s + 1"
    using b(2) sa by (simp_all add: tframe_def)
  have "sched_ok W b Q'"
    using b(3) d(2,4) 1(5) sa(8) unfolding sched_ok_def T fb b(4) by (auto simp: ran_def)
  then have "sched_ok W e Q'" unfolding e_def by (rule sched_ok_on_tcb) simp
  moreover have "alloc_thread callback s = Some (Some t, e)"
    using 1(1) h1 b(1) f(3) unfolding alloc_thread_def a_def e_def
    by (simp add: acquire_def alloctid_def atomic_inc_return_def)
  ultimately show ?thesis using fb sa b(4,5) by (intro exI [of _ e] exI [of _ Q']) (auto simp: e_def)
qed

subsection \<open>Start-up\<close>

lemma queue_init_queues:
  assumes "queues s D Q" "q \<notin> D" "ty \<noteq> INODE_FREE_QUEUE" "Q q = []"
  shows "queues (queue_init q ty s) (insert q D) Q"
proof -
  have "is_list (links (queue_init q ty s)) (LQueue r) (map (cell (qtype s r)) (Q r))" if r: "r \<in> D" for r
  proof (rule is_list_frame [OF queuesD(2) [OF assms(1) r]])
    have "r \<noteq> q" using r assms(2) by blast
    then show "links (queue_init q ty s) a = links s a"
      if "a \<in> insert (LQueue r) (set (map (cell (qtype s r)) (Q r)))" for a
      using that by (auto simp: queue_init_def INIT_LIST_HEAD_other)
  qed
  moreover have "is_list (links (queue_init q ty s)) (LQueue q) []" by (simp add: queue_init_def INIT_LIST_HEAD_list)
  moreover have "qtype (queue_init q ty s) = (qtype s)(q := ty)" by (simp add: queue_init_def)
  ultimately show ?thesis using assms unfolding queues_def by auto
qed

lemma queue_init_sel [simp]:
  "held (queue_init q ty s) = held s" "tcb_pool (queue_init q ty s) = tcb_pool s" "cputhread (queue_init q ty s) = cputhread s"
  "tst.more (queue_init q ty s) = tst.more s" "qtype (queue_init q ty s) = (qtype s)(q := ty)"
  by (simp_all add: queue_init_def)

lemma TCB_Q_ALL_INIT_ok:
  assumes "held s = []"
  shows "queues_of tqueues qkind (TCB_Q_ALL_INIT s) (\<lambda>_. [])"
proof -
  have "queues s {} (\<lambda>_. [])" by (simp add: queues_def)
  then have "queues (TCB_Q_ALL_INIT s) {TQ TCB_SLEEPING, TQ TCB_RUNNABLE, TQ TCB_USED, TQ TCB_UNUSED} (\<lambda>_. [])"
    unfolding TCB_Q_ALL_INIT_def by (intro queue_init_queues) simp_all
  moreover have "{TQ TCB_SLEEPING, TQ TCB_RUNNABLE, TQ TCB_USED, TQ TCB_UNUSED} = tqueues" by (auto simp: tqueues_def)
  ultimately show ?thesis using assms by (auto simp: queues_of_def tqueues_def TCB_Q_ALL_INIT_def)
qed

lemma tcb_init_loop_ok:
  "queues_of tqueues qkind s Q \<Longrightarrow> held s = [] \<Longrightarrow> distinct ks \<Longrightarrow> (\<And>i x. i \<in> set ks \<Longrightarrow> i \<notin> set (Q (TQ x))) \<Longrightarrow>
   \<exists>s'. tcb_init_loop ks s = Some s' \<and> held s' = [] \<and> cputhread s' = cputhread s \<and> tst.more s' = tst.more s \<and>
     queues_of tqueues qkind s' (Q(TQ TCB_UNUSED := Q (TQ TCB_UNUSED) @ ks)) \<and>
     tcb_pool s' = (\<lambda>t. if t \<in> set ks then (tcb_pool s t)\<lparr>t_state := TCB_UNUSED, t_kstack := KSTACK t\<rparr> else tcb_pool s t)"
proof (induction ks arbitrary: s Q)
  case Nil
  then show ?case by simp
next
  case (Cons i ks)
  let ?a = "on_tcb i (\<lambda>t. t\<lparr>t_state := TCB_UNUSED, t_kstack := KSTACK i\<rparr>) s"
  have qa: "queues_of tqueues qkind ?a Q"
    by (rule queues_of_cong [OF Cons.prems(1)]) (use Cons.prems(1,2) in auto)
  then have qu: "queues ?a tqueues Q" by (simp add: queues_of_def)
  have "\<not> queued ?a tqueues Q (qtype ?a (TQ TCB_UNUSED)) i"
    using Cons.prems(4) [of i] by (auto simp: queued_def tqueues_def)
  from queue_push_back_atomic_ok [OF qu _ this] Cons.prems(2) obtain b where b: "queue_push_back_atomic (TQ TCB_UNUSED) i ?a = Some b"
      "queues b tqueues (Q(TQ TCB_UNUSED := Q (TQ TCB_UNUSED) @ [i]))" "qframe ?a b" by (auto simp: TQ_in)
  note f = qframe_tst [OF b(3)]
  have hb: "held b = []" using b(3) Cons.prems(2) by (simp add: qframe_def)
  have qb: "queues_of tqueues qkind b (Q(TQ TCB_UNUSED := Q (TQ TCB_UNUSED) @ [i]))" by (rule queues_of_frame [OF qa b(2,3)])
  let ?R = "Q(TQ TCB_UNUSED := Q (TQ TCB_UNUSED) @ [i])"
  have "\<exists>s'. tcb_init_loop ks b = Some s' \<and> held s' = [] \<and> cputhread s' = cputhread b \<and> tst.more s' = tst.more b \<and>
     queues_of tqueues qkind s' (?R(TQ TCB_UNUSED := ?R (TQ TCB_UNUSED) @ ks)) \<and>
     tcb_pool s' = (\<lambda>t. if t \<in> set ks then (tcb_pool b t)\<lparr>t_state := TCB_UNUSED, t_kstack := KSTACK t\<rparr> else tcb_pool b t)"
    by (rule Cons.IH [OF qb hb]) (use Cons.prems in auto)
  then obtain s' where s': "tcb_init_loop ks b = Some s'" "held s' = []" "cputhread s' = cputhread s" "tst.more s' = tst.more s"
      "queues_of tqueues qkind s' (Q(TQ TCB_UNUSED := Q (TQ TCB_UNUSED) @ i # ks))"
      "tcb_pool s' = (\<lambda>t. if t \<in> set ks then (tcb_pool b t)\<lparr>t_state := TCB_UNUSED, t_kstack := KSTACK t\<rparr> else tcb_pool b t)"
    using f by auto
  have "tcb_init_loop (i # ks) s = Some s'" using b(1) s'(1) by simp
  moreover have "tcb_pool s' = (\<lambda>t. if t \<in> set (i # ks) then (tcb_pool s t)\<lparr>t_state := TCB_UNUSED, t_kstack := KSTACK t\<rparr> else tcb_pool s t)"
    using Cons.prems(3) by (auto simp: s'(6) f fun_eq_iff)
  ultimately show ?case using s' by blast
qed

lemma tcb_init_ok:
  assumes "held s = []" "cputhread s = Map.empty"
  shows "\<exists>s'. tcb_init s = Some s' \<and> held s' = [] \<and> cputhread s' = Map.empty \<and> tst.more s' = tst.more s \<and>
          sched_ok {} s' ((\<lambda>_. [])(TQ TCB_UNUSED := [0..<NTHREADS]))"
proof -
  let ?a = "TCB_Q_ALL_INIT s"
  have a: "held ?a = []" "cputhread ?a = Map.empty" "tst.more ?a = tst.more s" using assms by (simp_all add: TCB_Q_ALL_INIT_def)
  obtain s' where s': "tcb_init s = Some s'" "held s' = []" "cputhread s' = Map.empty" "tst.more s' = tst.more s"
     "queues_of tqueues qkind s' ((\<lambda>_. [])(TQ TCB_UNUSED := [0..<NTHREADS]))"
     "tcb_pool s' = (\<lambda>t. if t \<in> set [0..<NTHREADS] then (tcb_pool ?a t)\<lparr>t_state := TCB_UNUSED, t_kstack := KSTACK t\<rparr> else tcb_pool ?a t)"
    using tcb_init_loop_ok [OF TCB_Q_ALL_INIT_ok [OF assms(1)] a(1), of "[0..<NTHREADS]"] a by (auto simp: tcb_init_def)
  have "sched_ok {} s' ((\<lambda>_. [])(TQ TCB_UNUSED := [0..<NTHREADS]))"
    using s'(5) by (auto simp: sched_ok_def sched_inv_def s'(3) s'(6))
  then show ?thesis using s' by blast
qed

subsection \<open>The machine\<close>

text \<open>
  Where a thread that does not run goes on when a CPU switches to it: \<^verbatim>\<open>thread_forkret\<close> for a
  new thread, the end of \<^verbatim>\<open>thread_yield\<close>, or the end of \<^verbatim>\<open>thread_sleep\<close> with the lock that
  was passed to it.
\<close>

datatype resume = R_Fork | R_Yield | R_Sleep lock

record rst = tst +
  resume_at :: "nat \<Rightarrow> resume"

text \<open>\<^verbatim>\<open>thread_forkret\<close> gives the lock back; then it mounts the file system once and returns to user mode.\<close>

definition thread_forkret :: "nat \<Rightarrow> 'z tst_scheme \<Rightarrow> 'z tst_scheme option" where
  "thread_forkret c s = do {
     t \<leftarrow> mythread c s;
     release (L_tcb t) s
   }"

text \<open>
  One step.  A thread that sleeps does so inside a critical section of \<open>lk\<close>, which is not the
  lock of a thread or of a queue, and is inside one when it comes back; the rest of that section is
  not this machine's business.  \<open>ta\<close> is the address of \<^verbatim>\<open>ticks\<close>.
\<close>

inductive sched_step :: "u64 \<Rightarrow> rst \<Rightarrow> rst \<Rightarrow> bool" for ta :: u64 where
  run_new: "cputhread s c = None \<Longrightarrow> scheduler_pick c s = Some (Some t, s1) \<Longrightarrow> resume_at s t = R_Fork \<Longrightarrow>
    thread_forkret c s1 = Some s' \<Longrightarrow> sched_step ta s s'"
| run_yielded: "cputhread s c = None \<Longrightarrow> scheduler_pick c s = Some (Some t, s1) \<Longrightarrow> resume_at s t = R_Yield \<Longrightarrow>
    thread_yield_exit t s1 = Some s' \<Longrightarrow> sched_step ta s s'"
| run_slept: "cputhread s c = None \<Longrightarrow> scheduler_pick c s = Some (Some t, s1) \<Longrightarrow> resume_at s t = R_Sleep lk \<Longrightarrow>
    thread_sleep_exit t lk s1 = Some s2 \<Longrightarrow> release lk s2 = Some s' \<Longrightarrow> sched_step ta s s'"
| yield: "cputhread s c = Some t \<Longrightarrow> thread_yield_enter c s = Some s1 \<Longrightarrow> scheduler_return c t s1 = Some s2 \<Longrightarrow>
    sched_step ta s (s2\<lparr>resume_at := (resume_at s)(t := R_Yield)\<rparr>)"
| sleep: "cputhread s c = Some t \<Longrightarrow> \<not> qlock lk \<Longrightarrow> (\<And>u. lk \<noteq> L_tcb u) \<Longrightarrow> acquire lk s = Some s1 \<Longrightarrow>
    thread_sleep_enter c chan lk timeout s1 = Some s2 \<Longrightarrow> scheduler_return c t s2 = Some s3 \<Longrightarrow>
    sched_step ta s (s3\<lparr>resume_at := (resume_at s)(t := R_Sleep lk)\<rparr>)"
| wakeup: "thread_wakeup_chan c chan s = Some s' \<Longrightarrow> sched_step ta s s'"
| interrupt_sleep: "t < NTHREADS \<Longrightarrow> thread_wakeup_specific_atomic t s = Some s' \<Longrightarrow> sched_step ta s s'"
| timer: "clockintr ta c s = Some s' \<Longrightarrow> sched_step ta s s'"
| create: "alloc_thread callback s = Some (Some t, s1) \<Longrightarrow> release (L_tcb t) s1 = Some s2 \<Longrightarrow>
    sched_step ta s (s2\<lparr>resume_at := (resume_at s)(t := R_Fork)\<rparr>)"
| start: "t < NTHREADS \<Longrightarrow> t_state (tcb_pool s t) = TCB_USED \<Longrightarrow> acquire (L_tcb t) s = Some s1 \<Longrightarrow>
    tcb_q_change_state t TCB_RUNNABLE s1 = Some s2 \<Longrightarrow> release (L_tcb t) s2 = Some s' \<Longrightarrow> sched_step ta s s'"

inductive sched_reachable :: "u64 \<Rightarrow> rst \<Rightarrow> bool" for ta :: u64 where
  sched_boot: "held s0 = [] \<Longrightarrow> cputhread s0 = Map.empty \<Longrightarrow> tcb_init s0 = Some s \<Longrightarrow> sched_reachable ta s"
| sched_next: "sched_reachable ta s \<Longrightarrow> sched_step ta s s' \<Longrightarrow> sched_reachable ta s'"

definition at_rest :: "'z tst_scheme \<Rightarrow> bool" where
  "at_rest s \<longleftrightarrow> held s = [] \<and> (\<exists>Q. sched_ok {} s Q)"

lemma at_restI: "held s = [] \<Longrightarrow> sched_ok {} s Q \<Longrightarrow> at_rest s"
  by (auto simp: at_rest_def)

lemma at_rest_resume [simp]: "at_rest (s\<lparr>resume_at := r\<rparr>) = at_rest s"
proof -
  have "sched_ok {} (s\<lparr>resume_at := r\<rparr>) Q = sched_ok {} s Q" for Q
    by (simp add: sched_ok_def sched_inv_def queues_of_def queues_def)
  then show ?thesis by (simp add: at_rest_def)
qed

text \<open>The CPU switches to a thread, which gives its lock back.\<close>

lemma run_at_rest:
  assumes a: "at_rest s" and c: "cputhread s c = None" and p: "scheduler_pick c s = Some (Some t, s1)"
  shows "held s1 = [L_tcb t]" "\<And>f. (\<And>x. t_state (f x) = t_state x) \<Longrightarrow> at_rest ((on_tcb t f s1)\<lparr>held := []\<rparr>)"
    "cputhread s1 c = Some t"
proof -
  obtain Q where h: "held s = []" and o: "sched_ok {} s Q" using a by (auto simp: at_rest_def)
  have "Q (TQ TCB_RUNNABLE) \<noteq> []"
    using pop_empty [OF sched_okD(1) [OF o], of TCB_RUNNABLE] p by (auto simp: scheduler_pick_def)
  then obtain u us where "Q (TQ TCB_RUNNABLE) = u # us" by (meson neq_Nil_conv)
  from scheduler_pick_ok [OF o c h this] p have s1: "held s1 = [L_tcb t]" "sched_ok {} s1 (Q(TQ TCB_RUNNABLE := us))"
      "cputhread s1 = (cputhread s)(c := Some t)" by auto
  show "held s1 = [L_tcb t]" "cputhread s1 c = Some t" using s1 by simp_all
  fix f :: "tcb \<Rightarrow> tcb" assume "\<And>x. t_state (f x) = t_state x"
  then have "sched_ok {} ((on_tcb t f s1)\<lparr>held := []\<rparr>) (Q(TQ TCB_RUNNABLE := us))"
    by (intro sched_ok_held sched_ok_on_tcb s1) simp_all
  then show "at_rest ((on_tcb t f s1)\<lparr>held := []\<rparr>)" by (intro at_restI) simp_all
qed

lemma run_at_rest_unlock:
  assumes "at_rest s" "cputhread s c = None" "scheduler_pick c s = Some (Some t, s1)" "release (L_tcb t) s1 = Some s'"
  shows "at_rest s'"
  using run_at_rest [OF assms(1-3)] run_at_rest(2) [OF assms(1-3), of id] assms(4)
  by (auto simp: release_def on_tcb_def)

lemma on_tcb_held: "(on_tcb t f s)\<lparr>held := h\<rparr> = on_tcb t f (s\<lparr>held := h\<rparr>)"
  by (simp add: on_tcb_def)

lemma wakeup_specific_ok:
  assumes o: "sched_ok W s Q" and t: "t < NTHREADS" and z: "t_state (tcb_pool s t) = TCB_SLEEPING"
    and ch: "t_chan (tcb_pool s t) \<noteq> 0 \<or> t_wait_chan_entry (tcb_pool s t) \<noteq> None" and l: "L_tcb t \<notin> set (held s)"
  shows "\<exists>s'. thread_wakeup_specific_atomic t s = Some s' \<and> tframe s s' \<and> sched_ok W s' (requeue t TCB_SLEEPING TCB_RUNNABLE Q) \<and>
          tcb_pool s' = (tcb_pool s)(t := (tcb_pool s t)\<lparr>t_state := TCB_RUNNABLE, t_chan := 0\<rparr>)"
proof -
  let ?a = "on_tcb t (t_chan_update (\<lambda>_. 0)) s"
  have "sched_ok W ?a Q" by (rule sched_ok_on_tcb [OF o]) simp
  moreover have "t \<notin> ran (cputhread ?a)" using sched_okD(6) [OF o] z by auto
  ultimately obtain s' where s': "(do { s \<leftarrow> acquire (L_tcb t) ?a; s \<leftarrow> tcb_q_change_state t TCB_RUNNABLE s; release (L_tcb t) s }) = Some s'"
      "tframe ?a s'" "sched_ok W s' (requeue t TCB_SLEEPING TCB_RUNNABLE Q)"
      "tcb_pool s' = (tcb_pool ?a)(t := (tcb_pool ?a t)\<lparr>t_state := TCB_RUNNABLE\<rparr>)"
    using change_ok [of W ?a Q t TCB_RUNNABLE] t l z by auto
  have "thread_wakeup_specific_atomic t s = Some s'"
    using s'(1) z ch l by (simp add: thread_wakeup_specific_atomic_def thread_wakeup_specific_def acquire_def on_tcb_held)
  moreover have "tframe s s'" by (rule tframe_trans [OF _ s'(2)]) simp
  ultimately show ?thesis using s'(3,4) by auto
qed

lemma sched_step_at_rest: "sched_step ta s s' \<Longrightarrow> at_rest s \<Longrightarrow> at_rest s'"
proof (induction rule: sched_step.induct)
  case (run_new s c t s1 s')
  note r = run_at_rest [OF run_new.prems run_new.hyps(1,2)]
  show ?case
    by (rule run_at_rest_unlock [OF run_new.prems run_new.hyps(1,2)])
      (use run_new.hyps(4) r(3) in \<open>simp add: thread_forkret_def mythread_def\<close>)
next
  case (run_yielded s c t s1 s')
  then show ?case by (auto simp: thread_yield_exit_def intro: run_at_rest_unlock)
next
  case (run_slept s c t s1 lk s2 s')
  note r = run_at_rest [OF run_slept.prems run_slept.hyps(1,2)]
  have "s' = (on_tcb t (\<lambda>x. x\<lparr>t_chan := 0, t_timeout := 0\<rparr>) s1)\<lparr>held := []\<rparr>"
    using run_slept.hyps(4,5) r(1) by (auto simp: thread_sleep_exit_def acquire_def release_def on_tcb_def)
  then show ?case using r(2) by simp
next
  case (yield s c t s1 s2)
  obtain Q where "held s = []" "sched_ok {} s Q" using yield.prems by (auto simp: at_rest_def)
  from yield_ok [OF this(2) yield.hyps(1) this(1)] yield.hyps have "at_rest s2" by (auto intro: at_restI)
  then show ?case by simp
next
  case (sleep s c t lk s1 chan timeout s2 s3)
  obtain Q where h: "held s = []" and o: "sched_ok {} s Q" using sleep.prems by (auto simp: at_rest_def)
  have s1: "s1 = s\<lparr>held := [lk]\<rparr>" using sleep.hyps(4) h by (simp add: acquire_def)
  have "sched_ok {} s1 Q" unfolding s1 by (rule sched_ok_held [OF o]) (use sleep.hyps(2) in auto)
  from sleep_ok [OF this, of c t lk chan timeout] sleep.hyps have "at_rest s3" by (auto simp: s1 intro: at_restI)
  then show ?case by simp
next
  case (wakeup c chan s s')
  then obtain Q where "held s = []" "sched_ok {} s Q" by (auto simp: at_rest_def)
  with wakeup_chan_ok [of "{}" s Q c chan] wakeup.hyps show ?case by (auto simp: no_tcb_lock_def tframe_def intro: at_restI)
next
  case (interrupt_sleep t s s')
  then obtain Q where h: "held s = []" and o: "sched_ok {} s Q" by (auto simp: at_rest_def)
  have "t_state (tcb_pool s t) = TCB_SLEEPING" "t_chan (tcb_pool s t) \<noteq> 0 \<or> t_wait_chan_entry (tcb_pool s t) \<noteq> None"
    using interrupt_sleep.hyps(2) h
    by (auto simp: thread_wakeup_specific_atomic_def thread_wakeup_specific_def acquire_def split: if_splits)
  from wakeup_specific_ok [OF o interrupt_sleep.hyps(1) this] interrupt_sleep.hyps(2) h show ?case
    by (auto simp: tframe_def intro: at_restI)
next
  case (timer c s s')
  then obtain Q where "held s = []" "sched_ok {} s Q" by (auto simp: at_rest_def)
  from clockintr_ok [OF this(2,1) refl refl, of ta c] timer.hyps show ?case by (auto intro: at_restI)
next
  case (create callback s t s1 s2)
  then obtain Q where h: "held s = []" and o: "sched_ok {} s Q" by (auto simp: at_rest_def)
  have "Q (TQ TCB_UNUSED) \<noteq> []"
    using pop_empty [OF sched_okD(1) [OF o], of TCB_UNUSED] create.hyps(1) by (auto simp: alloc_thread_def)
  then obtain u us where "Q (TQ TCB_UNUSED) = u # us" by (meson neq_Nil_conv)
  from alloc_thread_ok [OF o h this, of callback] create.hyps(1) obtain Q' where s1: "held s1 = [L_tcb t]" "sched_ok {} s1 Q'" by auto
  have "s2 = s1\<lparr>held := []\<rparr>" using create.hyps(2) s1(1) by (auto simp: release_def)
  then have "sched_ok {} s2 Q'" using sched_ok_held [OF s1(2), of "[]"] by simp
  then have "at_rest s2" using \<open>s2 = s1\<lparr>held := []\<rparr>\<close> by (intro at_restI) simp_all
  then show ?case by simp
next
  case (start t s s1 s2 s')
  then obtain Q where h: "held s = []" and o: "sched_ok {} s Q" by (auto simp: at_rest_def)
  have "t \<notin> ran (cputhread s)" using sched_okD(5) [OF o start.hyps(1)] start.hyps(2) by auto
  from change_ok [OF o start.hyps(1) this, of TCB_RUNNABLE] start.hyps(3-5) h show ?case
    by (auto simp: tframe_def intro: at_restI)
qed

lemma sched_reachable_at_rest: "sched_reachable ta s \<Longrightarrow> at_rest s"
proof (induction rule: sched_reachable.induct)
  case (sched_boot s0 s)
  then show ?case using tcb_init_ok [of s0] by (auto intro: at_restI)
next
  case (sched_next s s')
  then show ?case by (blast intro: sched_step_at_rest)
qed

subsection \<open>Example runs\<close>

definition boot_state :: rst where
  "boot_state = \<lparr>held = [], mem = (\<lambda>_. 0), freelist = 0, g_freecnt = 0, links = (\<lambda>_. \<lparr>lnext = None, lprev = None\<rparr>),
     qtype = (\<lambda>_. INODE_FREE_QUEUE), qcnt = (\<lambda>_. 0),
     tcb_pool = (\<lambda>_. tcb_zero),
     cputhread = Map.empty, next_tid = 1, ticks = 0, resume_at = (\<lambda>_. R_Fork)\<rparr>"

text \<open>What the runs below keep track of: the threads that are not unused, and their states.\<close>

definition started :: "u64 \<Rightarrow> rst \<Rightarrow> (nat \<rightharpoonup> thread_state) \<Rightarrow> bool" where
  "started ta s m \<longleftrightarrow> sched_reachable ta s \<and> (\<forall>t. m t \<noteq> Some TCB_UNUSED) \<and>
     (\<forall>t < NTHREADS. t_state (tcb_pool s t) = (case m t of None \<Rightarrow> TCB_UNUSED | Some x \<Rightarrow> x))"

lemma resume_at_more: "tst.more s' = tst.more s \<Longrightarrow> resume_at s' = resume_at (s :: rst)"
  by (cases s, cases s') simp

lemma run_boot: "\<exists>s. started ta s Map.empty \<and> cputhread s = Map.empty"
proof -
  obtain s where s: "tcb_init boot_state = Some s" "cputhread s = Map.empty"
      "sched_ok {} s ((\<lambda>_. [])(TQ TCB_UNUSED := [0..<NTHREADS]))"
    using tcb_init_ok [of boot_state] by (auto simp: boot_state_def)
  have "sched_reachable ta s" by (rule sched_boot [OF _ _ s(1)]) (simp_all add: boot_state_def)
  moreover have "t < NTHREADS \<Longrightarrow> t_state (tcb_pool s t) = TCB_UNUSED" for t
    using sched_invD(5) [OF sched_okD(1) [OF s(3)], of t TCB_UNUSED] by auto
  ultimately show ?thesis using s(2) by (auto simp: started_def)
qed

lemma run_create:
  assumes st: "started ta s m" and v: "v < NTHREADS" "m v = None"
  shows "\<exists>t s'. m t = None \<and> t < NTHREADS \<and> started ta s' (m(t := Some TCB_RUNNABLE)) \<and> resume_at s' = (resume_at s)(t := R_Fork) \<and>
          cputhread s' = cputhread s \<and> ticks s' = ticks s \<and> (\<forall>u. u \<noteq> t \<longrightarrow> tcb_pool s' u = tcb_pool s u)"
proof -
  have r: "sched_reachable ta s" using st by (simp add: started_def)
  then obtain Q where h: "held s = []" and o: "sched_ok {} s Q" using sched_reachable_at_rest by (auto simp: at_rest_def)
  note q = sched_invD(5) [OF sched_okD(1) [OF o]]
  have un: "v \<in> set (Q (TQ TCB_UNUSED))"
    using q [of v TCB_UNUSED] sched_okD(5) [OF o v(1)] st v by (simp add: started_def)
  then obtain t ts where t: "Q (TQ TCB_UNUSED) = t # ts" by (cases "Q (TQ TCB_UNUSED)") auto
  have tn: "t < NTHREADS" "t_state (tcb_pool s t) = TCB_UNUSED" using q [of t TCB_UNUSED] t by auto
  obtain s1 Q1 where 1: "alloc_thread 0 s = Some (Some t, s1)" "held s1 = [L_tcb t]" "sched_ok {} s1 Q1"
      "cputhread s1 = cputhread s" "tst.more s1 = tst.more s" "ticks s1 = ticks s" "t_state (tcb_pool s1 t) = TCB_USED" "\<forall>u. u \<noteq> t \<longrightarrow> tcb_pool s1 u = tcb_pool s u"
    using alloc_thread_ok [OF o h t, of 0] by blast
  let ?s2 = "s1\<lparr>held := []\<rparr>"
  let ?s3 = "?s2\<lparr>resume_at := (resume_at s)(t := R_Fork)\<rparr>"
  have "sched_step ta s ?s3" by (rule sched_step.create [OF 1(1)]) (simp add: release_def 1(2))
  then have r3: "sched_reachable ta ?s3" using r by (rule sched_next [rotated])
  then obtain Q3 where o3: "sched_ok {} ?s3 Q3" using sched_reachable_at_rest by (auto simp: at_rest_def)
  have "t \<notin> ran (cputhread ?s3)" using sched_okD(5) [OF o3 tn(1)] 1(7) by auto
  from change_ok [OF o3 tn(1) this, of TCB_RUNNABLE] obtain s' where s':
      "(do { s \<leftarrow> acquire (L_tcb t) ?s3; s \<leftarrow> tcb_q_change_state t TCB_RUNNABLE s; release (L_tcb t) s }) = Some s'" "tframe ?s3 s'"
      "tcb_pool s' = (tcb_pool ?s3)(t := (tcb_pool ?s3 t)\<lparr>t_state := TCB_RUNNABLE\<rparr>)" by auto
  from s'(1) obtain a b where "acquire (L_tcb t) ?s3 = Some a" "tcb_q_change_state t TCB_RUNNABLE a = Some b"
      "release (L_tcb t) b = Some s'" by (blast elim: bind_SomeE)
  then have "sched_step ta ?s3 s'" using 1(7) by (intro sched_step.start [OF tn(1)]) simp_all
  then have r': "sched_reachable ta s'" using r3 by (rule sched_next [rotated])
  have f: "cputhread s' = cputhread s" "ticks s' = ticks s" "resume_at s' = (resume_at s)(t := R_Fork)"
    using s'(2) 1(4,6) resume_at_more [of s' ?s3] by (simp_all add: tframe_def)
  have p: "u \<noteq> t \<Longrightarrow> tcb_pool s' u = tcb_pool s u" for u using s'(3) 1(8) by simp
  have "m t = None" using st tn by (cases "m t") (auto simp: started_def)
  moreover have "started ta s' (m(t := Some TCB_RUNNABLE))"
    using r' st p s'(3) by (auto simp: started_def)
  ultimately show ?thesis using f p tn(1) by blast
qed

text \<open>CPU \<open>c\<close> switches to the one runnable thread, which is new.\<close>

lemma run_first:
  assumes st: "started ta s m" and c: "cputhread s c = None" and t: "t < NTHREADS" "m t = Some TCB_RUNNABLE" "resume_at s t = R_Fork"
    and only: "\<And>u. m u = Some TCB_RUNNABLE \<Longrightarrow> u = t"
  shows "\<exists>s'. started ta s' (m(t := Some TCB_RUNNING)) \<and> cputhread s' = (cputhread s)(c := Some t) \<and> resume_at s' = resume_at s \<and>
          ticks s' = ticks s \<and> tcb_pool s' = (tcb_pool s)(t := (tcb_pool s t)\<lparr>t_state := TCB_RUNNING\<rparr>)"
proof -
  have r: "sched_reachable ta s" using st by (simp add: started_def)
  then obtain Q where h: "held s = []" and o: "sched_ok {} s Q" using sched_reachable_at_rest by (auto simp: at_rest_def)
  note q = sched_invD(5) [OF sched_okD(1) [OF o]]
  have "t \<in> set (Q (TQ TCB_RUNNABLE))"
    using q [of t TCB_RUNNABLE] sched_okD(5) [OF o t(1)] st t by (simp add: started_def)
  then obtain u us where u: "Q (TQ TCB_RUNNABLE) = u # us" by (cases "Q (TQ TCB_RUNNABLE)") auto
  have "u < NTHREADS" "t_state (tcb_pool s u) = TCB_RUNNABLE" using q [of u TCB_RUNNABLE] u by auto
  then have "m u = Some TCB_RUNNABLE" using st by (auto simp: started_def split: option.splits)
  then have ut: "u = t" by (rule only)
  obtain s1 where 1: "scheduler_pick c s = Some (Some t, s1)" "held s1 = [L_tcb t]"
      "cputhread s1 = (cputhread s)(c := Some t)" "tst.more s1 = tst.more s" "ticks s1 = ticks s"
      "tcb_pool s1 = (tcb_pool s)(t := (tcb_pool s t)\<lparr>t_state := TCB_RUNNING\<rparr>)"
    using scheduler_pick_ok [OF o c h u] ut by auto
  let ?s = "s1\<lparr>held := []\<rparr>"
  have "sched_step ta s ?s"
    by (rule sched_step.run_new [OF c 1(1) t(3)]) (simp add: thread_forkret_def mythread_def release_def 1(2,3))
  then have "sched_reachable ta ?s" using r by (rule sched_next [rotated])
  then have "started ta ?s (m(t := Some TCB_RUNNING))" using st by (auto simp: started_def 1(6))
  then show ?thesis using 1 resume_at_more [of ?s s] by (intro exI [of _ ?s]) simp
qed

lemma run_sleep:
  assumes st: "started ta s m" and c: "cputhread s c = Some t" and lk: "\<not> qlock lk" "\<And>u. lk \<noteq> L_tcb u"
  shows "\<exists>s'. started ta s' (m(t := Some TCB_SLEEPING)) \<and> cputhread s' = (cputhread s)(c := None) \<and>
          resume_at s' = (resume_at s)(t := R_Sleep lk) \<and> ticks s' = ticks s \<and>
          tcb_pool s' = (tcb_pool s)(t := (tcb_pool s t)\<lparr>t_state := TCB_SLEEPING, t_chan := chan,
            t_timeout := deadline timeout (ticks s) (t_timeout (tcb_pool s t))\<rparr>)"
proof -
  have r: "sched_reachable ta s" using st by (simp add: started_def)
  then obtain Q where h: "held s = []" and o: "sched_ok {} s Q" using sched_reachable_at_rest by (auto simp: at_rest_def)
  let ?a = "s\<lparr>held := [lk]\<rparr>"
  have "sched_ok {} ?a Q" by (rule sched_ok_held [OF o]) (use lk in auto)
  from sleep_ok [OF this, of c t lk chan timeout] c lk obtain s1 s2 where s2: "thread_sleep_enter c chan lk timeout ?a = Some s1"
      "scheduler_return c t s1 = Some s2" "cputhread s2 = (cputhread s)(c := None)" "ticks s2 = ticks s"
      "tcb_pool s2 = (tcb_pool s)(t := (tcb_pool s t)\<lparr>t_state := TCB_SLEEPING, t_chan := chan,
            t_timeout := deadline timeout (ticks s) (t_timeout (tcb_pool s t))\<rparr>)" by auto
  let ?s = "s2\<lparr>resume_at := (resume_at s)(t := R_Sleep lk)\<rparr>"
  have "sched_step ta s ?s" by (rule sched_step.sleep [OF c lk _ s2(1,2)]) (simp add: acquire_def h)
  then have "sched_reachable ta ?s" using r by (rule sched_next [rotated])
  then have "started ta ?s (m(t := Some TCB_SLEEPING))" using st by (auto simp: started_def s2(5))
  then show ?thesis using s2 by (intro exI [of _ ?s]) simp
qed

text \<open>Two threads that sleep on one channel with the same deadline.\<close>

lemma two_sleepers:
  "\<exists>s t u. sched_reachable ta s \<and> t < u \<and> u < NTHREADS \<and> cputhread s = Map.empty \<and> sleeps_on s chan t \<and> sleeps_on s chan u \<and>
     t_timeout (tcb_pool s t) = ucast (ticks s + 1) \<and> t_timeout (tcb_pool s u) = ucast (ticks s + 1)"
proof -
  let ?ts = "Some (0 :: u64, 100000000 :: u64)"
  have "TIMESPEC2TICKS 0 100000000 = 1" by code_simp
  then have dl: "deadline ?ts now old = ucast (now + 1)" for now old by (simp add: deadline_def add.commute)
  obtain s0 where s0: "started ta s0 Map.empty" "cputhread s0 = Map.empty" using run_boot by blast
  have n: "1 < NTHREADS" by (simp add: NTHREADS_def)
  obtain t s1 where s1: "t < NTHREADS" "started ta s1 [t \<mapsto> TCB_RUNNABLE]" "cputhread s1 = Map.empty" "ticks s1 = ticks s0"
      "resume_at s1 = (resume_at s0)(t := R_Fork)"
    using run_create [OF s0(1), of 0] s0(2) n by auto
  have o1: "[t \<mapsto> TCB_RUNNABLE] v = Some TCB_RUNNABLE \<Longrightarrow> v = t" for v by (auto split: if_splits)
  obtain s2 where s2: "started ta s2 [t \<mapsto> TCB_RUNNING]" "cputhread s2 = [0 \<mapsto> t]" "ticks s2 = ticks s0"
    using run_first [OF s1(2) _ s1(1) _ _ o1, of 0] s1 by auto
  obtain s3 where s3: "started ta s3 [t \<mapsto> TCB_SLEEPING]" "cputhread s3 = Map.empty" "ticks s3 = ticks s0"
      "t_chan (tcb_pool s3 t) = chan" "t_timeout (tcb_pool s3 t) = ucast (ticks s0 + 1)"
    using run_sleep [OF s2(1), of 0 t L_wait ?ts chan] s2 dl by auto
  obtain v where v: "v < NTHREADS" "v \<noteq> t" using n by (metis less_trans zero_less_one zero_neq_one)
  obtain u s4 where s4: "u < NTHREADS" "u \<noteq> t" "started ta s4 [t \<mapsto> TCB_SLEEPING, u \<mapsto> TCB_RUNNABLE]" "cputhread s4 = Map.empty"
      "ticks s4 = ticks s0" "resume_at s4 = (resume_at s3)(u := R_Fork)" "\<forall>w. w \<noteq> u \<longrightarrow> tcb_pool s4 w = tcb_pool s3 w"
    using run_create [OF s3(1) v(1)] s3(2,3) v(2) by (auto split: if_splits)
  have o2: "[t \<mapsto> TCB_SLEEPING, u \<mapsto> TCB_RUNNABLE] v = Some TCB_RUNNABLE \<Longrightarrow> v = u" for v by (auto split: if_splits)
  obtain s5 where s5: "started ta s5 ([t \<mapsto> TCB_SLEEPING, u \<mapsto> TCB_RUNNING])" "cputhread s5 = [0 \<mapsto> u]" "ticks s5 = ticks s0"
      "tcb_pool s5 t = tcb_pool s3 t"
    using run_first [OF s4(3) _ s4(1) _ _ o2, of 0] s4 by auto
  obtain s6 where s6: "started ta s6 ([t \<mapsto> TCB_SLEEPING, u \<mapsto> TCB_SLEEPING])" "cputhread s6 = Map.empty" "ticks s6 = ticks s0"
      "tcb_pool s6 t = tcb_pool s3 t" "t_chan (tcb_pool s6 u) = chan" "t_timeout (tcb_pool s6 u) = ucast (ticks s0 + 1)"
    using run_sleep [OF s5(1), of 0 u L_wait ?ts chan] s5 s4(2) dl by auto
  have z: "sleeps_on s6 chan t" "sleeps_on s6 chan u" "sched_reachable ta s6"
    using s6 s3(4) s1(1) s4(1,2) by (auto simp: started_def sleeps_on_def)
  show ?thesis
  proof (cases "t < u")
    case True
    then show ?thesis using z s6 s3(5) s4(1) by metis
  next
    case False
    then have "u < t" using s4(2) by simp
    then show ?thesis using z s6 s3(5) s1(1) by metis
  qed
qed

subsection \<open>Properties\<close>



text \<open>
  C18: \<^verbatim>\<open>thread_wakeup_chan\<close> makes exactly the threads runnable that sleep on
  the channel, apart from the caller's own, and appends them to the queue of runnable threads in the
  order of the table; every other thread keeps its state, and so does every CPU.
\<close>

theorem wakeup_chan_wakes:
  assumes "sched_reachable ta s"
  shows "\<exists>s' Q Q'. thread_wakeup_chan c chan s = Some s' \<and> queues s tqueues Q \<and> queues s' tqueues Q' \<and>
    (\<forall>t. t_state (tcb_pool s' t) = (if t < NTHREADS \<and> mythread c s \<noteq> Some t \<and> sleeps_on s chan t then TCB_RUNNABLE
       else t_state (tcb_pool s t))) \<and>
    Q' (TQ TCB_RUNNABLE) = Q (TQ TCB_RUNNABLE) @ filter (\<lambda>t. mythread c s \<noteq> Some t \<and> sleeps_on s chan t) [0..<NTHREADS] \<and>
    cputhread s' = cputhread s \<and> held s' = held s"
proof -
  obtain Q where h: "held s = []" and o: "sched_ok {} s Q"
    using sched_reachable_at_rest [OF assms] by (auto simp: at_rest_def)
  from wakeup_chan_ok [OF o, of c chan] h obtain s' where s': "thread_wakeup_chan c chan s = Some s'" "tframe s s'"
      "sched_ok {} s' (wake_queues (sleepers c s chan) Q)" "tcb_pool s' = wake_tcbs (sleepers c s chan) (tcb_pool s)"
    by (auto simp: no_tcb_lock_def)
  have q: "queues s tqueues Q" "queues s' tqueues (wake_queues (sleepers c s chan) Q)"
    using sched_invD(1) [OF sched_okD(1) [OF o]] sched_invD(1) [OF sched_okD(1) [OF s'(3)]] by (simp_all add: queues_of_def)
  show ?thesis
    by (rule exI [of _ s'], rule exI [of _ Q], rule exI [of _ "wake_queues (sleepers c s chan) Q"])
      (use s' q in \<open>auto simp: tframe_def wake_tcbs_def wake_queues_def sleepers_def\<close>)
qed

theorem wakeup_chan_wakes_witness:
  "\<exists>s s' t u. sched_reachable 0 s \<and> sleeps_on s 8 t \<and> sleeps_on s 8 u \<and> t \<noteq> u \<and> thread_wakeup_chan 0 8 s = Some s' \<and>
     t_state (tcb_pool s' t) = TCB_RUNNABLE \<and> t_state (tcb_pool s' u) = TCB_RUNNABLE"
proof -
  obtain s t u where s: "sched_reachable 0 s" "t < u" "u < NTHREADS" "cputhread s = Map.empty" "sleeps_on s 8 t" "sleeps_on s 8 u"
    using two_sleepers [of 0 8] by blast
  from wakeup_chan_wakes [OF s(1), of 0 8] obtain s' where s': "thread_wakeup_chan 0 8 s = Some s'"
      "\<forall>t. t_state (tcb_pool s' t) = (if t < NTHREADS \<and> mythread 0 s \<noteq> Some t \<and> sleeps_on s 8 t then TCB_RUNNABLE
       else t_state (tcb_pool s t))" by blast
  have "t_state (tcb_pool s' t) = TCB_RUNNABLE" "t_state (tcb_pool s' u) = TCB_RUNNABLE"
    using s'(2) s(2-6) less_trans [OF s(2,3)] by (simp_all add: mythread_def)
  then show ?thesis using s s'(1) by blast
qed



end
