(* ===== verification/XV_Sema.thy ===== *)
theory XV_Sema
  imports XV_Sched
begin

section \<open>Condition variables and semaphores\<close>

text \<open>
  \<^verbatim>\<open>kernel/atomic/cond.c\<close> and \<^verbatim>\<open>kernel/atomic/semaphore.c\<close> over the threads of
  \<^verbatim>\<open>XV_Thread\<close>.  Condition variable \<open>k\<close> is its wait queue \<open>CondQ k\<close>; semaphore \<open>k\<close> has
  the condition variable \<open>k\<close>.  As in \<^verbatim>\<open>XV_Thread\<close> a routine that gives up the CPU is split at the
  switch.  The values of a semaphore are far from the bounds of \<^verbatim>\<open>int\<close> and kept as integers.
\<close>

definition cond_init :: "nat \<Rightarrow> 'z tst_scheme \<Rightarrow> 'z tst_scheme" where
  "cond_init k s = queue_init (CondQ k) TCB_WAIT_QUEUE s"

definition cond_wait_enter :: "nat \<Rightarrow> nat \<Rightarrow> lock \<Rightarrow> 'z tst_scheme \<Rightarrow> 'z tst_scheme option" where
  "cond_wait_enter c k mutex s = do {
     t \<leftarrow> mythread c s;
     s \<leftarrow> acquire (L_tcb t) s;
     s \<leftarrow> tcb_q_change_state t TCB_SLEEPING s;
     s \<leftarrow> queue_push_back (CondQ k) t s;
     let s = on_tcb t (t_wait_chan_entry_update (\<lambda>_. Some (CondQ k))) s;
     s \<leftarrow> release mutex s;
     thread_sched c s
   }"

text \<open>After the switch back; \<open>True\<close> when the thread was killed, which ends in \<^verbatim>\<open>thread_exit\<close>.\<close>

definition cond_wait_exit :: "nat \<Rightarrow> lock \<Rightarrow> 'z tst_scheme \<Rightarrow> (bool \<times> 'z tst_scheme) option" where
  "cond_wait_exit t mutex s = do {
     let killed = t_killed (tcb_pool s t);
     s \<leftarrow> release (L_tcb t) s;
     if killed then Some (True, s)
     else do { s \<leftarrow> acquire mutex s; Some (False, s) }
   }"

text \<open>The body of the loop of \<^verbatim>\<open>cond_broadcast\<close> and of the \<^verbatim>\<open>if\<close> of \<^verbatim>\<open>cond_signal\<close>.\<close>

definition cond_wake_first :: "nat \<Rightarrow> 'z tst_scheme \<Rightarrow> 'z tst_scheme option" where
  "cond_wake_first k s = do {
     (r, s) \<leftarrow> queue_pop_atomic (CondQ k) True s;
     t \<leftarrow> r;
     s \<leftarrow> acquire (L_tcb t) s;
     ensure (t_state (tcb_pool s t) = TCB_SLEEPING);
     ensure (t_wait_chan_entry (tcb_pool s t) \<noteq> None);
     let s = on_tcb t (t_wait_chan_entry_update (\<lambda>_. None)) s;
     s \<leftarrow> tcb_q_change_state t TCB_RUNNABLE s;
     release (L_tcb t) s
   }"

definition cond_signal :: "nat \<Rightarrow> 'z tst_scheme \<Rightarrow> 'z tst_scheme option" where
  "cond_signal k s = do {
     (empty, s) \<leftarrow> queue_isempty_atomic (CondQ k) s;
     if empty then Some s else cond_wake_first k s
   }"

partial_function (option) cond_broadcast :: "nat \<Rightarrow> 'z tst_scheme \<Rightarrow> 'z tst_scheme option" where
  "cond_broadcast k s = do {
     (empty, s) \<leftarrow> queue_isempty_atomic (CondQ k) s;
     if empty then Some s
     else do { s \<leftarrow> cond_wake_first k s; cond_broadcast k s }
   }"

record semst = tst +
  sem_value :: "nat \<Rightarrow> int"
  sem_wakeup :: "nat \<Rightarrow> int"

definition sema_init :: "nat \<Rightarrow> int \<Rightarrow> 'z semst_scheme \<Rightarrow> 'z semst_scheme" where
  "sema_init k v s = cond_init k (s\<lparr>sem_value := (sem_value s)(k := v), sem_wakeup := (sem_wakeup s)(k := 0)\<rparr>)"

text \<open>\<open>True\<close>: the thread has gone to sleep and switches to the scheduler.\<close>

definition sema_wait_enter :: "nat \<Rightarrow> nat \<Rightarrow> 'z semst_scheme \<Rightarrow> (bool \<times> 'z semst_scheme) option" where
  "sema_wait_enter c k s = do {
     s \<leftarrow> acquire (L_sem k) s;
     let s = s\<lparr>sem_value := (sem_value s)(k := sem_value s k - 1)\<rparr>;
     if sem_value s k < 0 then do { s \<leftarrow> cond_wait_enter c k (L_sem k) s; Some (True, s) }
     else do { s \<leftarrow> release (L_sem k) s; Some (False, s) }
   }"

text \<open>From the switch back: the thread exits, sleeps again, or has got through.\<close>

datatype sema_result = Sem_Exit | Sem_Again | Sem_Passed

definition sema_wait_resume :: "nat \<Rightarrow> nat \<Rightarrow> nat \<Rightarrow> 'z semst_scheme \<Rightarrow> (sema_result \<times> 'z semst_scheme) option" where
  "sema_wait_resume c t k s = do {
     (killed, s) \<leftarrow> cond_wait_exit t (L_sem k) s;
     if killed then Some (Sem_Exit, s)
     else if sem_wakeup s k = 0 then do { s \<leftarrow> cond_wait_enter c k (L_sem k) s; Some (Sem_Again, s) }
     else do {
       let s = s\<lparr>sem_wakeup := (sem_wakeup s)(k := sem_wakeup s k - 1)\<rparr>;
       s \<leftarrow> release (L_sem k) s;
       Some (Sem_Passed, s)
     }
   }"

definition sema_signal :: "nat \<Rightarrow> 'z semst_scheme \<Rightarrow> 'z semst_scheme option" where
  "sema_signal k s = do {
     s \<leftarrow> acquire (L_sem k) s;
     let s = s\<lparr>sem_value := (sem_value s)(k := sem_value s k + 1)\<rparr>;
     s \<leftarrow> (if sem_value s k \<le> 0
          then cond_signal k (s\<lparr>sem_wakeup := (sem_wakeup s)(k := sem_wakeup s k + 1)\<rparr>)
          else Some s);
     release (L_sem k) s
   }"

subsection \<open>Wait queues\<close>

lemma sched_inv_wait_queue:
  assumes i: "sched_inv W s Q T" and q: "q \<in> W" and Q': "queues s' (tqueues \<union> W) (Q(q := ns))" and f: "qframe s s'"
    and l: "\<And>t. links s' (LTState t) = links s (LTState t)"
  shows "sched_inv W s' (Q(q := ns)) T"
proof -
  note d = sched_invD [OF i]
  have n: "TQ x \<noteq> q" for x using d(2) [OF q] by auto
  have "queues_of (tqueues \<union> W) qkind s' (Q(q := ns))" by (rule queues_of_frame [OF d(1) Q' f])
  moreover have "is_list (links s') (LTState t) []" if "t \<in> T" for t using d(3) [OF that] l by (simp add: is_list_empty)
  ultimately show ?thesis
    using d(2,4,5,6) n qframe_tst(1) [OF f] unfolding sched_inv_def by simp
qed

lemma wait_push:
  assumes i: "sched_inv W s Q T" and q: "q \<in> W" and t: "\<And>r. r \<in> W \<Longrightarrow> t \<notin> set (Q r)"
  shows "\<exists>s'. queue_push_back q t s = Some s' \<and> qframe s s' \<and> sched_inv W s' (Q(q := Q q @ [t])) T"
proof -
  note d = sched_invD [OF i]
  have qu: "queues s (tqueues \<union> W) Q" and ty: "\<And>r. r \<in> tqueues \<union> W \<Longrightarrow> qtype s r = qkind r"
    using d(1) by (auto simp: queues_of_def)
  have tyq: "qtype s q = TCB_WAIT_QUEUE" using ty q d(2) by simp
  have "\<not> queued s (tqueues \<union> W) Q (qtype s q) t"
    using t ty tyq by (auto simp: queued_def tqueues_def)
  from queue_push_back_ok [OF qu _ this] q obtain s' where s': "queue_push_back q t s = Some s'"
      "queues s' (tqueues \<union> W) (Q(q := Q q @ [t]))" "qframe s s'" by auto
  have "cell TCB_WAIT_QUEUE t \<notin> set (LQueue q # map (cell TCB_WAIT_QUEUE) (Q q))" using t [OF q] by (auto simp: cell_inj)
  moreover have "is_list (links s) (LQueue q) (map (cell TCB_WAIT_QUEUE) (Q q))" using queuesD(2) [OF qu, of q] q tyq by simp
  ultimately obtain st where st: "list_add_tail (cell TCB_WAIT_QUEUE t) (LQueue q) (links s) = Some st"
      "\<And>a. a \<notin> insert (cell TCB_WAIT_QUEUE t) (insert (LQueue q) (set (map (cell TCB_WAIT_QUEUE) (Q q)))) \<Longrightarrow> st a = links s a"
    using list_add_tail_list [of "links s"] by blast
  have "st (LTState u) = links s (LTState u)" for u by (rule st(2)) (auto simp: cell_def)
  then have "links s' (LTState u) = links s (LTState u)" for u
    using s'(1) tyq st(1) by (auto simp: queue_push_back_def on_links_def cell_def)
  then show ?thesis using sched_inv_wait_queue [OF i q s'(2,3)] s' by blast
qed

lemma wait_pop:
  assumes i: "sched_inv W s Q T" and q: "q \<in> W" and t: "Q q = t # ts"
  shows "\<exists>s'. queue_pop_atomic q True s = Some (Some t, s') \<and> qframe s s' \<and> sched_inv W s' (Q(q := ts)) T"
proof -
  note d = sched_invD [OF i]
  have D: "q \<in> tqueues \<union> W" using q by simp
  have qu: "queues s (tqueues \<union> W) Q" and ty: "qtype s q = TCB_WAIT_QUEUE" and h: "L_queue q \<notin> set (held s)"
    using d(1,2) q by (auto simp: queues_of_def)
  obtain s' where s': "queue_remove_atomic q t s = Some s'" "queues s' (tqueues \<union> W) (Q(q := removeAll t (Q q)))" "qframe s s'"
    using queue_remove_atomic_ok [OF qu D _ h, of t] t by auto
  have "distinct (t # ts)" using queuesD(3) [OF qu D] t by simp
  then have r: "removeAll t (Q q) = ts" using t by simp
  let ?s = "s'\<lparr>qcnt := qcnt s\<rparr>"
  have "links s' (LTState u) = links s (LTState u)" for u
    by (rule queue_remove_atomic_cells [OF qu D _ s'(1)]) (use t ty in \<open>auto simp: cell_def\<close>)
  moreover have "queues ?s (tqueues \<union> W) (Q(q := ts))" using s'(2) r by (simp add: queues_def)
  moreover have "qframe s ?s" using s'(3) by (simp add: qframe_def)
  ultimately have "sched_inv W ?s (Q(q := ts)) T" by (intro sched_inv_wait_queue [OF i q]) simp_all
  then show ?thesis using pop_as_remove [OF qu D t h s'(1)] \<open>qframe s ?s\<close> by blast
qed

lemma wait_isempty:
  assumes i: "sched_inv W s Q T" and q: "q \<in> W"
  shows "queue_isempty_atomic q s = Some (Q q = [], s)"
proof -
  have qu: "queues s (tqueues \<union> W) Q" and h: "L_queue q \<notin> set (held s)"
    using sched_invD(1) [OF i] q by (auto simp: queues_of_def)
  have "list_empty (LQueue q) (links s) = (Q q = [])"
    using queue_isempty_iff [OF qu, of q] q by (simp add: queue_isempty_def)
  then show ?thesis using h by (simp add: queue_isempty_atomic_def acquire_def release_def)
qed

lemma requeue_wait [simp]: "q \<in> range CondQ \<Longrightarrow> requeue t x y Q q = Q q" "requeue t x y Q (CondQ k) = Q (CondQ k)"
  by (auto simp: requeue_def drop_from_def)

lemma sched_ok_wait_queue:
  assumes "sched_ok W s Q" "qframe s s'" "sched_inv W s' Q' (ran (cputhread s))"
  shows "sched_ok W s' Q'"
  using assms qframe_tst [OF assms(2)] unfolding sched_ok_def by metis

text \<open>A thread goes to sleep in the wait queue and gives up its CPU.\<close>

lemma cond_wait_enter_ok:
  assumes o: "sched_ok W s Q" and c: "cputhread s c = Some t" and h: "held s = [m]" "m \<noteq> L_tcb t" "\<not> qlock m"
    and k: "CondQ k \<in> W" and t: "\<And>r. r \<in> W \<Longrightarrow> t \<notin> set (Q r)" and W: "W \<subseteq> range CondQ"
  shows "\<exists>s1 s'. cond_wait_enter c k m s = Some s1 \<and> scheduler_return c t s1 = Some s' \<and> held s' = [] \<and>
          sched_ok W s' ((requeue t TCB_RUNNING TCB_SLEEPING Q)(CondQ k := Q (CondQ k) @ [t])) \<and>
          cputhread s' = (cputhread s)(c := None) \<and> tst.more s' = tst.more s \<and>
          tcb_pool s' = (tcb_pool s)(t := (tcb_pool s t)\<lparr>t_state := TCB_SLEEPING, t_wait_chan_entry := Some (CondQ k)\<rparr>)"
proof -
  let ?a = "s\<lparr>held := [L_tcb t, m]\<rparr>" let ?R = "requeue t TCB_RUNNING TCB_SLEEPING Q"
  note d = sched_okD [OF o]
  have "sched_inv W ?a Q (ran (cputhread s))" by (rule sched_inv_held [OF d(1)]) (use h in auto)
  from change_state_ok [OF this d(3) [OF c], of TCB_SLEEPING] obtain a1 where a1: "tcb_q_change_state t TCB_SLEEPING ?a = Some a1" "tframe ?a a1"
      "sched_inv W a1 ?R (ran (cputhread s) - {t})" "tcb_pool a1 = (tcb_pool s)(t := (tcb_pool s t)\<lparr>t_state := TCB_SLEEPING\<rparr>)"
    using d(2) [OF c] by auto
  have tR: "t \<notin> set (?R r)" if "r \<in> W" for r using t [OF that] W that by auto
  from wait_push [OF a1(3) k tR] obtain a2 where a2: "queue_push_back (CondQ k) t a1 = Some a2" "qframe a1 a2"
      "sched_inv W a2 (?R(CondQ k := Q (CondQ k) @ [t])) (ran (cputhread s) - {t})" by auto
  note f = qframe_tst [OF a2(2)]
  let ?b = "on_tcb t (t_wait_chan_entry_update (\<lambda>_. Some (CondQ k))) a2"
  let ?b1 = "?b\<lparr>held := [L_tcb t]\<rparr>"
  let ?s = "?b\<lparr>held := [], cputhread := (cputhread s)(c := None)\<rparr>"
  have hb: "held a2 = [L_tcb t, m]" "cputhread a2 = cputhread s" "tst.more a2 = tst.more s"
    using a1(2) a2(2) f by (simp_all add: tframe_def qframe_def)
  have "cond_wait_enter c k m s = Some ?b1"
    using c h a1(1) a2(1) hb a1(4) f
    by (auto simp: cond_wait_enter_def mythread_def acquire_def release_def thread_sched_def)
  moreover have "scheduler_return c t ?b1 = Some ?s"
    using hb by (simp add: scheduler_return_def release_def on_tcb_def)
  moreover have ran: "ran ((cputhread s)(c := None)) = ran (cputhread s) - {t}" using ran_drop [of "cputhread s" c t] c d(4) by blast
  have "sched_inv W (?b\<lparr>held := []\<rparr>) (?R(CondQ k := Q (CondQ k) @ [t])) (ran (cputhread s) - {t})"
    by (rule sched_inv_held) (use a2(3) in simp_all)
  then have "sched_ok W ?s (?R(CondQ k := Q (CondQ k) @ [t]))"
    using d(2,4) unfolding sched_ok_def by (auto simp: ran f a1(4) on_tcb_def) (auto simp: ran_def)
  ultimately show ?thesis using hb f a1(4) by (intro exI [of _ ?b1] exI [of _ ?s]) (simp add: on_tcb_def)
qed

lemma cond_wake_first_ok:
  assumes o: "sched_ok W s Q" and k: "CondQ k \<in> W" and t: "Q (CondQ k) = t # ts" "t < NTHREADS"
    and z: "t_state (tcb_pool s t) = TCB_SLEEPING" "t_wait_chan_entry (tcb_pool s t) \<noteq> None" and l: "L_tcb t \<notin> set (held s)"
  shows "\<exists>s'. cond_wake_first k s = Some s' \<and> tframe s s' \<and>
          sched_ok W s' ((requeue t TCB_SLEEPING TCB_RUNNABLE Q)(CondQ k := ts)) \<and>
          tcb_pool s' = (tcb_pool s)(t := (tcb_pool s t)\<lparr>t_state := TCB_RUNNABLE, t_wait_chan_entry := None\<rparr>)"
proof -
  note d = sched_okD [OF o]
  obtain s1 where 1: "queue_pop_atomic (CondQ k) True s = Some (Some t, s1)" "qframe s s1" "sched_inv W s1 (Q(CondQ k := ts)) (ran (cputhread s))"
    using wait_pop [OF d(1) k t(1)] by blast
  note f = qframe_tst [OF 1(2)]
  let ?a = "on_tcb t (t_wait_chan_entry_update (\<lambda>_. None)) s1"
  have o1: "sched_ok W ?a (Q(CondQ k := ts))" by (rule sched_ok_on_tcb [OF sched_ok_wait_queue [OF o 1(2,3)]]) simp
  have h1: "held s1 = held s" using 1(2) by (simp add: qframe_def)
  have nr: "t \<notin> ran (cputhread ?a)" using d(6) z(1) f(2) by auto
  obtain s' where s': "(do { s \<leftarrow> acquire (L_tcb t) ?a; s \<leftarrow> tcb_q_change_state t TCB_RUNNABLE s; release (L_tcb t) s }) = Some s'"
      "tframe ?a s'" "sched_ok W s' (requeue t TCB_SLEEPING TCB_RUNNABLE (Q(CondQ k := ts)))"
      "tcb_pool s' = (tcb_pool ?a)(t := (tcb_pool ?a t)\<lparr>t_state := TCB_RUNNABLE\<rparr>)"
    using change_ok [OF o1 t(2) nr, of TCB_RUNNABLE] l h1 z(1) f(1) by auto
  have "cond_wake_first k s = Some s'"
    using 1(1) s'(1) z l h1 f(1) by (simp add: cond_wake_first_def acquire_def on_tcb_held)
  moreover have "tframe s s'" using qframe_tframe [OF 1(2)] s'(2) tframe_on_tcb tframe_trans by blast
  moreover have "requeue t TCB_SLEEPING TCB_RUNNABLE (Q(CondQ k := ts)) = (requeue t TCB_SLEEPING TCB_RUNNABLE Q)(CondQ k := ts)"
    by (auto simp: requeue_def drop_from_def fun_eq_iff)
  ultimately show ?thesis using s'(3,4) f(1) by auto
qed

subsection \<open>Threads that share a semaphore\<close>

text \<open>
  The bookkeeping of the machine below: the threads inside \<^verbatim>\<open>sema_wait\<close> that have not got
  through, how often a thread has got through, and how often the semaphore was signalled.
\<close>

record semrun = semst +
  waits :: "nat set"
  passed :: int
  signalled :: int

text \<open>
  One step of a CPU.  Threads are created, yield, wait on semaphore \<open>k\<close> and signal it; a thread
  that is not inside \<^verbatim>\<open>sema_wait\<close> only has to give its lock back when a CPU switches to it.  Nobody
  kills a thread here: one that is killed while it waits leaves without undoing its decrement.
\<close>

inductive sema_step :: "nat \<Rightarrow> semrun \<Rightarrow> semrun \<Rightarrow> bool" for k :: nat where
  sm_pass: "cputhread s c = Some t \<Longrightarrow> sema_wait_enter c k s = Some (False, s') \<Longrightarrow>
    sema_step k s (s'\<lparr>passed := passed s + 1\<rparr>)"
| sm_block: "cputhread s c = Some t \<Longrightarrow> sema_wait_enter c k s = Some (True, s1) \<Longrightarrow> scheduler_return c t s1 = Some s2 \<Longrightarrow>
    sema_step k s (s2\<lparr>waits := insert t (waits s)\<rparr>)"
| sm_signal: "sema_signal k s = Some s' \<Longrightarrow> sema_step k s (s'\<lparr>signalled := signalled s + 1\<rparr>)"
| sm_through: "cputhread s c = None \<Longrightarrow> scheduler_pick c s = Some (Some t, s1) \<Longrightarrow> t \<in> waits s \<Longrightarrow>
    sema_wait_resume c t k s1 = Some (Sem_Passed, s2) \<Longrightarrow>
    sema_step k s (s2\<lparr>waits := waits s - {t}, passed := passed s + 1\<rparr>)"
| sm_again: "cputhread s c = None \<Longrightarrow> scheduler_pick c s = Some (Some t, s1) \<Longrightarrow> t \<in> waits s \<Longrightarrow>
    sema_wait_resume c t k s1 = Some (Sem_Again, s2) \<Longrightarrow> scheduler_return c t s2 = Some s3 \<Longrightarrow> sema_step k s s3"
| sm_run: "cputhread s c = None \<Longrightarrow> scheduler_pick c s = Some (Some t, s1) \<Longrightarrow> t \<notin> waits s \<Longrightarrow>
    thread_yield_exit t s1 = Some s' \<Longrightarrow> sema_step k s s'"
| sm_yield: "cputhread s c = Some t \<Longrightarrow> thread_yield_enter c s = Some s1 \<Longrightarrow> scheduler_return c t s1 = Some s' \<Longrightarrow> sema_step k s s'"
| sm_create: "alloc_thread callback s = Some (Some t, s1) \<Longrightarrow> tcb_q_change_state t TCB_RUNNABLE s1 = Some s2 \<Longrightarrow>
    release (L_tcb t) s2 = Some s' \<Longrightarrow> sema_step k s s'"

inductive sema_reachable :: "nat \<Rightarrow> int \<Rightarrow> semrun \<Rightarrow> bool" for k :: nat and v :: int where
  sema_boot: "held s0 = [] \<Longrightarrow> cputhread s0 = Map.empty \<Longrightarrow> tcb_init s0 = Some s \<Longrightarrow> 0 \<le> v \<Longrightarrow>
    sema_reachable k v ((sema_init k v s)\<lparr>waits := {}, passed := 0, signalled := 0\<rparr>)"
| sema_next: "sema_reachable k v s \<Longrightarrow> sema_step k s s' \<Longrightarrow> sema_reachable k v s'"

text \<open>
  How the fields of the semaphore relate to the threads: \<open>qs\<close> is the wait queue.  The threads inside
  \<^verbatim>\<open>sema_wait\<close> sleep in the queue or have been woken; for every wakeup that has been granted and not
  used there is a woken thread; and the negative value counts the threads that wait for a grant.
\<close>

definition sem_rel :: "int \<Rightarrow> nat list \<Rightarrow> (nat \<Rightarrow> tcb) \<Rightarrow> nat set \<Rightarrow> int \<Rightarrow> int \<Rightarrow> int \<Rightarrow> int \<Rightarrow> bool" where
  "sem_rel v qs P ws val wk pa sg \<longleftrightarrow>
     (\<forall>t. t \<in> set qs \<longleftrightarrow> t < NTHREADS \<and> t_state (P t) = TCB_SLEEPING) \<and> (\<forall>t \<in> set qs. t_wait_chan_entry (P t) \<noteq> None) \<and>
     ws \<subseteq> {..<NTHREADS} \<and> set qs \<subseteq> ws \<and> (\<forall>t \<in> ws - set qs. t_state (P t) = TCB_RUNNABLE) \<and>
     0 \<le> wk \<and> wk \<le> int (card (ws - set qs)) \<and> max 0 (- val) = int (card ws) - wk \<and> pa = v + sg - val - int (card ws)"

lemma sem_relD:
  assumes "sem_rel v qs P ws val wk pa sg"
  shows "\<And>t. t \<in> set qs \<longleftrightarrow> t < NTHREADS \<and> t_state (P t) = TCB_SLEEPING" "\<And>t. t \<in> set qs \<Longrightarrow> t_wait_chan_entry (P t) \<noteq> None"
    "ws \<subseteq> {..<NTHREADS}" "set qs \<subseteq> ws" "\<And>t. t \<in> ws \<Longrightarrow> t \<notin> set qs \<Longrightarrow> t_state (P t) = TCB_RUNNABLE"
    "0 \<le> wk" "wk \<le> int (card (ws - set qs))" "max 0 (- val) = int (card ws) - wk" "pa = v + sg - val - int (card ws)" "finite ws"
  using assms finite_subset [of ws "{..<NTHREADS}"] unfolding sem_rel_def by blast+

lemma sem_relI:
  assumes "\<And>t. t \<in> set qs \<longleftrightarrow> t < NTHREADS \<and> t_state (P t) = TCB_SLEEPING" "\<And>t. t \<in> set qs \<Longrightarrow> t_wait_chan_entry (P t) \<noteq> None"
    "ws \<subseteq> {..<NTHREADS}" "set qs \<subseteq> ws" "\<And>t. t \<in> ws \<Longrightarrow> t \<notin> set qs \<Longrightarrow> t_state (P t) = TCB_RUNNABLE"
    "0 \<le> wk" "wk \<le> int (card (ws - set qs))" "max 0 (- val) = int (card ws) - wk" "pa = v + sg - val - int (card ws)"
  shows "sem_rel v qs P ws val wk pa sg"
  using assms unfolding sem_rel_def by blast

text \<open>The fields of the semaphore change and the threads do not.\<close>

lemma sem_rel_fields:
  assumes "sem_rel v qs P ws val wk pa sg" "0 \<le> wk'" "wk' \<le> int (card (ws - set qs))" "max 0 (- val') = int (card ws) - wk'"
    "pa' = v + sg' - val' - int (card ws)"
  shows "sem_rel v qs P ws val' wk' pa' sg'"
  using assms unfolding sem_rel_def by blast

text \<open>A thread outside \<^verbatim>\<open>sema_wait\<close> changes its state to one other than sleeping.\<close>

lemma sem_rel_other:
  assumes r: "sem_rel v qs P ws val wk pa sg" and t: "t \<notin> ws" and P: "t_state (P' t) \<noteq> TCB_SLEEPING" "\<And>u. u \<noteq> t \<Longrightarrow> P' u = P u"
  shows "sem_rel v qs P' ws val wk pa sg"
proof -
  note d = sem_relD [OF r]
  have q: "t \<notin> set qs" using d(4) t by blast
  have "u \<in> set qs \<longleftrightarrow> u < NTHREADS \<and> t_state (P' u) = TCB_SLEEPING" for u using d(1) [of u] P q by (cases "u = t") auto
  moreover have "u \<in> set qs \<Longrightarrow> t_wait_chan_entry (P' u) \<noteq> None" for u using d(2) [of u] P(2) [of u] q by (cases "u = t") auto
  moreover have "u \<in> ws - set qs \<Longrightarrow> t_state (P' u) = TCB_RUNNABLE" for u using d(5) [of u] P(2) [of u] t by (cases "u = t") auto
  ultimately show ?thesis using d(3,4,6-9) unfolding sem_rel_def by blast
qed

lemma sem_rel_pass:
  assumes r: "sem_rel v qs P ws val wk pa sg" and "0 \<le> val - 1"
  shows "sem_rel v qs P ws (val - 1) wk (pa + 1) sg"
  by (rule sem_rel_fields [OF r]) (use sem_relD(6-9) [OF r] assms(2) in auto)

lemma sem_rel_block:
  assumes r: "sem_rel v qs P ws val wk pa sg" and val: "val - 1 < 0" and t: "t < NTHREADS" "t_state (P t) = TCB_RUNNING"
  shows "sem_rel v (qs @ [t]) (P(t := (P t)\<lparr>t_state := TCB_SLEEPING, t_wait_chan_entry := Some q\<rparr>)) (insert t ws) (val - 1) wk pa sg"
proof -
  note d = sem_relD [OF r]
  have n: "t \<notin> set qs" "t \<notin> ws" using d(1,5) [of t] t(2) by auto
  have s: "insert t ws - set (qs @ [t]) = ws - set qs" using n by auto
  have c: "int (card (insert t ws)) = int (card ws) + 1" using n d(10) by simp
  show ?thesis
  proof (rule sem_relI)
    show "u \<in> set (qs @ [t]) \<longleftrightarrow> u < NTHREADS \<and> t_state ((P(t := (P t)\<lparr>t_state := TCB_SLEEPING, t_wait_chan_entry := Some q\<rparr>)) u) = TCB_SLEEPING" for u
      using d(1) [of u] t n by (cases "u = t") auto
    show "t_wait_chan_entry ((P(t := (P t)\<lparr>t_state := TCB_SLEEPING, t_wait_chan_entry := Some q\<rparr>)) u) \<noteq> None" if "u \<in> set (qs @ [t])" for u
      using d(2) [of u] that by auto
    show "t_state ((P(t := (P t)\<lparr>t_state := TCB_SLEEPING, t_wait_chan_entry := Some q\<rparr>)) u) = TCB_RUNNABLE"
      if "u \<in> insert t ws" "u \<notin> set (qs @ [t])" for u using d(5) [of u] that by auto
    show "wk \<le> int (card (insert t ws - set (qs @ [t])))" unfolding s by (rule d(7))
  qed (use d(3,4,6,8,9) t val c in auto)
qed

lemma sem_rel_signal_free:
  assumes r: "sem_rel v qs P ws val wk pa sg" and "\<not> val + 1 \<le> 0"
  shows "sem_rel v qs P ws (val + 1) wk pa (sg + 1)"
  by (rule sem_rel_fields [OF r]) (use sem_relD(6-9) [OF r] assms(2) in auto)

lemma sem_rel_signal_none:
  assumes r: "sem_rel v [] P ws val wk pa sg" and "val + 1 \<le> 0"
  shows "sem_rel v [] P ws (val + 1) (wk + 1) pa (sg + 1)"
  by (rule sem_rel_fields [OF r]) (use sem_relD(6-9) [OF r] assms(2) in auto)

lemma sem_rel_signal_first:
  assumes r: "sem_rel v (t # ts) P ws val wk pa sg" and val: "val + 1 \<le> 0" and dis: "distinct (t # ts)"
  shows "sem_rel v ts (P(t := (P t)\<lparr>t_state := TCB_RUNNABLE, t_wait_chan_entry := None\<rparr>)) ws (val + 1) (wk + 1) pa (sg + 1)"
proof -
  note d = sem_relD [OF r]
  have tw: "t \<in> ws" "t < NTHREADS" using d(1,4) by auto
  have e: "ws - set ts = insert t (ws - set (t # ts))" using dis tw by auto
  have c: "int (card (ws - set ts)) = int (card (ws - set (t # ts))) + 1"
    unfolding e by (subst card_insert_disjoint) (use d(10) in auto)
  show ?thesis
  proof (rule sem_relI)
    show "u \<in> set ts \<longleftrightarrow> u < NTHREADS \<and> t_state ((P(t := (P t)\<lparr>t_state := TCB_RUNNABLE, t_wait_chan_entry := None\<rparr>)) u) = TCB_SLEEPING" for u
      using d(1) [of u] dis by (cases "u = t") auto
    show "t_wait_chan_entry ((P(t := (P t)\<lparr>t_state := TCB_RUNNABLE, t_wait_chan_entry := None\<rparr>)) u) \<noteq> None" if "u \<in> set ts" for u
      using d(2) [of u] dis that by auto
    show "t_state ((P(t := (P t)\<lparr>t_state := TCB_RUNNABLE, t_wait_chan_entry := None\<rparr>)) u) = TCB_RUNNABLE" if "u \<in> ws" "u \<notin> set ts" for u
      using d(5) [of u] that by auto
    show "wk + 1 \<le> int (card (ws - set ts))" using d(7) c by simp
  qed (use d(3,4,6,8,9) val in auto)
qed

lemma card_remove: "finite A \<Longrightarrow> t \<in> A \<Longrightarrow> int (card (A - {t})) = int (card A) - 1"
  using card_Suc_Diff1 [of A t] by simp

lemma sem_rel_through:
  assumes r: "sem_rel v qs P ws val wk pa sg" and wk: "wk \<noteq> 0" and t: "t \<in> ws" "t_state (P t) = TCB_RUNNABLE"
  shows "sem_rel v qs (P(t := (P t)\<lparr>t_state := TCB_RUNNING\<rparr>)) (ws - {t}) val (wk - 1) (pa + 1) sg"
proof -
  note d = sem_relD [OF r]
  have n: "t \<notin> set qs" using d(1) [of t] t(2) by auto
  have c: "int (card (ws - {t})) = int (card ws) - 1" by (rule card_remove [OF d(10) t(1)])
  have "ws - {t} - set qs = (ws - set qs) - {t}" by auto
  then have c2: "int (card (ws - {t} - set qs)) = int (card (ws - set qs)) - 1"
    using card_remove [of "ws - set qs" t] t n d(10) by simp
  show ?thesis
  proof (rule sem_relI)
    show "u \<in> set qs \<longleftrightarrow> u < NTHREADS \<and> t_state ((P(t := (P t)\<lparr>t_state := TCB_RUNNING\<rparr>)) u) = TCB_SLEEPING" for u
      using d(1) [of u] t n by (cases "u = t") auto
    show "t_wait_chan_entry ((P(t := (P t)\<lparr>t_state := TCB_RUNNING\<rparr>)) u) \<noteq> None" if "u \<in> set qs" for u
      using d(2) [OF that] n that by auto
    show "t_state ((P(t := (P t)\<lparr>t_state := TCB_RUNNING\<rparr>)) u) = TCB_RUNNABLE" if "u \<in> ws - {t}" "u \<notin> set qs" for u
      using d(5) [of u] that by auto
    show "set qs \<subseteq> ws - {t}" "ws - {t} \<subseteq> {..<NTHREADS}" using d(3,4) n by auto
  qed (use d(6-9) wk c c2 in auto)
qed

lemma sem_rel_again:
  assumes r: "sem_rel v qs P ws val 0 pa sg" and t: "t \<in> ws" "t_state (P t) = TCB_RUNNABLE"
  shows "sem_rel v (qs @ [t]) (P(t := (P t)\<lparr>t_state := TCB_SLEEPING, t_wait_chan_entry := Some q\<rparr>)) ws val 0 pa sg"
proof -
  note d = sem_relD [OF r]
  have tn: "t < NTHREADS" using d(3) t by auto
  show ?thesis
  proof (rule sem_relI)
    show "u \<in> set (qs @ [t]) \<longleftrightarrow> u < NTHREADS \<and> t_state ((P(t := (P t)\<lparr>t_state := TCB_SLEEPING, t_wait_chan_entry := Some q\<rparr>)) u) = TCB_SLEEPING" for u
      using d(1) [of u] tn by (cases "u = t") auto
    show "t_wait_chan_entry ((P(t := (P t)\<lparr>t_state := TCB_SLEEPING, t_wait_chan_entry := Some q\<rparr>)) u) \<noteq> None" if "u \<in> set (qs @ [t])" for u
      using d(2) [of u] that by auto
    show "t_state ((P(t := (P t)\<lparr>t_state := TCB_SLEEPING, t_wait_chan_entry := Some q\<rparr>)) u) = TCB_RUNNABLE" if "u \<in> ws" "u \<notin> set (qs @ [t])" for u
      using d(5) [of u] that by auto
  qed (use d(3,4,8,9) t in auto)
qed

subsection \<open>The invariant of the machine\<close>

definition sema_ok :: "nat \<Rightarrow> int \<Rightarrow> semrun \<Rightarrow> bool" where
  "sema_ok k v s \<longleftrightarrow> held s = [] \<and> (\<exists>Q. sched_ok {CondQ k} s Q \<and>
     sem_rel v (Q (CondQ k)) (tcb_pool s) (waits s) (sem_value s k) (sem_wakeup s k) (passed s) (signalled s))"

lemma sema_okI:
  "held s = [] \<Longrightarrow> sched_ok {CondQ k} s Q \<Longrightarrow>
   sem_rel v (Q (CondQ k)) (tcb_pool s) (waits s) (sem_value s k) (sem_wakeup s k) (passed s) (signalled s) \<Longrightarrow> sema_ok k v s"
  unfolding sema_ok_def by blast

lemma sched_ok_more [simp]:
  "sched_ok W (s\<lparr>sem_value := a\<rparr>) Q = sched_ok W s Q" "sched_ok W (s\<lparr>sem_wakeup := a\<rparr>) Q = sched_ok W s Q"
  "sched_ok W (r\<lparr>waits := b\<rparr>) Q = sched_ok W r Q" "sched_ok W (r\<lparr>passed := c\<rparr>) Q = sched_ok W r Q"
  "sched_ok W (r\<lparr>signalled := c\<rparr>) Q = sched_ok W r Q"
  by (simp_all add: sched_ok_def sched_inv_def queues_of_def queues_def)

lemma semrun_more:
  assumes "tst.more s' = tst.more s"
  shows "sem_value s' = sem_value s" "sem_wakeup s' = sem_wakeup s" "waits s' = waits (s :: semrun)" "passed s' = passed s"
    "signalled s' = signalled s"
  using assms by (cases s, cases s', simp)+

lemma waiting_not_running:
  assumes "sem_rel v qs P ws val wk pa sg" "t_state (P t) \<notin> {TCB_RUNNABLE, TCB_SLEEPING}"
  shows "t \<notin> ws"
  using sem_relD(1,5) [OF assms(1), of t] assms(2) by auto

lemma sema_pass_ok:
  assumes a: "sema_ok k v s" and e: "sema_wait_enter c k s = Some (False, s')"
  shows "sema_ok k v (s'\<lparr>passed := passed s + 1\<rparr>)"
proof -
  obtain Q where h: "held s = []" and o: "sched_ok {CondQ k} s Q" and r: "sem_rel v (Q (CondQ k)) (tcb_pool s) (waits s)
      (sem_value s k) (sem_wakeup s k) (passed s) (signalled s)" using a by (auto simp: sema_ok_def)
  have s': "s' = s\<lparr>held := [], sem_value := (sem_value s)(k := sem_value s k - 1)\<rparr>" and v: "0 \<le> sem_value s k - 1"
    using e h by (auto simp: sema_wait_enter_def acquire_def release_def Let_def split: if_splits elim!: bind_SomeE)
  have "sched_ok {CondQ k} (s\<lparr>held := []\<rparr>) Q" by (rule sched_ok_held [OF o]) simp
  then show ?thesis using sem_rel_pass [OF r v] unfolding s' by (intro sema_okI) simp_all
qed

lemma sema_block_ok:
  assumes a: "sema_ok k v s" and c: "cputhread s c = Some t" and e: "sema_wait_enter c k s = Some (True, s1)"
    and u: "scheduler_return c t s1 = Some s2"
  shows "sema_ok k v (s2\<lparr>waits := insert t (waits s)\<rparr>)"
proof -
  obtain Q where h: "held s = []" and o: "sched_ok {CondQ k} s Q" and r: "sem_rel v (Q (CondQ k)) (tcb_pool s) (waits s)
      (sem_value s k) (sem_wakeup s k) (passed s) (signalled s)" using a by (auto simp: sema_ok_def)
  let ?a = "s\<lparr>held := [L_sem k], sem_value := (sem_value s)(k := sem_value s k - 1)\<rparr>"
  have w: "cond_wait_enter c k (L_sem k) ?a = Some s1" and v: "sem_value s k - 1 < 0"
    using e h by (auto simp: sema_wait_enter_def acquire_def release_def Let_def split: if_splits elim!: bind_SomeE)
  have t: "t_state (tcb_pool s t) = TCB_RUNNING" "t < NTHREADS" using sched_okD(2,3) [OF o c] by auto
  have "sched_ok {CondQ k} (s\<lparr>held := [L_sem k]\<rparr>) Q" by (rule sched_ok_held [OF o]) auto
  then have oa: "sched_ok {CondQ k} ?a Q" by simp
  have nq: "t \<notin> set (Q q)" if "q \<in> {CondQ k}" for q using that sem_relD(1) [OF r, of t] t(1) by auto
  have s2: "held s2 = []" "sched_ok {CondQ k} s2 ((requeue t TCB_RUNNING TCB_SLEEPING Q)(CondQ k := Q (CondQ k) @ [t]))"
      "tst.more s2 = tst.more ?a" "tcb_pool s2 = (tcb_pool s)(t := (tcb_pool s t)\<lparr>t_state := TCB_SLEEPING, t_wait_chan_entry := Some (CondQ k)\<rparr>)"
    using cond_wait_enter_ok [OF oa _ _ _ _ _ nq, of c "L_sem k" k] c w u by auto
  show ?thesis
    by (rule sema_okI [where Q = "(requeue t TCB_RUNNING TCB_SLEEPING Q)(CondQ k := Q (CondQ k) @ [t])"])
      (use s2 semrun_more [OF s2(3)] sem_rel_block [OF r v t(2,1), of "CondQ k"] in simp_all)
qed

lemma sema_signal_ok:
  assumes a: "sema_ok k v s"
  shows "\<exists>s'. sema_signal k s = Some s' \<and> sema_ok k v (s'\<lparr>signalled := signalled s + 1\<rparr>)"
proof -
  obtain Q where h: "held s = []" and o: "sched_ok {CondQ k} s Q" and r: "sem_rel v (Q (CondQ k)) (tcb_pool s) (waits s)
      (sem_value s k) (sem_wakeup s k) (passed s) (signalled s)" using a by (auto simp: sema_ok_def)
  let ?a = "s\<lparr>held := [L_sem k], sem_value := (sem_value s)(k := sem_value s k + 1)\<rparr>"
  let ?b = "?a\<lparr>sem_wakeup := (sem_wakeup s)(k := sem_wakeup s k + 1)\<rparr>"
  have "sched_ok {CondQ k} (s\<lparr>held := [L_sem k]\<rparr>) Q" by (rule sched_ok_held [OF o]) auto
  then have ob: "sched_ok {CondQ k} ?b Q" by simp
  then have oa: "sched_ok {CondQ k} ?a Q" by simp
  have o0: "sched_ok {CondQ k} (?a\<lparr>held := []\<rparr>) Q" "sched_ok {CondQ k} (?b\<lparr>held := []\<rparr>) Q"
    by (rule sched_ok_held [OF oa], simp) (rule sched_ok_held [OF ob], simp)
  have empty: "queue_isempty_atomic (CondQ k) ?b = Some (Q (CondQ k) = [], ?b)"
    by (rule wait_isempty [OF sched_okD(1) [OF ob]]) simp
  consider (free) "\<not> sem_value s k + 1 \<le> 0" | (none) "sem_value s k + 1 \<le> 0" "Q (CondQ k) = []"
    | (first) t ts where "sem_value s k + 1 \<le> 0" "Q (CondQ k) = t # ts" by (cases "Q (CondQ k)") auto
  then show ?thesis
  proof cases
    case free
    let ?s = "?a\<lparr>held := []\<rparr>"
    have "sema_signal k s = Some ?s" using free h by (simp add: sema_signal_def acquire_def release_def)
    moreover have "sema_ok k v (?s\<lparr>signalled := signalled s + 1\<rparr>)"
      by (rule sema_okI [where Q = Q]) (use o0 sem_rel_signal_free [OF r free] in simp_all)
    ultimately show ?thesis by blast
  next
    case none
    let ?s = "?b\<lparr>held := []\<rparr>"
    have "sema_signal k s = Some ?s" using none h empty by (simp add: sema_signal_def acquire_def release_def cond_signal_def)
    moreover have "sema_ok k v (?s\<lparr>signalled := signalled s + 1\<rparr>)"
      by (rule sema_okI [where Q = Q]) (use o0 r none sem_rel_signal_none [of v "tcb_pool s"] in simp_all)
    ultimately show ?thesis by blast
  next
    case first
    have t: "t < NTHREADS" "t_state (tcb_pool s t) = TCB_SLEEPING" "t_wait_chan_entry (tcb_pool s t) \<noteq> None"
      using sem_relD(1,2) [OF r, of t] first(2) by auto
    obtain s1 where s1: "cond_wake_first k ?b = Some s1" "tframe ?b s1"
        "sched_ok {CondQ k} s1 ((requeue t TCB_SLEEPING TCB_RUNNABLE Q)(CondQ k := ts))"
        "tcb_pool s1 = (tcb_pool s)(t := (tcb_pool s t)\<lparr>t_state := TCB_RUNNABLE, t_wait_chan_entry := None\<rparr>)"
      using cond_wake_first_ok [OF ob _ first(2) t(1)] t by auto
    have f: "held s1 = [L_sem k]" "tst.more s1 = tst.more ?b" using s1(2) by (simp_all add: tframe_def)
    have "sema_signal k s = Some (s1\<lparr>held := []\<rparr>)"
      using first h empty s1(1) f by (simp add: sema_signal_def acquire_def release_def cond_signal_def)
    moreover have "sched_ok {CondQ k} (s1\<lparr>held := []\<rparr>) ((requeue t TCB_SLEEPING TCB_RUNNABLE Q)(CondQ k := ts))"
      by (rule sched_ok_held [OF s1(3)]) simp
    moreover have "distinct (t # ts)"
      using sched_invD(1) [OF sched_okD(1) [OF o]] queuesD(3) [of s _ Q "CondQ k"] first(2) by (auto simp: queues_of_def)
    ultimately show ?thesis
      using sem_rel_signal_first [of v t ts "tcb_pool s"] r first semrun_more [OF f(2)] s1(4)
      by (intro exI [of _ "s1\<lparr>held := []\<rparr>"] conjI sema_okI [where Q = "(requeue t TCB_SLEEPING TCB_RUNNABLE Q)(CondQ k := ts)"]) simp_all
  qed
qed

lemma pick_result:
  assumes o: "sched_ok W s Q" and h: "held s = []" and c: "cputhread s c = None" and p: "scheduler_pick c s = Some (Some t, s1)"
  shows "\<exists>ts. Q (TQ TCB_RUNNABLE) = t # ts \<and> sched_ok W s1 (Q(TQ TCB_RUNNABLE := ts))" "held s1 = [L_tcb t]"
    "cputhread s1 = (cputhread s)(c := Some t)" "tst.more s1 = tst.more s" "t < NTHREADS" "t_state (tcb_pool s t) = TCB_RUNNABLE"
    "tcb_pool s1 = (tcb_pool s)(t := (tcb_pool s t)\<lparr>t_state := TCB_RUNNING\<rparr>)"
proof -
  have "Q (TQ TCB_RUNNABLE) \<noteq> []"
    using pop_empty [OF sched_okD(1) [OF o], of TCB_RUNNABLE] p by (auto simp: scheduler_pick_def)
  then obtain u us where u: "Q (TQ TCB_RUNNABLE) = u # us" by (meson neq_Nil_conv)
  note r = scheduler_pick_ok [OF o c h u]
  then have ut: "u = t" using p by auto
  show "\<exists>ts. Q (TQ TCB_RUNNABLE) = t # ts \<and> sched_ok W s1 (Q(TQ TCB_RUNNABLE := ts))" "held s1 = [L_tcb t]"
    "cputhread s1 = (cputhread s)(c := Some t)" "tst.more s1 = tst.more s"
    "tcb_pool s1 = (tcb_pool s)(t := (tcb_pool s t)\<lparr>t_state := TCB_RUNNING\<rparr>)"
    using r p u ut by auto
  show "t < NTHREADS" "t_state (tcb_pool s t) = TCB_RUNNABLE"
    using sched_invD(5) [OF sched_okD(1) [OF o], of t TCB_RUNNABLE] u ut by auto
qed

lemma sema_through_ok:
  assumes a: "sema_ok k v s" and c: "cputhread s c = None" and p: "scheduler_pick c s = Some (Some t, s1)" and t: "t \<in> waits s"
    and e: "sema_wait_resume c t k s1 = Some (Sem_Passed, s2)"
  shows "sema_ok k v (s2\<lparr>waits := waits s - {t}, passed := passed s + 1\<rparr>)"
proof -
  obtain Q where h: "held s = []" and o: "sched_ok {CondQ k} s Q" and r: "sem_rel v (Q (CondQ k)) (tcb_pool s) (waits s)
      (sem_value s k) (sem_wakeup s k) (passed s) (signalled s)" using a by (auto simp: sema_ok_def)
  note q = pick_result [OF o h c p]
  obtain ts where ts: "sched_ok {CondQ k} s1 (Q(TQ TCB_RUNNABLE := ts))" using q(1) by blast
  note m = semrun_more [OF q(4)]
  have s2: "s2 = s1\<lparr>held := [], sem_wakeup := (sem_wakeup s)(k := sem_wakeup s k - 1)\<rparr>" and w: "sem_wakeup s k \<noteq> 0"
    using e q(2) m by (auto simp: sema_wait_resume_def cond_wait_exit_def acquire_def release_def Let_def split: if_splits elim!: bind_SomeE)
  have "sched_ok {CondQ k} (s1\<lparr>held := []\<rparr>) (Q(TQ TCB_RUNNABLE := ts))" by (rule sched_ok_held [OF ts]) simp
  then show ?thesis
    using sem_rel_through [OF r w t q(6)] q(7) m unfolding s2 by (intro sema_okI [where Q = "Q(TQ TCB_RUNNABLE := ts)"]) simp_all
qed

lemma sema_again_ok:
  assumes a: "sema_ok k v s" and c: "cputhread s c = None" and p: "scheduler_pick c s = Some (Some t, s1)" and t: "t \<in> waits s"
    and e: "sema_wait_resume c t k s1 = Some (Sem_Again, s2)" and u: "scheduler_return c t s2 = Some s3"
  shows "sema_ok k v s3"
proof -
  obtain Q where h: "held s = []" and o: "sched_ok {CondQ k} s Q" and r: "sem_rel v (Q (CondQ k)) (tcb_pool s) (waits s)
      (sem_value s k) (sem_wakeup s k) (passed s) (signalled s)" using a by (auto simp: sema_ok_def)
  note q = pick_result [OF o h c p]
  obtain ts where ts: "sched_ok {CondQ k} s1 (Q(TQ TCB_RUNNABLE := ts))" using q(1) by blast
  note m = semrun_more [OF q(4)]
  let ?a = "s1\<lparr>held := [L_sem k]\<rparr>"
  define R where "R = Q(TQ TCB_RUNNABLE := ts)"
  have Rk: "R (CondQ k) = Q (CondQ k)" by (simp add: R_def)
  have e1: "cond_wait_enter c k (L_sem k) ?a = Some s2" and w: "sem_wakeup s k = 0"
    using e q(2) m by (auto simp: sema_wait_resume_def cond_wait_exit_def acquire_def release_def Let_def split: if_splits elim!: bind_SomeE)
  have oa: "sched_ok {CondQ k} ?a R" unfolding R_def by (rule sched_ok_held [OF ts]) auto
  have nq: "t \<notin> set (R q)" if "q \<in> {CondQ k}" for q using that sem_relD(1) [OF r, of t] q(6) by (auto simp: Rk)
  have s3: "held s3 = []" "sched_ok {CondQ k} s3 ((requeue t TCB_RUNNING TCB_SLEEPING R)(CondQ k := Q (CondQ k) @ [t]))"
      "tst.more s3 = tst.more s" "tcb_pool s3 = (tcb_pool s)(t := (tcb_pool s t)\<lparr>t_state := TCB_SLEEPING, t_wait_chan_entry := Some (CondQ k)\<rparr>)"
    using cond_wait_enter_ok [OF oa _ _ _ _ _ nq, of c "L_sem k" k] e1 u q(3,4,7) by (auto simp: Rk)
  have "sem_rel v (Q (CondQ k)) (tcb_pool s) (waits s) (sem_value s k) 0 (passed s) (signalled s)" using r w by simp
  note r' = sem_rel_again [OF this t q(6), of "CondQ k"]
  show ?thesis
    by (rule sema_okI [where Q = "(requeue t TCB_RUNNING TCB_SLEEPING R)(CondQ k := Q (CondQ k) @ [t])"])
      (use s3 semrun_more [OF s3(3)] r' w in simp_all)
qed

text \<open>Steps of threads that are not inside \<^verbatim>\<open>sema_wait\<close>.\<close>

lemma sema_ok_other:
  assumes r: "sem_rel v qs (tcb_pool s) (waits s) (sem_value s k) (sem_wakeup s k) (passed s) (signalled s)"
    and s': "held s' = []" "sched_ok {CondQ k} s' Q'" "Q' (CondQ k) = qs" "tst.more s' = tst.more s"
    and t: "t \<notin> waits s" "t_state (tcb_pool s' t) \<noteq> TCB_SLEEPING" "\<And>u. u \<noteq> t \<Longrightarrow> tcb_pool s' u = tcb_pool s u"
  shows "sema_ok k v s'"
  by (rule sema_okI [OF s'(1,2)]) (use sem_rel_other [OF r t] s'(3) semrun_more [OF s'(4)] in simp)

lemma sema_run_ok:
  assumes a: "sema_ok k v s" and c: "cputhread s c = None" and p: "scheduler_pick c s = Some (Some t, s1)" and t: "t \<notin> waits s"
    and e: "thread_yield_exit t s1 = Some s'"
  shows "sema_ok k v s'"
proof -
  obtain Q where h: "held s = []" and o: "sched_ok {CondQ k} s Q" and r: "sem_rel v (Q (CondQ k)) (tcb_pool s) (waits s)
      (sem_value s k) (sem_wakeup s k) (passed s) (signalled s)" using a by (auto simp: sema_ok_def)
  note q = pick_result [OF o h c p]
  obtain ts where ts: "sched_ok {CondQ k} s1 (Q(TQ TCB_RUNNABLE := ts))" using q(1) by blast
  have s': "s' = s1\<lparr>held := []\<rparr>" using e q(2) by (simp add: thread_yield_exit_def release_def)
  have "sched_ok {CondQ k} s' (Q(TQ TCB_RUNNABLE := ts))" unfolding s' by (rule sched_ok_held [OF ts]) simp
  then show ?thesis by (rule sema_ok_other [OF r, rotated, where t = t]) (use s' q(4,7) t in auto)
qed

lemma sema_yield_ok:
  assumes a: "sema_ok k v s" and c: "cputhread s c = Some t" and e: "thread_yield_enter c s = Some s1" "scheduler_return c t s1 = Some s'"
  shows "sema_ok k v s'"
proof -
  obtain Q where h: "held s = []" and o: "sched_ok {CondQ k} s Q" and r: "sem_rel v (Q (CondQ k)) (tcb_pool s) (waits s)
      (sem_value s k) (sem_wakeup s k) (passed s) (signalled s)" using a by (auto simp: sema_ok_def)
  have s': "held s' = []" "sched_ok {CondQ k} s' (requeue t TCB_RUNNING TCB_RUNNABLE Q)" "tst.more s' = tst.more s"
      "tcb_pool s' = (tcb_pool s)(t := (tcb_pool s t)\<lparr>t_state := TCB_RUNNABLE\<rparr>)"
    using yield_ok [OF o c h] e by auto
  have "t \<notin> waits s" using waiting_not_running [OF r, of t] sched_okD(2) [OF o c] by auto
  then show ?thesis by (intro sema_ok_other [OF r s'(1,2) _ s'(3), where t = t]) (use s'(4) in auto)
qed

lemma sema_create_ok:
  assumes a: "sema_ok k v s" and e: "alloc_thread callback s = Some (Some t, s1)" "tcb_q_change_state t TCB_RUNNABLE s1 = Some s2"
    "release (L_tcb t) s2 = Some s'"
  shows "sema_ok k v s'"
proof -
  obtain Q where h: "held s = []" and o: "sched_ok {CondQ k} s Q" and r: "sem_rel v (Q (CondQ k)) (tcb_pool s) (waits s)
      (sem_value s k) (sem_wakeup s k) (passed s) (signalled s)" using a by (auto simp: sema_ok_def)
  have "Q (TQ TCB_UNUSED) \<noteq> []"
    using pop_empty [OF sched_okD(1) [OF o], of TCB_UNUSED] e(1) by (auto simp: alloc_thread_def)
  then obtain u us where u: "Q (TQ TCB_UNUSED) = u # us" by (meson neq_Nil_conv)
  obtain Q1 where s1: "u = t" "held s1 = [L_tcb t]" "sched_ok {CondQ k} s1 Q1" "Q1 (CondQ k) = Q (CondQ k)" "tst.more s1 = tst.more s"
      "t_state (tcb_pool s1 t) = TCB_USED" "\<forall>u. u \<noteq> t \<longrightarrow> tcb_pool s1 u = tcb_pool s u" "cputhread s1 = cputhread s"
    using alloc_thread_ok [OF o h u, of callback] e(1) by auto
  have t: "t < NTHREADS" "t_state (tcb_pool s t) = TCB_UNUSED"
    using sched_invD(5) [OF sched_okD(1) [OF o], of t TCB_UNUSED] u s1(1) by auto
  have nr: "t \<notin> ran (cputhread s1)" using sched_okD(5) [OF s1(3) t(1)] s1(6) by auto
  have s2: "tframe s1 s2" "sched_inv {CondQ k} s2 (requeue t TCB_USED TCB_RUNNABLE Q1) (ran (cputhread s1))"
      "tcb_pool s2 = (tcb_pool s1)(t := (tcb_pool s1 t)\<lparr>t_state := TCB_RUNNABLE\<rparr>)"
    using change_state_ok [OF sched_okD(1) [OF s1(3)] t(1), of TCB_RUNNABLE] e(2) s1(6) nr by auto
  have f: "held s2 = [L_tcb t]" "tst.more s2 = tst.more s" "cputhread s2 = cputhread s1" using s2(1) s1(2,5) by (simp_all add: tframe_def)
  have "sched_ok {CondQ k} s2 (requeue t TCB_USED TCB_RUNNABLE Q1)"
    using s1(3) s2(2) nr unfolding sched_ok_def f(3) s2(3) by auto
  then have "sched_ok {CondQ k} (s2\<lparr>held := []\<rparr>) (requeue t TCB_USED TCB_RUNNABLE Q1)" by (rule sched_ok_held) simp
  moreover have "s' = s2\<lparr>held := []\<rparr>" using e(3) f(1) by (simp add: release_def)
  moreover have "t \<notin> waits s" using waiting_not_running [OF r, of t] t(2) by auto
  ultimately show ?thesis
    by (intro sema_ok_other [OF r, where t = t and Q' = "requeue t TCB_USED TCB_RUNNABLE Q1"]) (use s1(4,7) f(2) s2(3) in auto)
qed

lemma sema_step_ok: "sema_step k s s' \<Longrightarrow> sema_ok k v s \<Longrightarrow> sema_ok k v s'"
proof (induction rule: sema_step.induct)
  case (sm_signal s s')
  then show ?case using sema_signal_ok [of k v s] by auto
qed (blast intro: sema_pass_ok sema_block_ok sema_through_ok sema_again_ok sema_run_ok sema_yield_ok sema_create_ok)+

lemma sema_boot_ok:
  assumes "held s0 = []" "cputhread s0 = Map.empty" "tcb_init s0 = Some s" "0 \<le> v"
  shows "sema_ok k v ((sema_init k v s)\<lparr>waits := {}, passed := 0, signalled := 0\<rparr>)"
proof -
  let ?Q = "(\<lambda>_. [])(TQ TCB_UNUSED := [0..<NTHREADS])"
  have s: "held s = []" "cputhread s = Map.empty" "sched_ok {} s ?Q"
    using tcb_init_ok [OF assms(1,2)] assms(3) by auto
  note i = sched_invD [OF sched_okD(1) [OF s(3)]]
  have "queues s tqueues ?Q" using i(1) by (simp add: queues_of_def)
  then have q: "queues (queue_init (CondQ k) TCB_WAIT_QUEUE s) (insert (CondQ k) tqueues) ?Q"
    by (rule queue_init_queues) (auto simp: tqueues_def)
  let ?a = "queue_init (CondQ k) TCB_WAIT_QUEUE (s\<lparr>sem_value := (sem_value s)(k := v), sem_wakeup := (sem_wakeup s)(k := 0)\<rparr>)"
  have "?a = (queue_init (CondQ k) TCB_WAIT_QUEUE s)\<lparr>sem_value := (sem_value s)(k := v), sem_wakeup := (sem_wakeup s)(k := 0)\<rparr>"
    by (simp add: queue_init_def)
  moreover have "sched_ok {CondQ k} (queue_init (CondQ k) TCB_WAIT_QUEUE s) ?Q"
    using q i(1,5) s(1,2) by (auto simp: sched_ok_def sched_inv_def queues_of_def tqueues_def)
  ultimately have o: "sched_ok {CondQ k} (sema_init k v s) ?Q" by (simp add: sema_init_def cond_init_def)
  have st: "t < NTHREADS \<Longrightarrow> t_state (tcb_pool s t) = TCB_UNUSED" for t using i(5) [of t TCB_UNUSED] by auto
  have "sem_rel v [] (tcb_pool s) {} v 0 0 0" by (rule sem_relI) (use st assms(4) in auto)
  then show ?thesis
    using o s(1) by (intro sema_okI [where Q = ?Q]) (simp_all add: sema_init_def cond_init_def queue_init_def)
qed

lemma sema_reachable_ok: "sema_reachable k v s \<Longrightarrow> sema_ok k v s"
  by (induction rule: sema_reachable.induct) (blast intro: sema_boot_ok sema_step_ok)+

lemma sema_wait_enter_ok:
  assumes a: "sema_ok k v s" and c: "cputhread s c = Some t"
  shows "if sem_value s k - 1 < 0 then \<exists>s1 s2. sema_wait_enter c k s = Some (True, s1) \<and> scheduler_return c t s1 = Some s2 \<and>
      t_state (tcb_pool s2 t) = TCB_SLEEPING
    else \<exists>s1. sema_wait_enter c k s = Some (False, s1)"
proof -
  obtain Q where h: "held s = []" and o: "sched_ok {CondQ k} s Q" and r: "sem_rel v (Q (CondQ k)) (tcb_pool s) (waits s)
      (sem_value s k) (sem_wakeup s k) (passed s) (signalled s)" using a by (auto simp: sema_ok_def)
  let ?a = "s\<lparr>held := [L_sem k], sem_value := (sem_value s)(k := sem_value s k - 1)\<rparr>"
  have "sched_ok {CondQ k} (s\<lparr>held := [L_sem k]\<rparr>) Q" by (rule sched_ok_held [OF o]) auto
  then have oa: "sched_ok {CondQ k} ?a Q" by simp
  have nq: "t \<notin> set (Q q)" if "q \<in> {CondQ k}" for q using that sem_relD(1) [OF r, of t] sched_okD(2) [OF o c] by auto
  show ?thesis
    using cond_wait_enter_ok [OF oa _ _ _ _ _ nq, of c "L_sem k" k] c h
    by (auto simp: sema_wait_enter_def acquire_def release_def)
qed

subsection \<open>Properties\<close>

text \<open>A run: the semaphore starts at 0, one thread is created, runs and waits.\<close>

definition sem_boot :: semrun where
  "sem_boot = \<lparr>held = [], mem = (\<lambda>_. 0), freelist = 0, g_freecnt = 0, links = (\<lambda>_. \<lparr>lnext = None, lprev = None\<rparr>),
     qtype = (\<lambda>_. INODE_FREE_QUEUE), qcnt = (\<lambda>_. 0), tcb_pool = tcb_pool boot_state, cputhread = Map.empty, next_tid = 1, ticks = 0,
     sem_value = (\<lambda>_. 0), sem_wakeup = (\<lambda>_. 0), waits = {}, passed = 0, signalled = 0\<rparr>"

lemma sema_run:
  assumes r: "sema_reachable k v s" and c: "cputhread s = Map.empty" and w: "waits s = {}"
    and u: "u < NTHREADS" "t_state (tcb_pool s u) = TCB_UNUSED"
  shows "\<exists>t s'. sema_reachable k v s' \<and> cputhread s' 0 = Some t \<and> tst.more s' = tst.more s"
proof -
  obtain Q where h: "held s = []" and o: "sched_ok {CondQ k} s Q" using sema_reachable_ok [OF r] by (auto simp: sema_ok_def)
  have "u \<in> set (Q (TQ TCB_UNUSED))" using sched_invD(5) [OF sched_okD(1) [OF o], of u TCB_UNUSED] u c by simp
  then obtain t ts where t: "Q (TQ TCB_UNUSED) = t # ts" by (cases "Q (TQ TCB_UNUSED)") auto
  obtain s1 Q1 where s1: "alloc_thread 0 s = Some (Some t, s1)" "held s1 = [L_tcb t]" "sched_ok {CondQ k} s1 Q1" "cputhread s1 = Map.empty"
      "tst.more s1 = tst.more s" using alloc_thread_ok [OF o h t, of 0] c by auto
  have tn: "t < NTHREADS" using sched_invD(5) [OF sched_okD(1) [OF o], of t TCB_UNUSED] t by auto
  obtain s2 where s2: "tcb_q_change_state t TCB_RUNNABLE s1 = Some s2" "tframe s1 s2"
      "tcb_pool s2 = (tcb_pool s1)(t := (tcb_pool s1 t)\<lparr>t_state := TCB_RUNNABLE\<rparr>)"
    using change_state_ok [OF sched_okD(1) [OF s1(3)] tn, of TCB_RUNNABLE] by auto
  have f: "held s2 = [L_tcb t]" "cputhread s2 = Map.empty" "tst.more s2 = tst.more s" using s2(2) s1 by (simp_all add: tframe_def)
  let ?a = "s2\<lparr>held := []\<rparr>"
  have "sema_step k s ?a" by (rule sm_create [OF s1(1) s2(1)]) (simp add: release_def f)
  then have ra: "sema_reachable k v ?a" using r by (rule sema_next [rotated])
  obtain Q2 where o2: "sched_ok {CondQ k} ?a Q2" using sema_reachable_ok [OF ra] by (auto simp: sema_ok_def)
  have "t \<in> set (Q2 (TQ TCB_RUNNABLE))"
    using sched_invD(5) [OF sched_okD(1) [OF o2], of t TCB_RUNNABLE] tn s2(3) f(2) by simp
  then obtain p ps where p: "Q2 (TQ TCB_RUNNABLE) = p # ps" by (cases "Q2 (TQ TCB_RUNNABLE)") auto
  obtain s3 where s3: "scheduler_pick 0 ?a = Some (Some p, s3)" "held s3 = [L_tcb p]" "cputhread s3 = (cputhread ?a)(0 := Some p)"
      "tst.more s3 = tst.more ?a" using scheduler_pick_ok [OF o2, of 0, OF _ _ p] f(2) by auto
  let ?b = "s3\<lparr>held := []\<rparr>"
  have wa: "waits ?a = {}" using semrun_more(3) [of ?a s] f(3) w by simp
  have "sema_step k ?a ?b" by (rule sm_run [OF _ s3(1)]) (use f(2) wa s3(2) in \<open>simp_all add: thread_yield_exit_def release_def\<close>)
  then have "sema_reachable k v ?b" using ra by (rule sema_next [rotated])
  then show ?thesis using s3(3,4) f(3) by (intro exI [of _ p] exI [of _ ?b]) simp
qed

lemma sema_sleeper: "\<exists>s t. sema_reachable 0 0 s \<and> t \<in> waits s \<and> t_state (tcb_pool s t) = TCB_SLEEPING"
proof -
  obtain s0 where s0: "tcb_init sem_boot = Some s0" "cputhread s0 = Map.empty" "sched_ok {} s0 ((\<lambda>_. [])(TQ TCB_UNUSED := [0..<NTHREADS]))"
    using tcb_init_ok [of sem_boot] by (auto simp: sem_boot_def)
  let ?a = "(sema_init 0 0 s0)\<lparr>waits := {}, passed := 0, signalled := 0\<rparr>"
  have ra: "sema_reachable 0 0 ?a" by (rule sema_boot [OF _ _ s0(1)]) (simp_all add: sem_boot_def)
  have "0 < NTHREADS" by (simp add: NTHREADS_def)
  moreover from this have "t_state (tcb_pool ?a 0) = TCB_UNUSED"
    using sched_invD(5) [OF sched_okD(1) [OF s0(3)], of 0 TCB_UNUSED] by (simp add: sema_init_def cond_init_def)
  ultimately obtain t b where b: "sema_reachable 0 0 b" "cputhread b 0 = Some t" "tst.more b = tst.more ?a"
    using sema_run [OF ra, of 0] s0(2) by (auto simp: sema_init_def cond_init_def)
  have "sem_value b 0 = 0" using semrun_more(1) [OF b(3)] by (simp add: sema_init_def cond_init_def queue_init_def)
  then obtain s1 s2 where e: "sema_wait_enter 0 0 b = Some (True, s1)" "scheduler_return 0 t s1 = Some s2"
      "t_state (tcb_pool s2 t) = TCB_SLEEPING"
    using sema_wait_enter_ok [OF sema_reachable_ok [OF b(1)] b(2)] by auto
  let ?s = "s2\<lparr>waits := insert t (waits b)\<rparr>"
  have "sema_reachable 0 0 ?s" by (rule sema_next [OF b(1)]) (rule sm_block [OF b(2) e(1,2)])
  then show ?thesis using e(3) by (intro exI [of _ ?s] exI [of _ t]) simp
qed



end
