(* ===== verification/XV_Futex.thy ===== *)
theory XV_Futex
  imports XV_Thread
begin

section \<open>Futexes\<close>

text \<open>
  \<^verbatim>\<open>kernel/ipc/futex.c\<close> and the hash table of \<^verbatim>\<open>include/hash.h\<close> it uses.  A futex and its
  node in the hash table are pages of their own, known by their addresses: the node at \<open>a\<close> has
  the members \<open>fhn_uaddr s a\<close> and \<open>fhn_fp s a\<close> and the cell \<open>LHashNode a\<close>, the futex at \<open>p\<close> the
  queue \<open>FutexQ p\<close>.  Bucket \<open>i\<close> of the table has the head \<open>LHash i\<close>.  Giving a page back to the
  allocator fills it with junk, so the cells in it hold no pointers afterwards
  (\<open>futex_kfree\<close>).  \<^verbatim>\<open>futex_wait\<close> is split where it gives up the CPU.
\<close>

record futst = tst +
  hash_head :: u64
  fhn_uaddr :: "u64 \<Rightarrow> u64"
  fhn_fp :: "u64 \<Rightarrow> u64"

definition FUTEX_NUM :: nat where "FUTEX_NUM = 32"

text \<open>The sizes of \<^verbatim>\<open>struct futex\<close>, \<^verbatim>\<open>struct futex_hash_node\<close> and \<^verbatim>\<open>struct hash_entry\<close>.\<close>

definition sizeof_futex :: u32 where "sizeof_futex = 104"
definition sizeof_futex_hash_node :: u32 where "sizeof_futex_hash_node = 32"
definition sizeof_hash_entry :: u32 where "sizeof_hash_entry = 16"

subsection \<open>The hash table\<close>

fun init_entries :: "nat \<Rightarrow> laddr lstore \<Rightarrow> laddr lstore" where
  "init_entries 0 st = st"
| "init_entries (Suc i) st = INIT_LIST_HEAD (LHash i) (init_entries i st)"

definition hash_table_entry_init :: "'z futst_scheme \<Rightarrow> 'z futst_scheme option" where
  "hash_table_entry_init s = do {
     (p, s) \<leftarrow> kmalloc (sizeof_hash_entry * of_nat FUTEX_NUM) s;
     let s = s\<lparr>hash_head := p\<rparr>;
     ensure (p \<noteq> 0);
     Some (s\<lparr>links := init_entries FUTEX_NUM (links s)\<rparr>)
   }"

definition futex_hash_init :: "'z futst_scheme \<Rightarrow> 'z futst_scheme option" where
  "futex_hash_init s = hash_table_entry_init s"

definition futex_hash_key :: "u64 \<Rightarrow> u64" where
  "futex_hash_key key = key"

definition hash_get_entry :: "u64 \<Rightarrow> laddr" where
  "hash_get_entry key = LHash (unat (futex_hash_key key mod of_nat FUTEX_NUM))"

text \<open>\<^verbatim>\<open>return pos->fp\<close> leaves the loop; a loop that runs to its end gives \<^verbatim>\<open>NULL\<close>.\<close>

definition futex_hash_lookup :: "u64 \<Rightarrow> 'z futst_scheme \<Rightarrow> u64 option" where
  "futex_hash_lookup uaddr s = do {
     (_, fp) \<leftarrow> list_for_each_entry_safe (\<lambda>_. links s) (hash_get_entry uaddr)
       (\<lambda>pos r. case pos of
          LHashNode a \<Rightarrow> if fhn_uaddr s a = uaddr then Some (False, fhn_fp s a) else Some (True, r)
        | _ \<Rightarrow> None) 0;
     Some fp
   }"

definition futex_hash_insert :: "u64 \<Rightarrow> 'z futst_scheme \<Rightarrow> (int \<times> 'z futst_scheme) option" where
  "futex_hash_insert fhn s = do {
     let uaddr = fhn_uaddr s fhn;
     fp_old \<leftarrow> futex_hash_lookup uaddr s;
     if fp_old \<noteq> 0 then Some (- 1, s)
     else do {
       let s = s\<lparr>links := INIT_LIST_HEAD (LHashNode fhn) (links s)\<rparr>;
       s \<leftarrow> on_links (list_add_tail (LHashNode fhn) (hash_get_entry uaddr)) s;
       Some (0, s)
     }
   }"

text \<open>
  \<^verbatim>\<open>__futex_hash_delete\<close> takes the futex that the lookup returns for its hash node.  What it reads
  as \<^verbatim>\<open>fhn->fp\<close> is the second member of the futex, the name of its lock: a string constant of
  the kernel image, below \<open>end\<close>, for which \<^verbatim>\<open>kfree\<close> panics.
\<close>

definition futex_hash_delete :: "u64 \<Rightarrow> 'z futst_scheme \<Rightarrow> 'z futst_scheme option" where
  "futex_hash_delete uaddr s = do {
     fhn \<leftarrow> futex_hash_lookup uaddr s;
     if fhn = 0 then Some s else None
   }"

definition futex_free :: "u64 \<Rightarrow> 'z futst_scheme \<Rightarrow> 'z futst_scheme option" where
  "futex_free uaddr s = do {
     s \<leftarrow> acquire L_futex s;
     s \<leftarrow> futex_hash_delete uaddr s;
     release L_futex s
   }"

subsection \<open>Futexes\<close>

definition futex_init :: "u64 \<Rightarrow> 'z futst_scheme \<Rightarrow> 'z futst_scheme" where
  "futex_init fp s = queue_init (FutexQ fp) TCB_WAIT_QUEUE s"

definition futex_kfree :: "u64 \<Rightarrow> u64 \<Rightarrow> 'z futst_scheme \<Rightarrow> 'z futst_scheme option" where
  "futex_kfree kend p s = do {
     s \<leftarrow> kfree kend p s;
     Some (s\<lparr>links := (links s)(LQueue (FutexQ p) := \<lparr>lnext = None, lprev = None\<rparr>,
                              LHashNode p := \<lparr>lnext = None, lprev = None\<rparr>)\<rparr>)
   }"

text \<open>The code after the label \<^verbatim>\<open>bad\<close>.\<close>

definition get_futex_bad :: "u64 \<Rightarrow> u64 \<Rightarrow> u64 \<Rightarrow> 'z futst_scheme \<Rightarrow> (u64 \<times> 'z futst_scheme) option" where
  "get_futex_bad kend fp fhn s = do {
     s \<leftarrow> release L_futex s;
     s \<leftarrow> (if fp \<noteq> 0 then futex_kfree kend fp s else Some s);
     s \<leftarrow> (if fhn \<noteq> 0 then futex_kfree kend fhn s else Some s);
     Some (0, s)
   }"

definition get_futex :: "u64 \<Rightarrow> u64 \<Rightarrow> bool \<Rightarrow> 'z futst_scheme \<Rightarrow> (u64 \<times> 'z futst_scheme) option" where
  "get_futex kend uaddr assert s = do {
     s \<leftarrow> acquire L_futex s;
     fp \<leftarrow> futex_hash_lookup uaddr s;
     if fp \<noteq> 0 then get_futex_bad kend fp 0 s
     else if assert then get_futex_bad kend fp 0 s
     else do {
       (fp, s) \<leftarrow> kmalloc sizeof_futex s;
       if fp = 0 then get_futex_bad kend fp 0 s
       else do {
         let s = futex_init fp s;
         (fhn, s) \<leftarrow> kmalloc sizeof_futex_hash_node s;
         if fhn = 0 then get_futex_bad kend fp fhn s
         else do {
           let s = s\<lparr>fhn_uaddr := (fhn_uaddr s)(fhn := uaddr), fhn_fp := (fhn_fp s)(fhn := fp)\<rparr>;
           (_, s) \<leftarrow> futex_hash_insert fhn s;
           s \<leftarrow> release L_futex s;
           Some (fp, s)
         }
       }
     }
   }"

definition futex_need_timeout :: "int \<Rightarrow> bool" where
  "futex_need_timeout futex_op \<longleftrightarrow> futex_op \<in> {0, 9, 11, 6, 13, 128}"

text \<open>
  \<^verbatim>\<open>futex_wait\<close> up to the switch, for the thread of CPU \<open>c\<close> with the given page table; \<open>uval\<close> is
  the address of the local variable.  The result is the value returned, or \<open>None\<close> when the
  thread sleeps; it returns 0 after \<open>futex_wait_exit\<close>.
\<close>

definition futex_wait_enter ::
  "u64 \<Rightarrow> nat \<Rightarrow> u64 \<Rightarrow> u64 \<Rightarrow> u64 \<Rightarrow> u32 \<Rightarrow> (u64 \<times> u64) option \<Rightarrow> 'z futst_scheme \<Rightarrow> (int option \<times> 'z futst_scheme) option" where
  "futex_wait_enter kend c pagetable uval uaddr val timeout s = do {
     let s = s\<lparr>mem := memset uval 0 4 (mem s)\<rparr>;
     t \<leftarrow> mythread c s;
     (r, s) \<leftarrow> copyin pagetable uval uaddr 4 s;
     if r < 0 then Some (Some (- 1), s)
     else if ucast (load_bytes 4 (mem s) uval) \<noteq> val then Some (Some 0, s)
     else do {
       (fp, s) \<leftarrow> get_futex kend uaddr False s;
       if fp = 0 then Some (Some (- 1), s)
       else do {
         s \<leftarrow> acquire L_timeout s;
         s \<leftarrow> acquire (L_tcb t) s;
         s \<leftarrow> release L_timeout s;
         s \<leftarrow> tcb_q_change_state t TCB_SLEEPING s;
         s \<leftarrow> queue_push_back (FutexQ fp) t s;
         let s = on_tcb t (t_wait_chan_entry_update (\<lambda>_. Some (FutexQ fp))) s;
         s \<leftarrow> (case timeout of None \<Rightarrow> Some s
              | Some ts \<Rightarrow> do {
                  (tk, s) \<leftarrow> get_timeout_ticks ts s;
                  Some (on_tcb t (t_timeout_update (\<lambda>_. ucast tk)) s)
                });
         s \<leftarrow> thread_sched c s;
         Some (None, s)
       }
     }
   }"

definition futex_wait_exit :: "nat \<Rightarrow> 'z futst_scheme \<Rightarrow> (int \<times> 'z futst_scheme) option" where
  "futex_wait_exit t s = do { s \<leftarrow> release (L_tcb t) s; Some (0, s) }"

partial_function (option) futex_wake_loop ::
  "u64 \<Rightarrow> int \<Rightarrow> int \<Rightarrow> 'z futst_scheme \<Rightarrow> (int \<times> 'z futst_scheme) option" where
  "futex_wake_loop fp nr_wake ret s = do {
     (empty, s) \<leftarrow> queue_isempty_atomic (FutexQ fp) s;
     if \<not> empty \<and> ret < nr_wake then do {
       (r, s) \<leftarrow> queue_pop_atomic (FutexQ fp) True s;
       t \<leftarrow> r;
       ensure (t_state (tcb_pool s t) = TCB_SLEEPING);
       s \<leftarrow> acquire (L_tcb t) s;
       ensure (t_wait_chan_entry (tcb_pool s t) \<noteq> None);
       let s = on_tcb t (t_wait_chan_entry_update (\<lambda>_. None)) s;
       s \<leftarrow> tcb_q_change_state t TCB_RUNNABLE s;
       s \<leftarrow> release (L_tcb t) s;
       futex_wake_loop fp nr_wake (ret + 1) s
     }
     else Some (ret, s)
   }"

definition futex_wake :: "u64 \<Rightarrow> u64 \<Rightarrow> int \<Rightarrow> 'z futst_scheme \<Rightarrow> (int \<times> 'z futst_scheme) option" where
  "futex_wake kend uaddr nr_wake s = do {
     (fp, s) \<leftarrow> get_futex kend uaddr True s;
     if fp = 0 then Some (0, s)
     else do {
       (ret, s) \<leftarrow> futex_wake_loop fp nr_wake 0 s;
       (empty, s) \<leftarrow> queue_isempty_atomic (FutexQ fp) s;
       s \<leftarrow> (if empty then futex_free uaddr s else Some s);
       Some (ret, s)
     }
   }"

definition do_futex ::
  "u64 \<Rightarrow> nat \<Rightarrow> u64 \<Rightarrow> u64 \<Rightarrow> u64 \<Rightarrow> int \<Rightarrow> u32 \<Rightarrow> (u64 \<times> u64) option \<Rightarrow> 'z futst_scheme \<Rightarrow> (int option \<times> 'z futst_scheme) option" where
  "do_futex kend c pagetable uval uaddr futex_op val timeout s =
     (if futex_op \<in> {0, 128} then futex_wait_enter kend c pagetable uval uaddr val timeout s
      else if futex_op \<in> {1, 129} then do {
        (r, s) \<leftarrow> futex_wake kend uaddr (sint val) s;
        Some (Some r, s)
      }
      else Some (Some (- 1), s))"

subsection \<open>What the table holds\<close>

text \<open>Bucket \<open>i\<close> has the nodes \<open>B i\<close>, whose futexes are pages.  No page is both.\<close>

definition futex_table :: "u64 \<Rightarrow> 'z futst_scheme \<Rightarrow> (nat \<Rightarrow> u64 list) \<Rightarrow> bool" where
  "futex_table kend s B \<longleftrightarrow>
     (\<forall>i < FUTEX_NUM. is_list (links s) (LHash i) (map LHashNode (B i)) \<and>
       (\<forall>a \<in> set (B i). hash_get_entry (fhn_uaddr s a) = LHash i \<and> page kend (fhn_fp s a) \<and>
          (\<forall>j < FUTEX_NUM. fhn_fp s a \<notin> set (B j))))"

definition futex_pages :: "'z futst_scheme \<Rightarrow> (nat \<Rightarrow> u64 list) \<Rightarrow> u64 set" where
  "futex_pages s B = (\<Union>i < FUTEX_NUM. set (B i) \<union> fhn_fp s ` set (B i))"

definition same_table :: "'z futst_scheme \<Rightarrow> 'z futst_scheme \<Rightarrow> bool" where
  "same_table s s' \<longleftrightarrow> fhn_uaddr s' = fhn_uaddr s \<and> fhn_fp s' = fhn_fp s \<and>
     (\<forall>i. links s' (LHash i) = links s (LHash i)) \<and> (\<forall>a. links s' (LHashNode a) = links s (LHashNode a))"

lemma bucket: obtains i where "i < FUTEX_NUM" "hash_get_entry uaddr = LHash i"
proof
  have "uaddr mod 32 < 32" by (rule word_mod_less_divisor) simp
  then show "unat (uaddr mod 32) < FUTEX_NUM" by (simp add: FUTEX_NUM_def word_less_nat_alt)
  show "hash_get_entry uaddr = LHash (unat (uaddr mod 32))" by (simp add: hash_get_entry_def futex_hash_key_def FUTEX_NUM_def)
qed

lemma each_nodes:
  "each (\<lambda>pos r. case pos of LHashNode a \<Rightarrow> if f a = u then Some (False, g a) else Some (True, r) | _ \<Rightarrow> None)
     (map LHashNode as) r = Some (case find (\<lambda>a. f a = u) as of None \<Rightarrow> (True, r) | Some a \<Rightarrow> (False, g a))"
  by (induction as) auto

lemma lookup_find:
  assumes "is_list (links s) (LHash i) (map LHashNode as)" "hash_get_entry u = LHash i"
  shows "futex_hash_lookup u s = Some (case find (\<lambda>a. fhn_uaddr s a = u) as of None \<Rightarrow> 0 | Some a \<Rightarrow> fhn_fp s a)"
  using assms(2) by (simp add: futex_hash_lookup_def list_for_each_entry_safe_const [OF assms(1)] each_nodes split: option.split)

lemma lookup_cong:
  assumes "is_list (links s) (LHash i) (map LHashNode as)" "is_list (links s') (LHash i) (map LHashNode as)" "hash_get_entry u = LHash i"
    and f: "\<And>a. a \<in> set as \<Longrightarrow> fhn_uaddr s' a = fhn_uaddr s a \<and> fhn_fp s' a = fhn_fp s a"
  shows "futex_hash_lookup u s' = futex_hash_lookup u s"
proof -
  have "find (\<lambda>a. fhn_uaddr s' a = u) as = find (\<lambda>a. fhn_uaddr s a = u) as" using f by (intro find_cong) auto
  then show ?thesis
    using lookup_find [OF assms(1,3)] lookup_find [OF assms(2,3)] f by (cases "find (\<lambda>a. fhn_uaddr s a = u) as") (auto dest!: find_in)
qed

lemma same_table_list:
  assumes "same_table s s'" "is_list (links s) (LHash i) (map LHashNode as)"
  shows "is_list (links s') (LHash i) (map LHashNode as)"
  using assms by (auto intro!: is_list_frame [OF assms(2)] simp: same_table_def)

lemma same_table:
  assumes "same_table s s'" "futex_table kend s B"
  shows "futex_table kend s' B" "futex_hash_lookup u s' = futex_hash_lookup u s"
proof -
  show "futex_table kend s' B" using assms same_table_list [OF assms(1)] by (auto simp: futex_table_def same_table_def)
  obtain i where i: "i < FUTEX_NUM" "hash_get_entry u = LHash i" by (rule bucket)
  have l: "is_list (links s) (LHash i) (map LHashNode (B i))" using assms(2) i by (simp add: futex_table_def)
  show "futex_hash_lookup u s' = futex_hash_lookup u s"
    using lookup_cong [OF l same_table_list [OF assms(1) l] i(2)] assms(1) by (simp add: same_table_def)
qed

lemma lookup_found:
  assumes "futex_table kend s B" "futex_hash_lookup u s = Some fp" "fp \<noteq> 0"
  obtains i a where "i < FUTEX_NUM" "a \<in> set (B i)" "fhn_fp s a = fp" "page kend fp" "\<And>j. j < FUTEX_NUM \<Longrightarrow> fp \<notin> set (B j)"
proof -
  obtain i where i: "i < FUTEX_NUM" "hash_get_entry u = LHash i" by (rule bucket)
  have l: "is_list (links s) (LHash i) (map LHashNode (B i))" using assms(1) i by (simp add: futex_table_def)
  obtain a where "a \<in> set (B i)" "fhn_fp s a = fp"
    using lookup_find [OF l i(2)] assms(2,3) by (auto split: option.splits dest: find_in)
  then show ?thesis using that i assms(1) by (auto simp: futex_table_def)
qed

text \<open>Only the queue and the node at the address lose their cells.\<close>

lemma futex_kfree_eq:
  assumes "L_kmem \<notin> set (held s)" "page kend p"
  shows "\<exists>s'. futex_kfree kend p s = Some s' \<and> held s' = held s \<and> tcb_pool s' = tcb_pool s \<and> freelist s' = p \<and>
    mem s' = store64 p (freelist s) (memset p 1 (ucast PGSIZE) (mem s)) \<and> fhn_uaddr s' = fhn_uaddr s \<and> fhn_fp s' = fhn_fp s \<and>
    (\<forall>l. l \<noteq> LQueue (FutexQ p) \<longrightarrow> l \<noteq> LHashNode p \<longrightarrow> links s' l = links s l)"
proof -
  let ?k = "inc_freecnt (s\<lparr>mem := store64 p (freelist s) (memset p 1 (ucast PGSIZE) (mem s)), freelist := p\<rparr>)"
  have "kfree kend p s = Some ?k" by (rule kfree_eq [OF assms])
  then have "futex_kfree kend p s = Some (?k\<lparr>links := (links ?k)(LQueue (FutexQ p) := \<lparr>lnext = None, lprev = None\<rparr>,
      LHashNode p := \<lparr>lnext = None, lprev = None\<rparr>)\<rparr>)" by (simp only: futex_kfree_def Option.bind.simps)
  then show ?thesis by (simp add: inc_freecnt_def)
qed

lemma futex_table_kfree:
  assumes t: "futex_table kend s B" and p: "\<And>j. j < FUTEX_NUM \<Longrightarrow> p \<notin> set (B j)" and f: "fhn_uaddr s' = fhn_uaddr s" "fhn_fp s' = fhn_fp s"
    and l: "\<And>l. l \<noteq> LQueue (FutexQ p) \<Longrightarrow> l \<noteq> LHashNode p \<Longrightarrow> links s' l = links s l"
  shows "futex_table kend s' B" "futex_hash_lookup u s' = futex_hash_lookup u s"
proof -
  have li: "is_list (links s') (LHash i) (map LHashNode (B i))" if "i < FUTEX_NUM" for i
  proof (rule is_list_frame)
    show "is_list (links s) (LHash i) (map LHashNode (B i))" using t that by (simp add: futex_table_def)
    show "links s' a = links s a" if "a \<in> insert (LHash i) (set (map LHashNode (B i)))" for a
      using that p [OF \<open>i < FUTEX_NUM\<close>] by (intro l) auto
  qed
  then show "futex_table kend s' B" using t by (simp add: futex_table_def f)
  obtain i where i: "i < FUTEX_NUM" "hash_get_entry u = LHash i" by (rule bucket)
  have "is_list (links s) (LHash i) (map LHashNode (B i))" using t i by (simp add: futex_table_def)
  from lookup_cong [OF this li [OF i(1)] i(2)] show "futex_hash_lookup u s' = futex_hash_lookup u s" by (simp add: f)
qed

text \<open>A futex that is found is freed, and stays in the table.\<close>

lemma get_futex_found:
  assumes t: "futex_table kend s B" and u: "futex_hash_lookup u s = Some fp" "fp \<noteq> 0" and h: "held s = []"
  shows "\<exists>s'. get_futex kend u b s = Some (0, s') \<and> held s' = [] \<and> tcb_pool s' = tcb_pool s \<and> freelist s' = fp \<and>
    mem s' = store64 fp (freelist s) (memset fp 1 (ucast PGSIZE) (mem s)) \<and> futex_table kend s' B \<and> futex_hash_lookup u s' = Some fp"
proof -
  obtain i a where a: "page kend fp" "\<And>j. j < FUTEX_NUM \<Longrightarrow> fp \<notin> set (B j)" by (rule lookup_found [OF t u]) blast
  have "same_table s (s\<lparr>held := [L_futex]\<rparr>)" by (simp add: same_table_def)
  from same_table(2) [OF this t] have "futex_hash_lookup u (s\<lparr>held := [L_futex]\<rparr>) = Some fp" using u(1) by simp
  moreover obtain s' where s': "futex_kfree kend fp s = Some s'" "held s' = held s" "tcb_pool s' = tcb_pool s" "freelist s' = fp"
    "mem s' = store64 fp (freelist s) (memset fp 1 (ucast PGSIZE) (mem s))" "fhn_uaddr s' = fhn_uaddr s" "fhn_fp s' = fhn_fp s"
    "\<And>l. l \<noteq> LQueue (FutexQ fp) \<Longrightarrow> l \<noteq> LHashNode fp \<Longrightarrow> links s' l = links s l"
    using futex_kfree_eq [OF _ a(1), of s] h by auto
  moreover have e: "s\<lparr>held := []\<rparr> = s" using h by simp
  ultimately have "get_futex kend u b s = Some (0, s')"
    using u(2) h by (simp add: e get_futex_def get_futex_bad_def acquire_def release_def)
  then show ?thesis using s'(2-5) futex_table_kfree [OF t a(2) s'(6,7,8)] u(1) h by simp
qed

lemma km_frame_futst:
  assumes "km_frame p s s'"
  shows "links s' = links s" "qtype s' = qtype s" "tcb_pool s' = tcb_pool s" "fhn_uaddr s' = fhn_uaddr s" "fhn_fp s' = fhn_fp s"
    "held s' = held s"
proof -
  have "kmst.more s' = kmst.more s" "held s' = held s" using assms by (auto simp: km_frame_def)
  then show "links s' = links s" "qtype s' = qtype s" "tcb_pool s' = tcb_pool s" "fhn_uaddr s' = fhn_uaddr s" "fhn_fp s' = fhn_fp s"
    "held s' = held s" by (cases s, cases s', simp)+
qed

lemma km_free_page: "km_free kend s F \<Longrightarrow> p \<in> F \<Longrightarrow> page kend p"
  by (auto simp: km_free_def kmem_inv_def)

lemma km_free_eq:
  "km_free kend s F \<Longrightarrow> mem s' = mem s \<Longrightarrow> freelist s' = freelist s \<Longrightarrow> L_kmem \<notin> set (held s') \<Longrightarrow> km_free kend s' F"
  by (simp add: km_free_def kmem_inv_def)

lemma futex_table_other:
  assumes t: "futex_table kend s B" and l: "links s' = links s"
    and f: "\<And>i a. i < FUTEX_NUM \<Longrightarrow> a \<in> set (B i) \<Longrightarrow> fhn_uaddr s' a = fhn_uaddr s a \<and> fhn_fp s' a = fhn_fp s a"
  shows "futex_table kend s' B"
  using t l f by (simp add: futex_table_def)

text \<open>A new node at the end of its bucket.\<close>

lemma futex_hash_insert_ok:
  assumes t: "futex_table kend s B" and u: "futex_hash_lookup (fhn_uaddr s n) s = Some 0"
    and n: "\<And>i. i < FUTEX_NUM \<Longrightarrow> n \<notin> set (B i)" "page kend (fhn_fp s n)" "fhn_fp s n \<noteq> n"
      "\<And>i. i < FUTEX_NUM \<Longrightarrow> fhn_fp s n \<notin> set (B i)" "\<And>i a. i < FUTEX_NUM \<Longrightarrow> a \<in> set (B i) \<Longrightarrow> fhn_fp s a \<noteq> n"
  shows "\<exists>st B'. futex_hash_insert n s = Some (0, s\<lparr>links := st\<rparr>) \<and> futex_table kend (s\<lparr>links := st\<rparr>) B' \<and>
    futex_hash_lookup (fhn_uaddr s n) (s\<lparr>links := st\<rparr>) = Some (fhn_fp s n)"
proof -
  let ?u = "fhn_uaddr s n"
  obtain i where i: "i < FUTEX_NUM" "hash_get_entry ?u = LHash i" by (rule bucket)
  let ?st = "INIT_LIST_HEAD (LHashNode n) (links s)" and ?B = "B(i := B i @ [n])"
  have l: "is_list (links s) (LHash j) (map LHashNode (B j))" if "j < FUTEX_NUM" for j using t that by (simp add: futex_table_def)
  have "is_list ?st (LHash j) (map LHashNode (B j))" if "j < FUTEX_NUM" for j
    using n(1) [OF that] by (auto intro!: is_list_frame [OF l [OF that]] INIT_LIST_HEAD_other)
  note l1 = this
  have "LHashNode n \<notin> set (LHash i # map LHashNode (B i))" using n(1) [OF i(1)] by auto
  from list_add_tail_list [OF l1 [OF i(1)] this] obtain st where st: "list_add_tail (LHashNode n) (LHash i) ?st = Some st"
      "is_list st (LHash i) (map LHashNode (?B i))"
      "\<And>a. a \<notin> insert (LHashNode n) (insert (LHash i) (LHashNode ` set (B i))) \<Longrightarrow> st a = ?st a" by auto
  have d: "set (B i) \<inter> set (B j) = {}" if "j < FUTEX_NUM" "j \<noteq> i" for j
  proof -
    have e: "hash_get_entry (fhn_uaddr s a) = LHash k" if "k < FUTEX_NUM" "a \<in> set (B k)" for a k
      using t that by (simp add: futex_table_def)
    have "a \<notin> set (B j)" if "a \<in> set (B i)" for a
      using e [OF i(1) that] e [OF \<open>j < FUTEX_NUM\<close>, of a] \<open>j \<noteq> i\<close> by auto
    then show ?thesis by auto
  qed
  have "is_list st (LHash j) (map LHashNode (?B j))" if "j < FUTEX_NUM" for j
  proof (cases "j = i")
    case False
    have "st a = ?st a" if "a \<in> insert (LHash j) (set (map LHashNode (B j)))" for a
      using that d [OF \<open>j < FUTEX_NUM\<close> False] n(1) [OF \<open>j < FUTEX_NUM\<close>] False by (intro st(3)) auto
    then show ?thesis using is_list_frame [OF l1 [OF that]] False by simp
  qed (use st(2) in simp)
  then have t': "futex_table kend (s\<lparr>links := st\<rparr>) ?B"
    using t n(2-5) i by (auto simp: futex_table_def)
  have "find (\<lambda>a. fhn_uaddr s a = ?u) (B i) = None"
  proof (rule ccontr)
    assume "find (\<lambda>a. fhn_uaddr s a = ?u) (B i) \<noteq> None"
    then obtain a where a: "find (\<lambda>a. fhn_uaddr s a = ?u) (B i) = Some a" by blast
    then show False using find_in [OF a] lookup_find [OF l [OF i(1)] i(2)] u t i(1) by (auto simp: futex_table_def page_def)
  qed
  then have "find (\<lambda>a. fhn_uaddr s a = ?u) (B i @ [n]) = Some n" by (simp add: find_append)
  with lookup_find [of "s\<lparr>links := st\<rparr>" i "?B i" ?u] st(2) i(2)
  have "futex_hash_lookup ?u (s\<lparr>links := st\<rparr>) = Some (fhn_fp s n)" by simp
  moreover have "futex_hash_insert n s = Some (0, s\<lparr>links := st\<rparr>)"
    using u st(1) i(2) by (simp add: futex_hash_insert_def on_links_def)
  ultimately show ?thesis using t' by blast
qed

lemma get_futex_creates:
  assumes t: "futex_table kend s B" and u: "futex_hash_lookup u s = Some 0" and h: "held s = []"
    and k: "km_free kend s F" "2 \<le> card F" and d: "futex_pages s B \<inter> F = {}"
  shows "\<exists>fp s' B'. get_futex kend u False s = Some (fp, s') \<and> fp \<in> F \<and> held s' = [] \<and> tcb_pool s' = tcb_pool s \<and>
    futex_table kend s' B' \<and> futex_hash_lookup u s' = Some fp"
proof -
  let ?a = "s\<lparr>held := [L_futex]\<rparr>"
  have fin: "finite F" "F \<noteq> {}" using k(2) by (auto simp: card_ge_0_finite)
  have ka: "km_free kend ?a F" by (rule km_free_eq [OF k(1)]) simp_all
  from km_free_alloc [OF ka fin(2)] obtain fp s1 where 1: "kalloc ?a = Some (fp, s1)" "fp \<noteq> 0" "fp \<in> F" "km_free kend s1 (F - {fp})" "km_frame fp ?a s1"
    by blast
  note f1 = km_frame_futst [OF 1(5)]
  let ?b = "futex_init fp s1"
  have b: "links ?b = INIT_LIST_HEAD (LQueue (FutexQ fp)) (links s)" "fhn_uaddr ?b = fhn_uaddr s" "fhn_fp ?b = fhn_fp s"
    "held ?b = [L_futex]" "tcb_pool ?b = tcb_pool s"
    using f1 by (simp_all add: futex_init_def queue_init_def)
  have kb: "km_free kend ?b (F - {fp})" by (rule km_free_eq [OF 1(4)]) (use b(4) in \<open>simp_all add: futex_init_def queue_init_def\<close>)
  have "card (F - {fp}) \<noteq> 0" using k(2) fin 1(3) by simp
  then have "F - {fp} \<noteq> {}" by auto
  from km_free_alloc [OF kb this] obtain n s2 where 2: "kalloc ?b = Some (n, s2)" "n \<noteq> 0" "n \<in> F - {fp}" "km_frame n ?b s2" by blast
  note f2 = km_frame_futst [OF 2(4)]
  let ?c = "s2\<lparr>fhn_uaddr := (fhn_uaddr s2)(n := u), fhn_fp := (fhn_fp s2)(n := fp)\<rparr>"
  have N: "n \<notin> set (B i)" "fp \<notin> set (B i)" "a \<in> set (B i) \<Longrightarrow> fhn_fp s a \<noteq> n" if "i < FUTEX_NUM" for i a
    using d that 1(3) 2(3) by (auto simp: futex_pages_def)
  have sb: "same_table s ?b" by (simp add: same_table_def b INIT_LIST_HEAD_other)
  have tb: "futex_table kend ?b B" "futex_hash_lookup u ?b = Some 0" using same_table [OF sb t] u by simp_all
  have tc: "futex_table kend ?c B" by (rule futex_table_other [OF tb(1)]) (use f2 N(1) in auto)
  have "futex_hash_lookup u ?c = Some 0"
  proof -
    obtain i where i: "i < FUTEX_NUM" "hash_get_entry u = LHash i" by (rule bucket)
    have "is_list (links ?b) (LHash i) (map LHashNode (B i))" "is_list (links ?c) (LHash i) (map LHashNode (B i))"
      using tb(1) tc i(1) by (simp_all add: futex_table_def)
    moreover have "fhn_uaddr ?c a = fhn_uaddr ?b a \<and> fhn_fp ?c a = fhn_fp ?b a" if "a \<in> set (B i)" for a
      using that N(1) [OF i(1)] f2 by auto
    ultimately show ?thesis using lookup_cong [of ?b i "B i" ?c u] tb(2) i(2) by simp
  qed
  then have "\<exists>st B'. futex_hash_insert n ?c = Some (0, ?c\<lparr>links := st\<rparr>) \<and> futex_table kend (?c\<lparr>links := st\<rparr>) B' \<and>
      futex_hash_lookup u (?c\<lparr>links := st\<rparr>) = Some fp"
    using futex_hash_insert_ok [OF tc, of n] N 2(3) km_free_page [OF k(1) 1(3)] f2 b(3) by auto
  then obtain st B' where I: "futex_hash_insert n ?c = Some (0, ?c\<lparr>links := st\<rparr>)" "futex_table kend (?c\<lparr>links := st\<rparr>) B'"
      "futex_hash_lookup u (?c\<lparr>links := st\<rparr>) = Some fp" by blast
  let ?d = "?c\<lparr>links := st, held := []\<rparr>"
  have sd: "same_table (?c\<lparr>links := st\<rparr>) ?d" by (simp add: same_table_def)
  have "same_table s ?a" by (simp add: same_table_def)
  from same_table(2) [OF this t] u have la: "futex_hash_lookup u ?a = Some 0" by simp
  have sz: "\<not> sizeof_futex > ucast PGSIZE" "\<not> sizeof_futex_hash_node > ucast PGSIZE" by code_simp+
  have "get_futex kend u False s = Some (fp, ?d)"
    using h la 1(1,2) 2(1,2) I(1) f2(6) b(4) sz by (simp add: get_futex_def acquire_def release_def kmalloc_def)
  then show ?thesis using same_table [OF sd I(2)] I(3) 1(3) f2(3) b(5) by fastforce
qed

subsection \<open>Waking\<close>

lemma init_entries_list: "i < n \<Longrightarrow> is_list (init_entries n st) (LHash i) []"
proof (induction n)
  case (Suc n)
  then show ?case
    by (cases "i = n") (auto simp: INIT_LIST_HEAD_list INIT_LIST_HEAD_other intro!: is_list_frame [of "init_entries n st"])
qed simp

text \<open>\<^verbatim>\<open>futex_hash_init\<close> makes an empty table, or panics when no page is free.\<close>

lemma futex_hash_init_ok:
  assumes "km_free kend s F" "F \<noteq> {}" "held s = []"
  shows "\<exists>s'. futex_hash_init s = Some s' \<and> futex_table kend s' (\<lambda>_. []) \<and> tcb_pool s' = tcb_pool s"
proof -
  from km_free_alloc [OF assms(1,2)] obtain p s1 where 1: "kalloc s = Some (p, s1)" "p \<noteq> 0" "km_frame p s s1" by blast
  have sz: "\<not> sizeof_hash_entry * of_nat FUTEX_NUM > ucast PGSIZE" by code_simp
  let ?s = "s1\<lparr>hash_head := p, links := init_entries FUTEX_NUM (links s1)\<rparr>"
  have "futex_hash_init s = Some ?s" using 1(1,2) sz by (simp add: futex_hash_init_def hash_table_entry_init_def kmalloc_def)
  then show ?thesis using km_frame_futst(3) [OF 1(3)] init_entries_list by (auto simp: futex_table_def)
qed

lemma futex_wake_null:
  assumes "get_futex kend u True s = Some (0, s')"
  shows "futex_wake kend u n s = Some (0, s')"
  using assms by (simp add: futex_wake_def)

lemma kalloc_twice:
  assumes "freelist s = p" "load64 (mem s) p = p" "p \<noteq> 0" "held s = []"
  shows "\<exists>s1 s2. kalloc s = Some (p, s1) \<and> kalloc s1 = Some (p, s2)"
  using assms by (simp add: kalloc_eq)

text \<open>
  C21: a futex that one thread has created to sleep on is never found again.  Whatever
  happens to the threads in between, \<^verbatim>\<open>futex_wake\<close> returns 0 and wakes nobody, because
  \<^verbatim>\<open>get_futex\<close> takes its error exit when it finds the futex: it frees the page of the futex, which
  stays in the hash table.  When another thread then waits at the same address, its
  \<^verbatim>\<open>get_futex\<close> fails and frees the page again, and \<^verbatim>\<open>kalloc\<close> hands out the same page twice.
\<close>

theorem futex_wake_loses_waiters:
  assumes "futex_table kend s B" "futex_hash_lookup uaddr s = Some 0" "held s = []"
    and "km_free kend s F" "2 \<le> card F" "futex_pages s B \<inter> F = {}"
  shows "\<exists>fp s1. get_futex kend uaddr False s = Some (fp, s1) \<and> fp \<in> F \<and> futex_hash_lookup uaddr s1 = Some fp \<and>
    (\<forall>s2. same_table s1 s2 \<longrightarrow> held s2 = [] \<longrightarrow>
      (\<exists>s3. futex_wake kend uaddr n s2 = Some (0, s3) \<and> tcb_pool s3 = tcb_pool s2 \<and> freelist s3 = fp \<and>
         futex_hash_lookup uaddr s3 = Some fp \<and>
         (\<exists>s4 s5 s6. get_futex kend uaddr False s3 = Some (0, s4) \<and> kalloc s4 = Some (fp, s5) \<and> kalloc s5 = Some (fp, s6))))"
proof -
  obtain fp s1 B' where 1: "get_futex kend uaddr False s = Some (fp, s1)" "fp \<in> F" "futex_table kend s1 B'" "futex_hash_lookup uaddr s1 = Some fp"
    using get_futex_creates [OF assms] by blast
  have fp: "fp \<noteq> 0" using km_free_page [OF assms(4) 1(2)] by (simp add: page_def)
  have "\<exists>s3. futex_wake kend uaddr n s2 = Some (0, s3) \<and> tcb_pool s3 = tcb_pool s2 \<and> freelist s3 = fp \<and> futex_hash_lookup uaddr s3 = Some fp \<and>
      (\<exists>s4 s5 s6. get_futex kend uaddr False s3 = Some (0, s4) \<and> kalloc s4 = Some (fp, s5) \<and> kalloc s5 = Some (fp, s6))"
    if "same_table s1 s2" "held s2 = []" for s2
  proof -
    have t2: "futex_table kend s2 B'" "futex_hash_lookup uaddr s2 = Some fp" using same_table [OF that(1) 1(3)] 1(4) by simp_all
    from get_futex_found [OF t2 fp that(2), of True] obtain s3 where 3: "get_futex kend uaddr True s2 = Some (0, s3)" "held s3 = []"
      "tcb_pool s3 = tcb_pool s2" "freelist s3 = fp" "futex_table kend s3 B'" "futex_hash_lookup uaddr s3 = Some fp" by blast
    from get_futex_found [OF 3(5,6) fp 3(2), of False] obtain s4 where 4: "get_futex kend uaddr False s3 = Some (0, s4)" "held s4 = []"
      "freelist s4 = fp" "mem s4 = store64 fp fp (memset fp 1 (ucast PGSIZE) (mem s3))" using 3(4) by auto
    from kalloc_twice [OF 4(3) _ fp 4(2)] 4(4) load64_store64_same have "\<exists>s5 s6. kalloc s4 = Some (fp, s5) \<and> kalloc s5 = Some (fp, s6)" by metis
    then show ?thesis using futex_wake_null [OF 3(1)] 3(3,4,6) 4(1) by blast
  qed
  then show ?thesis using 1(1,2,4) by blast
qed

definition futex_example :: futst where
  "futex_example = \<lparr>held = [], mem = store64 0x80300000 0x80301000 (\<lambda>_. 0), freelist = 0x80300000, g_freecnt = 0,
     links = init_entries FUTEX_NUM (\<lambda>_. \<lparr>lnext = None, lprev = None\<rparr>), qtype = (\<lambda>_. INODE_FREE_QUEUE), qcnt = (\<lambda>_. 0),
     tcb_pool = (\<lambda>_. tcb_zero),
     cputhread = Map.empty, next_tid = 1, ticks = 0, hash_head = 0x80302000, fhn_uaddr = (\<lambda>_. 0), fhn_fp = (\<lambda>_. 0)\<rparr>"

theorem futex_wake_loses_waiters_witness:
  "\<exists>fp s1 s3. get_futex 0x80200000 0x4000 False futex_example = Some (fp, s1) \<and> fp \<in> {0x80300000, 0x80301000} \<and>
     futex_wake 0x80200000 0x4000 1 s1 = Some (0, s3) \<and> freelist s3 = fp \<and> futex_hash_lookup 0x4000 s3 = Some fp"
proof -
  let ?F = "{0x80300000, 0x80301000} :: u64 set"
  have "load64 (store64 0x80300000 0x80301000 (\<lambda>_. 0)) 0x80301000 = load64 (\<lambda>_. 0) 0x80301000"
    by (rule load64_store64_other) (simp_all add: aligned_def)
  moreover have "load64 (\<lambda>_. 0) 0x80301000 = 0" by (rule load64_zero) simp
  ultimately have k: "km_free 0x80200000 futex_example ?F"
    by (auto simp: km_free_def futex_example_def kmem_inv_def page_def aligned_def PHYSTOP_def KERNBASE_def load64_store64_same
        intro!: exI [of _ "[0x80300000, 0x80301000]"])
  have t: "futex_table 0x80200000 futex_example (\<lambda>_. [])" by (simp add: futex_table_def futex_example_def init_entries_list)
  have u: "futex_hash_lookup 0x4000 futex_example = Some 0"
    using lookup_find [of futex_example 0 "[]" "0x4000"] by (simp add: futex_example_def init_entries_list FUTEX_NUM_def hash_get_entry_def futex_hash_key_def)
  have h: "held futex_example = []" by (simp add: futex_example_def)
  obtain fp s1 where 1: "get_futex 0x80200000 0x4000 False futex_example = Some (fp, s1)" "fp \<in> ?F"
      "same_table s1 s2 \<longrightarrow> held s2 = [] \<longrightarrow>
        (\<exists>s3. futex_wake 0x80200000 0x4000 1 s2 = Some (0, s3) \<and> freelist s3 = fp \<and> futex_hash_lookup 0x4000 s3 = Some fp)" for s2
    using futex_wake_loses_waiters [OF t u h k, of 1] by (auto simp: futex_pages_def) metis+
  have "held s1 = []" using 1(1) get_futex_creates [OF t u h k] by (auto simp: futex_pages_def)
  then show ?thesis using 1(1,2) 1(3) [of s1] by (auto simp: same_table_def)
qed

end
