(* ===== verification/XV_Uspace.thy ===== *)
theory XV_Uspace
  imports XV_Vm
begin

section \<open>Address spaces as a whole\<close>

text \<open>
  Freeing a page table (\<^verbatim>\<open>freewalk\<close>, \<^verbatim>\<open>uvmfree\<close>), copying an address space for \<^verbatim>\<open>fork\<close>
  (\<^verbatim>\<open>uvmcopy\<close>) and moving bytes between the kernel and a process (\<^verbatim>\<open>copyin\<close>, \<^verbatim>\<open>copyout\<close>).
\<close>

subsection \<open>Freeing a page table\<close>

primrec bare :: "nat \<Rightarrow> memory \<Rightarrow> u64 \<Rightarrow> bool" where
  "bare 0 m p \<longleftrightarrow> (\<forall>i < 512. \<not> valid (entry m p i))"
| "bare (Suc l) m p \<longleftrightarrow> (\<forall>i c. i < 512 \<longrightarrow> child m p i = Some c \<longrightarrow> bare l m c)"

lemma bare_frame: "bare l m p \<Longrightarrow> agree (tables l m p) m m' \<Longrightarrow> bare l m' p"
proof (induction l arbitrary: p)
  case 0
  then show ?case using entry_frame [of _ p m' m] by (auto simp: agree_def)
next
  case (Suc l)
  show ?case
    using Suc.prems(1) agree_child [OF Suc.prems(2)] Suc.IH by auto
qed

text \<open>The virtual address with the given indices.\<close>

definition va_of :: "u64 \<Rightarrow> u64 \<Rightarrow> u64 \<Rightarrow> u64" where
  "va_of i j k = push_bit 30 i OR push_bit 21 j OR push_bit 12 k"

lemma bit_small: "i < 512 \<Longrightarrow> bit i n \<Longrightarrow> n < 9" for i :: u64
proof (rule ccontr)
  assume i: "i < 512" and b: "bit i n" and n: "\<not> n < 9"
  have "unat i < 2 ^ 9" using i by (simp add: word_less_nat_alt)
  also have "(2 :: nat) ^ 9 \<le> 2 ^ n" using n by (intro power_increasing) simp_all
  finally have "\<not> bit (unat i) n" by (simp add: bit_iff_odd)
  then show False using b bit_imp_le_length [OF b] by (simp add: bit_unsigned_iff)
qed

lemma PX_va_of:
  assumes "i < 512" "j < 512" "k < 512"
  shows "PX 2 (va_of i j k) = i" "PX 1 (va_of i j k) = j" "PX 0 (va_of i j k) = k"
  by (rule bit_word_eqI,
      use bit_small [OF assms(1)] bit_small [OF assms(2)] bit_small [OF assms(3)] in
      \<open>fastforce simp: bit_PX va_of_def bit_or_iff bit_push_bit_iff\<close>)+

lemma bare_leaves:
  assumes "\<And>va. \<not> valid (leaf 2 m p va)"
  shows "bare 2 m p"
proof -
  have "\<not> valid (entry m d k)"
    if "i < 512" "child m p i = Some c" "j < 512" "child m c j = Some d" "k < 512" for i c j d k
    using assms [of "va_of i j k"] that PX_va_of [OF that(1,3,5)] by (simp add: numeral_2_eq_2)
  then show ?thesis by (simp add: numeral_2_eq_2)
qed

lemma freewalk_page:
  assumes km: "km_free kend s F" and p: "page kend p" "p \<notin> F"
    and none: "\<forall>i < 512. \<not> valid (entry (mem s) p i)" and k: "k \<le> 512"
  shows "freewalk_from kend p (of_nat k) s = kfree kend p s"
  using k
proof (induction "512 - k" arbitrary: k)
  case 0
  then have "k = 512" by simp
  then show ?case by (subst freewalk_from.simps) simp
next
  case (Suc n)
  then have k: "k < 512" by simp
  then have i: "(of_nat k :: u64) < 512" by (simp add: word_less_nat_alt unat_of_nat take_bit_nat_eq_self)
  have "\<not> valid (entry (mem s) p (of_nat k))" using none i by blast
  then have "freewalk_from kend p (of_nat k) s = freewalk_from kend p (of_nat (Suc k)) s"
    using i by (subst freewalk_from.simps) (simp add: Let_def load_pte_def entry_def valid_def add.commute)
  then show ?case using Suc.hyps(1) [of "Suc k"] Suc.hyps(2) k by simp
qed

text \<open>The tables below the first \<open>k\<close> entries of a table.\<close>

definition below :: "nat \<Rightarrow> memory \<Rightarrow> u64 \<Rightarrow> nat \<Rightarrow> u64 set" where
  "below l m p k = (\<Union>j \<in> {j. j < k}. case child m p (of_nat j) of None \<Rightarrow> {} | Some c \<Rightarrow> tables l m c)"

lemma below_0 [simp]: "below l m p 0 = {}"
  by (simp add: below_def)

lemma below_Suc:
  "below l m p (Suc k) = below l m p k \<union> (case child m p (of_nat k) of None \<Rightarrow> {} | Some c \<Rightarrow> tables l m c)"
  by (auto simp: below_def less_Suc_eq)

lemma of_nat_index: "k < 512 \<Longrightarrow> (of_nat k :: u64) < 512 \<and> unat (of_nat k :: u64) = k"
  by (simp add: word_less_nat_alt unat_of_nat take_bit_nat_eq_self)

lemma below_all: "insert p (below l m p 512) = tables (Suc l) m p"
proof -
  have "i \<in> of_nat ` {j. j < 512}" if "i < 512" for i :: u64
    using that by (intro image_eqI [of _ _ "unat i"]) (auto simp: word_less_nat_alt)
  then have "{i :: u64. i < 512} = of_nat ` {j. j < 512}" using of_nat_index by auto
  then show ?thesis by (simp add: below_def)
qed

lemma wf_pt_disjoint:
  assumes "wf_pt (Suc l) ok m p" "i < 512" "j < 512" "i \<noteq> j" "child m p i = Some c" "child m p j = Some d"
  shows "tables l m c \<inter> tables l m d = {}"
  using assms unfolding wf_pt.simps by blast

lemma below_mem:
  assumes "wf_pt (Suc l) ok m p" "k \<le> 512" "q \<in> below l m p k"
  shows "ok q" "q \<noteq> p"
    and "k < 512 \<Longrightarrow> child m p (of_nat k) = Some c \<Longrightarrow> q \<notin> tables l m c"
proof -
  obtain j d where j: "j < k" "child m p (of_nat j) = Some d" "q \<in> tables l m d"
    using assms(3) by (auto simp: below_def split: option.splits)
  have j5: "(of_nat j :: u64) < 512" using of_nat_index [of j] j(1) assms(2) by simp
  note wc = wf_pt_child [OF assms(1) j5 j(2)]
  show "q \<noteq> p" using wc(2) j(3) by auto
  show "ok q" using wf_pt_ok [OF assms(1)] wc(3) j(3) by blast
  show "q \<notin> tables l m c" if k: "k < 512" "child m p (of_nat k) = Some c"
  proof -
    have ne: "(of_nat j :: u64) \<noteq> of_nat k" using of_nat_index [OF k(1)] of_nat_index [of j] j(1) k(1) by auto
    have "tables l m d \<inter> tables l m c = {}"
      by (rule wf_pt_disjoint [OF assms(1) j5 _ ne j(2) k(2)]) (use of_nat_index [OF k(1)] in simp)
    then show ?thesis using j(3) by auto
  qed
qed

text \<open>
  The invariant of the loop of \<^verbatim>\<open>freewalk\<close>: what is below the first \<open>k\<close> entries is free, and the
  rest is as it was.
\<close>

definition freeing ::
  "u64 \<Rightarrow> nat \<Rightarrow> u64 \<Rightarrow> 'z kmst_scheme \<Rightarrow> u64 set \<Rightarrow> nat \<Rightarrow> 'z kmst_scheme \<Rightarrow> bool" where
  "freeing kend l p s F k s1 \<longleftrightarrow>
     km_free kend s1 (F \<union> below l (mem s) p k) \<and>
     differ_in (insert p (below l (mem s) p k)) (mem s) (mem s1) \<and>
     (\<forall>j < 512. k \<le> unat j \<longrightarrow> entry (mem s1) p j = entry (mem s) p j) \<and>
     held s1 = held s \<and> kmst.more s1 = kmst.more s"

text \<open>What freeing a table of level \<open>l\<close> does; the induction is over the level.\<close>

definition frees :: "nat \<Rightarrow> u64 \<Rightarrow> u64 \<Rightarrow> 'z kmst_scheme \<Rightarrow> u64 set \<Rightarrow> bool" where
  "frees l kend p s F \<longleftrightarrow> (\<exists>s'. freewalk_from kend p 0 s = Some s' \<and>
     km_free kend s' (F \<union> tables l (mem s) p) \<and> differ_in (tables l (mem s) p) (mem s) (mem s') \<and>
     held s' = held s \<and> kmst.more s' = kmst.more s)"

lemma frees_0:
  assumes "pt_inv kend 0 s F p" "bare 0 (mem s) p"
  shows "frees 0 kend p s F"
proof -
  have h: "km_free kend s F" "page kend p" "p \<notin> F" using assms(1) by (auto simp: pt_inv_def)
  have "freewalk_from kend p (of_nat 0) s = kfree kend p s"
    by (rule freewalk_page [OF h]) (use assms(2) in simp_all)
  then show ?thesis
    using km_free_free [OF h] unfolding frees_def km_frame_def differ_in_def by auto
qed

lemma freeing_step:
  fixes s :: "'z kmst_scheme"
  assumes inv: "pt_inv kend (Suc l) s F p" and b: "bare (Suc l) (mem s) p" and k: "k < 512"
    and f: "freeing kend l p s F k s1"
    and IH: "\<And>c (t :: 'z kmst_scheme) G. pt_inv kend l t G c \<Longrightarrow> bare l (mem t) c \<Longrightarrow> frees l kend c t G"
  shows "\<exists>s2. freeing kend l p s F (Suc k) s2 \<and>
     freewalk_from kend p (of_nat k) s1 = freewalk_from kend p (of_nat (Suc k)) s2"
proof -
  let ?i = "of_nat k :: u64" let ?B = "below l (mem s) p k"
  have i: "?i < 512" "unat ?i = k" using of_nat_index [OF k] by auto
  have wf: "wf_pt (Suc l) (page kend) (mem s) p" and TF: "tables (Suc l) (mem s) p \<inter> F = {}"
    using inv by (auto simp: pt_inv_def simp del: wf_pt.simps tables.simps)
  have pg: "page kend p" using wf by simp
  have bm: "page kend q" "q \<noteq> p" if "q \<in> ?B" for q using below_mem [OF wf _ that] k by auto
  have e: "entry (mem s1) p ?i = entry (mem s) p ?i" using f i by (auto simp: freeing_def)
  have next_i: "?i + 1 = of_nat (Suc k)" by simp
  show ?thesis
  proof (cases "child (mem s) p ?i")
    case None
    then have nv: "\<not> valid (entry (mem s1) p ?i)" using e by (simp add: child_def split: if_splits)
    have "freeing kend l p s F (Suc k) s1" using f None by (auto simp: freeing_def below_Suc)
    moreover have "freewalk_from kend p ?i s1 = freewalk_from kend p (of_nat (Suc k)) s1"
      using i(1) nv unfolding next_i [symmetric]
      by (subst freewalk_from.simps) (simp add: Let_def load_pte_def entry_def valid_def)
    ultimately show ?thesis by blast
  next
    case (Some c)
    note wc = wf_pt_child [OF wf i(1) Some]
    let ?T = "tables l (mem s) c"
    have c: "valid (entry (mem s) p ?i)" "PTE2PA (entry (mem s) p ?i) = c"
      using Some by (auto simp: child_def split: if_splits)
    have TB: "?T \<inter> ?B = {}" using below_mem(3) [OF wf _ _ k Some] k by auto
    have Tp: "page kend q" if "q \<in> ?T" for q using wf_pt_ok [OF wf] wc(3) that by blast
    have ag: "agree ?T (mem s) (mem s1)"
    proof (rule differ_in_agree)
      show "differ_in (insert p ?B) (mem s) (mem s1)" using f by (simp add: freeing_def)
      show "insert p ?B \<inter> ?T = {}" using TB wc(2) by auto
      show "aligned 12 q" if "q \<in> insert p ?B \<union> ?T" for q
        using that pg bm(1) Tp page_aligned by blast
    qed
    have Ts: "tables l (mem s1) c = ?T" by (rule tables_frame [OF ag])
    have "pt_inv kend l s1 (F \<union> ?B) c"
      using f wf_pt_frame [OF wc(1) ag] Ts TB TF wc(3) unfolding pt_inv_def freeing_def by blast
    moreover have "bare l (mem s1) c" by (rule bare_frame [OF _ ag]) (use b i(1) Some in simp)
    ultimately have "frees l kend c s1 (F \<union> ?B)" by (rule IH)
    then obtain s' where s': "freewalk_from kend c 0 s1 = Some s'" "km_free kend s' (F \<union> ?B \<union> ?T)"
        "differ_in ?T (mem s1) (mem s')" "held s' = held s1" "kmst.more s' = kmst.more s1"
      unfolding frees_def Ts by blast
    let ?s = "store_pte (p + 8 * ?i) 0 s'"
    have dp: "differ_in {p} (mem s') (mem ?s)"
      using store_entry_other [OF i(1), of p] by (simp add: differ_in_def)
    have pn: "p \<notin> F \<union> ?B \<union> ?T" using TF bm(2) wc(2) root_in_tables [of p "Suc l" "mem s"] by blast
    have "km_free kend (s'\<lparr>mem := store64 (p + 8 * ?i) 0 (mem s')\<rparr>) (F \<union> ?B \<union> ?T)"
      by (rule km_free_mem [OF s'(2), of "{p}"]) (use dp pn pg in auto)
    then have km: "km_free kend ?s (F \<union> below l (mem s) p (Suc k))"
      using Some by (simp add: store_pte_def below_Suc Un_assoc)
    have "differ_in (insert p (below l (mem s) p (Suc k))) (mem s) (mem ?s)"
    proof -
      have "differ_in (insert p ?B) (mem s) (mem s1)" using f by (simp add: freeing_def)
      from differ_in_trans [OF differ_in_trans [OF this s'(3)] dp] show ?thesis
        by (rule differ_in_mono) (use Some in \<open>auto simp: below_Suc\<close>)
    qed
    moreover have "entry (mem ?s) p j = entry (mem s) p j" if j: "j < 512" "Suc k \<le> unat j" for j
    proof -
      have "entry (mem s') p j = entry (mem s1) p j"
      proof (rule entry_frame [OF j(1)])
        fix a assume a: "in_page p a"
        have "agree {p} (mem s1) (mem s')"
          by (rule differ_in_agree [OF s'(3)]) (use wc(2) Tp pg page_aligned in auto)
        then show "mem s' a = mem s1 a" using a by (simp add: agree_def)
      qed
      moreover have "j \<noteq> ?i" using j(2) i(2) by auto
      ultimately show ?thesis
        using entry_store [OF page_aligned [OF pg] page_aligned [OF pg] i(1) j(1), of 0 "mem s'"] f j
        by (simp add: freeing_def)
    qed
    ultimately have "freeing kend l p s F (Suc k) ?s"
      using km s'(4,5) f by (simp add: freeing_def)
    moreover have "freewalk_from kend p ?i s1 = freewalk_from kend p (of_nat (Suc k)) ?s"
      using i(1) c e s'(1) wc(5) unfolding next_i [symmetric]
      by (subst freewalk_from.simps) (simp add: Let_def load_pte_def entry_def valid_def pointer_def)
    ultimately show ?thesis by blast
  qed
qed

lemma freeing_loop:
  fixes s :: "'z kmst_scheme"
  assumes inv: "pt_inv kend (Suc l) s F p" and b: "bare (Suc l) (mem s) p"
    and IH: "\<And>c (t :: 'z kmst_scheme) G. pt_inv kend l t G c \<Longrightarrow> bare l (mem t) c \<Longrightarrow> frees l kend c t G"
  shows "k \<le> 512 \<Longrightarrow> freeing kend l p s F k s1 \<Longrightarrow>
     \<exists>s'. freewalk_from kend p (of_nat k) s1 = Some s' \<and> km_free kend s' (F \<union> tables (Suc l) (mem s) p) \<and>
       differ_in (tables (Suc l) (mem s) p) (mem s) (mem s') \<and> held s' = held s \<and> kmst.more s' = kmst.more s"
proof (induction "512 - k" arbitrary: k s1)
  case 0
  have k: "k = 512" using 0 by simp
  have wf: "wf_pt (Suc l) (page kend) (mem s) p" and TF: "tables (Suc l) (mem s) p \<inter> F = {}"
    using inv by (auto simp: pt_inv_def simp del: wf_pt.simps tables.simps)
  let ?G = "F \<union> below l (mem s) p 512"
  have f: "km_free kend s1 ?G" "differ_in (tables (Suc l) (mem s) p) (mem s) (mem s1)"
      "held s1 = held s" "kmst.more s1 = kmst.more s"
    using 0(3) below_all [of p l "mem s"] unfolding k freeing_def by auto
  have pn: "p \<notin> ?G" using below_mem(2) [OF wf] TF root_in_tables [of p "Suc l" "mem s"] by blast
  have pg: "page kend p" using wf by simp
  obtain s' where s': "kfree kend p s1 = Some s'" "km_free kend s' (insert p ?G)" "km_frame p s1 s'"
    using km_free_free [OF f(1) pg pn] by blast
  have "differ_in {p} (mem s1) (mem s')" using s'(3) by (simp add: differ_in_def km_frame_def)
  from differ_in_trans [OF f(2) this] have "differ_in (tables (Suc l) (mem s) p) (mem s) (mem s')"
    by (rule differ_in_mono) (use root_in_tables in blast)
  moreover have "insert p ?G = F \<union> tables (Suc l) (mem s) p" using below_all [of p l "mem s"] by blast
  moreover have "freewalk_from kend p (of_nat k) s1 = Some s'"
    using s'(1) k by (subst freewalk_from.simps) simp
  ultimately show ?case using s'(2,3) f(3,4) by (auto simp: km_frame_def simp del: tables.simps)
next
  case (Suc n)
  have k: "k < 512" using Suc.hyps(2) by simp
  obtain s2 where "freeing kend l p s F (Suc k) s2"
      "freewalk_from kend p (of_nat k) s1 = freewalk_from kend p (of_nat (Suc k)) s2"
    using freeing_step [OF inv b k Suc.prems(2) IH] by blast
  then show ?case using Suc.hyps(1) [of "Suc k" s2] Suc.hyps(2) k by simp
qed

lemma freewalk_frees: "pt_inv kend l s F p \<Longrightarrow> bare l (mem s) p \<Longrightarrow> frees l kend p s F"
proof (induction l arbitrary: p s F)
  case 0
  then show ?case by (rule frees_0)
next
  case (Suc l)
  have "freeing kend l p s F 0 s" using Suc.prems(1) by (simp add: freeing_def pt_inv_def)
  from freeing_loop [OF Suc.prems Suc.IH _ this] show ?case by (simp add: frees_def)
qed

text \<open>The space maps nothing but the pages of \<open>V\<close>.\<close>

definition only_maps :: "memory \<Rightarrow> u64 \<Rightarrow> u64 set \<Rightarrow> bool" where
  "only_maps m root V \<longleftrightarrow>
     (\<forall>va. valid (leaf 2 m root va) \<longrightarrow> PX 2 va < 256 \<and> (va < MAXVA \<longrightarrow> PGROUNDDOWN va \<in> V))"

lemma lt_MAXVA_bits:
  assumes "\<And>n. 38 \<le> n \<Longrightarrow> \<not> bit v n"
  shows "v < MAXVA"
proof -
  have "v = take_bit 38 v" by (rule bit_word_eqI) (use assms in \<open>force simp: bit_take_bit_iff not_less [symmetric]\<close>)
  then have "unat v = take_bit 38 (unat v)" by (metis unsigned_take_bit_eq)
  then have "unat v < 2 ^ 38" by (metis take_bit_nat_less_exp)
  then show ?thesis by (simp add: MAXVA_unat)
qed

lemma low_alias:
  assumes "PX 2 va < 256"
  shows "\<exists>vb < MAXVA. \<forall>m p. leaf 2 m p vb = leaf 2 m p va"
proof -
  let ?v = "va_of (PX 2 va) (PX 1 va) (PX 0 va)"
  note e = PX_va_of [OF PX_lt PX_lt PX_lt, of 2 va 1 va 0 va]
  have "same_path 2 ?v va" using e by (auto simp: same_path_def le_Suc_eq numeral_2_eq_2)
  then have "leaf 2 m p ?v = leaf 2 m p va" for m p
    using slot_same_path [of 2 ?v va m p] by (simp add: leaf_slot)
  moreover have "?v < MAXVA"
  proof (rule lt_MAXVA_bits)
    fix n :: nat assume n: "38 \<le> n"
    have "\<not> bit (PX 2 va) (n - 30)"
    proof
      assume b: "bit (PX 2 va) (n - 30)"
      have "unat (PX 2 va) < 2 ^ 8" using assms by (simp add: word_less_nat_alt)
      also have "(2 :: nat) ^ 8 \<le> 2 ^ (n - 30)" using n by (intro power_increasing) simp_all
      finally have "\<not> bit (unat (PX 2 va)) (n - 30)" by (simp add: bit_iff_odd)
      then show False using b bit_imp_le_length [OF b] by (simp add: bit_unsigned_iff)
    qed
    moreover have "\<not> bit (PX 1 va) (n - 21)" "\<not> bit (PX 0 va) (n - 12)"
      using bit_small [OF PX_lt, of 1 va "n - 21"] bit_small [OF PX_lt, of 0 va "n - 12"] n by auto
    ultimately show "\<not> bit ?v n" by (auto simp: va_of_def bit_or_iff bit_push_bit_iff)
  qed
  ultimately show ?thesis by blast
qed

text \<open>
  C12: freeing an address space puts all of its pages, the frames and the
  tables of every level, back on the free list, and never panics on a leaf.
\<close>

theorem uvmfree_returns_all:
  assumes u: "uspace kend s F root V" and V: "V = vpages 0 (npages 0 sz)" and sz: "sz \<le> MAXVA"
    and only: "only_maps (mem s) root V"
  shows "\<exists>s'. uvmfree kend root sz s = Some s' \<and> km_free kend s' (F \<union> space_pages (mem s) root V) \<and>
     differ_in (space_pages (mem s) root V) (mem s) (mem s')"
proof -
  let ?n = "npages 0 sz" let ?T = "tables 2 (mem s) root" let ?f = "frames_of (mem s) root V"
  have b: "unat sz \<le> 2 ^ 38" using sz by (simp add: MAXVA_def word_le_nat_alt)
  have ru: "PGROUNDUP 0 = 0" by (simp add: PGROUNDUP_def PGSIZE_def)
  note na = npages_add [OF word_zero_le b, unfolded ru]
  have al: "aligned 12 0" by (simp add: aligned_def)
  have n: "PGROUNDUP sz div PGSIZE = of_nat ?n"
  proof (rule unsigned_word_eqI)
    have "?n \<le> 67108864" using na(1,3) by simp
    then show "unat (PGROUNDUP sz div PGSIZE) = unat (of_nat ?n :: u64)"
      using na(1) by (simp add: unat_div PGSIZE_def unat_of_nat take_bit_nat_eq_self)
  qed
  obtain s1 where s1: "uvmunmap kend root 0 (of_nat ?n) True s = Some s1"
      "uspace kend s1 (F \<union> ?f) root (V - V)" "tables 2 (mem s1) root = ?T"
      "differ_in (?T \<union> ?f) (mem s) (mem s1)"
      "\<forall>vb < MAXVA. leaf 2 (mem s1) root vb = (if PGROUNDDOWN vb \<in> V then 0 else leaf 2 (mem s) root vb)"
      "high_same root s s1"
    using uvmunmap_free [OF u al, of ?n] na V by (auto simp: V)
  have e: "(if 0 < sz then uvmunmap kend root 0 (PGROUNDUP sz div PGSIZE) True s else Some s) = Some s1"
  proof (cases "sz = 0")
    case True
    then have "?n = 0" using na(1) ru by simp
    then have "uvmunmap kend root 0 (of_nat ?n) True s = Some s"
      by (simp add: uvmunmap_def uvmunmap_loop.simps [of _ _ 0 0])
    then show ?thesis using s1(1) True by simp
  next
    case False
    then show ?thesis using s1(1) n by (simp add: word_neq_0_conv)
  qed
  have "\<not> valid (leaf 2 (mem s1) root va)" for va
  proof (cases "PX 2 va < 256")
    case False
    then show ?thesis using s1(6) only by (auto simp: high_same_def only_maps_def not_less)
  next
    case True
    then obtain vb where vb: "vb < MAXVA" "\<And>m p. leaf 2 m p vb = leaf 2 m p va" using low_alias by blast
    then have "leaf 2 (mem s1) root va = (if PGROUNDDOWN vb \<in> V then 0 else leaf 2 (mem s) root vb)"
      using s1(5) by metis
    then show ?thesis using only vb(1) by (auto simp: only_maps_def)
  qed
  then have "bare 2 (mem s1) root" by (rule bare_leaves)
  from freewalk_frees [OF uspace_pt [OF s1(2)] this] obtain s' where s':
      "freewalk_from kend root 0 s1 = Some s'" "km_free kend s' (F \<union> ?f \<union> ?T)" "differ_in ?T (mem s1) (mem s')"
    unfolding frees_def s1(3) by blast
  have "differ_in (?T \<union> ?f) (mem s) (mem s')"
    by (rule differ_in_mono [OF differ_in_trans [OF s1(4) s'(3)]]) blast
  moreover have "F \<union> ?f \<union> ?T = F \<union> (?T \<union> ?f)" by blast
  ultimately show ?thesis using e s'(1,2) by (auto simp: uvmfree_def freewalk_def space_pages_def)
qed

subsection \<open>Copying an address space\<close>

text \<open>A space whose pages lie apart is not affected by the growth of another one.\<close>

definition apart :: "memory \<Rightarrow> u64 \<Rightarrow> u64 \<Rightarrow> u64 set \<Rightarrow> bool" where
  "apart m root old W \<longleftrightarrow> tables 2 m root \<inter> space_pages m old W = {}"

lemma other_space:
  assumes o: "uspace kend s F old W" and ap: "apart (mem s) root old W"
    and r: "pt_inv kend 2 s F root" and km: "km_free kend s' F'" "F' \<subseteq> F"
    and d: "differ_in (tables 2 (mem s) root \<union> F) (mem s) (mem s')"
  shows "uspace kend s' F' old W \<and> tables 2 (mem s') old = tables 2 (mem s) old \<and>
         (\<forall>va. leaf 2 (mem s') old va = leaf 2 (mem s) old va) \<and>
         agree (space_pages (mem s) old W) (mem s) (mem s')"
proof (rule uspace_frame [OF o d _ _ km(1)])
  show "(tables 2 (mem s) root \<union> F) \<inter> space_pages (mem s) old W = {}"
    using ap space_pages_ok(2) [OF o] by (auto simp: apart_def)
  show "aligned 12 p" if "p \<in> tables 2 (mem s) root \<union> F" for p
    using that r wf_pt_ok [of 2 "page kend" "mem s" root p] free_pages_ok [OF r] page_aligned
    by (auto simp: pt_inv_def)
  show "F' \<inter> space_pages (mem s) old W = {}" using km(2) space_pages_ok(2) [OF o] by blast
qed

lemma grown_other:
  assumes "uspace kend s F old W" "apart (mem s) root old W" "uspace kend s F root V"
    and g: "grown kend root s F V s' F' a k fl c"
  shows "uspace kend s' F' old W \<and> tables 2 (mem s') old = tables 2 (mem s) old \<and>
         (\<forall>va. leaf 2 (mem s') old va = leaf 2 (mem s) old va) \<and>
         agree (space_pages (mem s) old W) (mem s) (mem s')"
  using grownD(1,3) [OF g] grownD(4) [OF g]
  by (intro other_space [OF assms(1,2) uspace_pt [OF assms(3)]]) (auto simp: uspace_def pt_inv_def)

lemma kept_other:
  assumes "uspace kend s F old W" "apart (mem s) root old W" "uspace kend s F root V"
    and g: "kept kend root s F V s' F'"
  shows "uspace kend s' F' old W \<and> tables 2 (mem s') old = tables 2 (mem s) old \<and>
         (\<forall>va. leaf 2 (mem s') old va = leaf 2 (mem s) old va) \<and>
         agree (space_pages (mem s) old W) (mem s) (mem s')"
proof (rule other_space [OF assms(1,2) uspace_pt [OF assms(3)]])
  show "km_free kend s' F'" using g by (simp add: kept_def uspace_def pt_inv_def)
  show "F' \<subseteq> F" using g unfolding kept_def by blast
  show "differ_in (tables 2 (mem s) root \<union> F) (mem s) (mem s')" using g unfolding kept_def by blast
qed

definition copied_flags :: "memory \<Rightarrow> u64 \<Rightarrow> u64 \<Rightarrow> u64" where
  "copied_flags m old va = PTE_FLAGS (leaf 2 m old va)"

definition copied_bytes :: "memory \<Rightarrow> u64 \<Rightarrow> u64 \<Rightarrow> u64 \<Rightarrow> u8" where
  "copied_bytes m old va i = m (frame_of m old va + i)"

lemma memmove_page:
  assumes "page kend p" "page kend q"
  shows "memmove p q (ucast PGSIZE) m = (\<lambda>a. if in_page p a then m (q + (a - p)) else m a)"
proof
  fix a
  have "unat r + 4096 \<le> 2 ^ 64" if "page kend r" for r
    using that by (auto simp: page_def word_less_nat_alt unat_PHYSTOP)
  from this [OF assms(1)] this [OF assms(2)]
  show "memmove p q (ucast PGSIZE) m a = (if in_page p a then m (q + (a - p)) else m a)"
    by (simp add: memmove_at PGSIZE_def in_page_def)
qed

lemma flags_owned:
  assumes "uspace kend s F old W" "va \<in> W"
  shows "take_bit 10 (PTE_FLAGS (leaf 2 (mem s) old va)) = PTE_FLAGS (leaf 2 (mem s) old va)"
    "PTE_FLAGS (leaf 2 (mem s) old va) OR PTE_V = PTE_FLAGS (leaf 2 (mem s) old va)"
    "PTE_FLAGS (leaf 2 (mem s) old va) OR PTE_V \<noteq> PTE_V"
proof -
  let ?f = "PTE_FLAGS (leaf 2 (mem s) old va)"
  show "take_bit 10 ?f = ?f" by (simp add: PTE_FLAGS_take)
  have "bit ?f 0" using uspaceD(3) [OF assms] by (simp add: PTE_FLAGS_take bit_take_bit_iff valid_bit)
  then show e: "?f OR PTE_V = ?f"
    by (intro bit_word_eqI) (auto simp: bit_or_iff PTE_V_def bit_1_iff)
  show "?f OR PTE_V \<noteq> PTE_V" using uspaceD(4) [OF assms] e by simp
qed

lemma pages_div:
  assumes "4096 * k \<le> 2 ^ 38"
  shows "(of_nat k * PGSIZE) div PGSIZE = (of_nat k :: u64)"
proof (rule unsigned_word_eqI)
  have "unat (of_nat k * PGSIZE) = 4096 * k" using unat_add_pages [of 0 k] assms by simp
  then show "unat ((of_nat k * PGSIZE) div PGSIZE) = unat (of_nat k :: u64)"
    using assms by (simp add: unat_div PGSIZE_def unat_of_nat take_bit_nat_eq_self)
qed

lemma uvmcopy_loop_grown:
  assumes "grown kend new s F V s1 F1 0 k (copied_flags (mem s) old) (copied_bytes (mem s) old)"
    and u: "uspace kend s F new V" and o: "uspace kend s F old W" and ap: "apart (mem s) new old W"
    and b: "4096 * (k + j) \<le> 2 ^ 38" and W: "vpages 0 (k + j) \<subseteq> W"
    and un: "\<And>vb. vb < MAXVA \<Longrightarrow> PGROUNDDOWN vb \<in> vpages 0 (k + j) \<Longrightarrow> leaf 2 (mem s) new vb = 0"
    and n: "unat sz \<le> 4096 * (k + j)" "4096 * (k + j) < unat sz + 4096"
  shows "\<exists>r s' F'. uvmcopy_loop kend old new (of_nat k * PGSIZE) sz s1 = Some (r, s') \<and>
     (r = 0 \<and> grown kend new s F V s' F' 0 (k + j) (copied_flags (mem s) old) (copied_bytes (mem s) old) \<or>
      r = - 1 \<and> kept kend new s F V s' F')"
  using assms(1) b W un n
proof (induction j arbitrary: k s1 F1)
  case 0
  have "unat (0 + of_nat k * PGSIZE) = unat (0 :: u64) + 4096 * k" by (rule unat_add_pages) (use 0 in simp)
  then have "\<not> of_nat k * PGSIZE < sz" using 0 by (simp add: word_less_nat_alt)
  then show ?case using 0 by (subst uvmcopy_loop.simps) auto
next
  case (Suc j)
  let ?va = "of_nat k * PGSIZE" let ?f = "copied_flags (mem s) old" let ?c = "copied_bytes (mem s) old"
  note g = Suc.prems(1)
  have al: "aligned 12 0" by (simp add: aligned_def)
  have kn: "k < k + Suc j" by simp
  have b': "unat (0 :: u64) + 4096 * (k + Suc j) \<le> 2 ^ 38" using Suc.prems(2) by simp
  note nx = grown_next [OF g al b' kn Suc.prems(4), unfolded add_0]
  have ud: "\<exists>s' F'. uvmunmap kend new 0 (?va div PGSIZE) True t = Some s' \<and> kept kend new s F V s' F'"
    if "grown kend new s F V t G 0 k ?f ?c" for t G
    using grown_dealloc(2) [OF that al b' less_imp_le [OF kn] u Suc.prems(4)] pages_div [of k] Suc.prems(2)
    by simp
  have lt: "?va < sz" using nx(3) Suc.prems(6) by (simp add: word_less_nat_alt)
  have vW: "?va \<in> W"
    using Suc.prems(3) vpages_mono [of "Suc k" "k + Suc j" 0] vpages_snoc [of 0 k] by auto
  note ot = grown_other [OF o ap u g]
  then have o1: "uspace kend s1 F1 old W" and L1: "leaf 2 (mem s1) old ?va = leaf 2 (mem s) old ?va"
    and A1: "agree (space_pages (mem s) old W) (mem s) (mem s1)" by blast+
  have wf1: "wf_pt 2 (page kend) (mem s1) old" using o1 by (simp add: uspace_def pt_inv_def)
  let ?pa = "frame_of (mem s) old ?va"
  have pa: "page kend ?pa" "?pa \<in> space_pages (mem s) old W"
    using uspaceD(5) [OF o vW] vW by (auto simp: space_pages_def frames_of_def)
  obtain b where w: "walk old ?va False s1 = Some (b, s1)" "b \<noteq> 0" "load_pte b s1 = leaf 2 (mem s) old ?va"
    using walk_found [OF wf1 nx(2)] uspaceD(3) [OF o vW] L1 by metis
  have vl: "load_pte b s1 AND PTE_V \<noteq> 0" using uspaceD(3) [OF o vW] w(3) by (simp add: valid_def)
  have pe: "PTE2PA (load_pte b s1) = ?pa" "PTE_FLAGS (load_pte b s1) = ?f ?va"
    using w(3) by (simp_all add: frame_of_def copied_flags_def)
  note simps = uvmcopy_loop.simps [of kend old new ?va sz s1]
  note fo = flags_owned [OF o vW, folded copied_flags_def]
  have pa1: "?pa \<notin> F1" using space_pages_ok(2) [OF o1] pa(2) ot uspaceD(6) [OF o1 vW] by (simp add: frame_of_def)
  show ?case
  proof (cases "F1 = {}")
    case True
    have u1: "uspace kend s1 {} new (V \<union> vpages 0 k)" using grownD(1) [OF g] True by simp
    have "grown kend new s F V (inc_freecnt s1) {} 0 k ?f ?c"
      by (rule grown_more [OF g take_no_page(2) [OF u1]]) (use True in auto)
    from ud [OF this] show ?thesis
      using lt w(1,2) vl take_no_page(1) [OF u1] by (auto simp: simps)
  next
    case False
    have nv: "\<not> valid (leaf 2 (mem s1) new ?va)" using nx(4) by simp
    obtain p s2 where k: "kalloc s1 = Some (p, s2)" "p \<noteq> 0" "p \<in> F1" "page kend p" "differ_in {p} (mem s1) (mem s2)"
      and st: "\<And>m. differ_in {p} (mem s2) m \<Longrightarrow> page_has p (?c ?va) m \<Longrightarrow>
       \<exists>r s3. mappages new ?va PGSIZE p (?f ?va) (s2\<lparr>mem := m\<rparr>) = Some (r, s3) \<and>
          (r = 0 \<and> (\<exists>F3. grown kend new s F V s3 F3 0 (Suc k) ?f ?c) \<or>
           r = - 1 \<and> (\<exists>s4 F4. kfree kend p s3 = Some s4 \<and> grown kend new s F V s4 F4 0 k ?f ?c))"
      using grow_step [OF g _ nx(1,2) nv False fo(1,3) fo(2) [symmetric]] by auto
    let ?m = "memmove p ?pa (ucast PGSIZE) (mem s2)"
    have "differ_in {p} (mem s2) ?m" by (simp add: memmove_page [OF k(4) pa(1)] differ_in_def)
    moreover have "page_has p (?c ?va) ?m"
    proof -
      have "agree {?pa} (mem s1) (mem s2)"
        by (rule differ_in_agree [OF k(5)]) (use k(3,4) pa pa1 page_aligned in auto)
      then have ag: "agree {?pa} (mem s) (mem s2)"
        using agree_trans [OF agree_mono [OF A1, of "{?pa}"]] pa(2) by simp
      have "in_page ?pa (?pa + (a - p))" if "in_page p a" for a using that by (simp add: in_page_def)
      then show ?thesis
        using ag by (auto simp: page_has_def memmove_page [OF k(4) pa(1)] copied_bytes_def agree_def)
    qed
    ultimately obtain r s3 where m: "mappages new ?va PGSIZE p (?f ?va) (s2\<lparr>mem := ?m\<rparr>) = Some (r, s3)"
      and c: "r = 0 \<and> (\<exists>F3. grown kend new s F V s3 F3 0 (Suc k) ?f ?c) \<or>
           r = - 1 \<and> (\<exists>s4 F4. kfree kend p s3 = Some s4 \<and> grown kend new s F V s4 F4 0 k ?f ?c)"
      using st [of ?m] by blast
    from c show ?thesis
    proof
      assume r: "r = 0 \<and> (\<exists>F3. grown kend new s F V s3 F3 0 (Suc k) ?f ?c)"
      then obtain F3 where g3: "grown kend new s F V s3 F3 0 (Suc k) ?f ?c" by blast
      have e: "?va + PGSIZE = of_nat (Suc k) * PGSIZE" by (simp add: algebra_simps)
      have "uvmcopy_loop kend old new ?va sz s1 = uvmcopy_loop kend old new (of_nat (Suc k) * PGSIZE) sz s3"
        using lt w(1,2) vl k(1,2) m r unfolding e [symmetric] by (simp add: simps pe Let_def)
      with Suc.IH [OF g3] Suc.prems(2-) show ?thesis by simp
    next
      assume r: "r = - 1 \<and> (\<exists>s4 F4. kfree kend p s3 = Some s4 \<and> grown kend new s F V s4 F4 0 k ?f ?c)"
      then obtain s4 F4 where g4: "kfree kend p s3 = Some s4" "grown kend new s F V s4 F4 0 k ?f ?c" by blast
      from ud [OF g4(2)] show ?thesis
        using lt w(1,2) vl k(1,2) m r g4(1) by (auto simp: simps pe Let_def)
    qed
  qed
qed

text \<open>
  C13: copying a user address space gives the child, for every page of the parent,
  a page of its own with the same bytes and the same flags; or, when memory runs out, it returns -1
  with the child as before and every page of the copy given back.  In both cases the parent's
  tables, translations and memory are untouched, and nothing panics.
\<close>

theorem uvmcopy_copies:
  assumes o: "uspace kend s F old W" and u: "uspace kend s F new V" and ap: "apart (mem s) new old W"
    and sz: "sz \<le> MAXVA" and W: "vpages 0 (npages 0 sz) \<subseteq> W" and un: "unmapped (mem s) new 0 sz"
  shows "\<exists>r s' F'. uvmcopy kend old new sz s = Some (r, s') \<and>
     (r = 0 \<and> grown kend new s F V s' F' 0 (npages 0 sz) (copied_flags (mem s) old) (copied_bytes (mem s) old) \<or>
      r = - 1 \<and> kept kend new s F V s' F') \<and>
     uspace kend s' F' old W \<and> (\<forall>va. leaf 2 (mem s') old va = leaf 2 (mem s) old va) \<and>
     agree (space_pages (mem s) old W) (mem s) (mem s')"
proof -
  let ?n = "npages 0 sz" let ?f = "copied_flags (mem s) old" let ?c = "copied_bytes (mem s) old"
  have b: "unat sz \<le> 2 ^ 38" using sz by (simp add: MAXVA_def word_le_nat_alt)
  have ru: "PGROUNDUP 0 = 0" by (simp add: PGROUNDUP_def PGSIZE_def)
  note na = npages_add [OF word_zero_le b, unfolded ru]
  have b': "4096 * (0 + ?n) \<le> 2 ^ 38" using na by simp
  have W': "vpages 0 (0 + ?n) \<subseteq> W" using W by simp
  have ru': "unat sz \<le> unat (PGROUNDUP sz)" "unat (PGROUNDUP sz) < unat sz + 4096"
    using b by (simp_all add: unat_PGROUNDUP)
  have un': "vb < MAXVA \<Longrightarrow> PGROUNDDOWN vb \<in> vpages 0 (0 + ?n) \<Longrightarrow> leaf 2 (mem s) new vb = 0" for vb
    using unmapped_vpages [OF un word_zero_le b] ru by simp
  obtain r s' F' where r: "uvmcopy kend old new sz s = Some (r, s')"
    and c: "r = 0 \<and> grown kend new s F V s' F' 0 ?n ?f ?c \<or> r = - 1 \<and> kept kend new s F V s' F'"
    using uvmcopy_loop_grown [OF grown_0 [OF u] u o ap b' W' un', of sz] na ru' by (auto simp: uvmcopy_def)
  have "uspace kend s' F' old W \<and> tables 2 (mem s') old = tables 2 (mem s) old \<and>
      (\<forall>va. leaf 2 (mem s') old va = leaf 2 (mem s) old va) \<and> agree (space_pages (mem s) old W) (mem s) (mem s')"
    using c grown_other [OF o ap u] kept_other [OF o ap u] by blast
  then show ?thesis using r c by blast
qed

subsection \<open>A process with one page\<close>

definition tiny_root :: u64 where "tiny_root = 0x80301000"

definition tiny_pte :: u64 where "tiny_pte = PA2PTE 0x80304000 OR 0x17"

definition tiny_mem :: memory where
  "tiny_mem =
     store64 (0x80301000 + 8 * 0) (PA2PTE 0x80302000 OR PTE_V)
      (store64 (0x80302000 + 8 * 0) (PA2PTE 0x80303000 OR PTE_V)
        (store64 (0x80303000 + 8 * 0) tiny_pte (\<lambda>_. 0)))"

definition tiny :: kmst where
  "tiny = \<lparr>held = [], mem = tiny_mem, freelist = 0x80300000, g_freecnt = 0\<rparr>"

lemma tiny_entry:
  assumes "aligned 12 p" "i < 512"
  shows "entry tiny_mem p i = (if p = 0x80301000 \<and> i = 0 then PA2PTE 0x80302000 OR PTE_V
     else if p = 0x80302000 \<and> i = 0 then PA2PTE 0x80303000 OR PTE_V
     else if p = 0x80303000 \<and> i = 0 then tiny_pte else 0)"
proof -
  have al: "aligned 12 (0x80301000 :: u64)" "aligned 12 (0x80302000 :: u64)" "aligned 12 (0x80303000 :: u64)"
    by (simp_all add: aligned12_mod PGSIZE_def)
  have z: "entry (\<lambda>_. 0) p i = 0" by (simp add: entry_def load64_zero)
  have i0: "(0 :: u64) < 512" by simp
  show ?thesis
    unfolding tiny_mem_def entry_store [OF al(1) assms(1) i0 assms(2)] entry_store [OF al(2) assms(1) i0 assms(2)]
      entry_store [OF al(3) assms(1) i0 assms(2)] z by (rule refl)
qed

lemma tiny_child:
  assumes "aligned 12 p" "i < 512"
  shows "child tiny_mem p i = (if p = 0x80301000 \<and> i = 0 then Some 0x80302000
     else if p = 0x80302000 \<and> i = 0 then Some 0x80303000
     else if p = 0x80303000 \<and> i = 0 then Some 0x80304000 else None)"
proof -
  have "valid (PA2PTE q OR PTE_V)" for q by (simp add: valid_PA2PTE) (simp add: valid_def PTE_V_def)
  moreover have "valid tiny_pte" unfolding tiny_pte_def valid_PA2PTE by (simp add: valid_def PTE_V_def)
  moreover have "PTE2PA (PA2PTE 0x80302000 OR PTE_V) = 0x80302000" "PTE2PA (PA2PTE 0x80303000 OR PTE_V) = 0x80303000"
      "PTE2PA tiny_pte = 0x80304000"
    by (simp_all add: PTE2PA_def PA2PTE_def PTE_V_def tiny_pte_def)
  ultimately show ?thesis unfolding child_def tiny_entry [OF assms] by simp
qed

lemma tiny_aligned:
  "aligned 12 (0x80301000 :: u64)" "aligned 12 (0x80302000 :: u64)" "aligned 12 (0x80303000 :: u64)"
  by (simp_all add: aligned12_mod PGSIZE_def)

lemma tiny_children:
  assumes "i < 512"
  shows "child tiny_mem 0x80301000 i = (if i = 0 then Some 0x80302000 else None)"
    "child tiny_mem 0x80302000 i = (if i = 0 then Some 0x80303000 else None)"
    "entry tiny_mem 0x80303000 i = (if i = 0 then tiny_pte else 0)"
  using tiny_child [OF tiny_aligned(1) assms] tiny_child [OF tiny_aligned(2) assms]
    tiny_entry [OF tiny_aligned(3) assms] by simp_all

lemma tiny_tables:
  "tables 0 tiny_mem 0x80303000 = {0x80303000}"
  "tables (Suc 0) tiny_mem 0x80302000 = {0x80302000, 0x80303000}"
  "tables 2 tiny_mem tiny_root = {0x80301000, 0x80302000, 0x80303000}"
proof -
  show 0: "tables 0 tiny_mem 0x80303000 = {0x80303000}" by simp
  have "x \<in> tables (Suc 0) tiny_mem 0x80302000 \<longleftrightarrow> x = 0x80302000 \<or> x = 0x80303000" for x
    unfolding in_tables_Suc by (auto simp: tiny_children split: if_splits)
  then show 1: "tables (Suc 0) tiny_mem 0x80302000 = {0x80302000, 0x80303000}" by blast
  have "x \<in> tables (Suc (Suc 0)) tiny_mem 0x80301000 \<longleftrightarrow>
      x = 0x80301000 \<or> x \<in> tables (Suc 0) tiny_mem 0x80302000" for x
    unfolding in_tables_Suc [of x "Suc 0"]
    by (auto simp: tiny_children split: if_splits simp del: tables.simps)
  then show "tables 2 tiny_mem tiny_root = {0x80301000, 0x80302000, 0x80303000}"
    unfolding tiny_root_def numeral_2_eq_2 1 by blast
qed

lemma tiny_page:
  "page 0x80300000 0x80300000" "page 0x80300000 0x80301000" "page 0x80300000 0x80302000"
  "page 0x80300000 0x80303000" "page 0x80300000 0x80304000" "page 0x80300000 0x80305000"
  by (simp_all add: page_def aligned12_mod PGSIZE_def PHYSTOP_def KERNBASE_def)

lemma tiny_wf: "wf_pt 2 (page 0x80300000) tiny_mem tiny_root"
proof -
  have 1: "wf_pt (Suc 0) (page 0x80300000) tiny_mem 0x80302000"
    using tiny_page tiny_entry [OF tiny_aligned(2)] pointer_PA2PTE
    by (auto simp: tiny_children split: if_splits)
  show ?thesis
    unfolding numeral_2_eq_2 wf_pt.simps(2) [of "Suc 0"] tiny_root_def
    using 1 tiny_page tiny_entry [OF tiny_aligned(1)] pointer_PA2PTE tiny_tables(2)
    by (auto simp: tiny_children split: if_splits simp del: wf_pt.simps tables.simps)
qed

lemma tiny_leaf:
  "leaf 2 tiny_mem tiny_root va = (if PX 2 va = 0 \<and> PX 1 va = 0 \<and> PX 0 va = 0 then tiny_pte else 0)"
proof -
  have 2: "(2 :: nat) = Suc (Suc 0)" by simp
  show ?thesis unfolding 2 One_nat_def leaf.simps tiny_root_def by (simp add: tiny_children PX_lt)
qed

lemma tiny_leaf_0: "leaf 2 tiny_mem tiny_root 0 = tiny_pte"
  by (simp add: tiny_leaf PX_def)

lemma tiny_frame: "frame_of tiny_mem tiny_root 0 = 0x80304000"
  by (simp add: frame_of_def tiny_leaf_0 PTE2PA_def PA2PTE_def tiny_pte_def)

lemma tiny_free: "km_free 0x80300000 tiny {0x80300000}"
proof -
  have "load64 tiny_mem 0x80300000 = entry tiny_mem 0x80300000 0" by (simp add: entry_def)
  also have "\<dots> = 0" using tiny_entry [OF page_aligned [OF tiny_page(1)], of 0] by simp
  finally have "kmem_inv 0x80300000 tiny [0x80300000]"
    using tiny_page(1) by (simp add: kmem_inv_def tiny_def)
  then show ?thesis by (auto simp: km_free_def tiny_def)
qed

lemma tiny_space: "uspace 0x80300000 tiny {0x80300000} tiny_root {0}"
proof -
  have "valid tiny_pte" unfolding tiny_pte_def valid_PA2PTE by (simp add: valid_def PTE_V_def)
  moreover have "PTE_FLAGS tiny_pte \<noteq> PTE_V" by (simp add: tiny_pte_def PTE_FLAGS_def PTE_V_def PA2PTE_def)
  moreover have "pt_inv 0x80300000 2 tiny {0x80300000} tiny_root"
    using tiny_free tiny_wf tiny_tables(3) by (simp add: pt_inv_def tiny_def)
  ultimately show ?thesis
    using tiny_tables(3) tiny_page(5) tiny_frame
    by (simp add: uspace_def tiny_def tiny_leaf_0 MAXVA_def aligned_def)
qed

lemma tiny_new_zero: "zeroed 0x80305000 (mem tiny)"
proof -
  have "store64 (p + 8 * 0) v m a = m a" if "in_page 0x80305000 a" "aligned 12 p" "p \<noteq> 0x80305000" for p v m a
    using store_entry_other [of 0 p a v m] in_page_disjoint [OF page_aligned [OF tiny_page(6)] that(2)] that by simp
  then show ?thesis using tiny_aligned by (simp add: zeroed_def tiny_def tiny_mem_def)
qed

lemma tiny_new: "uspace 0x80300000 tiny {0x80300000} 0x80305000 {}"
  using empty_table [OF tiny_new_zero] tiny_page(6) tiny_free by (simp add: uspace_def pt_inv_def)

lemma tiny_apart: "apart (mem tiny) 0x80305000 tiny_root {0}"
  using empty_table(1) [OF tiny_new_zero, of 2] tiny_tables(3) tiny_frame
  by (simp add: apart_def space_pages_def frames_of_def tiny_def)

theorem uvmcopy_copies_witness:
  "\<exists>r s' F'. uvmcopy 0x80300000 tiny_root 0x80305000 4096 tiny = Some (r, s') \<and>
     (r = 0 \<and> grown 0x80300000 0x80305000 tiny {0x80300000} {} s' F' 0 (npages 0 4096)
        (copied_flags (mem tiny) tiny_root) (copied_bytes (mem tiny) tiny_root) \<or>
      r = - 1 \<and> kept 0x80300000 0x80305000 tiny {0x80300000} {} s' F') \<and>
     uspace 0x80300000 s' F' tiny_root {0} \<and>
     (\<forall>va. leaf 2 (mem s') tiny_root va = leaf 2 (mem tiny) tiny_root va) \<and>
     agree (space_pages (mem tiny) tiny_root {0}) (mem tiny) (mem s')"
  by (rule uvmcopy_copies [OF tiny_space tiny_new tiny_apart])
    (simp_all add: MAXVA_def npages_def PGROUNDUP_def PGSIZE_def vpages_Suc unmapped_def
      empty_table(3) [OF tiny_new_zero])

lemma tiny_only: "only_maps (mem tiny) tiny_root {0}"
  unfolding only_maps_def
proof (intro allI impI conjI)
  fix va assume v: "valid (leaf 2 (mem tiny) tiny_root va)"
  then have z: "PX 2 va = 0" "PX 1 va = 0" "PX 0 va = 0" by (auto simp: tiny_def tiny_leaf split: if_splits)
  then show "PX 2 va < 256" by simp
  assume va: "va < MAXVA"
  have "same_path 2 va 0" using z by (auto simp: same_path_def le_Suc_eq numeral_2_eq_2 PX_def)
  then have "PGROUNDDOWN va = PGROUNDDOWN 0" using va by (simp add: same_path_page MAXVA_def)
  then show "PGROUNDDOWN va \<in> {0}" by (simp add: PGROUNDDOWN_def)
qed

theorem uvmfree_returns_all_witness:
  "\<exists>s'. uvmfree 0x80300000 tiny_root 4096 tiny = Some s' \<and>
     km_free 0x80300000 s' ({0x80300000} \<union> space_pages (mem tiny) tiny_root {0}) \<and>
     differ_in (space_pages (mem tiny) tiny_root {0}) (mem tiny) (mem s')"
  by (rule uvmfree_returns_all [OF tiny_space])
    (simp_all add: npages_def MAXVA_def PGROUNDUP_def PGSIZE_def vpages_Suc tiny_only)

subsection \<open>Bytes in and out of a process\<close>

definition reachable :: "memory \<Rightarrow> u64 \<Rightarrow> u64 set" where
  "reachable m root = tables 2 m root \<union> {PTE2PA (leaf 2 m root va) |va. user_ok m root va}"

text \<open>A kernel buffer that meets neither a table nor a page of the process.\<close>

definition clear_of :: "memory \<Rightarrow> u64 \<Rightarrow> u64 \<Rightarrow> nat \<Rightarrow> bool" where
  "clear_of m root a n \<longleftrightarrow> unat a + n \<le> 2 ^ 64 \<and>
     (\<forall>b. unat (b - a) < n \<longrightarrow> (\<forall>p \<in> reachable m root. \<not> in_page p b))"

lemma user_ok_page: "PGROUNDDOWN va = PGROUNDDOWN vb \<Longrightarrow> user_ok m root va = user_ok m root vb"
proof -
  assume e: "PGROUNDDOWN va = PGROUNDDOWN vb"
  have lm: "va < MAXVA \<longleftrightarrow> PGROUNDDOWN va < MAXVA" for va
    using div_less_iff_less_mult [of 4096 "unat va" 67108864] by (simp add: MAXVA_unat unat_PGROUNDDOWN)
  show ?thesis
    using e leaf_PGROUNDDOWN [of va m root] leaf_PGROUNDDOWN [of vb m root] lm [of va] lm [of vb]
    unfolding user_ok_def by metis
qed

lemma same_page_add:
  assumes "unat (va - PGROUNDDOWN va) + i < 4096"
  shows "PGROUNDDOWN (va + of_nat i) = PGROUNDDOWN va"
proof -
  let ?v = "PGROUNDDOWN va"
  have o: "unat (va - ?v) = unat va - unat ?v" using PGROUNDDOWN_le by (rule unat_sub)
  have le: "unat ?v \<le> unat va" using PGROUNDDOWN_le by (simp add: word_le_nat_alt)
  have top: "unat ?v + 4096 \<le> 2 ^ 64"
  proof -
    have "unat va div 4096 < 4503599627370496" by (rule less_mult_imp_div_less) simp
    then show ?thesis by (simp add: unat_PGROUNDDOWN)
  qed
  have "unat (va + of_nat i) = unat va + i" by (rule unat_add_lt) (use assms o le top in linarith)
  then show ?thesis using assms o le by (simp add: PGROUNDDOWN_eq_iff)
qed

lemma page_offset: "unat (va - PGROUNDDOWN va) < 4096"
proof -
  have "unat (va - PGROUNDDOWN va) = unat va - unat (PGROUNDDOWN va)" by (rule unat_sub [OF PGROUNDDOWN_le])
  then show ?thesis by (simp add: unat_PGROUNDDOWN)
qed

lemma translate_add:
  assumes "user_ok m root va" "unat (va - PGROUNDDOWN va) + i < 4096"
  shows "user_ok m root (va + of_nat i)"
    "translate m root (va + of_nat i) = PTE2PA (leaf 2 m root va) + (va - PGROUNDDOWN va) + of_nat i"
proof -
  have e: "PGROUNDDOWN (va + of_nat i) = PGROUNDDOWN va" by (rule same_page_add [OF assms(2)])
  show u: "user_ok m root (va + of_nat i)" using user_ok_page [OF e] assms(1) by simp
  have "leaf 2 m root (va + of_nat i) = leaf 2 m root va"
    using leaf_PGROUNDDOWN [of va m root] leaf_PGROUNDDOWN [of "va + of_nat i" m root] e u assms(1)
    by (simp add: user_ok_def)
  then show "translate m root (va + of_nat i) = PTE2PA (leaf 2 m root va) + (va - PGROUNDDOWN va) + of_nat i"
    by (simp add: translate_def e)
qed

lemma translate_reachable:
  assumes "user_ok m root va"
  shows "PTE2PA (leaf 2 m root va) \<in> reachable m root" "in_page (PTE2PA (leaf 2 m root va)) (translate m root va)"
  using assms page_offset [of va] by (auto simp: reachable_def translate_def in_page_def)

text \<open>Writing the kernel buffer leaves the process alone.\<close>

lemma clear_write:
  assumes c: "clear_of m root a n" and d: "\<And>b. \<not> unat (b - a) < n \<Longrightarrow> m' b = m b"
  shows "leaf 2 m' root va = leaf 2 m root va" "wf_pt 2 ok m root \<Longrightarrow> wf_pt 2 ok m' root"
    "user_ok m' root va = user_ok m root va" "translate m' root va = translate m root va"
    "reachable m' root = reachable m root"
    "user_ok m root va \<Longrightarrow> m' (translate m root va) = m (translate m root va)"
proof -
  have "agree (reachable m root) m m'" using c d unfolding clear_of_def agree_def by blast
  then have ag: "agree (tables 2 m root) m m'" by (rule agree_mono) (simp add: reachable_def)
  show l: "leaf 2 m' root va = leaf 2 m root va" for va by (rule leaf_frame [OF ag])
  show "wf_pt 2 ok m root \<Longrightarrow> wf_pt 2 ok m' root" by (rule wf_pt_frame [OF _ ag])
  show u: "user_ok m' root va = user_ok m root va" for va by (simp add: user_ok_def l)
  show "translate m' root va = translate m root va" by (simp add: translate_def l)
  show "reachable m' root = reachable m root" by (simp add: reachable_def tables_frame [OF ag] l u)
  show "m' (translate m root va) = m (translate m root va)" if "user_ok m root va"
    using translate_reachable [OF that] c d unfolding clear_of_def by blast
qed

text \<open>The part of a copy that stays in the first page: \<open>n\<close> bytes from the offset on.\<close>

definition chunk :: "u64 \<Rightarrow> u64 \<Rightarrow> u64" where
  "chunk va len = (let n = PGSIZE - (va - PGROUNDDOWN va) in if n > len then len else n)"

lemma unat_chunk:
  "unat (chunk va len) = min (4096 - unat (va - PGROUNDDOWN va)) (unat len)"
  "unat (ucast (chunk va len) :: u32) = unat (chunk va len)"
proof -
  let ?o = "va - PGROUNDDOWN va"
  have "unat (PGSIZE - ?o) = 4096 - unat ?o"
    using page_offset [of va] unat_sub [of ?o PGSIZE] by (simp add: PGSIZE_def word_le_nat_alt)
  then show c: "unat (chunk va len) = min (4096 - unat ?o) (unat len)"
    by (auto simp: chunk_def Let_def word_less_nat_alt)
  have "unat (chunk va len) < 4294967296" unfolding c by simp
  then show "unat (ucast (chunk va len) :: u32) = unat (chunk va len)"
    by (simp add: unsigned_ucast_eq take_bit_nat_eq_self)
qed

lemma aligned_top: "aligned 12 p \<Longrightarrow> unat p + 4096 \<le> 2 ^ 64"
proof -
  assume "aligned 12 p"
  then obtain q where q: "unat p = 4096 * q" by (auto simp: aligned_dvd dvd_def)
  have "4096 * q < 18446744073709551616" using u64_lt [of p] q by simp
  then have "q < 4503599627370496" by simp
  then show ?thesis using q by simp
qed

lemma memmove_chunk:
  assumes "aligned 12 p" "unat a + unat len \<le> 2 ^ 64"
  shows "memmove a (p + (va - PGROUNDDOWN va)) (ucast (chunk va len)) m =
      (\<lambda>b. if unat (b - a) < unat (chunk va len) then m (p + (va - PGROUNDDOWN va) + (b - a)) else m b)"
    "memmove (p + (va - PGROUNDDOWN va)) a (ucast (chunk va len)) m =
      (\<lambda>b. if unat (b - (p + (va - PGROUNDDOWN va))) < unat (chunk va len)
           then m (a + (b - (p + (va - PGROUNDDOWN va)))) else m b)"
proof -
  let ?o = "va - PGROUNDDOWN va" let ?n = "ucast (chunk va len) :: u32"
  have n: "unat ?n = unat (chunk va len)" by (rule unat_chunk(2))
  have "unat (p + of_nat (unat ?o)) = unat p + unat ?o"
    by (rule unat_add_lt) (use aligned_top [OF assms(1)] page_offset [of va] in linarith)
  then have "unat (p + ?o) + unat ?n \<le> 2 ^ 64"
    using aligned_top [OF assms(1)] page_offset [of va] unfolding n unat_chunk by simp
  moreover have "unat a + unat ?n \<le> 2 ^ 64" using assms(2) unfolding n unat_chunk by simp
  ultimately show "memmove a (p + ?o) ?n m = (\<lambda>b. if unat (b - a) < unat (chunk va len) then m (p + ?o + (b - a)) else m b)"
    "memmove (p + ?o) a ?n m = (\<lambda>b. if unat (b - (p + ?o)) < unat (chunk va len) then m (a + (b - (p + ?o))) else m b)"
    by (auto simp: fun_eq_iff memmove_at n)
qed

lemma copyin_step:
  assumes wf: "wf_pt 2 (page kend) (mem s) root" and len: "0 < len"
  shows "copyin root dst srcva len s =
     (if user_ok (mem s) root srcva
      then copyin root (dst + chunk srcva len) (PGROUNDDOWN srcva + PGSIZE) (len - chunk srcva len)
         (s\<lparr>mem := memmove dst (PTE2PA (leaf 2 (mem s) root srcva) + (srcva - PGROUNDDOWN srcva))
            (ucast (chunk srcva len)) (mem s)\<rparr>)
      else Some (- 1, s))"
proof -
  let ?v = "PGROUNDDOWN srcva"
  have u: "user_ok (mem s) root ?v = user_ok (mem s) root srcva" by (rule user_ok_page) simp
  have l: "user_ok (mem s) root srcva \<Longrightarrow> leaf 2 (mem s) root ?v = leaf 2 (mem s) root srcva"
    by (simp add: user_ok_def leaf_PGROUNDDOWN)
  have w: "walkaddr root ?v s = Some (if user_ok (mem s) root srcva then PTE2PA (leaf 2 (mem s) root srcva) else 0, s)"
    using walkaddr_eq [OF wf, of ?v] u l by simp
  show ?thesis using len by (subst copyin.simps) (simp add: w chunk_def Let_def user_ok_def)
qed

lemma clear_mono:
  assumes c: "clear_of m root a n" and r: "reachable m' root = reachable m root" and k: "k \<le> n"
  shows "clear_of m' root (a + of_nat k) (n - k)"
proof (cases "k = n")
  case True
  have "unat (a + of_nat n) < 2 ^ 64" by (simp del: of_nat_add)
  then show ?thesis using True by (simp add: clear_of_def less_imp_le)
next
  case False
  then have kn: "k < n" using k by simp
  have an: "unat a + n \<le> 2 ^ 64" using c by (simp add: clear_of_def)
  have u: "unat (a + of_nat k) = unat a + k" by (rule unat_add_lt) (use c kn in \<open>simp add: clear_of_def\<close>)
  have "unat (b - a) < n" if b: "unat (b - (a + of_nat k)) < n - k" for b
  proof -
    have "b - a = (b - (a + of_nat k)) + of_nat k" by simp
    moreover have "unat ((b - (a + of_nat k)) + of_nat k) = unat (b - (a + of_nat k)) + k"
      by (rule unat_add_lt) (use b an in linarith)
    ultimately have "unat (b - a) = unat (b - (a + of_nat k)) + k" by metis
    then show ?thesis using b by simp
  qed
  then show ?thesis using c r u kn by (simp add: clear_of_def)
qed

lemma clear_weaken: "clear_of m root a n \<Longrightarrow> k \<le> n \<Longrightarrow> clear_of m root a k"
  by (auto simp: clear_of_def)

text \<open>What a copy from the process has done.\<close>

definition read_in :: "memory \<Rightarrow> u64 \<Rightarrow> u64 \<Rightarrow> u64 \<Rightarrow> nat \<Rightarrow> int \<Rightarrow> memory \<Rightarrow> bool" where
  "read_in m root dst srcva n r m' \<longleftrightarrow>
     r = (if \<forall>i < n. user_ok m root (srcva + of_nat i) then 0 else - 1) \<and>
     (\<forall>b. \<not> unat (b - dst) < n \<longrightarrow> m' b = m b) \<and>
     (r = 0 \<longrightarrow> (\<forall>i < n. m' (dst + of_nat i) = m (translate m root (srcva + of_nat i))))"

lemma range_add:
  fixes a b :: u64
  assumes "unat a + n \<le> 2 ^ 64" "k \<le> n"
  shows "unat (b - a) < n \<longleftrightarrow> unat (b - a) < k \<or> unat (b - (a + of_nat k)) < n - k"
proof (cases "unat (b - a) < k")
  case True
  then show ?thesis using assms by simp
next
  case False
  then have "k \<le> unat (b - a)" by simp
  then have "k < 2 ^ 64" by (rule le_less_trans) simp
  then have "unat (of_nat k :: u64) = k" by (simp add: unat_of_nat take_bit_nat_eq_self)
  then have "unat (b - a - of_nat k) = unat (b - a) - k"
    using False by (subst unat_sub) (auto simp: word_le_nat_alt)
  then show ?thesis using False assms(2) by (auto simp: algebra_simps)
qed

lemma unat_range: "unat a + n \<le> 2 ^ 64 \<Longrightarrow> i < n \<Longrightarrow> unat (a + of_nat i - a) = i" for a :: u64
  by (simp add: unat_of_nat take_bit_nat_eq_self)

lemma range_before:
  fixes a :: u64
  assumes "unat a + n \<le> 2 ^ 64" "i < k" "k \<le> n"
  shows "\<not> unat (a + of_nat i - (a + of_nat k)) < n - k"
proof -
  have "(of_nat k :: u64) = of_nat (k - 1) + 1" using assms(2) by (cases k) simp_all
  then have "a + of_nat i - (a + of_nat k) = - (of_nat (k - 1 - i) :: u64) - 1"
    using assms(2) by (simp add: of_nat_diff)
  then have e: "a + of_nat i - (a + of_nat k) = - 1 - (of_nat (k - 1 - i) :: u64)" by simp
  have "k - 1 - i < 2 ^ 64" using assms by linarith
  then have "unat (of_nat (k - 1 - i) :: u64) = k - 1 - i" by (simp add: unat_of_nat take_bit_nat_eq_self del: of_nat_diff)
  moreover have "unat (- 1 - (of_nat (k - 1 - i) :: u64)) = unat (- 1 :: u64) - unat (of_nat (k - 1 - i) :: u64)"
    by (rule unat_sub) simp
  moreover have "unat (- 1 :: u64) = 18446744073709551615" by (simp add: unsigned_minus_1_eq_mask mask_eq_exp_minus_1)
  ultimately have "unat (- 1 - (of_nat (k - 1 - i) :: u64)) = 18446744073709551615 - (k - 1 - i)" by metis
  moreover have "n \<le> 18446744073709551616" using assms(1) by simp
  ultimately show ?thesis unfolding e using assms(2,3) by linarith
qed

lemma read_in_append:
  assumes c: "clear_of m root dst n" and k: "k \<le> n"
    and here: "\<And>i. i < k \<Longrightarrow> user_ok m root (src + of_nat i) \<and> m1 (dst + of_nat i) = m (translate m root (src + of_nat i))"
    and d: "\<And>b. \<not> unat (b - dst) < k \<Longrightarrow> m1 b = m b"
    and R: "read_in m1 root (dst + of_nat k) src' (n - k) r m'"
    and nxt: "k < n \<Longrightarrow> src' = src + of_nat k"
  shows "read_in m root dst src n r m'"
proof -
  note cw = clear_write [OF clear_weaken [OF c k], of m1, OF d]
  have top: "unat dst + n \<le> 2 ^ 64" using c by (simp add: clear_of_def)
  have ok: "user_ok m root (src' + of_nat j) = user_ok m root (src + of_nat (k + j))" if "j < n - k" for j
    using nxt that by (simp add: add.assoc)
  have "(\<forall>j < n - k. user_ok m root (src + of_nat (k + j))) \<longleftrightarrow> (\<forall>i < n. user_ok m root (src + of_nat i))"
  proof
    assume a: "\<forall>j < n - k. user_ok m root (src + of_nat (k + j))"
    show "\<forall>i < n. user_ok m root (src + of_nat i)"
    proof (intro allI impI)
      fix i assume "i < n"
      then show "user_ok m root (src + of_nat i)" using here [of i] a [rule_format, of "i - k"] k by (cases "i < k") auto
    qed
  next
    assume a: "\<forall>i < n. user_ok m root (src + of_nat i)"
    show "\<forall>j < n - k. user_ok m root (src + of_nat (k + j))"
    proof (intro allI impI)
      fix j assume "j < n - k"
      then show "user_ok m root (src + of_nat (k + j))" using a [rule_format, of "k + j"] by linarith
    qed
  qed
  then have r: "r = (if \<forall>i < n. user_ok m root (src + of_nat i) then 0 else - 1)"
    using R ok by (simp add: read_in_def cw(3))
  have out: "m' b = m b" if "\<not> unat (b - dst) < n" for b
    using that R d [of b] range_add [OF top k, of b] by (simp add: read_in_def)
  have "m' (dst + of_nat i) = m (translate m root (src + of_nat i))" if r0: "r = 0" and i: "i < n" for i
  proof (cases "i < k")
    case True
    have "m' (dst + of_nat i) = m1 (dst + of_nat i)"
      using R range_before [OF top True k] by (simp add: read_in_def)
    then show ?thesis using here [OF True] by simp
  next
    case False
    then have j: "i - k < n - k" "of_nat k + of_nat (i - k) = (of_nat i :: u64)" "src' = src + of_nat k"
      using i k nxt by (auto simp: of_nat_diff)
    have "m' (dst + of_nat k + of_nat (i - k)) = m1 (translate m1 root (src' + of_nat (i - k)))"
      using R r0 j(1) by (simp add: read_in_def)
    moreover have "user_ok m root (src + of_nat i)" using r r0 i by (auto split: if_splits)
    ultimately show ?thesis using j(2,3) cw(4,6) by (simp add: add.assoc)
  qed
  then show ?thesis using r out by (simp add: read_in_def)
qed

lemma copyin_result:
  assumes "wf_pt 2 (page kend) (mem s) root" "clear_of (mem s) root dst (unat len)"
  shows "\<exists>r m'. copyin root dst srcva len s = Some (r, s\<lparr>mem := m'\<rparr>) \<and>
     read_in (mem s) root dst srcva (unat len) r m'"
  using assms
proof (induction "unat len" arbitrary: len dst srcva s rule: less_induct)
  case less
  show ?case
  proof (cases "len = 0")
    case True
    have "copyin root dst srcva len s = Some (0, s\<lparr>mem := mem s\<rparr>)" using True by (subst copyin.simps) simp
    moreover have "read_in (mem s) root dst srcva (unat len) 0 (mem s)" using True by (simp add: read_in_def)
    ultimately show ?thesis by blast
  next
    case False
    then have pos: "0 < len" by (simp add: word_neq_0_conv)
    then have N: "0 < unat len" by (simp add: unat_gt_0)
    let ?k = "unat (chunk srcva len)" let ?o = "srcva - PGROUNDDOWN srcva" let ?m = "mem s"
    let ?p = "PTE2PA (leaf 2 ?m root srcva)"
    note cl = less.prems(2)
    have top: "unat dst + unat len \<le> 2 ^ 64" using cl by (simp add: clear_of_def)
    show ?thesis
    proof (cases "user_ok ?m root srcva")
      case no: False
      have "copyin root dst srcva len s = Some (- 1, s\<lparr>mem := ?m\<rparr>)"
        using copyin_step [OF less.prems(1) pos, of dst srcva] no by simp
      moreover have "read_in ?m root dst srcva (unat len) (- 1) ?m"
        using no N by (auto simp: read_in_def intro!: exI [of _ "0 :: nat"])
      ultimately show ?thesis by blast
    next
      case ok: True
      let ?m1 = "memmove dst (?p + ?o) (ucast (chunk srcva len)) ?m"
      have m1: "?m1 = (\<lambda>b. if unat (b - dst) < ?k then ?m (?p + ?o + (b - dst)) else ?m b)"
        by (rule memmove_chunk(1)) (use top in simp_all)
      have k: "?k \<le> unat len" "0 < ?k" "unat ?o + ?k \<le> 4096"
        using N page_offset [of srcva] by (simp_all add: unat_chunk)
      have kw: "of_nat ?k = chunk srcva len" by simp
      note cw = clear_write [OF clear_weaken [OF cl k(1)], of ?m1]
      have d: "\<not> unat (b - dst) < ?k \<Longrightarrow> ?m1 b = ?m b" for b by (simp add: m1)
      have cm: "clear_of ?m1 root (dst + of_nat ?k) (unat len - ?k)"
        by (rule clear_mono [OF cl cw(5) k(1)]) (rule d)
      have ul: "unat (len - chunk srcva len) = unat len - ?k"
        using k(1) by (intro unat_sub) (simp add: word_le_nat_alt)
      have tr: "user_ok ?m root (srcva + of_nat i)" "translate ?m root (srcva + of_nat i) = ?p + ?o + of_nat i"
        if "i < ?k" for i using translate_add [OF ok, of i] that k(3) by auto
      have here: "?m1 (dst + of_nat i) = ?m (translate ?m root (srcva + of_nat i))" if "i < ?k" for i
        using unat_range [of dst "unat len" i] top k(1) that tr(2) [OF that] by (simp add: m1)
      obtain r m' where IH: "copyin root (dst + of_nat ?k) (PGROUNDDOWN srcva + PGSIZE) (len - chunk srcva len) (s\<lparr>mem := ?m1\<rparr>) =
            Some (r, s\<lparr>mem := m'\<rparr>)"
          "read_in ?m1 root (dst + of_nat ?k) (PGROUNDDOWN srcva + PGSIZE) (unat len - ?k) r m'"
        using less.hyps [of "len - chunk srcva len" "s\<lparr>mem := ?m1\<rparr>" "dst + of_nat ?k" "PGROUNDDOWN srcva + PGSIZE"]
          k cw(2) [OF d less.prems(1)] cm ul by auto
      have e: "copyin root dst srcva len s = Some (r, s\<lparr>mem := m'\<rparr>)"
        using copyin_step [OF less.prems(1) pos, of dst srcva] ok IH(1) kw by simp
      have nxt: "PGROUNDDOWN srcva + PGSIZE = srcva + of_nat ?k" if "?k < unat len"
      proof -
        have "chunk srcva len = PGSIZE - ?o"
          using that by (auto simp: chunk_def Let_def word_less_nat_alt split: if_splits)
        then show ?thesis by simp
      qed
      have "read_in ?m root dst srcva (unat len) r m'"
        by (rule read_in_append [OF cl k(1) _ d IH(2) nxt]) (use here tr(1) in blast)
      then show ?thesis using e by blast
    qed
  qed
qed

text \<open>The user pages of a process are not tables and do not alias.\<close>

definition no_alias :: "memory \<Rightarrow> u64 \<Rightarrow> bool" where
  "no_alias m root \<longleftrightarrow> (\<forall>p \<in> tables 2 m root. aligned 12 p) \<and>
     (\<forall>va. user_ok m root va \<longrightarrow> PTE2PA (leaf 2 m root va) \<notin> tables 2 m root) \<and>
     (\<forall>va vb. user_ok m root va \<longrightarrow> user_ok m root vb \<longrightarrow>
        PTE2PA (leaf 2 m root va) = PTE2PA (leaf 2 m root vb) \<longrightarrow> PGROUNDDOWN va = PGROUNDDOWN vb)"

lemma no_alias_uspace:
  assumes u: "uspace kend s F root V" and V: "\<And>va. user_ok (mem s) root va \<Longrightarrow> PGROUNDDOWN va \<in> V"
  shows "no_alias (mem s) root"
proof -
  have f: "PTE2PA (leaf 2 (mem s) root va) = frame_of (mem s) root (PGROUNDDOWN va)" if "user_ok (mem s) root va" for va
    using that leaf_PGROUNDDOWN [of va "mem s" root] by (simp add: frame_of_def user_ok_def)
  have "aligned 12 p" if "p \<in> tables 2 (mem s) root" for p
    using wf_pt_ok [OF _ that] u page_aligned by (auto simp: uspace_def pt_inv_def)
  moreover have "inj_on (frame_of (mem s) root) V" using u by (simp add: uspace_def)
  ultimately show ?thesis
    using V f uspaceD(7) [OF u] unfolding no_alias_def inj_on_def by metis
qed

lemma translate_inj:
  assumes p: "no_alias m root" and u: "user_ok m root va" "user_ok m root vb"
    and e: "translate m root va = translate m root vb"
  shows "va = vb"
proof -
  have "in_page (PTE2PA (leaf 2 m root va)) (translate m root va)"
    "in_page (PTE2PA (leaf 2 m root vb)) (translate m root va)"
    using translate_reachable(2) [OF u(1)] translate_reachable(2) [OF u(2)] e by simp_all
  then have "PTE2PA (leaf 2 m root va) = PTE2PA (leaf 2 m root vb)"
    using in_page_disjoint [OF aligned_PTE2PA aligned_PTE2PA] by blast
  moreover from this have "PGROUNDDOWN va = PGROUNDDOWN vb" using p u unfolding no_alias_def by blast
  ultimately show ?thesis using e by (simp add: translate_def)
qed

lemma no_alias_write:
  assumes p: "no_alias m root" and d: "\<forall>b. (\<forall>va. user_ok m root va \<longrightarrow> b \<noteq> translate m root va) \<longrightarrow> m' b = m b"
  shows "leaf 2 m' root va = leaf 2 m root va" "wf_pt 2 ok m root \<Longrightarrow> wf_pt 2 ok m' root"
    "user_ok m' root va = user_ok m root va" "translate m' root va = translate m root va"
    "reachable m' root = reachable m root" "no_alias m' root"
proof -
  have ag: "agree (tables 2 m root) m m'"
    unfolding agree_def
  proof (intro ballI allI impI)
    fix q a assume q: "q \<in> tables 2 m root" "in_page q a"
    have "a \<noteq> translate m root va" if "user_ok m root va" for va
    proof -
      have "aligned 12 q" "q \<noteq> PTE2PA (leaf 2 m root va)" using p q(1) that by (auto simp: no_alias_def)
      then have "\<not> in_page (PTE2PA (leaf 2 m root va)) a" using in_page_disjoint [OF _ aligned_PTE2PA _ q(2)] by blast
      then show ?thesis using translate_reachable(2) [OF that] by auto
    qed
    then show "m' a = m a" using d by blast
  qed
  show l: "leaf 2 m' root va = leaf 2 m root va" for va by (rule leaf_frame [OF ag])
  show "wf_pt 2 ok m root \<Longrightarrow> wf_pt 2 ok m' root" by (rule wf_pt_frame [OF _ ag])
  show u: "user_ok m' root va = user_ok m root va" for va by (simp add: user_ok_def l)
  show "translate m' root va = translate m root va" by (simp add: translate_def l)
  show "reachable m' root = reachable m root" by (simp add: reachable_def tables_frame [OF ag] l u)
  show "no_alias m' root" using p unfolding no_alias_def tables_frame [OF ag] l u .
qed

definition written_out :: "memory \<Rightarrow> u64 \<Rightarrow> u64 \<Rightarrow> u64 \<Rightarrow> nat \<Rightarrow> int \<Rightarrow> memory \<Rightarrow> bool" where
  "written_out m root dstva src n r m' \<longleftrightarrow>
     r = (if \<forall>i < n. user_ok m root (dstva + of_nat i) then 0 else - 1) \<and>
     (\<forall>b. (\<forall>i < n. user_ok m root (dstva + of_nat i) \<longrightarrow> b \<noteq> translate m root (dstva + of_nat i)) \<longrightarrow> m' b = m b) \<and>
     (r = 0 \<longrightarrow> (\<forall>i < n. m' (translate m root (dstva + of_nat i)) = m (src + of_nat i)))"

lemma all_split:
  fixes k n :: nat
  assumes "k \<le> n"
  shows "(\<forall>i < n. P i) \<longleftrightarrow> (\<forall>i < k. P i) \<and> (\<forall>j < n - k. P (k + j))"
proof safe
  fix i assume a: "\<forall>i < k. P i" "\<forall>j < n - k. P (k + j)" "i < n"
  then show "P i" using a(2) [rule_format, of "i - k"] by (cases "i < k") auto
qed (use assms in auto)

lemma unat_of_nat_u64: "i < 2 ^ 64 \<Longrightarrow> unat (of_nat i :: u64) = i"
  by (simp add: unat_of_nat take_bit_nat_eq_self)

lemma written_out_append:
  assumes c: "clear_of m root src n" and pv: "no_alias m root" and k: "k \<le> n"
    and ok: "\<And>i. i < k \<Longrightarrow> user_ok m root (dst + of_nat i)"
    and here: "\<And>i. i < k \<Longrightarrow> m1 (translate m root (dst + of_nat i)) = m (src + of_nat i)"
    and d: "\<And>b. (\<forall>i < k. b \<noteq> translate m root (dst + of_nat i)) \<Longrightarrow> m1 b = m b"
    and R: "written_out m1 root dst' (src + of_nat k) (n - k) r m'"
    and nxt: "k < n \<Longrightarrow> dst' = dst + of_nat k"
  shows "written_out m root dst src n r m'"
proof -
  have top: "unat src + n \<le> 2 ^ 64" using c by (simp add: clear_of_def)
  have d': "\<forall>b. (\<forall>va. user_ok m root va \<longrightarrow> b \<noteq> translate m root va) \<longrightarrow> m1 b = m b"
    using d ok by blast
  note pw = no_alias_write [OF pv d']
  have nx: "dst' + of_nat j = dst + of_nat (k + j)" if "j < n - k" for j using nxt that by (simp add: add.assoc)
  have r: "r = (if \<forall>i < n. user_ok m root (dst + of_nat i) then 0 else - 1)"
    using R nx ok unfolding all_split [OF k] by (simp add: written_out_def pw(3))
  have out: "m' b = m b"
    if b: "\<forall>i < n. user_ok m root (dst + of_nat i) \<longrightarrow> b \<noteq> translate m root (dst + of_nat i)" for b
  proof -
    have "m' b = m1 b" using R b nx unfolding all_split [OF k] by (simp add: written_out_def pw(3,4))
    also have "\<dots> = m b" by (rule d) (use b ok k in auto)
    finally show ?thesis .
  qed
  have "m' (translate m root (dst + of_nat i)) = m (src + of_nat i)" if r0: "r = 0" and i: "i < n" for i
  proof (cases "i < k")
    case True
    have ne: "translate m root (dst + of_nat i) \<noteq> translate m root (dst + of_nat (k + j))"
      if "j < n - k" "user_ok m root (dst + of_nat (k + j))" for j
    proof
      assume "translate m root (dst + of_nat i) = translate m root (dst + of_nat (k + j))"
      from translate_inj [OF pv ok [OF True] that(2) this] have "(of_nat i :: u64) = of_nat (k + j)" by simp
      moreover have "i < 2 ^ 64" "k + j < 2 ^ 64" using True that(1) top k by linarith+
      ultimately have "i = k + j" by (metis unat_of_nat_u64)
      then show False using True by simp
    qed
    have "m' (translate m root (dst + of_nat i)) = m1 (translate m root (dst + of_nat i))"
      using R ne nx by (simp add: written_out_def pw(3,4))
    then show ?thesis using here [OF True] by simp
  next
    case False
    then have j: "i - k < n - k" "k + (i - k) = i" using i by auto
    have dj: "dst' + of_nat (i - k) = dst + of_nat i" using nx [OF j(1)] unfolding j(2) .
    have "m' (translate m1 root (dst' + of_nat (i - k))) = m1 (src + of_nat k + of_nat (i - k))"
      using R r0 j(1) unfolding written_out_def by blast
    then have "m' (translate m root (dst + of_nat i)) = m1 (src + of_nat k + of_nat (i - k))"
      unfolding pw(4) dj .
    moreover have "src + of_nat k + of_nat (i - k) = src + (of_nat i :: u64)" using False by (simp add: of_nat_diff)
    moreover have "m1 (src + of_nat i) = m (src + of_nat i)"
    proof (rule d, intro allI impI notI)
      fix i' assume i': "i' < k" and e: "src + of_nat i = translate m root (dst + of_nat i')"
      have "unat (src + of_nat i - src) < n" using unat_range [OF top i] i by simp
      then show False using translate_reachable [OF ok [OF i']] c e unfolding clear_of_def by metis
    qed
    ultimately show ?thesis by simp
  qed
  then show ?thesis using r out by (simp add: written_out_def)
qed

lemma copyout_step:
  assumes wf: "wf_pt 2 (page kend) (mem s) root" and len: "0 < len"
  shows "copyout root dstva src len s =
     (if user_ok (mem s) root dstva
      then copyout root (PGROUNDDOWN dstva + PGSIZE) (src + chunk dstva len) (len - chunk dstva len)
         (s\<lparr>mem := memmove (PTE2PA (leaf 2 (mem s) root dstva) + (dstva - PGROUNDDOWN dstva)) src
            (ucast (chunk dstva len)) (mem s)\<rparr>)
      else Some (- 1, s))"
proof -
  let ?v = "PGROUNDDOWN dstva"
  have u: "user_ok (mem s) root ?v = user_ok (mem s) root dstva" by (rule user_ok_page) simp
  have l: "user_ok (mem s) root dstva \<Longrightarrow> leaf 2 (mem s) root ?v = leaf 2 (mem s) root dstva"
    by (simp add: user_ok_def leaf_PGROUNDDOWN)
  have w: "walkaddr root ?v s = Some (if user_ok (mem s) root dstva then PTE2PA (leaf 2 (mem s) root dstva) else 0, s)"
    using walkaddr_eq [OF wf, of ?v] u l by simp
  show ?thesis using len by (subst copyout.simps) (simp add: w chunk_def Let_def user_ok_def)
qed

lemma next_page: "unat (chunk va len) < unat len \<Longrightarrow> PGROUNDDOWN va + PGSIZE = va + of_nat (unat (chunk va len))"
proof -
  assume "unat (chunk va len) < unat len"
  then have "chunk va len = PGSIZE - (va - PGROUNDDOWN va)"
    by (auto simp: chunk_def Let_def word_less_nat_alt split: if_splits)
  then show ?thesis by simp
qed

lemma copyout_result:
  assumes "wf_pt 2 (page kend) (mem s) root" "clear_of (mem s) root src (unat len)" "no_alias (mem s) root"
  shows "\<exists>r m'. copyout root dstva src len s = Some (r, s\<lparr>mem := m'\<rparr>) \<and>
     written_out (mem s) root dstva src (unat len) r m'"
  using assms
proof (induction "unat len" arbitrary: len src dstva s rule: less_induct)
  case less
  show ?case
  proof (cases "len = 0")
    case True
    have "copyout root dstva src len s = Some (0, s\<lparr>mem := mem s\<rparr>)" using True by (subst copyout.simps) simp
    moreover have "written_out (mem s) root dstva src (unat len) 0 (mem s)" using True by (simp add: written_out_def)
    ultimately show ?thesis by blast
  next
    case False
    then have pos: "0 < len" by (simp add: word_neq_0_conv)
    then have N: "0 < unat len" by (simp add: unat_gt_0)
    let ?k = "unat (chunk dstva len)" let ?o = "dstva - PGROUNDDOWN dstva" let ?m = "mem s"
    let ?p = "PTE2PA (leaf 2 ?m root dstva)"
    note cl = less.prems(2)
    have top: "unat src + unat len \<le> 2 ^ 64" using cl by (simp add: clear_of_def)
    show ?thesis
    proof (cases "user_ok ?m root dstva")
      case no: False
      have "copyout root dstva src len s = Some (- 1, s\<lparr>mem := ?m\<rparr>)"
        using copyout_step [OF less.prems(1) pos, of dstva src] no by simp
      moreover have "written_out ?m root dstva src (unat len) (- 1) ?m"
        using no N by (auto simp: written_out_def intro!: exI [of _ "0 :: nat"])
      ultimately show ?thesis by blast
    next
      case ok: True
      let ?m1 = "memmove (?p + ?o) src (ucast (chunk dstva len)) ?m"
      have m1: "?m1 = (\<lambda>b. if unat (b - (?p + ?o)) < ?k then ?m (src + (b - (?p + ?o))) else ?m b)"
        by (rule memmove_chunk(2)) (use top in simp_all)
      have k: "?k \<le> unat len" "0 < ?k" "unat ?o + ?k \<le> 4096"
        using N page_offset [of dstva] by (simp_all add: unat_chunk)
      have tr: "user_ok ?m root (dstva + of_nat i)" "translate ?m root (dstva + of_nat i) = ?p + ?o + of_nat i"
        if "i < ?k" for i using translate_add [OF ok, of i] that k(3) by auto
      have k64: "?k < 2 ^ 64" by simp
      have here: "?m1 (translate ?m root (dstva + of_nat i)) = ?m (src + of_nat i)" if "i < ?k" for i
      proof -
        have "unat (of_nat i :: u64) = i" by (rule unat_of_nat_u64) (use that k64 in linarith)
        then show ?thesis using that by (simp add: tr(2) m1)
      qed
      have d: "?m1 b = ?m b" if "\<forall>i < ?k. b \<noteq> translate ?m root (dstva + of_nat i)" for b
      proof -
        have "\<not> unat (b - (?p + ?o)) < ?k"
        proof
          assume lt: "unat (b - (?p + ?o)) < ?k"
          have "b = ?p + ?o + of_nat (unat (b - (?p + ?o)))" by simp
          then show False using that tr(2) [OF lt] lt by metis
        qed
        then show ?thesis by (simp add: m1)
      qed
      have d': "\<forall>b. (\<forall>va. user_ok ?m root va \<longrightarrow> b \<noteq> translate ?m root va) \<longrightarrow> ?m1 b = ?m b"
        using d tr(1) by blast
      note pw = no_alias_write [OF less.prems(3) d']
      have cm: "clear_of ?m1 root (src + of_nat ?k) (unat len - ?k)" by (rule clear_mono [OF cl pw(5) k(1)])
      have ul: "unat (len - chunk dstva len) = unat len - ?k"
        using k(1) by (intro unat_sub) (simp add: word_le_nat_alt)
      obtain r m' where IH: "copyout root (PGROUNDDOWN dstva + PGSIZE) (src + of_nat ?k) (len - chunk dstva len) (s\<lparr>mem := ?m1\<rparr>) =
            Some (r, s\<lparr>mem := m'\<rparr>)"
          "written_out ?m1 root (PGROUNDDOWN dstva + PGSIZE) (src + of_nat ?k) (unat len - ?k) r m'"
        using less.hyps [of "len - chunk dstva len" "s\<lparr>mem := ?m1\<rparr>" "src + of_nat ?k" "PGROUNDDOWN dstva + PGSIZE"]
          k pw(2) [OF less.prems(1)] pw(6) cm ul by auto
      have e: "copyout root dstva src len s = Some (r, s\<lparr>mem := m'\<rparr>)"
        using copyout_step [OF less.prems(1) pos, of dstva src] ok IH(1) by simp
      have "written_out ?m root dstva src (unat len) r m'"
        by (rule written_out_append [OF cl less.prems(3) k(1) tr(1) here d IH(2) next_page])
      then show ?thesis using e by blast
    qed
  qed
qed

text \<open>
  \<^verbatim>\<open>copyin\<close> succeeds exactly when every byte of the source range is on a page
  the process may access; then the kernel buffer holds the bytes at the translated addresses,
  across page boundaries.  It writes nothing outside the buffer, also when it fails.
\<close>

lemma copyin_reads:
  assumes "uspace kend s F root V" "clear_of (mem s) root dst (unat len)"
  shows "\<exists>r m'. copyin root dst srcva len s = Some (r, s\<lparr>mem := m'\<rparr>) \<and>
     r = (if \<forall>i < unat len. user_ok (mem s) root (srcva + of_nat i) then 0 else - 1) \<and>
     (\<forall>b. \<not> unat (b - dst) < unat len \<longrightarrow> m' b = mem s b) \<and>
     (r = 0 \<longrightarrow> (\<forall>i < unat len. m' (dst + of_nat i) = mem s (translate (mem s) root (srcva + of_nat i))))"
proof -
  have "wf_pt 2 (page kend) (mem s) root" using assms(1) by (simp add: uspace_def pt_inv_def)
  from copyin_result [OF this assms(2), of srcva] show ?thesis by (simp add: read_in_def)
qed

lemma clear_page:
  assumes q: "aligned 12 q" "q \<notin> reachable m root" "n \<le> 4096" and al: "\<And>p. p \<in> tables 2 m root \<Longrightarrow> aligned 12 p"
  shows "clear_of m root q n"
proof -
  have "\<not> in_page p b" if b: "unat (b - q) < n" "p \<in> reachable m root" for p b
  proof -
    have "aligned 12 p" using b(2) al by (auto simp: reachable_def)
    moreover have "in_page q b" using b(1) q(3) by (simp add: in_page_def)
    ultimately show ?thesis using in_page_disjoint [OF q(1)] b(2) q(2) by blast
  qed
  then show ?thesis using aligned_top [OF q(1)] q(3) by (auto simp: clear_of_def)
qed

lemma tiny_user: "user_ok (mem tiny) tiny_root va \<longleftrightarrow> va < 4096"
proof -
  have z: "PGROUNDDOWN va = 0 \<longleftrightarrow> va < 4096"
    using PGROUNDDOWN_eq_iff [of 0 va] by (simp add: aligned_def word_less_nat_alt)
  have u: "tiny_pte AND PTE_U \<noteq> 0" "PTE2PA tiny_pte \<noteq> 0" "valid tiny_pte"
    by (simp_all add: tiny_pte_def PTE_U_def PA2PTE_def PTE2PA_def valid_def PTE_V_def)
  show ?thesis
  proof
    assume a: "user_ok (mem tiny) tiny_root va"
    then have "PGROUNDDOWN va \<in> {0}" using tiny_only by (simp add: user_ok_def only_maps_def)
    then show "va < 4096" using z by simp
  next
    assume lt: "va < 4096"
    then have M: "va < MAXVA" by (rule less_trans) (simp add: MAXVA_def)
    have "leaf 2 (mem tiny) tiny_root va = leaf 2 (mem tiny) tiny_root 0"
      using leaf_PGROUNDDOWN [OF M, of "mem tiny" tiny_root] z lt by simp
    then show "user_ok (mem tiny) tiny_root va" using M u by (simp add: user_ok_def tiny_def tiny_leaf_0)
  qed
qed

lemma tiny_reachable: "reachable (mem tiny) tiny_root \<subseteq> {0x80301000, 0x80302000, 0x80303000, 0x80304000}"
proof -
  have "PTE2PA (leaf 2 (mem tiny) tiny_root va) = 0x80304000" if "user_ok (mem tiny) tiny_root va" for va
  proof -
    have "leaf 2 (mem tiny) tiny_root va = tiny_pte"
      using that by (auto simp: user_ok_def tiny_def tiny_leaf split: if_splits)
    then show ?thesis by (simp add: PTE2PA_def PA2PTE_def tiny_pte_def)
  qed
  then show ?thesis using tiny_tables(3) by (auto simp: reachable_def tiny_def)
qed

lemma tiny_clear: "clear_of (mem tiny) tiny_root 0x80306000 8" "clear_of (mem tiny) tiny_root 0x80307000 8"
proof -
  have al: "aligned 12 p" if "p \<in> tables 2 (mem tiny) tiny_root" for p
    using that tiny_tables(3) tiny_aligned by (auto simp: tiny_def)
  have "(0x80306000 :: u64) \<notin> reachable (mem tiny) tiny_root" "(0x80307000 :: u64) \<notin> reachable (mem tiny) tiny_root"
    using tiny_reachable by auto
  then show "clear_of (mem tiny) tiny_root 0x80306000 8" "clear_of (mem tiny) tiny_root 0x80307000 8"
    by (simp_all add: clear_page [OF _ _ _ al] aligned12_mod PGSIZE_def)
qed

text \<open>
  C14: what the kernel copies out to a process it reads back: when every page of
  the range is accessible, \<^verbatim>\<open>copyout\<close> succeeds and a \<^verbatim>\<open>copyin\<close> of the same range into a buffer
  apart from the source returns the very bytes; otherwise \<^verbatim>\<open>copyout\<close> returns -1.
\<close>

theorem copyout_copyin:
  assumes u: "uspace kend s F root V" and V: "\<And>va. user_ok (mem s) root va \<Longrightarrow> PGROUNDDOWN va \<in> V"
    and c: "clear_of (mem s) root src (unat len)" "clear_of (mem s) root buf (unat len)"
  shows "\<exists>r s1. copyout root va src len s = Some (r, s1) \<and>
     r = (if \<forall>i < unat len. user_ok (mem s) root (va + of_nat i) then 0 else - 1) \<and>
     (r = 0 \<longrightarrow> (\<exists>s2. copyin root buf va len s1 = Some (0, s2) \<and>
        (\<forall>i < unat len. mem s2 (buf + of_nat i) = mem s (src + of_nat i))))"
proof -
  have wf: "wf_pt 2 (page kend) (mem s) root" using u by (simp add: uspace_def pt_inv_def)
  have na: "no_alias (mem s) root" by (rule no_alias_uspace [OF u V])
  obtain r m1 where o: "copyout root va src len s = Some (r, s\<lparr>mem := m1\<rparr>)"
      "written_out (mem s) root va src (unat len) r m1"
    using copyout_result [OF wf c(1) na] by blast
  have d: "\<forall>b. (\<forall>va. user_ok (mem s) root va \<longrightarrow> b \<noteq> translate (mem s) root va) \<longrightarrow> m1 b = mem s b"
    using o(2) unfolding written_out_def by blast
  note pw = no_alias_write [OF na d]
  have cl: "clear_of m1 root buf (unat len)" using c(2) pw(5) by (simp add: clear_of_def)
  have "\<exists>s2. copyin root buf va len (s\<lparr>mem := m1\<rparr>) = Some (0, s2) \<and>
      (\<forall>i < unat len. mem s2 (buf + of_nat i) = mem s (src + of_nat i))" if r0: "r = 0"
  proof -
    obtain r' m2 where i: "copyin root buf va len (s\<lparr>mem := m1\<rparr>) = Some (r', s\<lparr>mem := m2\<rparr>)"
        "read_in m1 root buf va (unat len) r' m2"
      using copyin_result [of kend "s\<lparr>mem := m1\<rparr>" root buf len va] pw(2) [OF wf] cl by auto
    have ok: "\<forall>i < unat len. user_ok (mem s) root (va + of_nat i)"
      using o(2) r0 by (auto simp: written_out_def split: if_splits)
    then have "r' = 0" using i(2) by (simp add: read_in_def pw(3))
    moreover have "m2 (buf + of_nat j) = mem s (src + of_nat j)" if "j < unat len" for j
      using i(2) o(2) r0 \<open>r' = 0\<close> that by (simp add: read_in_def written_out_def pw(4))
    ultimately show ?thesis using i(1) by auto
  qed
  then show ?thesis using o by (auto simp: written_out_def)
qed

theorem copyout_copyin_witness:
  "\<exists>r s1. copyout tiny_root 0x10 0x80306000 8 tiny = Some (r, s1) \<and>
     r = (if \<forall>i < unat (8 :: u64). user_ok (mem tiny) tiny_root (0x10 + of_nat i) then 0 else - 1) \<and>
     (r = 0 \<longrightarrow> (\<exists>s2. copyin tiny_root 0x80307000 0x10 8 s1 = Some (0, s2) \<and>
        (\<forall>i < unat (8 :: u64). mem s2 (0x80307000 + of_nat i) = mem tiny (0x80306000 + of_nat i))))"
proof (rule copyout_copyin [OF tiny_space])
  show "PGROUNDDOWN va \<in> {0}" if "user_ok (mem tiny) tiny_root va" for va
    using that tiny_only by (simp add: user_ok_def only_maps_def)
qed (use tiny_clear in simp_all)

end
