(* ===== verification/XV_Pipe.thy ===== *)
theory XV_Pipe
  imports XV_Sched XV_Uspace
begin

section \<open>Pipes\<close>

text \<open>
  \<^verbatim>\<open>kernel/ipc/pipe.c\<close> with the copies of \<^verbatim>\<open>kernel/sched/proc.c\<close> it uses.  A pipe is known by the
  address of its page; its two counters are also the channels that readers and writers sleep on.
  \<^verbatim>\<open>pipewrite\<close> and \<^verbatim>\<open>piperead\<close> are split where they sleep: a segment starts with the lock of the pipe
  held and ends when the call returns or the thread gives up the CPU.  The local variable
  \<^verbatim>\<open>ch\<close> has an address of its own; the page table and the process of the caller are parameters.
\<close>

record pipe =
  p_data :: "u8 list"
  p_nread :: u32
  p_nwrite :: u32
  p_readopen :: bool
  p_writeopen :: bool

record pipest = tst +
  pipes :: "u64 \<Rightarrow> pipe"
  p_killed :: "nat \<Rightarrow> bool"

definition PIPESIZE :: nat where "PIPESIZE = 512"

definition on_pipe :: "u64 \<Rightarrow> (pipe \<Rightarrow> pipe) \<Rightarrow> 'z pipest_scheme \<Rightarrow> 'z pipest_scheme" where
  "on_pipe pi f s = s\<lparr>pipes := (pipes s)(pi := f (pipes s pi))\<rparr>"

text \<open>\<^verbatim>\<open>&pi->nread\<close> and \<^verbatim>\<open>&pi->nwrite\<close>: the lock takes 24 bytes and the data 512.\<close>

definition nread_chan :: "u64 \<Rightarrow> u64" where "nread_chan pi = pi + 536"
definition nwrite_chan :: "u64 \<Rightarrow> u64" where "nwrite_chan pi = pi + 540"

definition proc_killed :: "nat \<Rightarrow> 'z pipest_scheme \<Rightarrow> (bool \<times> 'z pipest_scheme) option" where
  "proc_killed p s = do {
     s \<leftarrow> acquire (L_proc p) s;
     let k = p_killed s p;
     s \<leftarrow> release (L_proc p) s;
     Some (k, s)
   }"

definition either_copyout ::
  "u64 \<Rightarrow> bool \<Rightarrow> u64 \<Rightarrow> u64 \<Rightarrow> u64 \<Rightarrow> 'z kmst_scheme \<Rightarrow> (int \<times> 'z kmst_scheme) option" where
  "either_copyout pagetable user_dst dst src len s =
     (if user_dst then copyout pagetable dst src len s
      else Some (0, s\<lparr>mem := memmove dst src (ucast len) (mem s)\<rparr>))"

definition either_copyin ::
  "u64 \<Rightarrow> u64 \<Rightarrow> bool \<Rightarrow> u64 \<Rightarrow> u64 \<Rightarrow> 'z kmst_scheme \<Rightarrow> (int \<times> 'z kmst_scheme) option" where
  "either_copyin pagetable dst user_src src len s =
     (if user_src then copyin pagetable dst src len s
      else Some (0, s\<lparr>mem := memmove dst src (ucast len) (mem s)\<rparr>))"

text \<open>The part of \<^verbatim>\<open>pipealloc\<close> that sets up the page of the pipe.\<close>

definition pipe_setup :: "u64 \<Rightarrow> 'z pipest_scheme \<Rightarrow> 'z pipest_scheme" where
  "pipe_setup pi s = on_pipe pi (\<lambda>p. p\<lparr>p_readopen := True, p_writeopen := True, p_nwrite := 0, p_nread := 0\<rparr>) s"

definition pipeclose :: "u64 \<Rightarrow> nat \<Rightarrow> u64 \<Rightarrow> bool \<Rightarrow> 'z pipest_scheme \<Rightarrow> 'z pipest_scheme option" where
  "pipeclose kend c pi writable s = do {
     s \<leftarrow> acquire (L_pipe pi) s;
     s \<leftarrow> (if writable then thread_wakeup_chan c (nread_chan pi) (on_pipe pi (p_writeopen_update (\<lambda>_. False)) s)
          else thread_wakeup_chan c (nwrite_chan pi) (on_pipe pi (p_readopen_update (\<lambda>_. False)) s));
     if \<not> p_readopen (pipes s pi) \<and> \<not> p_writeopen (pipes s pi) then do {
       s \<leftarrow> release (L_pipe pi) s;
       kfree kend pi s
     }
     else release (L_pipe pi) s
   }"

text \<open>How a segment ends: with the value returned, or asleep with the loop counter.\<close>

datatype pipe_result = Pipe_Return int | Pipe_Sleep int

definition pipewrite_end :: "nat \<Rightarrow> u64 \<Rightarrow> int \<Rightarrow> 'z pipest_scheme \<Rightarrow> (pipe_result \<times> 'z pipest_scheme) option" where
  "pipewrite_end c pi i s = do {
     s \<leftarrow> thread_wakeup_chan c (nread_chan pi) s;
     s \<leftarrow> release (L_pipe pi) s;
     Some (Pipe_Return i, s)
   }"

definition pipe_put :: "u8 \<Rightarrow> pipe \<Rightarrow> pipe" where
  "pipe_put ch p = p\<lparr>p_data := (p_data p)[unat (p_nwrite p) mod PIPESIZE := ch], p_nwrite := p_nwrite p + 1\<rparr>"

partial_function (option) pipewrite_loop ::
  "nat \<Rightarrow> nat \<Rightarrow> u64 \<Rightarrow> u64 \<Rightarrow> u64 \<Rightarrow> bool \<Rightarrow> u64 \<Rightarrow> int \<Rightarrow> int \<Rightarrow> 'z pipest_scheme \<Rightarrow> (pipe_result \<times> 'z pipest_scheme) option" where
  "pipewrite_loop c pr pagetable ch pi user_src addr n i s =
     (if i < n then do {
        (stop, s) \<leftarrow> (if \<not> p_readopen (pipes s pi) then Some (True, s) else proc_killed pr s);
        if stop then do {
          s \<leftarrow> release (L_pipe pi) s;
          Some (Pipe_Return (- 1), s)
        }
        else if p_nwrite (pipes s pi) = p_nread (pipes s pi) + of_nat PIPESIZE then do {
          s \<leftarrow> thread_wakeup_chan c (nread_chan pi) s;
          s \<leftarrow> thread_sleep_enter c (nwrite_chan pi) (L_pipe pi) None s;
          Some (Pipe_Sleep i, s)
        }
        else do {
          (r, s) \<leftarrow> either_copyin pagetable ch user_src (addr + of_int i) 1 s;
          if r = - 1 then pipewrite_end c pi i s
          else pipewrite_loop c pr pagetable ch pi user_src addr n (i + 1) (on_pipe pi (pipe_put (mem s ch)) s)
        }
      }
      else pipewrite_end c pi i s)"

definition pipewrite ::
  "nat \<Rightarrow> nat \<Rightarrow> u64 \<Rightarrow> u64 \<Rightarrow> u64 \<Rightarrow> bool \<Rightarrow> u64 \<Rightarrow> int \<Rightarrow> 'z pipest_scheme \<Rightarrow> (pipe_result \<times> 'z pipest_scheme) option" where
  "pipewrite c pr pagetable ch pi user_src addr n s = do {
     s \<leftarrow> acquire (L_pipe pi) s;
     pipewrite_loop c pr pagetable ch pi user_src addr n 0 s
   }"

text \<open>After the sleep of thread \<open>t\<close> the loop goes on with the counter it had.\<close>

definition pipewrite_resume ::
  "nat \<Rightarrow> nat \<Rightarrow> nat \<Rightarrow> u64 \<Rightarrow> u64 \<Rightarrow> u64 \<Rightarrow> bool \<Rightarrow> u64 \<Rightarrow> int \<Rightarrow> int \<Rightarrow> 'z pipest_scheme \<Rightarrow> (pipe_result \<times> 'z pipest_scheme) option" where
  "pipewrite_resume c t pr pagetable ch pi user_src addr n i s = do {
     s \<leftarrow> thread_sleep_exit t (L_pipe pi) s;
     pipewrite_loop c pr pagetable ch pi user_src addr n i s
   }"

definition piperead_end :: "nat \<Rightarrow> u64 \<Rightarrow> int \<Rightarrow> 'z pipest_scheme \<Rightarrow> (pipe_result \<times> 'z pipest_scheme) option" where
  "piperead_end c pi i s = do {
     s \<leftarrow> thread_wakeup_chan c (nwrite_chan pi) s;
     s \<leftarrow> release (L_pipe pi) s;
     Some (Pipe_Return i, s)
   }"

partial_function (option) piperead_copy ::
  "nat \<Rightarrow> u64 \<Rightarrow> u64 \<Rightarrow> u64 \<Rightarrow> bool \<Rightarrow> u64 \<Rightarrow> int \<Rightarrow> int \<Rightarrow> 'z pipest_scheme \<Rightarrow> (pipe_result \<times> 'z pipest_scheme) option" where
  "piperead_copy c pagetable ch pi user_dst addr n i s =
     (if i < n then
        if p_nread (pipes s pi) = p_nwrite (pipes s pi) then piperead_end c pi i s
        else do {
          let s = s\<lparr>mem := (mem s)(ch := p_data (pipes s pi) ! (unat (p_nread (pipes s pi)) mod PIPESIZE))\<rparr>;
          let s = on_pipe pi (p_nread_update (\<lambda>r. r + 1)) s;
          (r, s) \<leftarrow> either_copyout pagetable user_dst (addr + of_int i) ch 1 s;
          if r = - 1 then piperead_end c pi i s
          else piperead_copy c pagetable ch pi user_dst addr n (i + 1) s
        }
      else piperead_end c pi i s)"

text \<open>The wait at the start of \<^verbatim>\<open>piperead\<close>, which a thread that has slept goes through again.\<close>

definition piperead_wait ::
  "nat \<Rightarrow> nat \<Rightarrow> u64 \<Rightarrow> u64 \<Rightarrow> u64 \<Rightarrow> bool \<Rightarrow> u64 \<Rightarrow> int \<Rightarrow> 'z pipest_scheme \<Rightarrow> (pipe_result \<times> 'z pipest_scheme) option" where
  "piperead_wait c pr pagetable ch pi user_dst addr n s =
     (if p_nread (pipes s pi) = p_nwrite (pipes s pi) \<and> p_writeopen (pipes s pi) then do {
        (killed, s) \<leftarrow> proc_killed pr s;
        if killed then do {
          s \<leftarrow> release (L_pipe pi) s;
          Some (Pipe_Return (- 1), s)
        }
        else do {
          s \<leftarrow> thread_sleep_enter c (nread_chan pi) (L_pipe pi) None s;
          Some (Pipe_Sleep 0, s)
        }
      }
      else piperead_copy c pagetable ch pi user_dst addr n 0 s)"

definition piperead ::
  "nat \<Rightarrow> nat \<Rightarrow> u64 \<Rightarrow> u64 \<Rightarrow> u64 \<Rightarrow> bool \<Rightarrow> u64 \<Rightarrow> int \<Rightarrow> 'z pipest_scheme \<Rightarrow> (pipe_result \<times> 'z pipest_scheme) option" where
  "piperead c pr pagetable ch pi user_dst addr n s = do {
     s \<leftarrow> acquire (L_pipe pi) s;
     piperead_wait c pr pagetable ch pi user_dst addr n s
   }"

definition piperead_resume ::
  "nat \<Rightarrow> nat \<Rightarrow> nat \<Rightarrow> u64 \<Rightarrow> u64 \<Rightarrow> u64 \<Rightarrow> bool \<Rightarrow> u64 \<Rightarrow> int \<Rightarrow> 'z pipest_scheme \<Rightarrow> (pipe_result \<times> 'z pipest_scheme) option" where
  "piperead_resume c t pr pagetable ch pi user_dst addr n s = do {
     s \<leftarrow> thread_sleep_exit t (L_pipe pi) s;
     piperead_wait c pr pagetable ch pi user_dst addr n s
   }"

subsection \<open>The bytes in a pipe\<close>

text \<open>The counters wrap at $2^{32}$, a multiple of the size of the buffer.\<close>

definition contents :: "pipe \<Rightarrow> u8 list" where
  "contents p = map (\<lambda>k. p_data p ! ((unat (p_nread p) + k) mod PIPESIZE)) [0..<unat (p_nwrite p - p_nread p)]"

definition pipe_ok :: "pipe \<Rightarrow> bool" where
  "pipe_ok p \<longleftrightarrow> length (p_data p) = PIPESIZE \<and> unat (p_nwrite p - p_nread p) \<le> PIPESIZE"

lemma length_contents [simp]: "length (contents p) = unat (p_nwrite p - p_nread p)"
  by (simp add: contents_def)

lemma unat_add_mod512: "unat (x + of_nat k :: u32) mod 512 = (unat x + k) mod 512"
proof -
  have "unat (x + of_nat k) = (unat x + k) mod 4294967296"
    by (simp add: unat_word_ariths unat_of_nat take_bit_eq_mod mod_simps)
  then show ?thesis by (simp add: mod_mod_cancel)
qed

lemma contents_put:
  assumes ok: "pipe_ok p" and full: "p_nwrite p \<noteq> p_nread p + of_nat PIPESIZE"
  shows "contents (pipe_put b p) = contents p @ [b]" "pipe_ok (pipe_put b p)"
proof -
  define d where "d = unat (p_nwrite p - p_nread p)"
  have w: "p_nwrite p = p_nread p + of_nat d" by (simp add: d_def)
  have "d \<noteq> 512" using full w by (auto simp: PIPESIZE_def)
  then have d: "d < 512" using ok by (simp add: pipe_ok_def d_def PIPESIZE_def)
  have n: "p_nwrite p + 1 - p_nread p = of_nat (Suc d)" by (simp add: w)
  then have d1: "unat (p_nwrite p + 1 - p_nread p) = Suc d" using d by (simp add: unat_of_nat take_bit_nat_eq_self del: of_nat_Suc)
  have at: "unat (p_nwrite p) mod 512 = (unat (p_nread p) + d) mod 512" unfolding w by (rule unat_add_mod512)
  have other: "(unat (p_nread p) + k) mod 512 \<noteq> (unat (p_nread p) + d) mod 512" if "k < d" for k
    using that d mod_eq_dvd_iff_nat [of "unat (p_nread p) + k" "unat (p_nread p) + d" 512] by (auto dest: dvd_imp_le)
  have l: "length (p_data p) = 512" using ok by (simp add: pipe_ok_def PIPESIZE_def)
  show "contents (pipe_put b p) = contents p @ [b]"
    by (auto simp: contents_def pipe_put_def PIPESIZE_def d1 at l nth_list_update other [symmetric] simp flip: d_def)
  show "pipe_ok (pipe_put b p)" using l d1 d by (simp add: pipe_ok_def pipe_put_def PIPESIZE_def)
qed

lemma contents_get:
  assumes ok: "pipe_ok p" and ne: "p_nread p \<noteq> p_nwrite p"
  shows "contents p = p_data p ! (unat (p_nread p) mod PIPESIZE) # contents (p\<lparr>p_nread := p_nread p + 1\<rparr>)"
    "pipe_ok (p\<lparr>p_nread := p_nread p + 1\<rparr>)"
proof -
  define d where "d = unat (p_nwrite p - p_nread p - 1)"
  have "p_nwrite p - p_nread p \<noteq> 0" using ne by auto
  then have "0 < unat (p_nwrite p - p_nread p)" by (simp add: unat_gt_0)
  then have d1: "unat (p_nwrite p - p_nread p) = Suc d" using \<open>p_nwrite p - p_nread p \<noteq> 0\<close> by (simp add: d_def unat_minus_one)
  have d2: "unat (p_nwrite p - (p_nread p + 1)) = d" by (simp add: d_def algebra_simps)
  have at: "(unat (p_nread p + 1) + k) mod 512 = (unat (p_nread p) + Suc k) mod 512" for k
    using unat_add_mod512 [of "p_nread p" 1] mod_add_left_eq [of "unat (p_nread p + 1)" 512 k] mod_add_left_eq [of "unat (p_nread p) + 1" 512 k]
    by simp
  show "contents p = p_data p ! (unat (p_nread p) mod PIPESIZE) # contents (p\<lparr>p_nread := p_nread p + 1\<rparr>)"
    unfolding contents_def d1 upt_conv_Cons [OF zero_less_Suc] by (simp add: d2 PIPESIZE_def at map_Suc_upt [symmetric] comp_def del: upt_Suc)
  show "pipe_ok (p\<lparr>p_nread := p_nread p + 1\<rparr>)" using ok d1 d2 by (simp add: pipe_ok_def)
qed

lemma contents_open [simp]:
  "contents (p\<lparr>p_readopen := a\<rparr>) = contents p" "contents (p\<lparr>p_writeopen := a\<rparr>) = contents p"
  "pipe_ok (p\<lparr>p_readopen := a\<rparr>) = pipe_ok p" "pipe_ok (p\<lparr>p_writeopen := a\<rparr>) = pipe_ok p"
  by (simp_all add: contents_def pipe_ok_def)

subsection \<open>The bytes of the caller\<close>

text \<open>The byte at an address of the caller: of its address space, when it may access it, or of the kernel.\<close>

definition ubyte :: "memory \<Rightarrow> u64 \<Rightarrow> bool \<Rightarrow> u64 \<Rightarrow> u8 option" where
  "ubyte m pagetable user a =
     (if user then if user_ok m pagetable a then Some (m (translate m pagetable a)) else None else Some (m a))"

text \<open>
  A buffer of \<open>n\<close> bytes at \<open>addr\<close> that the variable \<^verbatim>\<open>ch\<close> is not part of.  User buffers are in an
  address space as \<^verbatim>\<open>XV_Uspace\<close> keeps it.
\<close>

definition caller_ok :: "u64 \<Rightarrow> memory \<Rightarrow> u64 \<Rightarrow> bool \<Rightarrow> u64 \<Rightarrow> u64 \<Rightarrow> nat \<Rightarrow> bool" where
  "caller_ok kend m pagetable user ch addr n \<longleftrightarrow> n < 2 ^ 31 \<and>
     (if user then wf_pt 2 (page kend) m pagetable \<and> clear_of m pagetable ch 1 \<and> no_alias m pagetable
      else (\<forall>k < n. addr + of_nat k \<noteq> ch))"

lemma one_byte [simp]: "unat (b - a :: u64) < Suc 0 \<longleftrightarrow> b = a" "0 < unat (b - a :: u64) \<longleftrightarrow> b \<noteq> a"
  "unat (b - a :: u64) = 0 \<longleftrightarrow> b = a"
  by (simp_all add: unat_eq_0 unat_gt_0)

lemma memmove_byte: "memmove dst src 1 m b = (if b = dst then m src else m b)"
proof -
  have "unat x + unat (1 :: u32) \<le> 2 ^ 64" for x :: u64 using u64_lt [of x] by (simp add: Suc_le_eq del: u64_lt)
  from memmove_at [OF this this] show ?thesis by simp
qed

lemma caller_ok_ch:
  assumes c: "caller_ok kend m pt user ch addr n" and d: "\<And>b. b \<noteq> ch \<Longrightarrow> m' b = m b"
  shows "caller_ok kend m' pt user ch addr n" "k < n \<Longrightarrow> ubyte m' pt user (addr + of_nat k) = ubyte m pt user (addr + of_nat k)"
proof -
  have "(caller_ok kend m' pt user ch addr n) \<and> (k < n \<longrightarrow> ubyte m' pt user (addr + of_nat k) = ubyte m pt user (addr + of_nat k))"
  proof (cases user)
    case True
    have cl: "clear_of m pt ch 1" using c True by (simp add: caller_ok_def)
    have d1: "\<not> unat (b - ch) < 1 \<Longrightarrow> m' b = m b" for b using d by simp
    have w: "leaf 2 m' pt va = leaf 2 m pt va" "wf_pt 2 ok m pt \<Longrightarrow> wf_pt 2 ok m' pt" "user_ok m' pt va = user_ok m pt va"
      "translate m' pt va = translate m pt va" "reachable m' pt = reachable m pt"
      "user_ok m pt va \<Longrightarrow> m' (translate m pt va) = m (translate m pt va)" for va ok
      using clear_write [OF cl, of m'] d1 by blast+
    have "agree (reachable m pt) m m'" using cl d1 unfolding clear_of_def agree_def by blast
    then have ag: "agree (tables 2 m pt) m m'" by (rule agree_mono) (simp add: reachable_def)
    have wf: "wf_pt 2 (page kend) m pt" and "no_alias m pt" using c True by (simp_all add: caller_ok_def)
    then have "no_alias m' pt" unfolding no_alias_def tables_frame [OF ag] w(1) w(3) by blast
    moreover have "clear_of m' pt ch 1" using cl unfolding clear_of_def w(5) .
    moreover note w(2) [OF wf]
    moreover have "ubyte m' pt user a = ubyte m pt user a" for a using True w(6) unfolding ubyte_def w(3) w(4) by simp
    ultimately show ?thesis using c True by (simp add: caller_ok_def)
  qed (use c d in \<open>simp add: caller_ok_def ubyte_def\<close>)
  then show "caller_ok kend m' pt user ch addr n" "k < n \<Longrightarrow> ubyte m' pt user (addr + of_nat k) = ubyte m pt user (addr + of_nat k)"
    by simp_all
qed

lemma either_copyin_byte:
  assumes c: "caller_ok kend (mem s) pt user ch addr n"
  shows "\<exists>r m'. either_copyin pt ch user a 1 s = Some (r, s\<lparr>mem := m'\<rparr>) \<and> (\<forall>b. b \<noteq> ch \<longrightarrow> m' b = mem s b) \<and>
    (case ubyte (mem s) pt user a of None \<Rightarrow> r = - 1 | Some b \<Rightarrow> r = 0 \<and> m' ch = b)"
proof (cases user)
  case True
  then obtain r m' where "copyin pt ch a 1 s = Some (r, s\<lparr>mem := m'\<rparr>)" "read_in (mem s) pt ch a 1 r m'"
    using copyin_result [of kend s pt ch 1 a] c by (auto simp: caller_ok_def)
  then show ?thesis using True
    by (intro exI [of _ r] exI [of _ m']) (auto simp: either_copyin_def read_in_def ubyte_def)
next
  case False
  have "memmove ch a 1 (mem s) b = (if b = ch then mem s a else mem s b)" for b by (rule memmove_byte)
  then show ?thesis using False
    by (intro exI [of _ 0] exI [of _ "memmove ch a 1 (mem s)"]) (simp add: either_copyin_def ubyte_def)
qed

lemma either_copyout_byte:
  assumes c: "caller_ok kend (mem s) pt user ch addr n" and k: "k < n" and u: "ubyte (mem s) pt user (addr + of_nat k) \<noteq> None"
  shows "\<exists>m'. either_copyout pt user (addr + of_nat k) ch 1 s = Some (0, s\<lparr>mem := m'\<rparr>) \<and> caller_ok kend m' pt user ch addr n \<and>
    ubyte m' pt user (addr + of_nat k) = Some (mem s ch) \<and>
    (\<forall>j < n. j \<noteq> k \<longrightarrow> ubyte m' pt user (addr + of_nat j) = ubyte (mem s) pt user (addr + of_nat j))"
proof -
  have ne: "addr + of_nat j \<noteq> addr + of_nat k" if "j < n" "j \<noteq> k" for j
    using c that k by (simp add: caller_ok_def word_of_nat_eq_iff take_bit_nat_eq_self)
  show ?thesis
  proof (cases user)
    case True
    have ok: "user_ok (mem s) pt (addr + of_nat k)" using u True by (simp add: ubyte_def split: if_splits)
    have na: "no_alias (mem s) pt" using c True by (simp add: caller_ok_def)
    obtain r m' where o: "copyout pt (addr + of_nat k) ch 1 s = Some (r, s\<lparr>mem := m'\<rparr>)" "written_out (mem s) pt (addr + of_nat k) ch 1 r m'"
      using copyout_result [of kend s pt ch 1 "addr + of_nat k"] c True by (auto simp: caller_ok_def)
    have w: "r = 0" "m' (translate (mem s) pt (addr + of_nat k)) = mem s ch"
      "\<And>b. b \<noteq> translate (mem s) pt (addr + of_nat k) \<Longrightarrow> m' b = mem s b" using o(2) ok by (auto simp: written_out_def)
    then have d: "\<forall>b. (\<forall>va. user_ok (mem s) pt va \<longrightarrow> b \<noteq> translate (mem s) pt va) \<longrightarrow> m' b = mem s b" using ok by blast
    note nw = no_alias_write [OF na d]
    have "ubyte m' pt user (addr + of_nat j) = ubyte (mem s) pt user (addr + of_nat j)" if "j < n" "j \<noteq> k" for j
      using w(3) [of "translate (mem s) pt (addr + of_nat j)"] translate_inj [OF na _ ok, of "addr + of_nat j"] ne [OF that] True
      by (auto simp: ubyte_def nw(3,4))
    moreover have "caller_ok kend m' pt user ch addr n" using c True nw(2,5,6) by (simp add: caller_ok_def clear_of_def)
    moreover have "ubyte m' pt user (addr + of_nat k) = Some (mem s ch)" using w(2) nw(3,4) ok True by (simp add: ubyte_def)
    ultimately show ?thesis using o(1) w(1) True by (intro exI [of _ m']) (simp add: either_copyout_def)
  next
    case False
    have "memmove (addr + of_nat k) ch 1 (mem s) b = (if b = addr + of_nat k then mem s ch else mem s b)" for b by (rule memmove_byte)
    then show ?thesis using False c ne
      by (intro exI [of _ "memmove (addr + of_nat k) ch 1 (mem s)"]) (simp add: either_copyout_def caller_ok_def ubyte_def)
  qed
qed

subsection \<open>Segments\<close>

text \<open>Thread \<open>t\<close> runs on CPU \<open>c\<close> and holds the lock of the pipe and no other.\<close>

definition ready :: "qid set \<Rightarrow> 'z pipest_scheme \<Rightarrow> (qid \<Rightarrow> nat list) \<Rightarrow> nat \<Rightarrow> nat \<Rightarrow> u64 \<Rightarrow> bool" where
  "ready W s Q c t pi \<longleftrightarrow> sched_ok W s Q \<and> cputhread s c = Some t \<and> held s = [L_pipe pi]"

lemma sched_ok_on_pipe [simp]: "sched_ok W (on_pipe qi f s) Q = sched_ok W s Q"
  by (simp add: on_pipe_def sched_ok_def sched_inv_def queues_of_def queues_def)

lemma ready_sel [simp]:
  "ready W (s\<lparr>mem := m\<rparr>) Q c t pi = ready W s Q c t pi" "ready W (on_pipe qi f s) Q c t pi = ready W s Q c t pi"
  by (simp_all add: ready_def on_pipe_def sched_ok_def sched_inv_def queues_of_def queues_def)

lemma on_pipe_sel [simp]:
  "pipes (on_pipe pi f s) = (pipes s)(pi := f (pipes s pi))" "p_killed (on_pipe pi f s) = p_killed s" "mem (on_pipe pi f s) = mem s"
  by (simp_all add: on_pipe_def)

lemma more_pipest: "tst.more s' = tst.more s \<Longrightarrow> pipes s' = pipes s \<and> p_killed s' = p_killed s"
  by (cases s, cases s') simp

lemma proc_killed_eq: "held s = [L_pipe pi] \<Longrightarrow> proc_killed p s = Some (p_killed s p, s)"
  by (simp add: proc_killed_def acquire_def release_def)

lemma wake_release:
  assumes "ready W s Q c t pi"
  shows "\<exists>s' Q'. thread_wakeup_chan c chan s \<bind> (\<lambda>s. release (L_pipe pi) s \<bind> (\<lambda>s. Some (r, s))) = Some (r, s') \<and>
    held s' = [] \<and> sched_ok W s' Q' \<and> cputhread s' = cputhread s \<and> mem s' = mem s \<and> pipes s' = pipes s"
proof -
  have o: "sched_ok W s Q" "no_tcb_lock s" and h: "held s = [L_pipe pi]" using assms by (simp_all add: ready_def no_tcb_lock_def)
  from wakeup_chan_ok [OF o] obtain s' where s': "thread_wakeup_chan c chan s = Some s'" "tframe s s'"
    "sched_ok W s' (wake_queues (sleepers c s chan) Q)" by blast
  have f: "held s' = [L_pipe pi]" "cputhread s' = cputhread s" "mem s' = mem s" "tst.more s' = tst.more s"
    using s'(2) h by (simp_all add: tframe_def)
  have "sched_ok W (s'\<lparr>held := []\<rparr>) (wake_queues (sleepers c s chan) Q)" by (rule sched_ok_held [OF s'(3)]) simp
  then show ?thesis using s'(1) f more_pipest [OF f(4)]
    by (intro exI [of _ "s'\<lparr>held := []\<rparr>"] exI [of _ "wake_queues (sleepers c s chan) Q"]) (simp add: release_def)
qed

lemma sleep_pipes:
  assumes "ready W s Q c t pi"
  shows "\<exists>s'. thread_sleep_enter c chan (L_pipe pi) None s = Some s' \<and> pipes s' = pipes s"
proof -
  have o: "sched_ok W s Q" "cputhread s c = Some t" "held s = [L_pipe pi]" using assms by (simp_all add: ready_def)
  from sleep_ok [OF o, of chan None] obtain s1 s' where 1: "thread_sleep_enter c chan (L_pipe pi) None s = Some s1"
    "scheduler_return c t s1 = Some s'" "tst.more s' = tst.more s" by auto
  have "tst.more s1 = tst.more s'" using 1(2) by (auto simp: scheduler_return_def release_def split: if_splits)
  then show ?thesis using 1 more_pipest [of s1 s] by auto
qed

lemma wake_ready:
  assumes "ready W s Q c t pi"
  shows "\<exists>s' Q'. thread_wakeup_chan c chan s = Some s' \<and> ready W s' Q' c t pi \<and> mem s' = mem s \<and> pipes s' = pipes s"
proof -
  have o: "sched_ok W s Q" "no_tcb_lock s" using assms by (simp_all add: ready_def no_tcb_lock_def)
  from wakeup_chan_ok [OF o] obtain s' where s': "thread_wakeup_chan c chan s = Some s'" "tframe s s'"
    "sched_ok W s' (wake_queues (sleepers c s chan) Q)" by blast
  have "tst.more s' = tst.more s" using s'(2) by (simp add: tframe_def)
  then show ?thesis using s' assms more_pipest [of s' s] by (auto simp: ready_def tframe_def)
qed

text \<open>What a writer has done to the pipe.\<close>

definition wrote :: "pipe \<Rightarrow> pipe \<Rightarrow> u8 list \<Rightarrow> bool" where
  "wrote p p' bs \<longleftrightarrow> contents p' = contents p @ bs \<and> pipe_ok p' \<and> p_readopen p' = p_readopen p \<and> p_writeopen p' = p_writeopen p"

text \<open>
  The bytes of a segment of \<^verbatim>\<open>pipewrite\<close> and how it ends: with -1 when nobody can read or the process
  is killed, with the number of bytes when all are written or one cannot be read, asleep when the
  pipe is full.
\<close>

definition wrote_result ::
  "int \<Rightarrow> pipe \<Rightarrow> bool \<Rightarrow> nat \<Rightarrow> nat \<Rightarrow> u8 list \<Rightarrow> (nat \<Rightarrow> u8 option) \<Rightarrow> pipe \<Rightarrow> pipe_result \<Rightarrow> bool" where
  "wrote_result err p killed n k bs f p' r \<longleftrightarrow> map Some bs = map f [k..<k + length bs] \<and> k + length bs \<le> n \<and>
     (r = Pipe_Return err \<and> bs = [] \<and> k < n \<and> (\<not> p_readopen p \<or> killed) \<or>
      r = Pipe_Return (int (k + length bs)) \<and> (k + length bs = n \<or> f (k + length bs) = None) \<or>
      r = Pipe_Sleep (int (k + length bs)) \<and> k + length bs < n \<and> length (contents p') = PIPESIZE)"

lemma wrote_result_Cons:
  assumes w: "wrote_result err p0 killed n (Suc k) bs g p' r" and g: "\<And>j. j < n \<Longrightarrow> g j = f j" and b: "f k = Some b"
    and p: "p_readopen p0 = p_readopen p" "p_readopen p" "\<not> killed"
  shows "wrote_result err p killed n k (b # bs) f p' r"
proof -
  have l: "Suc k + length bs \<le> n" "map Some bs = map f [Suc k..<Suc k + length bs]"
    using w g by (auto simp: wrote_result_def simp del: upt_Suc)
  have "map Some (b # bs) = map f [k..<k + length (b # bs)]" using l(2) b by (simp add: upt_conv_Cons del: upt_Suc)
  moreover have "f (Suc k + length bs) = g (Suc k + length bs) \<or> Suc k + length bs = n" using l(1) g [of "Suc k + length bs"] by fastforce
  ultimately show ?thesis using w l(1) p by (auto simp: wrote_result_def simp del: upt_Suc)
qed

lemma pipewrite_segment:
  assumes "ready W s Q c t pi" "pipe_ok (pipes s pi)" "caller_ok kend (mem s) pt user ch addr n" "k \<le> n"
  shows "\<exists>r s' bs. pipewrite_loop c pr pt ch pi user addr (int n) (int k) s = Some (r, s') \<and> wrote (pipes s pi) (pipes s' pi) bs \<and>
    wrote_result (- 1) (pipes s pi) (p_killed s pr) n k bs (\<lambda>j. ubyte (mem s) pt user (addr + of_nat j)) (pipes s' pi) r"
  using assms
proof (induction "n - k" arbitrary: s Q k)
  case 0
  then have n: "n = k" by simp
  from wake_release [OF "0.prems"(1), of "nread_chan pi" "Pipe_Return (int k)"] obtain s' where
    "pipewrite_end c pi (int k) s = Some (Pipe_Return (int k), s')" "pipes s' = pipes s" by (auto simp: pipewrite_end_def)
  then show ?case using n "0.prems"(2)
    by (intro exI [of _ "Pipe_Return (int k)"] exI [of _ s'] exI [of _ "[]"]) (subst pipewrite_loop.simps, simp add: wrote_def wrote_result_def)
next
  case (Suc d)
  note r = Suc.prems(1) and ok = Suc.prems(2) and c = Suc.prems(3)
  let ?f = "\<lambda>j. ubyte (mem s) pt user (addr + of_nat j)"
  have kn: "k < n" using Suc.hyps(2) by simp
  have h: "held s = [L_pipe pi]" using r by (simp add: ready_def)
  note pk = proc_killed_eq [OF h, of pr]
  show ?case
  proof (cases "\<not> p_readopen (pipes s pi) \<or> p_killed s pr")
    case True
    then have "pipewrite_loop c pr pt ch pi user addr (int n) (int k) s = Some (Pipe_Return (- 1), s\<lparr>held := []\<rparr>)"
      using kn pk h by (subst pipewrite_loop.simps) (auto simp: release_def)
    then show ?thesis using True kn ok
      by (intro exI [of _ "Pipe_Return (- 1)"] exI [of _ "s\<lparr>held := []\<rparr>"] exI [of _ "[]"]) (simp add: wrote_def wrote_result_def)
  next
    case go: False
    show ?thesis
    proof (cases "p_nwrite (pipes s pi) = p_nread (pipes s pi) + of_nat PIPESIZE")
      case True
      from wake_ready [OF r] obtain s1 Q1 where 1: "thread_wakeup_chan c (nread_chan pi) s = Some s1" "ready W s1 Q1 c t pi" "pipes s1 = pipes s" by blast
      from sleep_pipes [OF 1(2), of "nwrite_chan pi"] obtain s2 where 2: "thread_sleep_enter c (nwrite_chan pi) (L_pipe pi) None s1 = Some s2" "pipes s2 = pipes s1" by blast
      have "pipewrite_loop c pr pt ch pi user addr (int n) (int k) s = Some (Pipe_Sleep (int k), s2)"
        using kn pk go True 1(1) 2(1) by (subst pipewrite_loop.simps) simp
      then show ?thesis using kn ok True 1(3) 2(2)
        by (intro exI [of _ "Pipe_Sleep (int k)"] exI [of _ s2] exI [of _ "[]"]) (simp add: wrote_def wrote_result_def PIPESIZE_def)
    next
      case room: False
      from either_copyin_byte [OF c, of "addr + of_nat k"] obtain q m' where
        m': "either_copyin pt ch user (addr + of_nat k) 1 s = Some (q, s\<lparr>mem := m'\<rparr>)" "\<And>b. b \<noteq> ch \<Longrightarrow> m' b = mem s b"
          "case ?f k of None \<Rightarrow> q = - 1 | Some b \<Rightarrow> q = 0 \<and> m' ch = b" by blast
      show ?thesis
      proof (cases "?f k")
        case None
        have "ready W (s\<lparr>mem := m'\<rparr>) Q c t pi" using r by simp
        from wake_release [OF this, of "nread_chan pi" "Pipe_Return (int k)"] obtain s' where
          s': "pipewrite_end c pi (int k) (s\<lparr>mem := m'\<rparr>) = Some (Pipe_Return (int k), s')" "pipes s' = pipes s" by (auto simp: pipewrite_end_def)
        have "pipewrite_loop c pr pt ch pi user addr (int n) (int k) s = Some (Pipe_Return (int k), s')"
          using kn pk go room m' None s'(1) by (subst pipewrite_loop.simps) simp
        then show ?thesis using s'(2) None ok kn
          by (intro exI [of _ "Pipe_Return (int k)"] exI [of _ s'] exI [of _ "[]"]) (simp add: wrote_def wrote_result_def)
      next
        case (Some b)
        let ?s = "on_pipe pi (pipe_put b) (s\<lparr>mem := m'\<rparr>)"
        note put = contents_put [OF ok room, of b]
        have e: "pipewrite_loop c pr pt ch pi user addr (int n) (int k) s = pipewrite_loop c pr pt ch pi user addr (int n) (int (Suc k)) ?s"
          using kn pk go room m' Some by (subst pipewrite_loop.simps) (simp add: add.commute)
        have cm: "caller_ok kend m' pt user ch addr n" by (rule caller_ok_ch(1) [OF c m'(2)])
        have "n - Suc k = d" "Suc k \<le> n" using Suc.hyps(2) by simp_all
        then obtain q s' bs where I: "pipewrite_loop c pr pt ch pi user addr (int n) (int (Suc k)) ?s = Some (q, s')" "wrote (pipe_put b (pipes s pi)) (pipes s' pi) bs"
            "wrote_result (- 1) (pipe_put b (pipes s pi)) (p_killed s pr) n (Suc k) bs (\<lambda>j. ubyte m' pt user (addr + of_nat j)) (pipes s' pi) q"
          using Suc.hyps(1) [of "Suc k" ?s Q] r put(2) cm by auto
        have g: "ubyte m' pt user (addr + of_nat j) = ?f j" if "j < n" for j by (rule caller_ok_ch(2) [OF c m'(2) that])
        have "wrote (pipes s pi) (pipes s' pi) (b # bs)" using I(2) put(1) by (simp add: wrote_def pipe_put_def)
        moreover have "wrote_result (- 1) (pipes s pi) (p_killed s pr) n k (b # bs) ?f (pipes s' pi) q"
          by (rule wrote_result_Cons [OF I(3) g Some]) (use go in \<open>simp_all add: pipe_put_def\<close>)
        ultimately show ?thesis using I(1) e by metis
      qed
    qed
  qed
qed

text \<open>What a reader has done: it has taken \<open>bs\<close>, as many bytes as it wants and there are.\<close>

definition took :: "pipe \<Rightarrow> pipe \<Rightarrow> u8 list \<Rightarrow> nat \<Rightarrow> bool" where
  "took p p' bs m \<longleftrightarrow> contents p = bs @ contents p' \<and> pipe_ok p' \<and> length bs = min m (length (contents p)) \<and>
     p_readopen p' = p_readopen p \<and> p_writeopen p' = p_writeopen p"

lemma took_Cons:
  assumes "took p1 p' bs (n - Suc k)" "contents p = b # contents p1" "k < n" "p_readopen p1 = p_readopen p" "p_writeopen p1 = p_writeopen p"
  shows "took p p' (b # bs) (n - k)"
proof -
  have t: "contents p1 = bs @ contents p'" "pipe_ok p'" "length bs = min (n - Suc k) (length (contents p1))"
    "p_readopen p' = p_readopen p1" "p_writeopen p' = p_writeopen p1" using assms(1) unfolding took_def by blast+
  have "n - k = Suc (n - Suc k)" using assms(3) by simp
  then have "length (b # bs) = min (n - k) (length (contents p))" by (simp only: assms(2) list.size(4) t(3) min_Suc_Suc add_Suc_right add_0_right One_nat_def)
  then show ?thesis using t(1,2,4,5) assms(2,4,5) unfolding took_def by simp
qed

lemma piperead_end_ok:
  assumes "ready W s Q c t pi"
  shows "\<exists>s'. piperead_end c pi i s = Some (Pipe_Return i, s') \<and> pipes s' = pipes s \<and> mem s' = mem s"
  using wake_release [OF assms, of "nwrite_chan pi" "Pipe_Return i"] by (auto simp: piperead_end_def)

lemma piperead_copy_segment:
  assumes "ready W s Q c t pi" "pipe_ok (pipes s pi)" "caller_ok kend (mem s) pt user ch addr n" "k \<le> n"
    and "\<And>j. j < n \<Longrightarrow> ubyte (mem s) pt user (addr + of_nat j) \<noteq> None"
  shows "\<exists>s' bs. piperead_copy c pt ch pi user addr (int n) (int k) s = Some (Pipe_Return (int (k + length bs)), s') \<and>
    took (pipes s pi) (pipes s' pi) bs (n - k) \<and>
    (\<forall>j < length bs. ubyte (mem s') pt user (addr + of_nat (k + j)) = Some (bs ! j)) \<and>
    (\<forall>j < k. ubyte (mem s') pt user (addr + of_nat j) = ubyte (mem s) pt user (addr + of_nat j))"
  using assms
proof (induction "n - k" arbitrary: s k)
  case 0
  then have n: "n = k" by simp
  from piperead_end_ok [OF "0.prems"(1), of "int k"] obtain s' where "piperead_end c pi (int k) s = Some (Pipe_Return (int k), s')"
    "pipes s' = pipes s" "mem s' = mem s" by blast
  then show ?case using n "0.prems"(2) by (intro exI [of _ s'] exI [of _ "[]"]) (subst piperead_copy.simps, simp add: took_def)
next
  case (Suc d)
  note r = Suc.prems(1) and ok = Suc.prems(2) and c = Suc.prems(3) and u = Suc.prems(5)
  have kn: "k < n" using Suc.hyps(2) by simp
  show ?case
  proof (cases "p_nread (pipes s pi) = p_nwrite (pipes s pi)")
    case True
    from piperead_end_ok [OF r, of "int k"] obtain s' where s': "piperead_end c pi (int k) s = Some (Pipe_Return (int k), s')"
      "pipes s' = pipes s" "mem s' = mem s" by blast
    then have "piperead_copy c pt ch pi user addr (int n) (int k) s = Some (Pipe_Return (int k), s')"
      using kn True by (subst piperead_copy.simps) simp
    then show ?thesis using s'(2,3) True ok by (intro exI [of _ s'] exI [of _ "[]"]) (simp add: took_def)
  next
    case ne: False
    let ?b = "p_data (pipes s pi) ! (unat (p_nread (pipes s pi)) mod PIPESIZE)"
    let ?m = "(mem s)(ch := ?b)"
    let ?s = "on_pipe pi (p_nread_update (\<lambda>r. r + 1)) (s\<lparr>mem := ?m\<rparr>)"
    have up: "p_nread_update (\<lambda>r. r + 1) (pipes s pi) = (pipes s pi)\<lparr>p_nread := p_nread (pipes s pi) + 1\<rparr>" by simp
    note g = contents_get [OF ok ne, folded up]
    have m: "?m b = mem s b" if "b \<noteq> ch" for b using that by simp
    have cm: "caller_ok kend (mem ?s) pt user ch addr n" using caller_ok_ch(1) [OF c, of ?m] by simp
    have um: "ubyte (mem ?s) pt user (addr + of_nat j) = ubyte (mem s) pt user (addr + of_nat j)" if "j < n" for j
      using caller_ok_ch(2) [OF c, of ?m, OF _ that] by simp
    have "ubyte (mem ?s) pt user (addr + of_nat k) \<noteq> None" using u [OF kn] um [OF kn] by simp
    from either_copyout_byte [OF cm kn this] obtain m' where
      m1: "either_copyout pt user (addr + of_nat k) ch 1 ?s = Some (0, ?s\<lparr>mem := m'\<rparr>)" "caller_ok kend m' pt user ch addr n"
        "ubyte m' pt user (addr + of_nat k) = Some (mem ?s ch)"
        "\<forall>j < n. j \<noteq> k \<longrightarrow> ubyte m' pt user (addr + of_nat j) = ubyte (mem ?s) pt user (addr + of_nat j)" by blast
    have m2: "ubyte m' pt user (addr + of_nat k) = Some ?b" using m1(3) by simp
    have m3: "ubyte m' pt user (addr + of_nat j) = ubyte (mem s) pt user (addr + of_nat j)" if "j < n" "j \<noteq> k" for j
      using m1(4) that um [OF that(1)] by simp
    note m' = m1(1,2) m2 m3
    let ?t = "?s\<lparr>mem := m'\<rparr>"
    have e: "piperead_copy c pt ch pi user addr (int n) (int k) s = piperead_copy c pt ch pi user addr (int n) (int (Suc k)) ?t"
      using kn ne m'(1) by (subst piperead_copy.simps) (simp add: Let_def add.commute)
    have "ubyte m' pt user (addr + of_nat j) \<noteq> None" if "j < n" for j using u [OF that] m'(3) m'(4) [OF that] by (cases "j = k") auto
    moreover have "n - Suc k = d" "Suc k \<le> n" using Suc.hyps(2) by simp_all
    moreover have "ready W ?t Q c t pi" using r by simp
    ultimately obtain s' bs where I: "piperead_copy c pt ch pi user addr (int n) (int (Suc k)) ?t = Some (Pipe_Return (int (Suc k + length bs)), s')"
        "took (pipes ?t pi) (pipes s' pi) bs (n - Suc k)" "\<forall>j < length bs. ubyte (mem s') pt user (addr + of_nat (Suc k + j)) = Some (bs ! j)"
        "\<forall>j < Suc k. ubyte (mem s') pt user (addr + of_nat j) = ubyte m' pt user (addr + of_nat j)"
      using Suc.hyps(1) [of "Suc k" ?t] g(2) m'(2) by auto
    have "took (pipes s pi) (pipes s' pi) (?b # bs) (n - k)" by (rule took_Cons [OF I(2)]) (use g(1) kn in simp_all)
    moreover have "ubyte (mem s') pt user (addr + of_nat (k + j)) = Some ((?b # bs) ! j)" if "j < length (?b # bs)" for j
      using that I(3,4) m'(3) by (cases j) simp_all
    moreover have "ubyte (mem s') pt user (addr + of_nat j) = ubyte (mem s) pt user (addr + of_nat j)" if "j < k" for j
      using that I(4) m'(4) [of j] kn by simp
    ultimately show ?thesis using I(1) e by (intro exI [of _ s'] exI [of _ "?b # bs"]) simp
  qed
qed

lemma piperead_segment:
  assumes r: "ready W s Q c t pi" and ok: "pipe_ok (pipes s pi)" and c: "caller_ok kend (mem s) pt user ch addr n"
    and u: "\<And>j. j < n \<Longrightarrow> ubyte (mem s) pt user (addr + of_nat j) \<noteq> None"
  shows "\<exists>r s' bs. piperead_wait c pr pt ch pi user addr (int n) s = Some (r, s') \<and>
    (contents (pipes s pi) = [] \<and> bs = [] \<and> pipes s' = pipes s \<and> (r = Pipe_Return (- 1) \<or> r = Pipe_Sleep 0) \<or>
     took (pipes s pi) (pipes s' pi) bs n \<and> r = Pipe_Return (int (length bs)) \<and>
     (\<forall>j < length bs. ubyte (mem s') pt user (addr + of_nat j) = Some (bs ! j)))"
proof (cases "p_nread (pipes s pi) = p_nwrite (pipes s pi) \<and> p_writeopen (pipes s pi)")
  case True
  have h: "held s = [L_pipe pi]" using r by (simp add: ready_def)
  have e: "contents (pipes s pi) = []" using True by (simp add: contents_def)
  obtain s1 where s1: "thread_sleep_enter c (nread_chan pi) (L_pipe pi) None s = Some s1" "pipes s1 = pipes s" using sleep_pipes [OF r] by blast
  have "piperead_wait c pr pt ch pi user addr (int n) s =
      (if p_killed s pr then Some (Pipe_Return (- 1), s\<lparr>held := []\<rparr>) else Some (Pipe_Sleep 0, s1))"
    using True proc_killed_eq [OF h, of pr] s1(1) h by (simp add: piperead_wait_def release_def)
  then show ?thesis using e s1(2) by (cases "p_killed s pr") auto
next
  case False
  from piperead_copy_segment [OF r ok c _ u, of 0] obtain s' bs where
    "piperead_copy c pt ch pi user addr (int n) 0 s = Some (Pipe_Return (int (length bs)), s')" "took (pipes s pi) (pipes s' pi) bs n"
    "\<forall>j < length bs. ubyte (mem s') pt user (addr + of_nat j) = Some (bs ! j)" by auto
  then show ?thesis using False by (auto simp: piperead_wait_def)
qed

lemma kfree_pipes: "kfree kend p s = Some s' \<Longrightarrow> pipes s' = pipes s"
  by (auto simp: kfree_def Let_def acquire_def release_def inc_freecnt_def split: if_splits)

lemma release_pipes: "release l s = Some s' \<Longrightarrow> pipes s' = pipes s"
  by (auto simp: release_def split: if_splits)

lemma pipeclose_pipes:
  assumes o: "sched_ok W s Q" "held s = []" and p: "pipeclose kend c pi w s = Some s'"
  shows "pipes s' pi = (if w then (pipes s pi)\<lparr>p_writeopen := False\<rparr> else (pipes s pi)\<lparr>p_readopen := False\<rparr>)"
proof -
  let ?f = "if w then p_writeopen_update (\<lambda>_. False) else p_readopen_update (\<lambda>_. False)"
  let ?a = "on_pipe pi ?f (s\<lparr>held := [L_pipe pi]\<rparr>)"
  have "sched_ok W (s\<lparr>held := [L_pipe pi]\<rparr>) Q" by (rule sched_ok_held [OF o(1)]) auto
  then have "sched_ok W ?a Q" by simp
  moreover have "no_tcb_lock ?a" by (simp add: no_tcb_lock_def on_pipe_def)
  ultimately obtain b where b: "thread_wakeup_chan c (if w then nread_chan pi else nwrite_chan pi) ?a = Some b" "tframe ?a b"
    using wakeup_chan_ok [of W ?a Q] by blast
  have "tst.more b = tst.more ?a" using b(2) by (simp add: tframe_def)
  from more_pipest [OF this] have pb: "pipes b pi = ?f (pipes s pi)" by simp
  have "pipes s' = pipes b"
  proof (cases "\<not> p_readopen (pipes b pi) \<and> \<not> p_writeopen (pipes b pi)")
    case True
    obtain b1 where "release (L_pipe pi) b = Some b1" "kfree kend pi b1 = Some s'"
      using p b(1) True o(2) by (cases w) (auto simp: pipeclose_def acquire_def)
    then show ?thesis using kfree_pipes release_pipes by metis
  next
    case False
    then have "release (L_pipe pi) b = Some s'" using p b(1) o(2) by (cases w) (auto simp: pipeclose_def acquire_def)
    then show ?thesis by (rule release_pipes)
  qed
  then show ?thesis using pb by simp
qed

subsection \<open>Readers and writers of one pipe\<close>

text \<open>
  Segments of any number of calls follow one another in any order, and between them anything else
  may happen that leaves the pipe alone.  \<open>sent\<close> are the bytes that writers had in their
  buffers and count as written, \<open>rcvd\<close> the bytes that the readers then find in theirs.
\<close>

definition progress :: "nat \<Rightarrow> pipe_result \<Rightarrow> nat" where
  "progress k r = (case r of Pipe_Return i \<Rightarrow> if i < 0 then k else nat i | Pipe_Sleep i \<Rightarrow> nat i)"

inductive pipe_run :: "u64 \<Rightarrow> u64 \<Rightarrow> pipest \<Rightarrow> u8 list \<Rightarrow> u8 list \<Rightarrow> bool" for kend pi :: u64 where
  run_new: "length (p_data (pipes s pi)) = PIPESIZE \<Longrightarrow> pipe_run kend pi (pipe_setup pi s) [] []"
| run_other: "pipe_run kend pi s sent rcvd \<Longrightarrow> pipes s' pi = pipes s pi \<Longrightarrow> pipe_run kend pi s' sent rcvd"
| run_write: "pipe_run kend pi s sent rcvd \<Longrightarrow> ready W s Q c t pi \<Longrightarrow> caller_ok kend (mem s) pt user ch addr n \<Longrightarrow> k \<le> n \<Longrightarrow>
    pipewrite_loop c pr pt ch pi user addr (int n) (int k) s = Some (r, s') \<Longrightarrow>
    pipe_run kend pi s' (sent @ map (\<lambda>j. the (ubyte (mem s) pt user (addr + of_nat j))) [k..<progress k r]) rcvd"
| run_read: "pipe_run kend pi s sent rcvd \<Longrightarrow> ready W s Q c t pi \<Longrightarrow> caller_ok kend (mem s) pt user ch addr n \<Longrightarrow>
    (\<And>j. j < n \<Longrightarrow> ubyte (mem s) pt user (addr + of_nat j) \<noteq> None) \<Longrightarrow>
    piperead_wait c pr pt ch pi user addr (int n) s = Some (r, s') \<Longrightarrow>
    pipe_run kend pi s' sent (rcvd @ map (\<lambda>j. the (ubyte (mem s') pt user (addr + of_nat j))) [0..<progress 0 r])"
| run_close: "pipe_run kend pi s sent rcvd \<Longrightarrow> sched_ok W s Q \<Longrightarrow> held s = [] \<Longrightarrow> pipeclose kend c pi w s = Some s' \<Longrightarrow>
    pipe_run kend pi s' sent rcvd"

lemma map_SomeD: "map Some bs = map f xs \<Longrightarrow> bs = map (\<lambda>x. the (f x)) xs"
  by (induction bs arbitrary: xs) (auto simp: Cons_eq_map_conv dest: sym)

lemma pipe_run_fifo: "pipe_run kend pi s sent rcvd \<Longrightarrow> rcvd @ contents (pipes s pi) = sent \<and> pipe_ok (pipes s pi)"
proof (induction rule: pipe_run.induct)
  case (run_new s)
  then show ?case by (simp add: pipe_setup_def contents_def pipe_ok_def)
next
  case (run_write s sent rcvd W Q c t pt user ch addr n k pr r s')
  obtain bs where w: "wrote (pipes s pi) (pipes s' pi) bs"
      "wrote_result (- 1) (pipes s pi) (p_killed s pr) n k bs (\<lambda>j. ubyte (mem s) pt user (addr + of_nat j)) (pipes s' pi) r"
    using pipewrite_segment [OF run_write.hyps(2) conjunct2 [OF run_write.IH] run_write.hyps(3,4), of pr] run_write.hyps(5) by auto
  then have "progress k r = k + length bs" by (auto simp: wrote_result_def progress_def)
  moreover have "bs = map (\<lambda>j. the (ubyte (mem s) pt user (addr + of_nat j))) [k..<k + length bs]"
    using w(2) unfolding wrote_result_def by (intro map_SomeD) simp
  ultimately show ?case using w(1) run_write.IH by (simp add: wrote_def)
next
  case (run_read s sent rcvd W Q c t pt user ch addr n pr r s')
  have "\<exists>r' s1 bs. piperead_wait c pr pt ch pi user addr (int n) s = Some (r', s1) \<and>
    (contents (pipes s pi) = [] \<and> bs = [] \<and> pipes s1 = pipes s \<and> (r' = Pipe_Return (- 1) \<or> r' = Pipe_Sleep 0) \<or>
     took (pipes s pi) (pipes s1 pi) bs n \<and> r' = Pipe_Return (int (length bs)) \<and>
     (\<forall>j < length bs. ubyte (mem s1) pt user (addr + of_nat j) = Some (bs ! j)))"
    by (rule piperead_segment [OF run_read.hyps(2) conjunct2 [OF run_read.IH] run_read.hyps(3)]) (rule run_read.hyps(4))
  then obtain bs where d: "contents (pipes s pi) = [] \<and> bs = [] \<and> pipes s' = pipes s \<and> (r = Pipe_Return (- 1) \<or> r = Pipe_Sleep 0) \<or>
     took (pipes s pi) (pipes s' pi) bs n \<and> r = Pipe_Return (int (length bs)) \<and>
     (\<forall>j < length bs. ubyte (mem s') pt user (addr + of_nat j) = Some (bs ! j))"
    using run_read.hyps(5) by auto
  then have "progress 0 r = length bs" by (auto simp: progress_def)
  moreover have "map (\<lambda>j. the (ubyte (mem s') pt user (addr + of_nat j))) [0..<length bs] = bs"
    using d by (intro nth_equalityI) auto
  ultimately show ?case using d run_read.IH by (auto simp: took_def)
next
  case (run_close s sent rcvd W Q c w s')
  then show ?case using pipeclose_pipes [OF run_close.hyps(2-4)] by simp
qed simp

text \<open>
  \<^verbatim>\<open>piperead\<close> counts a byte as read before it copies it: when the reader's buffer is not
  accessible, the call returns 0 and the byte is gone.
\<close>

lemma piperead_loses_byte:
  assumes r: "ready W s Q c t pi" and ok: "pipe_ok (pipes s pi)" and c: "caller_ok kend (mem s) pt True ch addr n" and n: "0 < n"
    and u: "ubyte (mem s) pt True addr = None" and b: "contents (pipes s pi) = b # bs"
  shows "\<exists>s'. piperead_wait c pr pt ch pi True addr (int n) s = Some (Pipe_Return 0, s') \<and> contents (pipes s' pi) = bs"
proof -
  have ne: "p_nread (pipes s pi) \<noteq> p_nwrite (pipes s pi)" using b by (auto simp: contents_def)
  let ?m = "(mem s)(ch := p_data (pipes s pi) ! (unat (p_nread (pipes s pi)) mod PIPESIZE))"
  let ?s = "on_pipe pi (p_nread_update (\<lambda>r. r + 1)) (s\<lparr>mem := ?m\<rparr>)"
  have up: "p_nread_update (\<lambda>r. r + 1) (pipes s pi) = (pipes s pi)\<lparr>p_nread := p_nread (pipes s pi) + 1\<rparr>" by simp
  have cm: "caller_ok kend (mem ?s) pt True ch addr n" using caller_ok_ch(1) [OF c, of ?m] by simp
  have "\<not> user_ok (mem ?s) pt addr" using caller_ok_ch(2) [OF c, of ?m 0] n u by (simp add: ubyte_def split: if_splits)
  moreover obtain q m' where m': "copyout pt addr ch 1 ?s = Some (q, ?s\<lparr>mem := m'\<rparr>)" "written_out (mem ?s) pt addr ch 1 q m'"
    using copyout_result [of kend ?s pt ch 1 addr] cm by (auto simp: caller_ok_def)
  ultimately have "q = - 1" by (auto simp: written_out_def)
  moreover have "ready W (?s\<lparr>mem := m'\<rparr>) Q c t pi" using r by simp
  from piperead_end_ok [OF this, of 0] obtain s' where s': "piperead_end c pi 0 (?s\<lparr>mem := m'\<rparr>) = Some (Pipe_Return 0, s')"
    "pipes s' = pipes (?s\<lparr>mem := m'\<rparr>)" by blast
  ultimately have "piperead_copy c pt ch pi True addr (int n) 0 s = Some (Pipe_Return 0, s')"
    using n ne m'(1) by (subst piperead_copy.simps) (simp add: Let_def either_copyout_def)
  then have "piperead_wait c pr pt ch pi True addr (int n) s = Some (Pipe_Return 0, s')" using ne by (simp add: piperead_wait_def)
  moreover have "contents (pipes s' pi) = bs" using s'(2) contents_get(1) [OF ok ne, folded up] b by simp
  ultimately show ?thesis by blast
qed


text \<open>After start-up a thread is created and runs; it takes the lock of a new pipe.\<close>

lemma ready_exists:
  fixes s :: pipest
  assumes "held s = []" "cputhread s = Map.empty"
  shows "\<exists>(s' :: pipest) Q t. ready {} s' Q 0 t pi \<and> pipes s' = pipes s \<and> p_killed s' = p_killed s"
proof -
  obtain s1 where 1: "held s1 = []" "cputhread s1 = Map.empty" "tst.more s1 = tst.more s"
      "sched_ok {} s1 ((\<lambda>_. [])(TQ TCB_UNUSED := [0..<NTHREADS]))" using tcb_init_ok [OF assms] by blast
  have "[0..<NTHREADS] = 0 # [1..<NTHREADS]" by (simp add: NTHREADS_def upt_conv_Cons)
  then obtain s2 Q2 where 2: "held s2 = [L_tcb 0]" "sched_ok {} s2 Q2" "cputhread s2 = Map.empty" "tst.more s2 = tst.more s"
    using alloc_thread_ok [OF 1(4,1), of 0 "[1..<NTHREADS]" 0] 1(2,3) by auto
  let ?a = "s2\<lparr>held := []\<rparr>"
  have "sched_ok {} ?a Q2" by (rule sched_ok_held [OF 2(2)]) simp
  from change_ok [OF this, of 0 TCB_RUNNABLE] 2(3) obtain s3 Q3 where 3: "sched_ok {} s3 Q3" "tframe ?a s3" "t_state (tcb_pool s3 0) = TCB_RUNNABLE"
    by (auto simp: NTHREADS_def)
  have f: "held s3 = []" "cputhread s3 = Map.empty" "tst.more s3 = tst.more s" using 3(2) 2(3,4) by (simp_all add: tframe_def)
  have "0 \<in> set (Q3 (TQ TCB_RUNNABLE))" using sched_invD(5) [OF sched_okD(1) [OF 3(1)], of 0 TCB_RUNNABLE] 3(3) f(2) by (simp add: NTHREADS_def)
  then obtain u us where "Q3 (TQ TCB_RUNNABLE) = u # us" by (cases "Q3 (TQ TCB_RUNNABLE)") auto
  from scheduler_pick_ok [OF 3(1) _ f(1) this, of 0] f(2) obtain s4 where 4: "sched_ok {} s4 (Q3(TQ TCB_RUNNABLE := us))" "cputhread s4 = [0 \<mapsto> u]"
    "tst.more s4 = tst.more s3" by auto
  have "sched_ok {} (s4\<lparr>held := [L_pipe pi]\<rparr>) (Q3(TQ TCB_RUNNABLE := us))" by (rule sched_ok_held [OF 4(1)]) auto
  then have "ready {} (s4\<lparr>held := [L_pipe pi]\<rparr>) (Q3(TQ TCB_RUNNABLE := us)) 0 u pi" using 4(2) by (simp add: ready_def)
  moreover have "pipes (s4\<lparr>held := [L_pipe pi]\<rparr>) = pipes s \<and> p_killed (s4\<lparr>held := [L_pipe pi]\<rparr>) = p_killed s"
    using more_pipest [of s4 s] 4(3) f(3) by simp
  ultimately show ?thesis by blast
qed

definition pipe_boot :: pipest where
  "pipe_boot = \<lparr>held = [], mem = (\<lambda>_. 0), freelist = 0, g_freecnt = 0, links = (\<lambda>_. \<lparr>lnext = None, lprev = None\<rparr>),
     qtype = (\<lambda>_. INODE_FREE_QUEUE), qcnt = (\<lambda>_. 0),
     tcb_pool = (\<lambda>_. tcb_zero),
     cputhread = Map.empty, next_tid = 1, ticks = 0,
     pipes = (\<lambda>_. \<lparr>p_data = replicate PIPESIZE 0, p_nread = 0, p_nwrite = 0, p_readopen = False, p_writeopen = False\<rparr>),
     p_killed = (\<lambda>_. False)\<rparr>"

lemma less_two_cases: "(k :: nat) < 2 \<Longrightarrow> k = 0 \<or> k = 1"
  by auto


end
