(* ===== verification/XV_Sleeplock.thy ===== *)
theory XV_Sleeplock
  imports XV_Spinlock
begin

section \<open>Sleep locks\<close>

text \<open>
  \<^verbatim>\<open>kernel/atomic/sleeplock.c\<close>.  Every access to a sleep lock is inside a critical section of
  its spinlock \<^verbatim>\<open>lk\<close>, so one critical section is one step.  \<^verbatim>\<open>acquiresleep\<close> is a loop:
  one round either takes the lock or sleeps on the channel of the lock
  (\<open>acquiresleep_round\<close> gives \<open>None\<close>); \<^verbatim>\<open>releasesleep\<close> frees the lock and wakes every
  thread that sleeps on the channel.
\<close>

record sleeplock =
  sl_locked :: bool
  lpid :: int

definition initsleeplock :: sleeplock where
  "initsleeplock = \<lparr>sl_locked = False, lpid = 0\<rparr>"

definition acquiresleep_round :: "int \<Rightarrow> sleeplock \<Rightarrow> sleeplock option" where
  "acquiresleep_round pid lk = (if sl_locked lk then None else Some \<lparr>sl_locked = True, lpid = pid\<rparr>)"

definition releasesleep :: "sleeplock \<Rightarrow> sleeplock" where
  "releasesleep lk = \<lparr>sl_locked = False, lpid = 0\<rparr>"

definition holdingsleep :: "int \<Rightarrow> sleeplock \<Rightarrow> bool" where
  "holdingsleep pid lk \<longleftrightarrow> sl_locked lk \<and> lpid lk = pid"

text \<open>Threads that compete for one sleep lock, and where each of them is.\<close>

datatype sl_pc = SL_Outside | SL_Trying | SL_Sleeping | SL_Holding

record sl_state =
  slk :: sleeplock
  sl_at :: "nat \<Rightarrow> sl_pc"

text \<open>\<^verbatim>\<open>thread_wakeup_chan\<close> on the channel of the lock.\<close>

definition sl_wakeup :: "(nat \<Rightarrow> sl_pc) \<Rightarrow> nat \<Rightarrow> sl_pc" where
  "sl_wakeup pc t = (if pc t = SL_Sleeping then SL_Trying else pc t)"

inductive sl_step :: "(nat \<Rightarrow> int) \<Rightarrow> sl_state \<Rightarrow> sl_state \<Rightarrow> bool" for pid_of :: "nat \<Rightarrow> int" where
  sl_call: "sl_at s t = SL_Outside \<Longrightarrow> sl_step pid_of s (s\<lparr>sl_at := (sl_at s)(t := SL_Trying)\<rparr>)"
| sl_take: "sl_at s t = SL_Trying \<Longrightarrow> acquiresleep_round (pid_of t) (slk s) = Some lk \<Longrightarrow>
    sl_step pid_of s (s\<lparr>slk := lk, sl_at := (sl_at s)(t := SL_Holding)\<rparr>)"
| sl_block: "sl_at s t = SL_Trying \<Longrightarrow> acquiresleep_round (pid_of t) (slk s) = None \<Longrightarrow>
    sl_step pid_of s (s\<lparr>sl_at := (sl_at s)(t := SL_Sleeping)\<rparr>)"
| sl_release: "sl_at s t = SL_Holding \<Longrightarrow>
    sl_step pid_of s (s\<lparr>slk := releasesleep (slk s), sl_at := sl_wakeup ((sl_at s)(t := SL_Outside))\<rparr>)"

definition sl_init :: sl_state where
  "sl_init = \<lparr>slk = initsleeplock, sl_at = (\<lambda>_. SL_Outside)\<rparr>"

definition sl_inv :: "(nat \<Rightarrow> int) \<Rightarrow> sl_state \<Rightarrow> bool" where
  "sl_inv pid_of s \<longleftrightarrow>
     (if sl_locked (slk s) then \<exists>t. {u. sl_at s u = SL_Holding} = {t} \<and> lpid (slk s) = pid_of t
      else {u. sl_at s u = SL_Holding} = {} \<and> {u. sl_at s u = SL_Sleeping} = {})"

lemma sl_inv_step: "sl_step pid_of s s' \<Longrightarrow> sl_inv pid_of s \<Longrightarrow> sl_inv pid_of s'"
proof (induction rule: sl_step.induct)
  case (sl_call s t)
  then have "{u. ((sl_at s)(t := SL_Trying)) u = SL_Holding} = {u. sl_at s u = SL_Holding}"
    "{u. ((sl_at s)(t := SL_Trying)) u = SL_Sleeping} = {u. sl_at s u = SL_Sleeping}" by auto
  then show ?case using sl_call by (simp add: sl_inv_def)
next
  case (sl_take s t lk)
  then have f: "\<not> sl_locked (slk s)" "lk = \<lparr>sl_locked = True, lpid = pid_of t\<rparr>"
    by (auto simp: acquiresleep_round_def split: if_splits)
  then have "{u. sl_at s u = SL_Holding} = {}" using sl_take.prems by (simp add: sl_inv_def)
  then have "{u. ((sl_at s)(t := SL_Holding)) u = SL_Holding} = {t}" by auto
  then show ?case using f by (simp add: sl_inv_def)
next
  case (sl_block s t)
  then have "sl_locked (slk s)" by (simp add: acquiresleep_round_def split: if_splits)
  moreover have "{u. ((sl_at s)(t := SL_Sleeping)) u = SL_Holding} = {u. sl_at s u = SL_Holding}"
    using sl_block by auto
  ultimately show ?case using sl_block.prems by (simp add: sl_inv_def)
next
  case (sl_release s t)
  have "\<exists>h. {u. sl_at s u = SL_Holding} \<subseteq> {h}" using sl_release by (auto simp: sl_inv_def split: if_splits)
  then have "{u. sl_at s u = SL_Holding} \<subseteq> {t}" using sl_release.hyps by blast
  then have "sl_wakeup ((sl_at s)(t := SL_Outside)) u \<noteq> SL_Holding" for u by (auto simp: sl_wakeup_def)
  moreover have "sl_wakeup ((sl_at s)(t := SL_Outside)) u \<noteq> SL_Sleeping" for u by (simp add: sl_wakeup_def)
  ultimately show ?case by (simp add: sl_inv_def releasesleep_def)
qed

lemma sl_inv_reachable: "(sl_step pid_of)\<^sup>*\<^sup>* sl_init s \<Longrightarrow> sl_inv pid_of s"
  by (induction rule: rtranclp_induct)
    (auto simp: sl_init_def initsleeplock_def sl_inv_def [of _ "\<lparr>slk = _, sl_at = _\<rparr>"] intro: sl_inv_step)


text \<open>Thread 1 holds the lock and thread 2 has gone to sleep on it.\<close>

definition sl_contended :: sl_state where
  "sl_contended = \<lparr>slk = \<lparr>sl_locked = True, lpid = 7\<rparr>, sl_at = (\<lambda>_. SL_Outside)(1 := SL_Holding, 2 := SL_Sleeping)\<rparr>"

lemma sl_contended_reachable: "(sl_step (\<lambda>t. if t = 1 then 7 else 9))\<^sup>*\<^sup>* sl_init sl_contended"
proof -
  let ?s = "sl_step (\<lambda>t. if t = 1 then 7 else (9 :: int))"
  let ?free = "\<lparr>sl_locked = False, lpid = 0\<rparr>" let ?taken = "\<lparr>sl_locked = True, lpid = 7\<rparr>"
  let ?p1 = "(\<lambda>_. SL_Outside)(1 := SL_Trying)" let ?p2 = "(\<lambda>_. SL_Outside)(1 := SL_Holding)"
  have 1: "?s sl_init \<lparr>slk = ?free, sl_at = ?p1\<rparr>"
    using sl_call [of sl_init 1] by (simp add: sl_init_def initsleeplock_def)
  have 2: "?s \<lparr>slk = ?free, sl_at = ?p1\<rparr> \<lparr>slk = ?taken, sl_at = ?p2\<rparr>"
    using sl_take [of "\<lparr>slk = ?free, sl_at = ?p1\<rparr>" 1 "\<lambda>t. if t = 1 then 7 else 9" ?taken] by (simp add: acquiresleep_round_def)
  have 3: "?s \<lparr>slk = ?taken, sl_at = ?p2\<rparr> \<lparr>slk = ?taken, sl_at = ?p2(2 := SL_Trying)\<rparr>"
    using sl_call [of "\<lparr>slk = ?taken, sl_at = ?p2\<rparr>" 2] by simp
  have 4: "?s \<lparr>slk = ?taken, sl_at = ?p2(2 := SL_Trying)\<rparr> sl_contended"
    using sl_block [of "\<lparr>slk = ?taken, sl_at = ?p2(2 := SL_Trying)\<rparr>" 2]
    by (simp add: acquiresleep_round_def sl_contended_def)
  show ?thesis using 1 2 3 4 by (meson converse_rtranclp_into_rtranclp rtranclp.rtrancl_refl)
qed


end
