(* ===== verification/XV_Bio.thy ===== *)
theory XV_Bio
  imports XV_Sleeplock XV_List
begin

section \<open>The buffer cache\<close>

text \<open>
  \<^verbatim>\<open>kernel/fs/bio.c\<close>.  The state is \<^verbatim>\<open>bcache\<close> (the array of buffers, the cells
  \<^verbatim>\<open>prev\<close> and \<^verbatim>\<open>next\<close> of the LRU list), the disk, and the process that runs.  The disk is
  the map from a device and a block number to the bytes of the block; a transfer of the driver
  reads or writes one whole block, and \<open>dwrites\<close> is the sequence of the writes, newest first,
  which is what a crash can cut short.  A call that panics, or that would have to wait for a
  buffer another process has locked, is \<open>None\<close>.

  The abstraction \<open>cache_view\<close> gives for every block the bytes a reader sees, the number of
  references and the process that has it locked.  The locale \<open>block_cache\<close> states what each operation
  promises in these terms, and is interpreted on the operations of the file.
\<close>

type_synonym block = "u8 list"
type_synonym bkey = "u32 \<times> u32"

datatype bnode = BHead | BNode nat

record buf =
  bvalid :: bool
  bdev :: u32
  bblockno :: u32
  block_lock :: sleeplock
  refcnt :: u32
  bdata :: block

record biost = lockst +
  bufs :: "nat \<Rightarrow> buf"
  lru :: "bnode lstore"
  disk :: "bkey \<Rightarrow> block"
  dwrites :: "(bkey \<times> block) list"
  curpid :: int

definition BSIZE :: nat where
  "BSIZE = 512"

definition NBUF :: nat where
  "NBUF = 30"

definition on_buf :: "nat \<Rightarrow> (buf \<Rightarrow> buf) \<Rightarrow> 'z biost_scheme \<Rightarrow> 'z biost_scheme" where
  "on_buf b f s = s\<lparr>bufs := (bufs s)(b := f (bufs s b))\<rparr>"

text \<open>Insertion after the head of the LRU list, as \<^verbatim>\<open>binit\<close> and \<^verbatim>\<open>brelse\<close> write it.\<close>

definition lru_push :: "nat \<Rightarrow> bnode lstore \<Rightarrow> bnode lstore option" where
  "lru_push b st =
     (let st = set_next (BNode b) (lnext (st BHead)) st;
          st = set_prev (BNode b) (Some BHead) st
      in do {
        f \<leftarrow> lnext (st BHead);
        let st = set_prev f (Some (BNode b)) st;
        Some (set_next BHead (Some (BNode b)) st)
      })"

definition lru_unlink :: "nat \<Rightarrow> bnode lstore \<Rightarrow> bnode lstore option" where
  "lru_unlink b st = do {
     n \<leftarrow> lnext (st (BNode b));
     let st = set_prev n (lprev (st (BNode b))) st;
     p \<leftarrow> lprev (st (BNode b));
     Some (set_next p (lnext (st (BNode b))) st)
   }"

fun binit_loop :: "nat list \<Rightarrow> 'z biost_scheme \<Rightarrow> 'z biost_scheme option" where
  "binit_loop [] s = Some s"
| "binit_loop (b # bs) s = do {
     l \<leftarrow> lru_push b (lru s);
     binit_loop bs (on_buf b (block_lock_update (\<lambda>_. initsleeplock)) (s\<lparr>lru := l\<rparr>))
   }"

definition binit :: "'z biost_scheme \<Rightarrow> 'z biost_scheme option" where
  "binit s =
     binit_loop [0..<NBUF]
       (s\<lparr>lru := set_next BHead (Some BHead) (set_prev BHead (Some BHead) (lru s))\<rparr>)"

partial_function (option) bget_find ::
  "bnode option \<Rightarrow> u32 \<Rightarrow> u32 \<Rightarrow> 'z biost_scheme \<Rightarrow> nat option option" where
  "bget_find p dev blockno s =
     (case p of
        None \<Rightarrow> None
      | Some BHead \<Rightarrow> Some None
      | Some (BNode b) \<Rightarrow>
          if bdev (bufs s b) = dev \<and> bblockno (bufs s b) = blockno then Some (Some b)
          else bget_find (lnext (lru s (BNode b))) dev blockno s)"

partial_function (option) bget_recycle ::
  "bnode option \<Rightarrow> 'z biost_scheme \<Rightarrow> nat option option" where
  "bget_recycle p s =
     (case p of
        None \<Rightarrow> None
      | Some BHead \<Rightarrow> Some None
      | Some (BNode b) \<Rightarrow>
          if refcnt (bufs s b) = 0 then Some (Some b)
          else bget_recycle (lprev (lru s (BNode b))) s)"

definition acquire_buf :: "nat \<Rightarrow> 'z biost_scheme \<Rightarrow> 'z biost_scheme option" where
  "acquire_buf b s = do {
     lk \<leftarrow> acquiresleep_round (curpid s) (block_lock (bufs s b));
     Some (on_buf b (block_lock_update (\<lambda>_. lk)) s)
   }"

definition bget :: "u32 \<Rightarrow> u32 \<Rightarrow> 'z biost_scheme \<Rightarrow> (nat \<times> 'z biost_scheme) option" where
  "bget dev blockno s = do {
     s \<leftarrow> acquire L_bcache s;
     r \<leftarrow> bget_find (lnext (lru s BHead)) dev blockno s;
     (case r of
        Some b \<Rightarrow> do {
          let s = on_buf b (\<lambda>x. x\<lparr>refcnt := refcnt x + 1\<rparr>) s;
          s \<leftarrow> release L_bcache s;
          s \<leftarrow> acquire_buf b s;
          Some (b, s)
        }
      | None \<Rightarrow> do {
          r \<leftarrow> bget_recycle (lprev (lru s BHead)) s;
          b \<leftarrow> r;
          let s = on_buf b (\<lambda>x. x\<lparr>bdev := dev, bblockno := blockno, bvalid := False, refcnt := 1\<rparr>) s;
          s \<leftarrow> release L_bcache s;
          s \<leftarrow> acquire_buf b s;
          Some (b, s)
        })
   }"

text \<open>\<^verbatim>\<open>virtio_disk_rw(b, write)\<close>, as one transfer.\<close>

definition disk_rw :: "nat \<Rightarrow> bool \<Rightarrow> 'z biost_scheme \<Rightarrow> 'z biost_scheme" where
  "disk_rw b write s =
     (let k = (bdev (bufs s b), bblockno (bufs s b)) in
      if write
      then s\<lparr>disk := (disk s)(k := bdata (bufs s b)), dwrites := (k, bdata (bufs s b)) # dwrites s\<rparr>
      else on_buf b (bdata_update (\<lambda>_. disk s k)) s)"

definition bread :: "u32 \<Rightarrow> u32 \<Rightarrow> 'z biost_scheme \<Rightarrow> (nat \<times> 'z biost_scheme) option" where
  "bread dev blockno s = do {
     (b, s) \<leftarrow> bget dev blockno s;
     Some (b, if bvalid (bufs s b) then s
              else on_buf b (bvalid_update (\<lambda>_. True)) (disk_rw b False s))
   }"

definition bwrite :: "nat \<Rightarrow> 'z biost_scheme \<Rightarrow> 'z biost_scheme option" where
  "bwrite b s = do {
     ensure (holdingsleep (curpid s) (block_lock (bufs s b)));
     Some (disk_rw b True s)
   }"

definition brelse :: "nat \<Rightarrow> 'z biost_scheme \<Rightarrow> 'z biost_scheme option" where
  "brelse b s = do {
     ensure (holdingsleep (curpid s) (block_lock (bufs s b)));
     let s = on_buf b (block_lock_update releasesleep) s;
     s \<leftarrow> acquire L_bcache s;
     let s = on_buf b (\<lambda>x. x\<lparr>refcnt := refcnt x - 1\<rparr>) s;
     s \<leftarrow> (if refcnt (bufs s b) = 0
          then do {
            l \<leftarrow> lru_unlink b (lru s);
            l \<leftarrow> lru_push b l;
            Some (s\<lparr>lru := l\<rparr>)
          }
          else Some s);
     release L_bcache s
   }"

definition bpin :: "nat \<Rightarrow> 'z biost_scheme \<Rightarrow> 'z biost_scheme option" where
  "bpin b s = do {
     s \<leftarrow> acquire L_bcache s;
     release L_bcache (on_buf b (\<lambda>x. x\<lparr>refcnt := refcnt x + 1\<rparr>) s)
   }"

definition bunpin :: "nat \<Rightarrow> 'z biost_scheme \<Rightarrow> 'z biost_scheme option" where
  "bunpin b s = do {
     s \<leftarrow> acquire L_bcache s;
     release L_bcache (on_buf b (\<lambda>x. x\<lparr>refcnt := refcnt x - 1\<rparr>) s)
   }"

subsection \<open>The LRU list\<close>

definition lru_order :: "bnode lstore \<Rightarrow> nat list \<Rightarrow> bool" where
  "lru_order st bs \<longleftrightarrow> is_list st BHead (map BNode bs)"

lemma lru_push_add:
  "lnext (st BHead) = Some f \<Longrightarrow> f \<noteq> BNode b \<Longrightarrow> lru_push b st = list_add (BNode b) BHead st"
  by (auto simp: lru_push_def list_add_def list_add_between_def Let_def set_next_def set_prev_def fun_eq_iff)

lemma lru_unlink_del: "lru_unlink b st = list_del_entry (BNode b) st"
  by (auto simp: lru_unlink_def list_del_entry_def list_del_between_def Let_def
      split: option.splits bind_splits)

lemma lru_push_order:
  assumes l: "lru_order st bs" and b: "b \<notin> set bs"
  shows "\<exists>st'. lru_push b st = Some st' \<and> lru_order st' (b # bs)"
proof -
  have "lnext (st BHead) = Some (hd (map BNode bs @ [BHead]))"
    using is_list_next l by (auto simp: lru_order_def)
  moreover have "hd (map BNode bs @ [BHead]) \<noteq> BNode b" using b by (cases bs) auto
  ultimately have "lru_push b st = list_add (BNode b) BHead st" by (rule lru_push_add)
  moreover have "\<exists>st'. list_add (BNode b) BHead st = Some st' \<and> is_list st' BHead (BNode b # map BNode bs)"
    using list_add_list [of st BHead "map BNode bs" "BNode b"] l b by (auto simp: lru_order_def)
  ultimately show ?thesis by (simp add: lru_order_def)
qed

lemma lru_unlink_order:
  assumes l: "lru_order st bs" and b: "b \<in> set bs"
  shows "\<exists>st'. lru_unlink b st = Some st' \<and> lru_order st' (remove1 b bs)"
proof -
  obtain ys zs where bs: "bs = ys @ b # zs" "b \<notin> set ys" using b by (meson split_list_first)
  then have "is_list st BHead (map BNode ys @ BNode b # map BNode zs)"
    using l by (simp add: lru_order_def)
  from list_del_entry_list [OF this] show ?thesis
    using bs by (auto simp: lru_unlink_del lru_order_def remove1_append)
qed

lemma bget_find_chain:
  "chain (lru s) (p # map BNode bs @ [BHead]) \<Longrightarrow>
   bget_find (lnext (lru s p)) dev blockno s =
     Some (find (\<lambda>b. bdev (bufs s b) = dev \<and> bblockno (bufs s b) = blockno) bs)"
proof (induction bs arbitrary: p)
  case Nil then show ?case by (simp add: link_def bget_find.simps)
next
  case (Cons b bs)
  then have "lnext (lru s p) = Some (BNode b)" by (simp add: link_def)
  then show ?case using Cons by (subst bget_find.simps) simp
qed

lemma bget_recycle_chain:
  "chain (lru s) (BHead # map BNode (rev bs) @ [p]) \<Longrightarrow>
   bget_recycle (lprev (lru s p)) s = Some (find (\<lambda>b. refcnt (bufs s b) = 0) bs)"
proof (induction bs arbitrary: p)
  case Nil then show ?case by (simp add: link_def bget_recycle.simps)
next
  case (Cons b bs)
  have "chain (lru s) ((BHead # map BNode (rev bs) @ [BNode b]) @ [p])" using Cons.prems by simp
  then have "chain (lru s) (BHead # map BNode (rev bs) @ [BNode b])" "lprev (lru s p) = Some (BNode b)"
    unfolding chain_append by (auto simp: link_def)
  then show ?case using Cons.IH by (subst bget_recycle.simps) simp
qed

lemma lru_search:
  assumes "lru_order (lru s) bs"
  shows "bget_find (lnext (lru s BHead)) dev blockno s =
      Some (find (\<lambda>b. bdev (bufs s b) = dev \<and> bblockno (bufs s b) = blockno) bs)"
    and "bget_recycle (lprev (lru s BHead)) s = Some (find (\<lambda>b. refcnt (bufs s b) = 0) (rev bs))"
proof -
  have "chain (lru s) (BHead # map BNode bs @ [BHead])"
    using assms by (simp add: lru_order_def is_list_def)
  then show "bget_find (lnext (lru s BHead)) dev blockno s =
      Some (find (\<lambda>b. bdev (bufs s b) = dev \<and> bblockno (bufs s b) = blockno) bs)"
    "bget_recycle (lprev (lru s BHead)) s = Some (find (\<lambda>b. refcnt (bufs s b) = 0) (rev bs))"
    using bget_find_chain bget_recycle_chain [of s "rev bs"] by simp_all
qed

subsection \<open>What a client of the cache sees\<close>

record centry =
  seen :: block
  refs :: nat
  locker :: "int option"

definition ekey :: "buf \<Rightarrow> bkey" where
  "ekey x = (bdev x, bblockno x)"

definition slot :: "'z biost_scheme \<Rightarrow> bkey \<Rightarrow> nat option" where
  "slot s k = (if fst k = 0 then None else find (\<lambda>b. ekey (bufs s b) = k) [0..<NBUF])"

definition entry_of :: "buf \<Rightarrow> block \<Rightarrow> centry" where
  "entry_of x d = \<lparr>seen = (if bvalid x then bdata x else d), refs = unat (refcnt x),
     locker = (if sl_locked (block_lock x) then Some (lpid (block_lock x)) else None)\<rparr>"

definition cache_view :: "'z biost_scheme \<Rightarrow> bkey \<Rightarrow> centry" where
  "cache_view s k =
     (case slot s k of None \<Rightarrow> \<lparr>seen = disk s k, refs = 0, locker = None\<rparr>
      | Some b \<Rightarrow> entry_of (bufs s b) (disk s k))"

definition buf_ok :: "buf \<Rightarrow> block \<Rightarrow> bool" where
  "buf_ok x d \<longleftrightarrow>
     (if refcnt x = 0 then (bvalid x \<longrightarrow> bdata x = d) \<and> \<not> sl_locked (block_lock x)
      else bvalid x \<and> bdev x \<noteq> 0)"

definition bcache_ok :: "'z biost_scheme \<Rightarrow> bool" where
  "bcache_ok s \<longleftrightarrow>
     (\<exists>bs. lru_order (lru s) bs \<and> distinct bs \<and> set bs = {..<NBUF}) \<and>
     (\<forall>b<NBUF. \<forall>c<NBUF. bdev (bufs s b) \<noteq> 0 \<longrightarrow> ekey (bufs s b) = ekey (bufs s c) \<longrightarrow> b = c) \<and>
     (\<forall>b<NBUF. buf_ok (bufs s b) (disk s (ekey (bufs s b)))) \<and>
     L_bcache \<notin> set (held s)"

definition handle :: "'z biost_scheme \<Rightarrow> nat \<Rightarrow> bkey option" where
  "handle s b = (if b < NBUF \<and> refcnt (bufs s b) \<noteq> 0 then Some (ekey (bufs s b)) else None)"

definition outside :: "'z biost_scheme \<Rightarrow> lock list \<times> int \<times> 'z" where
  "outside s = (held s, curpid s, biost.more s)"

definition carries ::
  "('s \<Rightarrow> 'b \<Rightarrow> bkey option) \<Rightarrow> ('s \<Rightarrow> bkey \<Rightarrow> centry) \<Rightarrow> ('s \<Rightarrow> 'r) \<Rightarrow> 's \<Rightarrow> 's \<Rightarrow> bool" where
  "carries h v r s s' \<longleftrightarrow> r s' = r s \<and> (\<forall>b k. h s b = Some k \<longrightarrow> 0 < refs (v s' k) \<longrightarrow> h s' b = Some k)"

subsection \<open>The operations in terms of the view\<close>

lemma bcache_okD:
  assumes "bcache_ok s"
  shows "\<exists>bs. lru_order (lru s) bs \<and> distinct bs \<and> set bs = {..<NBUF}"
    and "\<And>b c. b < NBUF \<Longrightarrow> c < NBUF \<Longrightarrow> bdev (bufs s b) \<noteq> 0 \<Longrightarrow> ekey (bufs s b) = ekey (bufs s c) \<Longrightarrow> b = c"
    and "\<And>b. b < NBUF \<Longrightarrow> buf_ok (bufs s b) (disk s (ekey (bufs s b)))"
    and "L_bcache \<notin> set (held s)"
  using assms unfolding bcache_ok_def by blast+

lemma fst_ekey [simp]: "fst (ekey x) = bdev x"
  by (simp add: ekey_def)

lemma slot_SomeD: "slot s k = Some b \<Longrightarrow> b < NBUF \<and> ekey (bufs s b) = k \<and> fst k \<noteq> 0"
  by (auto simp: slot_def find_Some_iff split: if_splits)

lemma slot_NoneD: "slot s k = None \<Longrightarrow> fst k \<noteq> 0 \<Longrightarrow> b < NBUF \<Longrightarrow> ekey (bufs s b) \<noteq> k"
  by (auto simp: slot_def find_None_iff split: if_splits)

lemma slot_ekey:
  assumes "bcache_ok s" "b < NBUF" "bdev (bufs s b) \<noteq> 0"
  shows "slot s (ekey (bufs s b)) = Some b"
proof (cases "slot s (ekey (bufs s b))")
  case None
  then show ?thesis using slot_NoneD [OF None, of b] assms by auto
next
  case (Some c)
  then have "c < NBUF" "ekey (bufs s b) = ekey (bufs s c)" using slot_SomeD [OF Some] by simp_all
  then have "b = c" using bcache_okD(2) [OF assms(1,2) _ assms(3)] by blast
  then show ?thesis using Some by simp
qed

lemma handle_Some:
  assumes "bcache_ok s" "handle s b = Some k"
  shows "b < NBUF" "refcnt (bufs s b) \<noteq> 0" "ekey (bufs s b) = k" "slot s k = Some b"
    "bvalid (bufs s b)" "fst k \<noteq> 0" "cache_view s k = entry_of (bufs s b) (disk s k)"
proof -
  show b: "b < NBUF" "refcnt (bufs s b) \<noteq> 0" "ekey (bufs s b) = k"
    using assms(2) by (auto simp: handle_def split: if_splits)
  then have v: "bvalid (bufs s b)" "bdev (bufs s b) \<noteq> 0"
    using bcache_okD(3) [OF assms(1) b(1)] by (auto simp: buf_ok_def)
  then show "bvalid (bufs s b)" "fst k \<noteq> 0" using b(3) by auto
  show sl: "slot s k = Some b" using slot_ekey [OF assms(1) b(1) v(2)] b(3) by simp
  show "cache_view s k = entry_of (bufs s b) (disk s k)" by (simp add: cache_view_def sl)
qed

text \<open>One buffer gets new contents, for the block it already holds or, if it is not in use, for another one.\<close>

definition buf_update ::
  "'z biost_scheme \<Rightarrow> 'z biost_scheme \<Rightarrow> nat \<Rightarrow> buf \<Rightarrow> bkey \<Rightarrow> block \<Rightarrow> bool" where
  "buf_update s s' b x k d \<longleftrightarrow>
     bcache_ok s \<and> b < NBUF \<and> ekey x = k \<and> fst k \<noteq> 0 \<and>
     (slot s k = Some b \<or> slot s k = None \<and> refcnt (bufs s b) = 0) \<and> buf_ok x d \<and>
     bufs s' = (bufs s)(b := x) \<and> disk s' = (disk s)(k := d) \<and>
     (\<exists>bs. lru_order (lru s') bs \<and> distinct bs \<and> set bs = {..<NBUF}) \<and> held s' = held s"

lemma buf_updateD:
  assumes "buf_update s s' b x k d"
  shows "bcache_ok s" "b < NBUF" "ekey x = k" "fst k \<noteq> 0"
    "slot s k = Some b \<or> slot s k = None \<and> refcnt (bufs s b) = 0" "buf_ok x d"
    "bufs s' = (bufs s)(b := x)" "disk s' = (disk s)(k := d)"
    "\<exists>bs. lru_order (lru s') bs \<and> distinct bs \<and> set bs = {..<NBUF}" "held s' = held s"
  using assms unfolding buf_update_def by blast+

lemma buf_update_other_key:
  assumes u: "buf_update s s' b x k d" and c: "c < NBUF" "c \<noteq> b"
  shows "ekey (bufs s c) \<noteq> k"
proof
  assume e: "ekey (bufs s c) = k"
  then have "slot s k = Some c"
    using slot_ekey [OF buf_updateD(1) [OF u] c(1)] buf_updateD(4) [OF u] by auto
  then show False using buf_updateD(5) [OF u] c(2) by simp
qed

lemma buf_update_ok:
  assumes u: "buf_update s s' b x k d"
  shows "bcache_ok s'"
proof -
  note [simp] = buf_updateD(3,7,8) [OF u] and ok = buf_updateD(1) [OF u] and o = buf_update_other_key [OF u]
  have "\<forall>c<NBUF. buf_ok (bufs s' c) (disk s' (ekey (bufs s' c)))"
    using buf_updateD(6) [OF u] o bcache_okD(3) [OF ok] by auto
  moreover have "c = e" if c: "c < NBUF" "e < NBUF" "bdev (bufs s' c) \<noteq> 0" and e: "ekey (bufs s' c) = ekey (bufs s' e)" for c e
  proof (cases "c = b \<or> e = b")
    case True then show ?thesis using o [OF c(1)] o [OF c(2)] e by (auto split: if_splits)
  next
    case False then show ?thesis using bcache_okD(2) [OF ok c(1,2)] c(3) e by auto
  qed
  moreover have "L_bcache \<notin> set (held s')" using bcache_okD(4) [OF ok] buf_updateD(10) [OF u] by simp
  ultimately show ?thesis unfolding bcache_ok_def by (intro conjI buf_updateD(9) [OF u]) metis+
qed

lemma buf_update_slot:
  assumes u: "buf_update s s' b x k d"
  shows "slot s' j = (if j = k then Some b else if slot s j = Some b then None else slot s j)"
proof (cases "j = k")
  case True
  have "ekey (bufs s' b) = k" "bdev (bufs s' b) \<noteq> 0" using buf_updateD(3,4,7) [OF u] by auto
  then show ?thesis using slot_ekey [OF buf_update_ok [OF u] buf_updateD(2) [OF u]] True by simp
next
  case False
  have stays: "slot s j = Some c \<longleftrightarrow> slot s' j = Some c" if "c \<noteq> b" for c
  proof -
    have "bufs s' c = bufs s c" using that buf_updateD(7) [OF u] by simp
    then show ?thesis
      using slot_SomeD [of s j c] slot_SomeD [of s' j c] slot_ekey [OF buf_updateD(1) [OF u], of c]
        slot_ekey [OF buf_update_ok [OF u], of c] fst_ekey by metis
  qed
  have "slot s' j \<noteq> Some b" using slot_SomeD [of s' j b] buf_updateD(3,7) [OF u] False by auto
  then show ?thesis using False stays by (metis option.exhaust)
qed

lemma buf_update_view:
  assumes u: "buf_update s s' b x k d"
  shows "cache_view s' = (cache_view s)(k := entry_of x d)"
proof
  note [simp] = buf_updateD(3,7,8) [OF u] buf_update_slot [OF u]
  fix j show "cache_view s' j = ((cache_view s)(k := entry_of x d)) j"
  proof (cases "j \<noteq> k \<and> slot s j = Some b")
    case True
    then have e: "ekey (bufs s b) = j" using slot_SomeD [of s j b] by auto
    have "refcnt (bufs s b) = 0" using True e buf_updateD(5) [OF u] slot_SomeD [of s k b] by auto
    then have "entry_of (bufs s b) (disk s j) = \<lparr>seen = disk s j, refs = 0, locker = None\<rparr>"
      using bcache_okD(3) [OF buf_updateD(1,2) [OF u]] e by (simp add: buf_ok_def entry_of_def)
    then show ?thesis using True by (simp add: cache_view_def)
  next
    case False
    then show ?thesis by (auto simp: cache_view_def split: option.splits)
  qed
qed

lemma buf_update_handle:
  assumes u: "buf_update s s' b x k d"
  shows "handle s' = (handle s)(b := if refcnt x \<noteq> 0 then Some k else None)"
  using buf_updateD(2,3,7) [OF u] by (auto simp: handle_def fun_eq_iff)

lemma buf_update_carries:
  assumes u: "buf_update s s' b x k d" and o: "outside s' = outside s"
  shows "carries handle cache_view outside s s'"
proof -
  have "handle s' c = Some j" if c: "handle s c = Some j" and r: "0 < refs (cache_view s' j)" for c j
  proof (cases "c = b")
    case True
    then have "j = k" using handle_Some [OF buf_updateD(1) [OF u] c] buf_updateD(5) [OF u] slot_SomeD [of s k b] by auto
    then show ?thesis using True r by (auto simp: buf_update_handle [OF u] buf_update_view [OF u] entry_of_def)
  next
    case False then show ?thesis using c by (simp add: buf_update_handle [OF u])
  qed
  then show ?thesis using o by (simp add: carries_def)
qed

lemma buf_update_same:
  assumes "bcache_ok s" "handle s b = Some k" "ekey x = k" "buf_ok x d"
    "bufs s' = (bufs s)(b := x)" "disk s' = (disk s)(k := d)"
    "\<exists>bs. lru_order (lru s') bs \<and> distinct bs \<and> set bs = {..<NBUF}" "held s' = held s"
  shows "buf_update s s' b x k d"
  unfolding buf_update_def using handle_Some [OF assms(1,2)] assms by auto

lemma buf_update_effect:
  assumes "buf_update s s' b x k d" "outside s' = outside s"
  shows "bcache_ok s' \<and> cache_view s' = (cache_view s)(k := entry_of x d) \<and>
    disk s' = (disk s)(k := d) \<and> carries handle cache_view outside s s'"
  using assms by (simp add: buf_update_ok buf_update_view buf_update_carries buf_updateD(8))

lemma find_slot:
  assumes "bcache_ok s" "set bs = {..<NBUF}" "fst k \<noteq> 0"
  shows "find (\<lambda>b. bdev (bufs s b) = fst k \<and> bblockno (bufs s b) = snd k) bs = slot s k"
proof -
  have e: "(bdev (bufs s b) = fst k \<and> bblockno (bufs s b) = snd k) \<longleftrightarrow> ekey (bufs s b) = k" for b
    by (auto simp: ekey_def)
  show ?thesis
  proof (cases "find (\<lambda>b. ekey (bufs s b) = k) bs")
    case None
    then have "slot s k \<noteq> Some b" for b
      using slot_SomeD [of s k b] assms(2) unfolding find_None_iff by auto
    then show ?thesis using None by (cases "slot s k") (auto simp: e)
  next
    case (Some b)
    then have "b < NBUF" "ekey (bufs s b) = k" using assms(2) by (auto simp: find_Some_iff)
    then have "slot s k = Some b" using slot_ekey [OF assms(1), of b] assms(3) by auto
    then show ?thesis using Some by (simp add: e)
  qed
qed

lemma in_use_iff:
  assumes "bcache_ok s"
  shows "{k. 0 < refs (cache_view s k)} = ekey ` bufs s ` {b. b < NBUF \<and> refcnt (bufs s b) \<noteq> 0}"
proof (intro set_eqI iffI)
  fix k assume "k \<in> {k. 0 < refs (cache_view s k)}"
  then obtain b where "slot s k = Some b" "refcnt (bufs s b) \<noteq> 0"
    by (auto simp: cache_view_def entry_of_def unat_gt_0 split: option.splits)
  then show "k \<in> ekey ` bufs s ` {b. b < NBUF \<and> refcnt (bufs s b) \<noteq> 0}"
    using slot_SomeD [of s k b] by auto
next
  fix k assume "k \<in> ekey ` bufs s ` {b. b < NBUF \<and> refcnt (bufs s b) \<noteq> 0}"
  then obtain b where "b < NBUF" "refcnt (bufs s b) \<noteq> 0" "k = ekey (bufs s b)" by blast
  then have b: "handle s b = Some k" by (simp add: handle_def)
  then show "k \<in> {k. 0 < refs (cache_view s k)}"
    using handle_Some [OF assms b] by (simp add: entry_of_def unat_gt_0)
qed

lemma free_buffer:
  assumes ok: "bcache_ok s" and room: "card {k. 0 < refs (cache_view s k)} < NBUF"
  shows "\<exists>b<NBUF. refcnt (bufs s b) = 0"
proof (rule ccontr)
  assume none: "\<not> (\<exists>b<NBUF. refcnt (bufs s b) = 0)"
  then have all: "{b. b < NBUF \<and> refcnt (bufs s b) \<noteq> 0} = {..<NBUF}" by auto
  have "bdev (bufs s b) \<noteq> 0" if "b < NBUF" for b
    using bcache_okD(3) [OF ok that] none that by (simp add: buf_ok_def split: if_splits)
  then have "inj_on (\<lambda>b. ekey (bufs s b)) {..<NBUF}"
    using bcache_okD(2) [OF ok] by (simp add: inj_on_def)
  then have "card (ekey ` bufs s ` {..<NBUF}) = NBUF" by (simp add: image_image card_image)
  then show False using room in_use_iff [OF ok] all by simp
qed

lemma acquire_buf_eq:
  "\<not> sl_locked (block_lock (bufs s b)) \<Longrightarrow>
   acquire_buf b s = Some (on_buf b (block_lock_update (\<lambda>_. \<lparr>sl_locked = True, lpid = curpid s\<rparr>)) s)"
  by (simp add: acquire_buf_def acquiresleep_round_def)

text \<open>The buffer \<^verbatim>\<open>bread\<close> returns.\<close>

definition fetched :: "bkey \<Rightarrow> buf \<Rightarrow> block \<Rightarrow> int \<Rightarrow> buf" where
  "fetched k x d pid =
     \<lparr>bvalid = True, bdev = fst k, bblockno = snd k, block_lock = \<lparr>sl_locked = True, lpid = pid\<rparr>,
      refcnt = (if ekey x = k then refcnt x + 1 else 1),
      bdata = (if ekey x = k \<and> bvalid x then bdata x else d)\<rparr>"

lemma bread_eq:
  assumes ok: "bcache_ok s" and k: "fst k \<noteq> 0"
    and free: "locker (cache_view s k) = None"
    and room: "0 < refs (cache_view s k) \<or> card {k. 0 < refs (cache_view s k)} < NBUF"
  shows "\<exists>b<NBUF. (slot s k = Some b \<or> slot s k = None \<and> refcnt (bufs s b) = 0) \<and>
    bread (fst k) (snd k) s = Some (b, s\<lparr>bufs := (bufs s)(b := fetched k (bufs s b) (disk s k) (curpid s))\<rparr>)"
proof -
  obtain bs where bs: "lru_order (lru s) bs" "distinct bs" "set bs = {..<NBUF}" using bcache_okD(1) [OF ok] by blast
  note search = lru_search [of "s\<lparr>held := L_bcache # held s\<rparr>" bs, simplified, OF bs(1)]
  note bcache_okD(4) [OF ok, simp]
  show ?thesis
  proof (cases "slot s k")
    case (Some b)
    then have b: "b < NBUF" "ekey (bufs s b) = k" using slot_SomeD by blast+
    have "\<not> sl_locked (block_lock (bufs s b))"
      using free Some by (auto simp: cache_view_def entry_of_def split: if_splits)
    then have "bread (fst k) (snd k) s = Some (b, s\<lparr>bufs := (bufs s)(b := fetched k (bufs s b) (disk s k) (curpid s))\<rparr>)"
      using Some b find_slot [OF ok bs(3) k]
      by (cases "bufs s b") (auto simp: bread_def bget_def search acquire_buf_eq on_buf_def disk_rw_def fetched_def ekey_def)
    then show ?thesis using Some b by auto
  next
    case None
    then have "\<exists>b<NBUF. refcnt (bufs s b) = 0" using room free_buffer [OF ok] by (simp add: cache_view_def)
    then have "find (\<lambda>b. refcnt (bufs s b) = 0) (rev bs) \<noteq> None" using bs(3) by (auto simp: find_None_iff)
    then obtain b where b: "find (\<lambda>b. refcnt (bufs s b) = 0) (rev bs) = Some b" by blast
    then have "b \<in> set (rev bs)" "refcnt (bufs s b) = 0" unfolding find_Some_iff by (metis nth_mem)+
    then have b': "b < NBUF" "refcnt (bufs s b) = 0" using bs(3) by auto
    have u: "\<not> sl_locked (block_lock (bufs s b))" using bcache_okD(3) [OF ok b'(1)] b'(2) by (simp add: buf_ok_def)
    have e: "ekey (bufs s b) \<noteq> k" using slot_NoneD [OF None k b'(1)] .
    have "bread (fst k) (snd k) s = Some (b, s\<lparr>bufs := (bufs s)(b := fetched k (bufs s b) (disk s k) (curpid s))\<rparr>)"
      using None b b' e u find_slot [OF ok bs(3) k]
      by (cases "bufs s b") (auto simp: bread_def bget_def search acquire_buf_eq on_buf_def disk_rw_def fetched_def)
    then show ?thesis using None b' by blast
  qed
qed

definition put_data :: "nat \<Rightarrow> block \<Rightarrow> 'z biost_scheme \<Rightarrow> 'z biost_scheme" where
  "put_data b d s = on_buf b (bdata_update (\<lambda>_. d)) s"

definition get_data :: "nat \<Rightarrow> 'z biost_scheme \<Rightarrow> block" where
  "get_data b s = bdata (bufs s b)"

lemma unat_inc: "unat (x :: u32) < 4294967295 \<Longrightarrow> unat (x + 1) = unat x + 1"
  by (simp add: unat_word_ariths)

lemma unat_dec: "x \<noteq> 0 \<Longrightarrow> unat (x - 1 :: u32) = unat x - 1"
  by (simp add: unat_minus_one)

lemma inc_ne_0: "unat (x :: u32) < 4294967295 \<Longrightarrow> x + 1 \<noteq> 0"
  using unat_inc [of x] by auto

lemma dec_ne_0: "1 < unat (x :: u32) \<Longrightarrow> x - 1 \<noteq> 0"
proof
  assume 1: "1 < unat x" and 2: "x - 1 = 0"
  have "x \<noteq> 0" using 1 by auto
  then show False using 1 unat_dec [of x] unfolding 2 by simp
qed

lemma bread_law:
  assumes ok: "bcache_ok s" and k: "fst k \<noteq> 0" and free: "locker (cache_view s k) = None"
    and few: "refs (cache_view s k) < 4294967295"
    and room: "0 < refs (cache_view s k) \<or> card {k. 0 < refs (cache_view s k)} < NBUF"
  shows "\<exists>b s'. bread (fst k) (snd k) s = Some (b, s') \<and> bcache_ok s' \<and> handle s' b = Some k \<and>
    cache_view s' = (cache_view s)(k := (cache_view s k)\<lparr>refs := refs (cache_view s k) + 1, locker := Some (curpid s)\<rparr>) \<and>
    disk s' = disk s \<and> dwrites s' = dwrites s \<and> carries handle cache_view outside s s'"
proof -
  obtain b where b: "b < NBUF" "slot s k = Some b \<or> slot s k = None \<and> refcnt (bufs s b) = 0"
    and r: "bread (fst k) (snd k) s = Some (b, s\<lparr>bufs := (bufs s)(b := fetched k (bufs s b) (disk s k) (curpid s))\<rparr>)"
    using bread_eq [OF ok k free room] by blast
  let ?x = "fetched k (bufs s b) (disk s k) (curpid s)" let ?s = "s\<lparr>bufs := (bufs s)(b := ?x)\<rparr>"
  have e: "ekey (bufs s b) = k \<longleftrightarrow> slot s k = Some b"
    using b slot_SomeD [of s k b] slot_NoneD [of s k b] k by auto
  have v: "cache_view s k = (if slot s k = Some b then entry_of (bufs s b) (disk s k)
      else \<lparr>seen = disk s k, refs = 0, locker = None\<rparr>)" using b(2) by (auto simp: cache_view_def)
  have n: "refcnt ?x \<noteq> 0" and nr: "unat (refcnt ?x) = refs (cache_view s k) + 1"
    using few by (auto simp: fetched_def e v entry_of_def unat_inc dest: inc_ne_0)
  have "buf_ok ?x (disk s k)" using n k by (simp add: buf_ok_def fetched_def)
  then have u: "buf_update s ?s b ?x k (disk s k)"
    using ok b k bcache_okD(1) [OF ok] by (simp add: buf_update_def) (simp add: fetched_def ekey_def)
  have "entry_of ?x (disk s k) = (cache_view s k)\<lparr>refs := refs (cache_view s k) + 1, locker := Some (curpid s)\<rparr>"
    using nr v e by (auto simp: entry_of_def fetched_def)
  then show ?thesis
    using r n buf_update_effect [OF u] buf_update_handle [OF u] by (simp add: outside_def)
qed

text \<open>The entry of a live buffer, and an update of that buffer that keeps its block.\<close>

lemma live_update:
  assumes "bcache_ok s" "handle s b = Some k" "ekey x = k" "buf_ok x d" "bufs s' = (bufs s)(b := x)"
    "disk s' = (disk s)(k := d)" "lru s' = lru s" "outside s' = outside s"
  shows "bcache_ok s' \<and> cache_view s' = (cache_view s)(k := entry_of x d) \<and>
    disk s' = (disk s)(k := d) \<and> carries handle cache_view outside s s'"
  by (rule buf_update_effect, rule buf_update_same)
    (use assms bcache_okD(1) [OF assms(1)] in \<open>auto simp: outside_def\<close>)

lemma put_data_law:
  assumes ok: "bcache_ok s" and h: "handle s b = Some k"
  shows "bcache_ok (put_data b d s) \<and>
    cache_view (put_data b d s) = (cache_view s)(k := (cache_view s k)\<lparr>seen := d\<rparr>) \<and>
    disk (put_data b d s) = disk s \<and> dwrites (put_data b d s) = dwrites s \<and>
    carries handle cache_view outside s (put_data b d s)"
proof -
  note hs = handle_Some [OF ok h]
  have "bcache_ok (put_data b d s) \<and>
      cache_view (put_data b d s) = (cache_view s)(k := entry_of ((bufs s b)\<lparr>bdata := d\<rparr>) (disk s k)) \<and>
      disk (put_data b d s) = (disk s)(k := disk s k) \<and> carries handle cache_view outside s (put_data b d s)"
    by (rule live_update [OF ok h])
      (use hs bcache_okD(3) [OF ok hs(1)] in \<open>auto simp: put_data_def on_buf_def outside_def ekey_def buf_ok_def split: if_splits\<close>)
  moreover have "entry_of ((bufs s b)\<lparr>bdata := d\<rparr>) (disk s k) = (cache_view s k)\<lparr>seen := d\<rparr>"
    using hs(5) by (simp add: hs(7) entry_of_def)
  ultimately show ?thesis by (simp add: put_data_def on_buf_def)
qed

lemma get_data_law: "bcache_ok s \<Longrightarrow> handle s b = Some k \<Longrightarrow> get_data b s = seen (cache_view s k)"
  using handle_Some [of s b k] by (simp add: get_data_def entry_of_def)

lemma holds_buf:
  assumes ok: "bcache_ok s" and h: "handle s b = Some k" and l: "locker (cache_view s k) = Some (curpid s)"
  shows "holdingsleep (curpid s) (block_lock (bufs s b))"
  using l handle_Some(7) [OF ok h] by (auto simp: entry_of_def holdingsleep_def split: if_splits)

lemma bwrite_law:
  assumes ok: "bcache_ok s" and h: "handle s b = Some k" and l: "locker (cache_view s k) = Some (curpid s)"
  shows "\<exists>s'. bwrite b s = Some s' \<and> bcache_ok s' \<and> cache_view s' = cache_view s \<and>
    disk s' = (disk s)(k := seen (cache_view s k)) \<and> dwrites s' = (k, seen (cache_view s k)) # dwrites s \<and>
    carries handle cache_view outside s s'"
proof -
  note hs = handle_Some [OF ok h]
  let ?d = "seen (cache_view s k)"
  have d: "bdata (bufs s b) = ?d" using hs(5,7) by (simp add: entry_of_def)
  have e: "disk_rw b True s = s\<lparr>disk := (disk s)(k := ?d), dwrites := (k, ?d) # dwrites s\<rparr>"
    using d hs(3) by (auto simp: disk_rw_def ekey_def)
  have "bcache_ok (disk_rw b True s) \<and> cache_view (disk_rw b True s) = (cache_view s)(k := entry_of (bufs s b) ?d) \<and>
      disk (disk_rw b True s) = (disk s)(k := ?d) \<and> carries handle cache_view outside s (disk_rw b True s)"
    by (rule live_update [OF ok h])
      (use hs bcache_okD(3) [OF ok hs(1)] in \<open>auto simp: e outside_def buf_ok_def split: if_splits\<close>)
  moreover have "entry_of (bufs s b) ?d = cache_view s k" using hs(5) by (simp add: hs(7) entry_of_def)
  ultimately show ?thesis using holds_buf [OF ok h l] by (simp add: bwrite_def e)
qed

lemma brelse_law:
  assumes ok: "bcache_ok s" and h: "handle s b = Some k" and l: "locker (cache_view s k) = Some (curpid s)"
    and clean: "1 < refs (cache_view s k) \<or> seen (cache_view s k) = disk s k"
  shows "\<exists>s'. brelse b s = Some s' \<and> bcache_ok s' \<and>
    cache_view s' = (cache_view s)(k := (cache_view s k)\<lparr>refs := refs (cache_view s k) - 1, locker := None\<rparr>) \<and>
    disk s' = disk s \<and> dwrites s' = dwrites s \<and> carries handle cache_view outside s s'"
proof -
  note hs = handle_Some [OF ok h]
  let ?x = "(block_lock_update releasesleep (bufs s b))\<lparr>refcnt := refcnt (bufs s b) - 1\<rparr>"
  obtain bs where bs: "lru_order (lru s) bs" "distinct bs" "set bs = {..<NBUF}" using bcache_okD(1) [OF ok] by blast
  obtain l1 where l1: "lru_unlink b (lru s) = Some l1" "lru_order l1 (remove1 b bs)"
    using lru_unlink_order [OF bs(1)] bs(3) hs(1) by auto
  obtain l2 where l2: "lru_push b l1 = Some l2" "lru_order l2 (b # remove1 b bs)"
    using lru_push_order [OF l1(2), of b] bs(2) by auto
  define s' where "s' = s\<lparr>bufs := (bufs s)(b := ?x), lru := if refcnt ?x = 0 then l2 else lru s\<rparr>"
  have "set (b # remove1 b bs) = {..<NBUF}" "distinct (b # remove1 b bs)" using bs hs(1) by auto
  then have order: "\<exists>bs. lru_order (lru s') bs \<and> distinct bs \<and> set bs = {..<NBUF}"
    using l2(2) bs by (auto simp: s'_def)
  have "brelse b s = Some s'"
    using l1(1) l2(1) holds_buf [OF ok h l] bcache_okD(4) [OF ok]
    by (simp add: brelse_def on_buf_def s'_def)
  moreover have r: "1 < unat (refcnt (bufs s b)) \<or> bdata (bufs s b) = disk s k"
    using clean hs(5,7) by (simp add: entry_of_def)
  have "buf_ok ?x (disk s k)"
    using r hs(3,5,6) dec_ne_0 [of "refcnt (bufs s b)"] by (auto simp: buf_ok_def releasesleep_def)
  then have u: "buf_update s s' b ?x k (disk s k)"
    by (intro buf_update_same ok h order) (use hs(3) in \<open>auto simp: s'_def ekey_def\<close>)
  moreover have "entry_of ?x (disk s k) = (cache_view s k)\<lparr>refs := refs (cache_view s k) - 1, locker := None\<rparr>"
    using hs(2,5) by (simp add: hs(7) entry_of_def releasesleep_def unat_dec)
  ultimately show ?thesis using buf_update_effect [OF u] by (simp add: s'_def outside_def)
qed

lemma bpin_law:
  assumes ok: "bcache_ok s" and h: "handle s b = Some k" and few: "refs (cache_view s k) < 4294967295"
  shows "\<exists>s'. bpin b s = Some s' \<and> bcache_ok s' \<and>
    cache_view s' = (cache_view s)(k := (cache_view s k)\<lparr>refs := refs (cache_view s k) + 1\<rparr>) \<and>
    disk s' = disk s \<and> dwrites s' = dwrites s \<and> carries handle cache_view outside s s'"
proof -
  note hs = handle_Some [OF ok h]
  let ?x = "(bufs s b)\<lparr>refcnt := refcnt (bufs s b) + 1\<rparr>" let ?s = "s\<lparr>bufs := (bufs s)(b := ?x)\<rparr>"
  have n: "unat (refcnt (bufs s b)) < 4294967295" using few by (simp add: hs(7) entry_of_def)
  have "bpin b s = Some ?s" using bcache_okD(4) [OF ok] by (simp add: bpin_def on_buf_def)
  moreover have "bcache_ok ?s \<and> cache_view ?s = (cache_view s)(k := entry_of ?x (disk s k)) \<and>
      disk ?s = (disk s)(k := disk s k) \<and> carries handle cache_view outside s ?s"
    by (rule live_update [OF ok h])
      (use hs(3,5,6) inc_ne_0 [OF n] in \<open>auto simp: outside_def ekey_def buf_ok_def\<close>)
  moreover have "entry_of ?x (disk s k) = (cache_view s k)\<lparr>refs := refs (cache_view s k) + 1\<rparr>"
    using unat_inc [OF n] by (simp add: hs(7) entry_of_def)
  ultimately show ?thesis by simp
qed

lemma bunpin_law:
  assumes ok: "bcache_ok s" and h: "handle s b = Some k" and r: "1 < refs (cache_view s k)"
  shows "\<exists>s'. bunpin b s = Some s' \<and> bcache_ok s' \<and>
    cache_view s' = (cache_view s)(k := (cache_view s k)\<lparr>refs := refs (cache_view s k) - 1\<rparr>) \<and>
    disk s' = disk s \<and> dwrites s' = dwrites s \<and> carries handle cache_view outside s s'"
proof -
  note hs = handle_Some [OF ok h]
  let ?x = "(bufs s b)\<lparr>refcnt := refcnt (bufs s b) - 1\<rparr>" let ?s = "s\<lparr>bufs := (bufs s)(b := ?x)\<rparr>"
  have n: "1 < unat (refcnt (bufs s b))" using r by (simp add: hs(7) entry_of_def)
  have "bunpin b s = Some ?s" using bcache_okD(4) [OF ok] by (simp add: bunpin_def on_buf_def)
  moreover have "bcache_ok ?s \<and> cache_view ?s = (cache_view s)(k := entry_of ?x (disk s k)) \<and>
      disk ?s = (disk s)(k := disk s k) \<and> carries handle cache_view outside s ?s"
    by (rule live_update [OF ok h])
      (use hs(3,5,6) dec_ne_0 [OF n] in \<open>auto simp: outside_def ekey_def buf_ok_def\<close>)
  moreover have "entry_of ?x (disk s k) = (cache_view s k)\<lparr>refs := refs (cache_view s k) - 1\<rparr>"
    using unat_dec [OF hs(2)] by (simp add: hs(7) entry_of_def)
  ultimately show ?thesis by simp
qed

subsection \<open>The interface\<close>

text \<open>What a client may rely on, and the copy of one block to another that the log makes.\<close>

locale block_cache =
  fixes rd :: "u32 \<Rightarrow> u32 \<Rightarrow> 's \<Rightarrow> ('b \<times> 's) option"
    and put :: "'b \<Rightarrow> block \<Rightarrow> 's \<Rightarrow> 's"
    and "get" :: "'b \<Rightarrow> 's \<Rightarrow> block"
    and wr :: "'b \<Rightarrow> 's \<Rightarrow> 's option"
    and rel :: "'b \<Rightarrow> 's \<Rightarrow> 's option"
    and unpin :: "'b \<Rightarrow> 's \<Rightarrow> 's option"
    and ok :: "'s \<Rightarrow> bool"
    and view :: "'s \<Rightarrow> bkey \<Rightarrow> centry"
    and store :: "'s \<Rightarrow> bkey \<Rightarrow> block"
    and writes :: "'s \<Rightarrow> (bkey \<times> block) list"
    and hd_of :: "'s \<Rightarrow> 'b \<Rightarrow> bkey option"
    and rest :: "'s \<Rightarrow> 'r"
    and me :: "'s \<Rightarrow> int"
    and cap :: nat
  assumes rd_law: "\<And>s k. ok s \<Longrightarrow> fst k \<noteq> 0 \<Longrightarrow> locker (view s k) = None \<Longrightarrow> refs (view s k) < 4294967295 \<Longrightarrow>
      0 < refs (view s k) \<or> card {k. 0 < refs (view s k)} < cap \<Longrightarrow>
      \<exists>b s'. rd (fst k) (snd k) s = Some (b, s') \<and> ok s' \<and> hd_of s' b = Some k \<and>
        view s' = (view s)(k := (view s k)\<lparr>refs := refs (view s k) + 1, locker := Some (me s)\<rparr>) \<and>
        store s' = store s \<and> writes s' = writes s \<and> carries hd_of view rest s s'"
    and put_law: "\<And>s b k d. ok s \<Longrightarrow> hd_of s b = Some k \<Longrightarrow>
      ok (put b d s) \<and> view (put b d s) = (view s)(k := (view s k)\<lparr>seen := d\<rparr>) \<and>
      store (put b d s) = store s \<and> writes (put b d s) = writes s \<and> carries hd_of view rest s (put b d s)"
    and get_law: "\<And>s b k. ok s \<Longrightarrow> hd_of s b = Some k \<Longrightarrow> get b s = seen (view s k)"
    and wr_law: "\<And>s b k. ok s \<Longrightarrow> hd_of s b = Some k \<Longrightarrow> locker (view s k) = Some (me s) \<Longrightarrow>
      \<exists>s'. wr b s = Some s' \<and> ok s' \<and> view s' = view s \<and> store s' = (store s)(k := seen (view s k)) \<and>
        writes s' = (k, seen (view s k)) # writes s \<and> carries hd_of view rest s s'"
    and rel_law: "\<And>s b k. ok s \<Longrightarrow> hd_of s b = Some k \<Longrightarrow> locker (view s k) = Some (me s) \<Longrightarrow>
      1 < refs (view s k) \<or> seen (view s k) = store s k \<Longrightarrow>
      \<exists>s'. rel b s = Some s' \<and> ok s' \<and>
        view s' = (view s)(k := (view s k)\<lparr>refs := refs (view s k) - 1, locker := None\<rparr>) \<and>
        store s' = store s \<and> writes s' = writes s \<and> carries hd_of view rest s s'"
    and unpin_law: "\<And>s b k. ok s \<Longrightarrow> hd_of s b = Some k \<Longrightarrow> 1 < refs (view s k) \<Longrightarrow>
      \<exists>s'. unpin b s = Some s' \<and> ok s' \<and> view s' = (view s)(k := (view s k)\<lparr>refs := refs (view s k) - 1\<rparr>) \<and>
        store s' = store s \<and> writes s' = writes s \<and> carries hd_of view rest s s'"
    and live_law: "\<And>s b k. ok s \<Longrightarrow> hd_of s b = Some k \<Longrightarrow> 0 < refs (view s k)"
    and fin_law: "\<And>s. ok s \<Longrightarrow> finite {k. 0 < refs (view s k)}"
    and me_rest: "\<And>s s'. rest s' = rest s \<Longrightarrow> me s' = me s"
begin

definition finish :: "bool \<Rightarrow> 'b \<Rightarrow> 'b \<Rightarrow> 's \<Rightarrow> 's option" where
  "finish up src dst s = do {
     let s = put dst (get src s) s;
     s \<leftarrow> wr dst s;
     s \<leftarrow> (if up then unpin dst s else Some s);
     s \<leftarrow> rel src s;
     rel dst s
   }"

lemma carriesD: "carries hd_of view rest s s' \<Longrightarrow> hd_of s b = Some k \<Longrightarrow> 0 < refs (view s' k) \<Longrightarrow> hd_of s' b = Some k"
  "carries hd_of view rest s s' \<Longrightarrow> rest s' = rest s"
  unfolding carries_def by blast+

lemma finish_law:
  assumes ok: "ok s" and a: "hd_of s a = Some ka" and d: "hd_of s d = Some kd" and ne: "ka \<noteq> kd"
    and la: "locker (view s ka) = Some (me s)" and ld: "locker (view s kd) = Some (me s)"
    and up: "up \<longrightarrow> 1 < refs (view s kd)"
    and clean: "1 < refs (view s ka) \<or> seen (view s ka) = store s ka"
  shows "\<exists>s'. finish up a d s = Some s' \<and> ok s' \<and>
    view s' = (view s)(ka := (view s ka)\<lparr>refs := refs (view s ka) - 1, locker := None\<rparr>,
      kd := \<lparr>seen = seen (view s ka), refs = refs (view s kd) - 1 - (if up then 1 else 0), locker = None\<rparr>) \<and>
    store s' = (store s)(kd := seen (view s ka)) \<and> writes s' = (kd, seen (view s ka)) # writes s \<and> rest s' = rest s"
proof -
  note live = live_law [OF ok a] live_law [OF ok d]
  let ?D = "seen (view s ka)" let ?s1 = "put d ?D s"
  have p: "ok ?s1 \<and> view ?s1 = (view s)(kd := (view s kd)\<lparr>seen := ?D\<rparr>) \<and>
      store ?s1 = store s \<and> writes ?s1 = writes s \<and> carries hd_of view rest s ?s1" by (rule put_law [OF ok d])
  have r1: "rest ?s1 = rest s" "me ?s1 = me s" using p carriesD(2) me_rest by blast+
  have h1: "hd_of ?s1 a = Some ka" "hd_of ?s1 d = Some kd"
    using p carriesD(1) [of s ?s1] a d live ne by auto
  obtain s2 where s2: "wr d ?s1 = Some s2" "ok s2" "view s2 = view ?s1" "store s2 = (store s)(kd := ?D)"
      "writes s2 = (kd, ?D) # writes s" "carries hd_of view rest ?s1 s2"
    using wr_law [of ?s1 d kd] p h1(2) ld r1(2) by auto
  have r2: "rest s2 = rest s" "me s2 = me s" using s2(6) carriesD(2) me_rest r1 by metis+
  have v2: "view s2 = (view s)(kd := (view s kd)\<lparr>seen := ?D\<rparr>)" using s2(3) p by simp
  have h2: "hd_of s2 a = Some ka" "hd_of s2 d = Some kd"
    using carriesD(1) [OF s2(6)] h1 live ne by (auto simp: v2)
  let ?n = "refs (view s kd) - (if up then 1 else 0)"
  obtain s3 where s3: "(if up then unpin d s2 else Some s2) = Some s3" "ok s3"
      "view s3 = (view s)(kd := (view s kd)\<lparr>seen := ?D, refs := ?n\<rparr>)"
      "store s3 = store s2" "writes s3 = writes s2" "carries hd_of view rest s2 s3"
  proof (cases up)
    case True
    then show ?thesis using that unpin_law [OF s2(2) h2(2)] up by (auto simp: v2)
  next
    case False
    then show ?thesis using that [of s2] s2 by (auto simp: v2 carries_def)
  qed
  have r3: "rest s3 = rest s" "me s3 = me s" using s3(6) carriesD(2) me_rest r2 by metis+
  have h3: "hd_of s3 a = Some ka" "hd_of s3 d = Some kd"
    using carriesD(1) [OF s3(6)] h2 live ne up by (auto simp: s3(3))
  obtain s4 where s4: "rel a s3 = Some s4" "ok s4"
      "view s4 = (view s3)(ka := (view s3 ka)\<lparr>refs := refs (view s3 ka) - 1, locker := None\<rparr>)"
      "store s4 = store s3" "writes s4 = writes s3" "carries hd_of view rest s3 s4"
    using rel_law [OF s3(2) h3(1)] la clean ne r3(2) by (auto simp: s3(3,4) s2(4))
  have r4: "rest s4 = rest s" "me s4 = me s" using s4(6) carriesD(2) me_rest r3 by metis+
  have h4: "hd_of s4 d = Some kd"
    using carriesD(1) [OF s4(6) h3(2)] live ne up by (auto simp: s4(3) s3(3))
  obtain s5 where s5: "rel d s4 = Some s5" "ok s5"
      "view s5 = (view s4)(kd := (view s4 kd)\<lparr>refs := refs (view s4 kd) - 1, locker := None\<rparr>)"
      "store s5 = store s4" "writes s5 = writes s4" "carries hd_of view rest s4 s5"
    using rel_law [OF s4(2) h4] ld ne r4(2) by (auto simp: s4(3,4) s3(3,4) s2(4))
  have "finish up a d s = Some s5"
    using s2(1) s3(1) s4(1) s5(1) get_law [OF ok a] by (cases up) (simp_all add: finish_def)
  moreover have "view s5 = (view s)(ka := (view s ka)\<lparr>refs := refs (view s ka) - 1, locker := None\<rparr>,
      kd := \<lparr>seen = ?D, refs = refs (view s kd) - 1 - (if up then 1 else 0), locker = None\<rparr>)"
    using ne by (auto simp: s5(3) s4(3) s3(3) fun_eq_iff)
  ultimately show ?thesis
    using s5 s4(4,5) s3(4,5) s2(4,5) r4 carriesD(2) [OF s5(6)] by simp
qed

lemma rd_two:
  assumes ok: "ok s" and dev: "fst k \<noteq> 0" "fst j \<noteq> 0" and ne: "k \<noteq> j"
    and free: "locker (view s k) = None" "locker (view s j) = None"
    and few: "refs (view s k) < 4294967295" "refs (view s j) < 4294967295"
    and room: "card {k. 0 < refs (view s k)} + (if refs (view s k) = 0 then 1 else 0) + (if refs (view s j) = 0 then 1 else 0) \<le> cap"
  shows "\<exists>b c s' s''. rd (fst k) (snd k) s = Some (b, s') \<and> rd (fst j) (snd j) s' = Some (c, s'') \<and> ok s'' \<and>
    hd_of s'' b = Some k \<and> hd_of s'' c = Some j \<and>
    view s'' = (view s)(k := (view s k)\<lparr>refs := refs (view s k) + 1, locker := Some (me s)\<rparr>,
      j := (view s j)\<lparr>refs := refs (view s j) + 1, locker := Some (me s)\<rparr>) \<and>
    store s'' = store s \<and> writes s'' = writes s \<and> rest s'' = rest s"
proof -
  obtain b s' where 1: "rd (fst k) (snd k) s = Some (b, s')" "ok s'" "hd_of s' b = Some k"
      "view s' = (view s)(k := (view s k)\<lparr>refs := refs (view s k) + 1, locker := Some (me s)\<rparr>)"
      "store s' = store s" "writes s' = writes s" "carries hd_of view rest s s'"
    using rd_law [OF ok dev(1) free(1) few(1)] room by (auto split: if_splits)
  have me: "me s' = me s" using 1(7) carriesD(2) me_rest by blast
  have "{k. 0 < refs (view s' k)} = insert k {k. 0 < refs (view s k)}" by (auto simp: 1(4))
  then have n: "card {k. 0 < refs (view s' k)} \<le> card {k. 0 < refs (view s k)} + (if refs (view s k) = 0 then 1 else 0)"
    using fin_law [OF ok] by (simp add: card_insert_if)
  have "refs (view s' j) = refs (view s j)" using ne by (simp add: 1(4))
  then have "0 < refs (view s' j) \<or> card {k. 0 < refs (view s' k)} < cap"
    using room n by (auto split: if_splits)
  then obtain c s'' where 2: "rd (fst j) (snd j) s' = Some (c, s'')" "ok s''" "hd_of s'' c = Some j"
      "view s'' = (view s')(j := (view s' j)\<lparr>refs := refs (view s' j) + 1, locker := Some (me s')\<rparr>)"
      "store s'' = store s'" "writes s'' = writes s'" "carries hd_of view rest s' s''"
    using rd_law [OF 1(2) dev(2)] free(2) few(2) ne by (auto simp: 1(4))
  have "hd_of s'' b = Some k" using carriesD(1) [OF 2(7) 1(3)] ne by (simp add: 2(4) 1(4))
  moreover have "view s'' = (view s)(k := (view s k)\<lparr>refs := refs (view s k) + 1, locker := Some (me s)\<rparr>,
      j := (view s j)\<lparr>refs := refs (view s j) + 1, locker := Some (me s)\<rparr>)"
    using ne by (auto simp: 2(4) 1(4) me fun_eq_iff)
  ultimately show ?thesis using 1 2 carriesD(2) by metis
qed

lemma copy_law:
  assumes ok: "ok s" and dev: "fst k \<noteq> 0" "fst j \<noteq> 0" and ne: "k \<noteq> j"
    and free: "locker (view s k) = None" "locker (view s j) = None"
    and few: "refs (view s k) < 4294967295" "refs (view s j) < 4294967295"
    and room: "card {k. 0 < refs (view s k)} + (if refs (view s k) = 0 then 1 else 0) + (if refs (view s j) = 0 then 1 else 0) \<le> cap"
    and up: "up \<longrightarrow> 0 < refs (view s j)" and clean: "0 < refs (view s k) \<or> seen (view s k) = store s k"
  shows "\<exists>s'. (do { (b, s) \<leftarrow> rd (fst k) (snd k) s; (c, s) \<leftarrow> rd (fst j) (snd j) s; finish up b c s }) = Some s' \<and> ok s' \<and>
      view s' = (view s)(j := (view s j)\<lparr>seen := seen (view s k), refs := refs (view s j) - (if up then 1 else 0)\<rparr>) \<and>
      store s' = (store s)(j := seen (view s k)) \<and> writes s' = (j, seen (view s k)) # writes s \<and> rest s' = rest s"
    and "\<exists>s'. (do { (c, s) \<leftarrow> rd (fst j) (snd j) s; (b, s) \<leftarrow> rd (fst k) (snd k) s; finish up b c s }) = Some s' \<and> ok s' \<and>
      view s' = (view s)(j := (view s j)\<lparr>seen := seen (view s k), refs := refs (view s j) - (if up then 1 else 0)\<rparr>) \<and>
      store s' = (store s)(j := seen (view s k)) \<and> writes s' = (j, seen (view s k)) # writes s \<and> rest s' = rest s"
proof -
  let ?E = "\<lambda>k. (view s k)\<lparr>refs := refs (view s k) + 1, locker := Some (me s)\<rparr>"
  let ?post = "\<lambda>s'. ok s' \<and>
      view s' = (view s)(j := (view s j)\<lparr>seen := seen (view s k), refs := refs (view s j) - (if up then 1 else 0)\<rparr>) \<and>
      store s' = (store s)(j := seen (view s k)) \<and> writes s' = (j, seen (view s k)) # writes s \<and> rest s' = rest s"
  have fin: "\<exists>s'. finish up b c t = Some s' \<and> ?post s'"
    if t: "ok t" "hd_of t b = Some k" "hd_of t c = Some j" "view t = (view s)(k := ?E k, j := ?E j)"
      "store t = store s" "writes t = writes s" "rest t = rest s" for b c t
  proof -
    have me: "me t = me s" using t(7) me_rest by blast
    obtain s' where s': "finish up b c t = Some s'" "ok s'"
        "view s' = (view t)(k := (view t k)\<lparr>refs := refs (view t k) - 1, locker := None\<rparr>,
          j := \<lparr>seen = seen (view t k), refs = refs (view t j) - 1 - (if up then 1 else 0), locker = None\<rparr>)"
        "store s' = (store t)(j := seen (view t k))" "writes s' = (j, seen (view t k)) # writes t" "rest s' = rest t"
      using finish_law [OF t(1,2,3) ne, of up] ne up clean by (auto simp: t(4,5) me)
    have "view s' = (view s)(j := (view s j)\<lparr>seen := seen (view s k), refs := refs (view s j) - (if up then 1 else 0)\<rparr>)"
      using ne free by (auto simp: s'(3) t(4) fun_eq_iff)
    then show ?thesis using s' t(4-7) ne by simp
  qed
  show "\<exists>s'. (do { (b, s) \<leftarrow> rd (fst k) (snd k) s; (c, s) \<leftarrow> rd (fst j) (snd j) s; finish up b c s }) = Some s' \<and> ?post s'"
    using rd_two [OF ok dev ne free few room] fin by fastforce
  have "\<exists>c b s' s''. rd (fst j) (snd j) s = Some (c, s') \<and> rd (fst k) (snd k) s' = Some (b, s'') \<and> ok s'' \<and>
    hd_of s'' c = Some j \<and> hd_of s'' b = Some k \<and> view s'' = (view s)(j := ?E j, k := ?E k) \<and>
    store s'' = store s \<and> writes s'' = writes s \<and> rest s'' = rest s"
    by (rule rd_two [OF ok dev(2,1) ne [symmetric] free(2,1) few(2,1)]) (use room in linarith)
  then show "\<exists>s'. (do { (c, s) \<leftarrow> rd (fst j) (snd j) s; (b, s) \<leftarrow> rd (fst k) (snd k) s; finish up b c s }) = Some s' \<and> ?post s'"
    using fin fun_upd_twist [OF ne, of "view s" "?E k" "?E j"] by fastforce
qed

end

interpretation bc: block_cache bread put_data get_data bwrite brelse bunpin bcache_ok cache_view disk dwrites handle
  "outside :: 'z biost_scheme \<Rightarrow> _" curpid NBUF
proof
  fix s :: "'z biost_scheme" and b k assume "bcache_ok s" "handle s b = Some k"
  from handle_Some [OF this] show "0 < refs (cache_view s k)" by (simp add: entry_of_def unat_gt_0)
next
  fix s :: "'z biost_scheme" assume "bcache_ok s"
  from in_use_iff [OF this] show "finite {k. 0 < refs (cache_view s k)}" by simp
next
  fix s s' :: "'z biost_scheme" show "outside s' = outside s \<Longrightarrow> curpid s' = curpid s" by (simp add: outside_def)
qed (rule bread_law put_data_law get_data_law bwrite_law brelse_law bunpin_law; assumption)+

subsection \<open>Start-up\<close>

text \<open>The cache of a kernel that has just been loaded: every byte of \<^verbatim>\<open>bcache\<close> is zero.\<close>

definition zero_buf :: buf where
  "zero_buf = \<lparr>bvalid = False, bdev = 0, bblockno = 0, block_lock = initsleeplock, refcnt = 0, bdata = replicate BSIZE 0\<rparr>"

definition loaded :: "'z biost_scheme \<Rightarrow> bool" where
  "loaded s \<longleftrightarrow> bufs s = (\<lambda>_. zero_buf) \<and> L_bcache \<notin> set (held s)"

definition uncached :: "(bkey \<Rightarrow> block) \<Rightarrow> bkey \<Rightarrow> centry" where
  "uncached d k = \<lparr>seen = d k, refs = 0, locker = None\<rparr>"

lemma uncached_sel [simp]: "seen (uncached d k) = d k" "refs (uncached d k) = 0" "locker (uncached d k) = None"
  by (simp_all add: uncached_def)

lemma binit_loop_order:
  fixes s :: "'z biost_scheme"
  assumes "lru_order (lru s) cs" "distinct (bs @ cs)" "\<forall>b \<in> set bs. block_lock (bufs s b) = initsleeplock"
  shows "\<exists>l. binit_loop bs s = Some (s\<lparr>lru := l\<rparr>) \<and> lru_order l (rev bs @ cs)"
  using assms
proof (induction bs arbitrary: cs s)
  case Nil then show ?case by (auto intro: exI [of _ "lru s"])
next
  case (Cons b bs)
  then obtain l where l: "lru_push b (lru s) = Some l" "lru_order l (b # cs)" using lru_push_order by force
  have same: "on_buf b (block_lock_update (\<lambda>_. initsleeplock)) (s\<lparr>lru := l\<rparr>) = s\<lparr>lru := l\<rparr>"
  proof -
    have "(bufs s b)\<lparr>block_lock := initsleeplock\<rparr> = bufs s b" using Cons.prems(3) by (cases "bufs s b") simp
    then show ?thesis by (cases s) (simp add: on_buf_def)
  qed
  obtain l' where "binit_loop bs (s\<lparr>lru := l\<rparr>) = Some (s\<lparr>lru := l'\<rparr>)" "lru_order l' (rev bs @ b # cs)"
    using Cons.IH [of "s\<lparr>lru := l\<rparr>" "b # cs"] l(2) Cons.prems by auto
  then show ?case using l(1) same by auto
qed

lemma binit_ok:
  fixes s :: "'z biost_scheme"
  assumes "loaded s"
  shows "\<exists>l. binit s = Some (s\<lparr>lru := l\<rparr>) \<and> bcache_ok (s\<lparr>lru := l\<rparr>) \<and> cache_view (s\<lparr>lru := l\<rparr>) = uncached (disk s)"
proof -
  let ?s = "s\<lparr>lru := set_next BHead (Some BHead) (set_prev BHead (Some BHead) (lru s))\<rparr>"
  have "lru_order (lru ?s) []" by (simp add: lru_order_def is_list_empty)
  then obtain l where l: "binit_loop [0..<NBUF] ?s = Some (?s\<lparr>lru := l\<rparr>)" "lru_order l (rev [0..<NBUF])"
    using binit_loop_order [of ?s "[]" "[0..<NBUF]"] assms by (auto simp: loaded_def zero_buf_def)
  have "set (rev [0..<NBUF]) = {..<NBUF}" "distinct (rev [0..<NBUF])" by auto
  then have "bcache_ok (s\<lparr>lru := l\<rparr>)"
    using assms l(2) by (auto simp: bcache_ok_def loaded_def zero_buf_def buf_ok_def initsleeplock_def)
  moreover have "slot (s\<lparr>lru := l\<rparr>) k = None" for k
    using assms by (auto simp: slot_def loaded_def zero_buf_def find_None_iff ekey_def)
  then have "cache_view (s\<lparr>lru := l\<rparr>) = uncached (disk s)" by (simp add: cache_view_def uncached_def fun_eq_iff)
  ultimately show ?thesis using l(1) by (auto simp: binit_def)
qed

subsection \<open>Coherence\<close>

text \<open>
  Use of the cache by a process that keeps the contract of the interface; next to the state, the
  bytes last stored in each block.
\<close>

inductive cache_use :: "biost \<times> (bkey \<Rightarrow> block) \<Rightarrow> biost \<times> (bkey \<Rightarrow> block) \<Rightarrow> bool" where
  use_read: "fst k \<noteq> 0 \<Longrightarrow> locker (cache_view s k) = None \<Longrightarrow> refs (cache_view s k) < 4294967295 \<Longrightarrow>
    0 < refs (cache_view s k) \<or> card {k. 0 < refs (cache_view s k)} < NBUF \<Longrightarrow>
    bread (fst k) (snd k) s = Some (b, s') \<Longrightarrow> cache_use (s, v) (s', v)"
| use_put: "handle s b = Some k \<Longrightarrow> locker (cache_view s k) = Some (curpid s) \<Longrightarrow>
    cache_use (s, v) (put_data b d s, v(k := d))"
| use_write: "handle s b = Some k \<Longrightarrow> locker (cache_view s k) = Some (curpid s) \<Longrightarrow>
    bwrite b s = Some s' \<Longrightarrow> cache_use (s, v) (s', v)"
| use_release: "handle s b = Some k \<Longrightarrow> locker (cache_view s k) = Some (curpid s) \<Longrightarrow>
    1 < refs (cache_view s k) \<or> seen (cache_view s k) = disk s k \<Longrightarrow>
    brelse b s = Some s' \<Longrightarrow> cache_use (s, v) (s', v)"
| use_pin: "handle s b = Some k \<Longrightarrow> refs (cache_view s k) < 4294967295 \<Longrightarrow>
    bpin b s = Some s' \<Longrightarrow> cache_use (s, v) (s', v)"
| use_unpin: "handle s b = Some k \<Longrightarrow> 1 < refs (cache_view s k) \<Longrightarrow>
    bunpin b s = Some s' \<Longrightarrow> cache_use (s, v) (s', v)"

definition coherent :: "biost \<times> (bkey \<Rightarrow> block) \<Rightarrow> bool" where
  "coherent p \<longleftrightarrow> bcache_ok (fst p) \<and> (\<forall>k. seen (cache_view (fst p) k) = snd p k)"

lemma unreferenced_on_disk: "bcache_ok s \<Longrightarrow> refs (cache_view s k) = 0 \<Longrightarrow> disk s k = seen (cache_view s k)"
  using slot_SomeD [of s k] bcache_okD(3) [of s]
  by (force simp: cache_view_def entry_of_def buf_ok_def unat_eq_0 split: option.splits)

lemma cache_use_coherent: "cache_use p q \<Longrightarrow> coherent p \<Longrightarrow> coherent q"
proof (induction rule: cache_use.induct)
  case (use_read k s b s' v)
  then show ?case using bread_law [of s k] by (auto simp: coherent_def)
next
  case (use_put s b k v d)
  then show ?case using put_data_law [of s b k d] by (auto simp: coherent_def)
next
  case (use_write s b k s' v)
  then show ?case using bwrite_law [of s b k] by (auto simp: coherent_def)
next
  case (use_release s b k s' v)
  then show ?case using brelse_law [of s b k] by (auto simp: coherent_def)
next
  case (use_pin s b k s' v)
  then show ?case using bpin_law [of s b k] by (auto simp: coherent_def)
next
  case (use_unpin s b k s' v)
  then show ?case using bunpin_law [of s b k] by (auto simp: coherent_def)
qed

lemma cache_uses_coherent: "cache_use\<^sup>*\<^sup>* p q \<Longrightarrow> coherent p \<Longrightarrow> coherent q"
  by (induction rule: rtranclp_induct) (auto intro: cache_use_coherent)

lemma binit_coherent:
  assumes "loaded s" "binit s = Some s0"
  shows "coherent (s0, disk s)"
  using binit_ok [OF assms(1)] assms(2) by (auto simp: coherent_def)


text \<open>Block 5 of device 1 is read, changed, written and released, and read again.\<close>

definition blank :: biost where
  "blank = \<lparr>held = [], bufs = \<lambda>_. zero_buf, lru = \<lambda>_. \<lparr>lnext = None, lprev = None\<rparr>,
     disk = \<lambda>_. replicate BSIZE 0, dwrites = [], curpid = 3\<rparr>"

lemma blank_loaded: "loaded blank"
  by (simp add: loaded_def blank_def)

lemma blank_use:
  "\<exists>s0 t v. binit blank = Some s0 \<and> cache_use\<^sup>*\<^sup>* (s0, disk blank) (t, v) \<and> v (1, 5) = replicate BSIZE 7 \<and>
     cache_view t = (uncached (disk blank))((1, 5) := \<lparr>seen = replicate BSIZE 7, refs = 0, locker = None\<rparr>)"
proof -
  let ?k = "(1, 5) :: bkey" let ?d = "replicate BSIZE 7 :: block"
  obtain s0 where s0: "binit blank = Some s0" "bcache_ok s0" "cache_view s0 = uncached (disk blank)"
    using binit_ok [OF blank_loaded] by blast
  obtain b s1 where s1: "bread (fst ?k) (snd ?k) s0 = Some (b, s1)" "bcache_ok s1" "handle s1 b = Some ?k"
      "cache_view s1 = (cache_view s0)(?k := (cache_view s0 ?k)\<lparr>refs := refs (cache_view s0 ?k) + 1, locker := Some (curpid s0)\<rparr>)"
      "carries handle cache_view outside s0 s1"
    using bread_law [of s0 ?k] s0 by (auto simp: NBUF_def)
  have u1: "cache_use (s0, disk blank) (s1, disk blank)"
    by (rule use_read [OF _ _ _ _ s1(1)]) (simp_all add: s0 NBUF_def)
  let ?s2 = "put_data b ?d s1"
  note s2 = put_data_law [OF s1(2,3), of ?d]
  have me: "curpid s1 = curpid s0" using s1(5) bc.carriesD(2) bc.me_rest by blast
  have me2: "curpid ?s2 = curpid s1" using s2 bc.carriesD(2) bc.me_rest by blast
  have u2: "cache_use (s1, disk blank) (?s2, (disk blank)(?k := ?d))"
    by (rule use_put [OF s1(3)]) (simp add: s1(4) me)
  have h2: "handle ?s2 b = Some ?k"
    using s2 s1(3) bc.carriesD(1) [of s1 ?s2 b ?k] by (simp add: s1(4))
  have l2: "locker (cache_view ?s2 ?k) = Some (curpid ?s2)" using s2 by (simp add: s1(4) me me2)
  obtain s3 where s3: "bwrite b ?s2 = Some s3" "bcache_ok s3" "cache_view s3 = cache_view ?s2"
      "disk s3 = (disk ?s2)(?k := seen (cache_view ?s2 ?k))" "carries handle cache_view outside ?s2 s3"
    using bwrite_law [OF _ h2 l2] s2 by blast
  have u3: "cache_use (?s2, (disk blank)(?k := ?d)) (s3, (disk blank)(?k := ?d))"
    by (rule use_write [OF h2 l2 s3(1)])
  have h3: "handle s3 b = Some ?k" using bc.carriesD(1) [OF s3(5) h2] s2 by (simp add: s3(3) s1(4))
  have l3: "locker (cache_view s3 ?k) = Some (curpid s3)" "seen (cache_view s3 ?k) = disk s3 ?k"
    using l2 bc.me_rest [OF bc.carriesD(2) [OF s3(5)]] by (simp_all add: s3(3,4))
  obtain s4 where s4: "brelse b s3 = Some s4"
      "cache_view s4 = (cache_view s3)(?k := (cache_view s3 ?k)\<lparr>refs := refs (cache_view s3 ?k) - 1, locker := None\<rparr>)"
    using brelse_law [OF s3(2) h3 l3(1)] l3(2) by blast
  have u4: "cache_use (s3, (disk blank)(?k := ?d)) (s4, (disk blank)(?k := ?d))"
    by (rule use_release [OF h3 l3(1) _ s4(1)]) (simp add: l3)
  have "cache_use\<^sup>*\<^sup>* (s0, disk blank) (s4, (disk blank)(?k := ?d))"
    using u1 u2 u3 u4 by (meson converse_rtranclp_into_rtranclp rtranclp.rtrancl_refl)
  moreover have "cache_view s4 = (uncached (disk blank))(?k := \<lparr>seen = ?d, refs = 0, locker = None\<rparr>)"
    using s2 by (simp add: s4(2) s3(3) s1(4) s0(3) uncached_def [of _ ?k])
  ultimately show ?thesis
    using s0(1) by (intro exI [of _ s0] exI [of _ s4] exI [of _ "(disk blank)(?k := ?d)"]) simp
qed


end
