(* ===== verification/XV_Log.thy ===== *)
theory XV_Log
  imports XV_Bio
begin

section \<open>The redo log\<close>

text \<open>
  \<^verbatim>\<open>kernel/fs/log.c\<close>, built with \<^verbatim>\<open>__USE_XV6FS\<close>.  The state adds \<^verbatim>\<open>struct log\<close> to the
  buffer cache; \<open>log_wakeups\<close> counts the calls \<^verbatim>\<open>thread_wakeup_chan(&log)\<close>.  The header block of
  the log is a sequence of bytes on the disk, with the integers of \<^verbatim>\<open>struct logheader\<close> in little-endian
  order.  \<open>read_head\<close> is \<open>None\<close> when the count it reads does not fit the array in memory.
  \<open>begin_op\<close> is one round of its loop: its result says whether the operation was admitted or
  the thread went to sleep on the log.

  A crash stops the kernel between two writes of a block: the disk is then the disk at the start
  with a prefix of the writes applied.  \<open>log_transaction_atomic\<close> and \<open>recovery_restartable\<close> are about all
  such prefixes.
\<close>

record xv6fs_superblock =
  sb_magic :: u32
  sb_size :: u32
  sb_nblocks :: u32
  sb_ninodes :: u32
  sb_nlog :: u32
  sb_logstart :: u32
  sb_inodestart :: u32
  sb_bmapstart :: u32
  sb_flags :: int

record logst = biost +
  lstart :: int
  lsize :: int
  outstanding :: int
  committing :: bool
  ldev :: int
  lh_n :: int
  lh_block :: "u32 list"
  log_wakeups :: nat

definition MAXOPBLOCKS :: int where
  "MAXOPBLOCKS = 10"

definition LOGSIZE :: int where
  "LOGSIZE = MAXOPBLOCKS * 3"

definition get32 :: "nat \<Rightarrow> block \<Rightarrow> u32" where
  "get32 i d = ucast (d ! i) OR push_bit 8 (ucast (d ! (i + 1))) OR
     push_bit 16 (ucast (d ! (i + 2))) OR push_bit 24 (ucast (d ! (i + 3)))"

definition put32 :: "nat \<Rightarrow> u32 \<Rightarrow> block \<Rightarrow> block" where
  "put32 i v d = d[i := ucast v, i + 1 := ucast (drop_bit 8 v), i + 2 := ucast (drop_bit 16 v),
     i + 3 := ucast (drop_bit 24 v)]"

fun head_to_bytes :: "nat \<Rightarrow> u32 list \<Rightarrow> block \<Rightarrow> block" where
  "head_to_bytes i [] d = d"
| "head_to_bytes i (b # bs) d = head_to_bytes (i + 1) bs (put32 (4 + 4 * i) b d)"

fun head_from_bytes :: "nat list \<Rightarrow> block \<Rightarrow> u32 list \<Rightarrow> u32 list" where
  "head_from_bytes [] d bs = bs"
| "head_from_bytes (i # is) d bs = head_from_bytes is d (bs[i := get32 (4 + 4 * i) d])"

definition log_bread :: "int \<Rightarrow> 'z logst_scheme \<Rightarrow> (nat \<times> 'z logst_scheme) option" where
  "log_bread blockno s = bread (word_of_int (ldev s)) (word_of_int blockno) s"

fun install_loop :: "bool \<Rightarrow> nat list \<Rightarrow> 'z logst_scheme \<Rightarrow> 'z logst_scheme option" where
  "install_loop recovering [] s = Some s"
| "install_loop recovering (tail # ts) s = do {
     (lbuf, s) \<leftarrow> log_bread (lstart s + int tail + 1) s;
     (dbuf, s) \<leftarrow> bread (word_of_int (ldev s)) (lh_block s ! tail) s;
     let s = put_data dbuf (get_data lbuf s) s;
     s \<leftarrow> bwrite dbuf s;
     s \<leftarrow> (if \<not> recovering then bunpin dbuf s else Some s);
     s \<leftarrow> brelse lbuf s;
     s \<leftarrow> brelse dbuf s;
     install_loop recovering ts s
   }"

definition install_trans :: "bool \<Rightarrow> 'z logst_scheme \<Rightarrow> 'z logst_scheme option" where
  "install_trans recovering s = install_loop recovering [0..<nat (lh_n s)] s"

definition read_head :: "'z logst_scheme \<Rightarrow> 'z logst_scheme option" where
  "read_head s = do {
     (b, s) \<leftarrow> log_bread (lstart s) s;
     let d = get_data b s;
     let s = s\<lparr>lh_n := sint (get32 0 d)\<rparr>;
     ensure (lh_n s \<le> LOGSIZE);
     let s = s\<lparr>lh_block := head_from_bytes [0..<nat (lh_n s)] d (lh_block s)\<rparr>;
     brelse b s
   }"

definition write_head :: "'z logst_scheme \<Rightarrow> 'z logst_scheme option" where
  "write_head s = do {
     (b, s) \<leftarrow> log_bread (lstart s) s;
     let d = put32 0 (word_of_int (lh_n s)) (get_data b s);
     let d = head_to_bytes 0 (take (nat (lh_n s)) (lh_block s)) d;
     s \<leftarrow> bwrite b (put_data b d s);
     brelse b s
   }"

definition recover_from_log :: "'z logst_scheme \<Rightarrow> 'z logst_scheme option" where
  "recover_from_log s = do {
     s \<leftarrow> read_head s;
     s \<leftarrow> install_trans True s;
     write_head (s\<lparr>lh_n := 0\<rparr>)
   }"

definition initlog :: "int \<Rightarrow> xv6fs_superblock option \<Rightarrow> 'z logst_scheme \<Rightarrow> 'z logst_scheme option" where
  "initlog dev sb s = do {
     ensure (\<not> 4 + 4 * nat LOGSIZE \<ge> BSIZE);
     sb \<leftarrow> sb;
     recover_from_log (s\<lparr>lstart := sint (sb_logstart sb), lsize := sint (sb_nlog sb), ldev := dev\<rparr>)
   }"

definition begin_op :: "'z logst_scheme \<Rightarrow> (bool \<times> 'z logst_scheme) option" where
  "begin_op s = do {
     s \<leftarrow> acquire L_log s;
     (if committing s then do { s \<leftarrow> release L_log s; Some (False, s) }
      else if lh_n s + (outstanding s + 1) * MAXOPBLOCKS > LOGSIZE
      then do { s \<leftarrow> release L_log s; Some (False, s) }
      else do { s \<leftarrow> release L_log (s\<lparr>outstanding := outstanding s + 1\<rparr>); Some (True, s) })
   }"

fun write_log_loop :: "nat list \<Rightarrow> 'z logst_scheme \<Rightarrow> 'z logst_scheme option" where
  "write_log_loop [] s = Some s"
| "write_log_loop (tail # ts) s = do {
     (to, s) \<leftarrow> log_bread (lstart s + int tail + 1) s;
     (from, s) \<leftarrow> bread (word_of_int (ldev s)) (lh_block s ! tail) s;
     let s = put_data to (get_data from s) s;
     s \<leftarrow> bwrite to s;
     s \<leftarrow> brelse from s;
     s \<leftarrow> brelse to s;
     write_log_loop ts s
   }"

definition write_log :: "'z logst_scheme \<Rightarrow> 'z logst_scheme option" where
  "write_log s = write_log_loop [0..<nat (lh_n s)] s"

definition commit :: "'z logst_scheme \<Rightarrow> 'z logst_scheme option" where
  "commit s =
     (if lh_n s > 0 then do {
        s \<leftarrow> write_log s;
        s \<leftarrow> write_head s;
        s \<leftarrow> install_trans False s;
        write_head (s\<lparr>lh_n := 0\<rparr>)
      } else Some s)"

definition end_op :: "'z logst_scheme \<Rightarrow> 'z logst_scheme option" where
  "end_op s = do {
     s \<leftarrow> acquire L_log s;
     let s = s\<lparr>outstanding := outstanding s - 1\<rparr>;
     ensure (\<not> committing s);
     let do_commit = (outstanding s = 0);
     let s = (if do_commit then s\<lparr>committing := True\<rparr> else s\<lparr>log_wakeups := log_wakeups s + 1\<rparr>);
     s \<leftarrow> release L_log s;
     (if do_commit then do {
        s \<leftarrow> commit s;
        s \<leftarrow> acquire L_log s;
        release L_log (s\<lparr>committing := False, log_wakeups := log_wakeups s + 1\<rparr>)
      } else Some s)
   }"

fun log_find :: "u32 \<Rightarrow> u32 list \<Rightarrow> nat" where
  "log_find x [] = 0"
| "log_find x (y # ys) = (if y = x then 0 else Suc (log_find x ys))"

definition log_write :: "nat \<Rightarrow> 'z logst_scheme \<Rightarrow> 'z logst_scheme option" where
  "log_write b s = do {
     s \<leftarrow> acquire L_log s;
     ensure (\<not> (lh_n s \<ge> LOGSIZE \<or> lh_n s \<ge> lsize s - 1));
     ensure (\<not> outstanding s < 1);
     let i = log_find (bblockno (bufs s b)) (take (nat (lh_n s)) (lh_block s));
     let s = s\<lparr>lh_block := (lh_block s)[i := bblockno (bufs s b)]\<rparr>;
     s \<leftarrow> (if int i = lh_n s then do {
             s \<leftarrow> bpin b s;
             Some (s\<lparr>lh_n := lh_n s + 1\<rparr>)
           } else Some s);
     release L_log s
   }"

text \<open>The use of the log that the comment above \<^verbatim>\<open>log_write\<close> prescribes: one block gets new bytes.\<close>

definition log_update :: "bkey \<Rightarrow> block \<Rightarrow> 'z logst_scheme \<Rightarrow> 'z logst_scheme option" where
  "log_update k d s = do {
     (b, s) \<leftarrow> bread (fst k) (snd k) s;
     s \<leftarrow> log_write b (put_data b d s);
     brelse b s
   }"

fun log_updates :: "(bkey \<times> block) list \<Rightarrow> 'z logst_scheme \<Rightarrow> 'z logst_scheme option" where
  "log_updates [] s = Some s"
| "log_updates ((k, d) # us) s = log_update k d s \<bind> log_updates us"

subsection \<open>The bytes of the header\<close>

lemma bytes_join32:
  "ucast (ucast v :: u8) OR push_bit 8 (ucast (ucast (drop_bit 8 v) :: u8)) OR
   push_bit 16 (ucast (ucast (drop_bit 16 v) :: u8)) OR push_bit 24 (ucast (ucast (drop_bit 24 v) :: u8)) = (v :: u32)"
proof (rule bit_word_eqI)
  fix n assume "n < LENGTH(32)"
  then consider "n < 8" | "8 \<le> n" "n < 16" | "16 \<le> n" "n < 24" | "24 \<le> n" "n < 32" by fastforce
  then show "bit (ucast (ucast v :: u8) OR push_bit 8 (ucast (ucast (drop_bit 8 v) :: u8)) OR
      push_bit 16 (ucast (ucast (drop_bit 16 v) :: u8)) OR push_bit 24 (ucast (ucast (drop_bit 24 v) :: u8)) :: u32) n = bit v n"
    by cases (auto simp: bit_simps)
qed

lemma length_put32 [simp]: "length (put32 i v d) = length d"
  by (simp add: put32_def)

lemma get32_put32_same: "i + 3 < length d \<Longrightarrow> get32 i (put32 i v d) = v"
  by (simp add: get32_def put32_def bytes_join32)

lemma get32_put32_other: "j + 3 < i \<or> i + 3 < j \<Longrightarrow> get32 j (put32 i v d) = get32 j d"
  by (auto simp: get32_def put32_def)

lemma length_head_to_bytes [simp]: "length (head_to_bytes i bs d) = length d"
  by (induction i bs d rule: head_to_bytes.induct) auto

lemma get32_head_count: "get32 0 (head_to_bytes i bs d) = get32 0 d"
  by (induction i bs d rule: head_to_bytes.induct) (auto simp: get32_put32_other)

lemma get32_head_to_bytes:
  "4 + 4 * (i + length bs) \<le> length d \<Longrightarrow>
   get32 (4 + 4 * j) (head_to_bytes i bs d) =
     (if i \<le> j \<and> j < i + length bs then bs ! (j - i) else get32 (4 + 4 * j) d)"
proof (induction i bs d rule: head_to_bytes.induct)
  case (2 i b bs d)
  have e: "get32 (4 + 4 * j) (put32 (4 + 4 * i) b d) = (if j = i then b else get32 (4 + 4 * j) d)"
  proof (cases "j = i")
    case True
    then show ?thesis using get32_put32_same [of "4 + 4 * i" d b] 2(2) by simp
  next
    case False
    then have "4 + 4 * j + 3 < 4 + 4 * i \<or> 4 + 4 * i + 3 < 4 + 4 * j" by linarith
    then show ?thesis using get32_put32_other False by simp
  qed
  have IH: "get32 (4 + 4 * j) (head_to_bytes (i + 1) bs (put32 (4 + 4 * i) b d)) =
      (if i + 1 \<le> j \<and> j < i + 1 + length bs then bs ! (j - (i + 1)) else get32 (4 + 4 * j) (put32 (4 + 4 * i) b d))"
    using 2 by simp
  have "(b # bs) ! (j - i) = (if j = i then b else bs ! (j - (i + 1)))" if "i \<le> j"
    using that by (auto simp: nth_Cons')
  then show ?case unfolding head_to_bytes.simps IH e by auto
qed auto

lemma length_head_from_bytes [simp]: "length (head_from_bytes is d bs) = length bs"
  by (induction "is" d bs rule: head_from_bytes.induct) auto

lemma nth_head_from_bytes:
  "distinct is \<Longrightarrow> j < length bs \<Longrightarrow>
   head_from_bytes is d bs ! j = (if j \<in> set is then get32 (4 + 4 * j) d else bs ! j)"
  by (induction "is" d bs rule: head_from_bytes.induct) (auto simp: nth_list_update)

lemma LOGSIZE_eq [simp]: "LOGSIZE = 30"
  by (simp add: LOGSIZE_def MAXOPBLOCKS_def)

text \<open>The header block that \<^verbatim>\<open>write_head\<close> makes of the in-memory header, and its contents.\<close>

definition head_bytes :: "u32 list \<Rightarrow> block \<Rightarrow> block" where
  "head_bytes bs d = head_to_bytes 0 bs (put32 0 (of_nat (length bs)) d)"

definition head_blocks :: "block \<Rightarrow> u32 list" where
  "head_blocks d = map (\<lambda>i. get32 (4 + 4 * i) d) [0..<nat (sint (get32 0 d))]"

lemma length_head_bytes [simp]: "length (head_bytes bs d) = length d"
  by (simp add: head_bytes_def)

lemma head_count:
  assumes "4 \<le> length d" "length bs \<le> 30"
  shows "sint (get32 0 (head_bytes bs d)) = int (length bs)"
proof -
  have "get32 0 (head_bytes bs d) = of_nat (length bs)"
    using assms(1) by (simp add: head_bytes_def get32_head_count get32_put32_same)
  moreover have "sint (of_nat (length bs) :: u32) = int (length bs)"
    using assms(2) by (simp add: signed_of_nat signed_take_bit_int_eq_self)
  ultimately show ?thesis by simp
qed

lemma head_blocks_bytes:
  assumes "4 + 4 * length bs \<le> length d" "length bs \<le> 30"
  shows "head_blocks (head_bytes bs d) = bs"
proof -
  have "4 \<le> length d" using assms(1) by simp
  from head_count [OF this assms(2)] show ?thesis
    unfolding head_blocks_def
    by (intro nth_equalityI) (use assms(1) in \<open>auto simp: head_bytes_def get32_head_to_bytes\<close>)
qed

subsection \<open>The routines of the log on the cache\<close>

text \<open>Blocks in \<open>P\<close> are pinned once, with bytes \<open>N\<close>; all others are as on the disk.\<close>

definition logged_view :: "(bkey \<Rightarrow> block) \<Rightarrow> (bkey \<Rightarrow> block) \<Rightarrow> bkey set \<Rightarrow> bkey \<Rightarrow> centry" where
  "logged_view D N P k = (if k \<in> P then \<lparr>seen = N k, refs = 1, locker = None\<rparr> else uncached D k)"

definition log_block :: "u32 \<Rightarrow> int \<Rightarrow> nat \<Rightarrow> bkey" where
  "log_block dev start i = (dev, word_of_int (start + int i))"

abbreviation logkey :: "'z logst_scheme \<Rightarrow> nat \<Rightarrow> bkey" where
  "logkey s \<equiv> log_block (word_of_int (ldev s)) (lstart s)"

definition geom :: "u32 \<Rightarrow> int \<Rightarrow> bool" where
  "geom dev start \<longleftrightarrow> dev \<noteq> 0 \<and> 0 \<le> start \<and> start + 31 < 2 ^ 31"

definition homes :: "'z logst_scheme \<Rightarrow> bkey list" where
  "homes s = map (Pair (word_of_int (ldev s))) (take (nat (lh_n s)) (lh_block s))"

definition lview :: "(bkey \<Rightarrow> block) \<Rightarrow> bkey set \<Rightarrow> 'z logst_scheme \<Rightarrow> bool" where
  "lview N P s \<longleftrightarrow> bcache_ok s \<and> cache_view s = logged_view (disk s) N P \<and>
     geom (word_of_int (ldev s)) (lstart s) \<and> 0 \<le> lh_n s \<and> lh_n s \<le> 30 \<and> length (lh_block s) = 30"

lemma log_block_inj:
  assumes "geom dev start" "i \<le> 31" "j \<le> 31"
  shows "log_block dev start i = log_block dev start j \<longleftrightarrow> i = j"
proof -
  have "uint (word_of_int (start + int n) :: u32) = start + int n" if "n \<le> 31" for n
    using assms(1) that unfolding geom_def by (subst uint_word_of_int) simp
  then have "(word_of_int (start + int i) :: u32) = word_of_int (start + int j) \<Longrightarrow> i = j"
    using assms(2,3) by (metis add_left_imp_eq of_nat_eq_iff)
  then show ?thesis by (auto simp: log_block_def)
qed

lemma fst_log_block [simp]: "fst (log_block dev start i) = dev" "snd (log_block dev start i) = word_of_int (start + int i)"
  by (simp_all add: log_block_def)

lemma logged_view_in_use: "{k. 0 < refs (logged_view D N P k)} = P"
  by (auto simp: logged_view_def)

lemma logged_view_sel:
  "seen (logged_view D N P k) = (if k \<in> P then N k else D k)"
  "refs (logged_view D N P k) = (if k \<in> P then 1 else 0)"
  "locker (logged_view D N P k) = None"
  by (simp_all add: logged_view_def)

lemma logged_view_empty: "logged_view D N {} = uncached D"
  by (simp add: logged_view_def fun_eq_iff)

lemma outside_log:
  fixes s s' :: "'z logst_scheme"
  assumes "outside s' = outside s"
  shows "held s' = held s" "curpid s' = curpid s" "lstart s' = lstart s" "lsize s' = lsize s"
    "outstanding s' = outstanding s" "committing s' = committing s" "ldev s' = ldev s" "lh_n s' = lh_n s"
    "lh_block s' = lh_block s" "log_wakeups s' = log_wakeups s" "logst.more s' = logst.more s"
  using assms by (cases s; cases s'; simp add: outside_def)+

lemma lviewD:
  assumes "lview N P s"
  shows "bcache_ok s" "cache_view s = logged_view (disk s) N P" "geom (word_of_int (ldev s)) (lstart s)"
    "0 \<le> lh_n s" "lh_n s \<le> 30" "length (lh_block s) = 30"
    "fst (logkey s i) \<noteq> 0" "finite P"
proof -
  show 1: "bcache_ok s" "cache_view s = logged_view (disk s) N P" "geom (word_of_int (ldev s)) (lstart s)"
    "0 \<le> lh_n s" "lh_n s \<le> 30" "length (lh_block s) = 30" using assms by (simp_all add: lview_def)
  show "fst (logkey s i) \<noteq> 0" using 1(3) by (simp add: geom_def)
  show "finite P" using bc.fin_law [OF 1(1)] by (simp add: 1(2) logged_view_in_use)
qed

lemma lview_outside:
  assumes "lview N P s" "outside s' = outside s" "bcache_ok s'" "cache_view s' = logged_view (disk s') N' P'"
  shows "lview N' P' s'"
  using assms(1,3,4) by (simp add: lview_def outside_log [OF assms(2)])

text \<open>One block is read and released again, with its bytes changed and written or not.\<close>

lemma log_bread_law:
  assumes v: "lview N P s" and i: "logkey s i \<notin> P" and room: "card P < NBUF"
  shows "\<exists>b s'. log_bread (lstart s + int i) s = Some (b, s') \<and> bcache_ok s' \<and> handle s' b = Some (logkey s i) \<and>
    cache_view s' = (logged_view (disk s) N P)(logkey s i := \<lparr>seen = disk s (logkey s i), refs = 1, locker = Some (curpid s)\<rparr>) \<and>
    disk s' = disk s \<and> dwrites s' = dwrites s \<and> outside s' = outside s"
proof -
  note d = lviewD [OF v]
  have "\<exists>b s'. bread (fst (logkey s i)) (snd (logkey s i)) s = Some (b, s') \<and> bcache_ok s' \<and> handle s' b = Some (logkey s i) \<and>
      cache_view s' = (cache_view s)(logkey s i := (cache_view s (logkey s i))\<lparr>refs := refs (cache_view s (logkey s i)) + 1,
        locker := Some (curpid s)\<rparr>) \<and>
      disk s' = disk s \<and> dwrites s' = dwrites s \<and> carries handle cache_view outside s s'"
    by (rule bread_law [OF d(1) d(7)]) (use i room in \<open>simp_all add: d(2) logged_view_in_use logged_view_sel\<close>)
  then show ?thesis
    using i by (auto simp: log_bread_def d(2) logged_view_def uncached_def carries_def)
qed

lemma write_head_law:
  assumes v: "lview N P s" and h: "logkey s 0 \<notin> P" and room: "card P < NBUF"
  shows "\<exists>s'. write_head s = Some s' \<and> lview N P s' \<and> outside s' = outside s \<and>
    disk s' = (disk s)(logkey s 0 := head_bytes (take (nat (lh_n s)) (lh_block s)) (disk s (logkey s 0))) \<and>
    dwrites s' = (logkey s 0, head_bytes (take (nat (lh_n s)) (lh_block s)) (disk s (logkey s 0))) # dwrites s"
proof -
  note d = lviewD [OF v]
  let ?k = "logkey s 0" let ?d = "head_bytes (take (nat (lh_n s)) (lh_block s)) (disk s (logkey s 0))"
  obtain b s1 where s1: "log_bread (lstart s) s = Some (b, s1)" "bcache_ok s1" "handle s1 b = Some ?k"
      "cache_view s1 = (logged_view (disk s) N P)(?k := \<lparr>seen = disk s ?k, refs = 1, locker = Some (curpid s)\<rparr>)"
      "disk s1 = disk s" "dwrites s1 = dwrites s" "outside s1 = outside s"
    using log_bread_law [OF v h room] by auto
  note o1 = outside_log [OF s1(7)]
  have len: "nat (lh_n s) = length (take (nat (lh_n s)) (lh_block s))" using d(4-6) by simp
  have data: "head_to_bytes 0 (take (nat (lh_n s1)) (lh_block s1)) (put32 0 (word_of_int (lh_n s1)) (get_data b s1)) = ?d"
  proof -
    have "(word_of_int (lh_n s) :: u32) = of_nat (nat (lh_n s))" using d(4) by simp
    then show ?thesis using len get_data_law [OF s1(2,3)] s1(4) by (simp add: o1 head_bytes_def)
  qed
  note s2 = put_data_law [OF s1(2,3), of ?d]
  let ?s2 = "put_data b ?d s1"
  have o2: "outside ?s2 = outside s1" using s2 by (simp add: carries_def)
  have h2: "handle ?s2 b = Some ?k" using s2 s1(3) bc.carriesD(1) [of s1 ?s2 b ?k] by (simp add: s1(4))
  have l2: "locker (cache_view ?s2 ?k) = Some (curpid ?s2)" using s2 by (simp add: s1(4) o1(2) outside_log(2) [OF o2])
  obtain s3 where s3: "bwrite b ?s2 = Some s3" "bcache_ok s3" "cache_view s3 = cache_view ?s2"
      "disk s3 = (disk s)(?k := ?d)" "dwrites s3 = (?k, ?d) # dwrites s" "carries handle cache_view outside ?s2 s3"
    using bwrite_law [OF _ h2 l2] s2 by (auto simp: s1(4,5,6))
  have o3: "outside s3 = outside s" using s3(6) o2 s1(7) by (simp add: carries_def)
  have v3: "cache_view s3 = (logged_view (disk s) N P)(?k := \<lparr>seen = ?d, refs = 1, locker = Some (curpid s)\<rparr>)"
    using s2 by (simp add: s3(3) s1(4))
  have h3: "handle s3 b = Some ?k" using bc.carriesD(1) [OF s3(6) h2] by (simp add: v3)
  obtain s4 where s4: "brelse b s3 = Some s4" "bcache_ok s4"
      "cache_view s4 = (cache_view s3)(?k := (cache_view s3 ?k)\<lparr>refs := refs (cache_view s3 ?k) - 1, locker := None\<rparr>)"
      "disk s4 = disk s3" "dwrites s4 = dwrites s3" "carries handle cache_view outside s3 s4"
    using brelse_law [OF s3(2) h3] by (auto simp: v3 outside_log(2) [OF o3] s3(4))
  have o4: "outside s4 = outside s" using s4(6) o3 by (simp add: carries_def)
  have "cache_view s4 = logged_view (disk s4) N P"
    using h by (auto simp: s4(3,4) v3 s3(4) logged_view_def uncached_def fun_eq_iff)
  then have "lview N P s4" using lview_outside [OF v o4 s4(2)] by simp
  then show ?thesis using s1(1) s3(1,4,5) s4(1,4,5) o4 by (simp add: write_head_def data)
qed

lemma cache_cong:
  assumes "bufs s' = bufs s" "disk s' = disk s"
  shows "cache_view s' = cache_view s" "handle s' = handle s"
    "lru s' = lru s \<Longrightarrow> held s' = held s \<Longrightarrow> bcache_ok s' = bcache_ok s"
proof -
  have sl: "slot s' k = slot s k" for k using assms by (simp add: slot_def)
  show "cache_view s' = cache_view s" "handle s' = handle s"
    "lru s' = lru s \<Longrightarrow> held s' = held s \<Longrightarrow> bcache_ok s' = bcache_ok s"
    unfolding cache_view_def handle_def bcache_ok_def sl assms by (simp_all add: sl assms)
qed

lemma read_head_law:
  assumes v: "lview N P s" and h: "logkey s 0 \<notin> P" and room: "card P < NBUF"
    and n: "sint (get32 0 (disk s (logkey s 0))) \<in> {0..30}"
  shows "\<exists>s' n bs. read_head s = Some s' \<and> lview N P s' \<and> outside s' = outside (s\<lparr>lh_n := n, lh_block := bs\<rparr>) \<and>
    homes s' = map (Pair (word_of_int (ldev s))) (head_blocks (disk s (logkey s 0))) \<and>
    disk s' = disk s \<and> dwrites s' = dwrites s"
proof -
  note d = lviewD [OF v]
  let ?k = "logkey s 0" let ?d = "disk s ?k" let ?n = "sint (get32 0 ?d)"
  let ?bs = "head_from_bytes [0..<nat ?n] ?d (lh_block s)"
  obtain b s1 where s1: "log_bread (lstart s) s = Some (b, s1)" "bcache_ok s1" "handle s1 b = Some ?k"
      "cache_view s1 = (logged_view (disk s) N P)(?k := \<lparr>seen = ?d, refs = 1, locker = Some (curpid s)\<rparr>)"
      "disk s1 = disk s" "dwrites s1 = dwrites s" "outside s1 = outside s"
    using log_bread_law [OF v h room] by auto
  note o1 = outside_log [OF s1(7)]
  have data: "get_data b s1 = ?d" using get_data_law [OF s1(2,3)] s1(4) by simp
  let ?s2 = "s1\<lparr>lh_n := ?n, lh_block := ?bs\<rparr>"
  have same: "bcache_ok ?s2 = bcache_ok s1" "cache_view ?s2 = cache_view s1" "handle ?s2 = handle s1"
    by (rule cache_cong; simp)+
  obtain s3 where s3: "brelse b ?s2 = Some s3" "bcache_ok s3"
      "cache_view s3 = (cache_view ?s2)(?k := (cache_view ?s2 ?k)\<lparr>refs := refs (cache_view ?s2 ?k) - 1, locker := None\<rparr>)"
      "disk s3 = disk ?s2" "dwrites s3 = dwrites ?s2" "carries handle cache_view outside ?s2 s3"
    using brelse_law [of ?s2 b ?k] s1(2,3) by (auto simp: same s1(4,5) o1(2))
  have o3: "outside s3 = outside ?s2" using s3(6) by (simp add: carries_def)
  have o4: "outside s3 = outside (s\<lparr>lh_n := ?n, lh_block := ?bs\<rparr>)"
    using o3 s1(7) by (cases s; cases s1) (simp add: outside_def)
  have "cache_view s3 = logged_view (disk s3) N P"
    unfolding s3(3,4) same s1(4) using h by (auto simp: s1(5) logged_view_def uncached_def fun_eq_iff)
  then have "lview N P s3" using d(3,6) n s3(2) by (simp add: lview_def outside_log [OF o4])
  moreover have "take (nat ?n) ?bs = head_blocks ?d"
    unfolding head_blocks_def using n d(6) by (intro nth_equalityI) (auto simp: nth_head_from_bytes)
  then have "homes s3 = map (Pair (word_of_int (ldev s))) (head_blocks ?d)"
    by (simp add: homes_def outside_log [OF o4])
  moreover have "read_head s = Some s3" using n by (simp add: read_head_def s1(1) data o1 s3(1))
  ultimately show ?thesis using o4 s3(4,5) s1(5,6) by auto
qed

lemma outside_on_buf [simp]: "outside (on_buf b f s) = outside s"
  by (simp add: outside_def on_buf_def)

lemma outside_disk_rw [simp]: "outside (disk_rw b False s) = outside s"
  by (simp add: disk_rw_def Let_def)

lemma acquire_buf_outside: "acquire_buf b s = Some s' \<Longrightarrow> outside s' = outside s"
  by (cases "acquiresleep_round (curpid s) (block_lock (bufs s b))") (auto simp: acquire_buf_def)

lemma bget_outside:
  assumes g: "bget dev blockno s = Some (b, s')"
  shows "outside s' = outside s"
proof (cases "L_bcache \<in> set (held s)")
  case True
  then show ?thesis using assms by (simp add: bget_def acquire_def)
next
  case False
  let ?t = "s\<lparr>held := L_bcache # held s\<rparr>"
  have tl: "outside s' = outside s"
    if "(do { s \<leftarrow> release L_bcache (on_buf c f ?t); s \<leftarrow> acquire_buf c s; Some (c, s) }) = Some (b, s')" for c f
  proof -
    have "release L_bcache (on_buf c f ?t) = Some (on_buf c f ?t\<lparr>held := held s\<rparr>)"
      by (rule release_Cons) (simp_all add: on_buf_def False)
    then have "acquire_buf c (on_buf c f ?t\<lparr>held := held s\<rparr>) = Some s'"
      using that by (cases "acquire_buf c (on_buf c f ?t\<lparr>held := held s\<rparr>)") auto
    from acquire_buf_outside [OF this] show ?thesis by (simp add: outside_def on_buf_def)
  qed
  obtain r where r: "bget_find (lnext (lru ?t BHead)) dev blockno ?t = Some r"
  proof (cases "bget_find (lnext (lru ?t BHead)) dev blockno ?t")
    case None
    then show ?thesis using g False by (simp add: bget_def)
  qed
  show ?thesis
  proof (cases r)
    case (Some c)
    then show ?thesis using g False r tl [of c] by (simp add: bget_def Let_def)
  next
    case None
    have *: "(do { r \<leftarrow> bget_recycle (lprev (lru ?t BHead)) ?t; c \<leftarrow> r;
        s \<leftarrow> release L_bcache (on_buf c (\<lambda>x. x\<lparr>bdev := dev, bblockno := blockno, bvalid := False, refcnt := 1\<rparr>) ?t);
        s \<leftarrow> acquire_buf c s; Some (c, s) }) = Some (b, s')"
      using g False r None by (simp add: bget_def Let_def)
    then obtain c where "bget_recycle (lprev (lru ?t BHead)) ?t = Some (Some c)"
      by (cases "bget_recycle (lprev (lru ?t BHead)) ?t"; cases "the (bget_recycle (lprev (lru ?t BHead)) ?t)") simp_all
    then show ?thesis using * tl [of c] by simp
  qed
qed

lemma bread_outside: "bread dev blockno s = Some (b, s') \<Longrightarrow> outside s' = outside s"
proof (cases "bget dev blockno s")
  case (Some p)
  then have "bget dev blockno s = Some (fst p, snd p)" by simp
  from bget_outside [OF this] show "bread dev blockno s = Some (b, s') \<Longrightarrow> outside s' = outside s"
    using Some by (auto simp: bread_def split_beta split: if_splits)
qed (simp add: bread_def)

lemma install_loop_finish:
  "install_loop recovering (tail # ts) s =
     (do { (b, t) \<leftarrow> bread (fst (logkey s (tail + 1))) (snd (logkey s (tail + 1))) s;
           (c, t) \<leftarrow> bread (word_of_int (ldev s)) (lh_block s ! tail) t;
           bc.finish (\<not> recovering) b c t }) \<bind> install_loop recovering ts"
proof (cases "bread (fst (logkey s (tail + 1))) (snd (logkey s (tail + 1))) s")
  case None
  then have "log_bread (lstart s + int tail + 1) s = None" by (simp add: log_bread_def ac_simps)
  then show ?thesis using None by simp
next
  case (Some p)
  then obtain b s' where p: "p = (b, s')" "bread (word_of_int (ldev s)) (word_of_int (lstart s + int (tail + 1))) s = Some (b, s')"
    by (cases p) auto
  note o = outside_log [OF bread_outside [OF p(2)]]
  have "log_bread (lstart s + int tail + 1) s = Some (b, s')"
    using p(2) by (simp add: log_bread_def ac_simps)
  then show ?thesis
    using p o
    by (cases recovering; cases "bread (word_of_int (ldev s)) (lh_block s ! tail) s'"; cases "the (bread (word_of_int (ldev s)) (lh_block s ! tail) s')")
      (simp_all add: bc.finish_def bind_assoc)
qed

lemma write_log_loop_finish:
  "write_log_loop (tail # ts) s =
     (do { (c, t) \<leftarrow> bread (fst (logkey s (tail + 1))) (snd (logkey s (tail + 1))) s;
           (b, t) \<leftarrow> bread (word_of_int (ldev s)) (lh_block s ! tail) t;
           bc.finish False b c t }) \<bind> write_log_loop ts"
proof (cases "bread (fst (logkey s (tail + 1))) (snd (logkey s (tail + 1))) s")
  case None
  then have "log_bread (lstart s + int tail + 1) s = None" by (simp add: log_bread_def ac_simps)
  then show ?thesis using None by simp
next
  case (Some p)
  then obtain b s' where p: "p = (b, s')" "bread (word_of_int (ldev s)) (word_of_int (lstart s + int (tail + 1))) s = Some (b, s')"
    by (cases p) auto
  note o = outside_log [OF bread_outside [OF p(2)]]
  have "log_bread (lstart s + int tail + 1) s = Some (b, s')"
    using p(2) by (simp add: log_bread_def ac_simps)
  then show ?thesis
    using p o
    by (cases "bread (word_of_int (ldev s)) (lh_block s ! tail) s'"; cases "the (bread (word_of_int (ldev s)) (lh_block s ! tail) s')")
      (simp_all add: bc.finish_def bind_assoc)
qed

definition apply_writes :: "(bkey \<times> block) list \<Rightarrow> (bkey \<Rightarrow> block) \<Rightarrow> bkey \<Rightarrow> block" where
  "apply_writes ws D = fold (\<lambda>(k, d) D. D(k := d)) ws D"

lemma apply_writes_simps [simp]:
  "apply_writes [] D = D"
  "apply_writes ((k, d) # ws) D = apply_writes ws (D(k := d))"
  "apply_writes (us @ ws) D = apply_writes ws (apply_writes us D)"
  by (simp_all add: apply_writes_def)

lemma apply_writes_other: "k \<notin> fst ` set ws \<Longrightarrow> apply_writes ws D k = D k"
  by (induction ws arbitrary: D) auto

lemma apply_writes_at:
  "distinct (map f ts) \<Longrightarrow> t \<in> set ts \<Longrightarrow> apply_writes (map (\<lambda>t. (f t, g t)) ts) D (f t) = g t"
proof (induction ts arbitrary: D)
  case (Cons u ts)
  then show ?case using apply_writes_other [of "f t" "map (\<lambda>t. (f t, g t)) ts"] by (force simp: image_image)
qed simp

abbreviation home :: "'z logst_scheme \<Rightarrow> nat \<Rightarrow> bkey" where
  "home s t \<equiv> (word_of_int (ldev s), lh_block s ! t)"

lemma install_step:
  assumes v: "lview N P s" and k: "logkey s (tail + 1) \<notin> P" and ne: "home s tail \<noteq> logkey s (tail + 1)"
    and m: "if recovering then home s tail \<notin> P \<and> card P + 2 \<le> NBUF else home s tail \<in> P \<and> card P + 1 \<le> NBUF"
  shows "\<exists>s'. install_loop recovering (tail # ts) s = install_loop recovering ts s' \<and> lview N (P - {home s tail}) s' \<and>
    outside s' = outside s \<and> disk s' = (disk s)(home s tail := disk s (logkey s (tail + 1))) \<and>
    dwrites s' = (home s tail, disk s (logkey s (tail + 1))) # dwrites s"
proof -
  note d = lviewD [OF v]
  let ?k = "logkey s (tail + 1)" let ?j = "home s tail"
  have "\<exists>s'. (do { (b, s) \<leftarrow> bread (fst ?k) (snd ?k) s; (c, s) \<leftarrow> bread (fst ?j) (snd ?j) s; bc.finish (\<not> recovering) b c s }) = Some s' \<and>
      bcache_ok s' \<and>
      cache_view s' = (cache_view s)(?j := (cache_view s ?j)\<lparr>seen := seen (cache_view s ?k),
        refs := refs (cache_view s ?j) - (if \<not> recovering then 1 else 0)\<rparr>) \<and>
      disk s' = (disk s)(?j := seen (cache_view s ?k)) \<and> dwrites s' = (?j, seen (cache_view s ?k)) # dwrites s \<and> outside s' = outside s"
    by (rule bc.copy_law(1) [OF d(1) d(7)])
      (use d(3) ne k m in \<open>auto simp: d(2) logged_view_sel logged_view_in_use geom_def split: if_splits\<close>)
  then obtain s' where s': "(do { (b, s) \<leftarrow> bread (fst ?k) (snd ?k) s; (c, s) \<leftarrow> bread (fst ?j) (snd ?j) s; bc.finish (\<not> recovering) b c s }) = Some s'"
      "bcache_ok s'"
      "cache_view s' = (cache_view s)(?j := (cache_view s ?j)\<lparr>seen := seen (cache_view s ?k),
        refs := refs (cache_view s ?j) - (if \<not> recovering then 1 else 0)\<rparr>)"
      "disk s' = (disk s)(?j := disk s ?k)" "dwrites s' = (?j, disk s ?k) # dwrites s" "outside s' = outside s"
    using k by (auto simp: d(2) logged_view_sel)
  have "cache_view s' = logged_view (disk s') N (P - {?j})"
    using m k ne unfolding s'(3) by (auto simp: s'(4) d(2) logged_view_def uncached_def fun_eq_iff split: if_splits)
  then have "lview N (P - {?j}) s'" by (rule lview_outside [OF v s'(6,2)])
  moreover have "install_loop recovering (tail # ts) s = install_loop recovering ts s'"
    unfolding install_loop_finish using s'(1) by (simp only: fst_conv snd_conv bind.simps)
  ultimately show ?thesis using s'(4-6) by blast
qed

lemma install_loop_law:
  fixes s :: "'z logst_scheme"
  assumes "lview N P s" and "\<forall>t \<in> set ts. logkey s (t + 1) \<notin> P" and "\<forall>t \<in> set ts. \<forall>u \<in> set ts. home s t \<noteq> logkey s (u + 1)"
    and "if recovering then P = {} else home s ` set ts \<subseteq> P \<and> distinct (map (home s) ts) \<and> card P + 1 \<le> NBUF"
  shows "\<exists>s'. install_loop recovering ts s = Some s' \<and> lview N (P - home s ` set ts) s' \<and> outside s' = outside s \<and>
    disk s' = apply_writes (map (\<lambda>t. (home s t, disk s (logkey s (t + 1)))) ts) (disk s) \<and>
    dwrites s' = rev (map (\<lambda>t. (home s t, disk s (logkey s (t + 1)))) ts) @ dwrites s"
  using assms
proof (induction ts arbitrary: s P)
  case Nil
  then show ?case by simp
next
  case (Cons u ts)
  let ?H = "home s" let ?L = "\<lambda>t. logkey s (t + 1)"
  have fin: "finite P" using lviewD(8) [OF Cons.prems(1)] .
  have "\<exists>s'. install_loop recovering (u # ts) s = install_loop recovering ts s' \<and> lview N (P - {?H u}) s' \<and>
      outside s' = outside s \<and> disk s' = (disk s)(?H u := disk s (?L u)) \<and> dwrites s' = (?H u, disk s (?L u)) # dwrites s"
    by (rule install_step [OF Cons.prems(1)])
      (use Cons.prems(2-4) in \<open>auto simp: NBUF_def split: if_splits\<close>)
  then obtain s1 where s1: "install_loop recovering (u # ts) s = install_loop recovering ts s1" "lview N (P - {?H u}) s1"
      "outside s1 = outside s" "disk s1 = (disk s)(?H u := disk s (?L u))" "dwrites s1 = (?H u, disk s (?L u)) # dwrites s"
    by blast
  have keys: "home s1 = ?H" "(\<lambda>t. logkey s1 (t + 1)) = ?L"
    by (simp_all add: outside_log [OF s1(3)])
  have "card (P - {?H u}) \<le> card P" using fin by (simp add: card_mono)
  then have mode: "if recovering then P - {?H u} = {}
      else home s1 ` set ts \<subseteq> P - {?H u} \<and> distinct (map (home s1) ts) \<and> card (P - {?H u}) + 1 \<le> NBUF"
    using Cons.prems(4) unfolding keys by (cases recovering) (auto simp: subset_Diff_insert simp del: card_Diff_insert)
  obtain s' where s': "install_loop recovering ts s1 = Some s'" "lview N (P - {?H u} - home s1 ` set ts) s'" "outside s' = outside s1"
      "disk s' = apply_writes (map (\<lambda>t. (home s1 t, disk s1 (logkey s1 (t + 1)))) ts) (disk s1)"
      "dwrites s' = rev (map (\<lambda>t. (home s1 t, disk s1 (logkey s1 (t + 1)))) ts) @ dwrites s1"
    using Cons.IH [OF s1(2) _ _ mode] Cons.prems(2,3) by (auto simp: outside_log [OF s1(3)])
  have same: "map (\<lambda>t. (home s1 t, disk s1 (logkey s1 (t + 1)))) ts = map (\<lambda>t. (?H t, disk s (?L t))) ts"
    using Cons.prems(3) by (auto simp: outside_log [OF s1(3)] s1(4))
  have "P - {?H u} - home s1 ` set ts = P - ?H ` set (u # ts)" by (auto simp: outside_log [OF s1(3)])
  then show ?case using s' s1 unfolding same by (simp add: s1(4,5))
qed

lemma write_log_step:
  assumes v: "lview N P s" and k: "logkey s (tail + 1) \<notin> P" and j: "home s tail \<in> P" and c: "card P + 1 \<le> NBUF"
  shows "\<exists>s'. write_log_loop (tail # ts) s = write_log_loop ts s' \<and> lview N P s' \<and> outside s' = outside s \<and>
    disk s' = (disk s)(logkey s (tail + 1) := N (home s tail)) \<and> dwrites s' = (logkey s (tail + 1), N (home s tail)) # dwrites s"
proof -
  note d = lviewD [OF v]
  let ?k = "logkey s (tail + 1)" let ?j = "home s tail"
  have ne: "?j \<noteq> ?k" using k j by metis
  have "\<exists>s'. (do { (c, s) \<leftarrow> bread (fst ?k) (snd ?k) s; (b, s) \<leftarrow> bread (fst ?j) (snd ?j) s; bc.finish False b c s }) = Some s' \<and>
      bcache_ok s' \<and>
      cache_view s' = (cache_view s)(?k := (cache_view s ?k)\<lparr>seen := seen (cache_view s ?j),
        refs := refs (cache_view s ?k) - (if False then 1 else 0)\<rparr>) \<and>
      disk s' = (disk s)(?k := seen (cache_view s ?j)) \<and> dwrites s' = (?k, seen (cache_view s ?j)) # dwrites s \<and> outside s' = outside s"
    by (rule bc.copy_law(2) [OF d(1)])
      (use d(3) ne k j c in \<open>auto simp: d(2) logged_view_sel logged_view_in_use geom_def split: if_splits\<close>)
  then obtain s' where s': "(do { (c, s) \<leftarrow> bread (fst ?k) (snd ?k) s; (b, s) \<leftarrow> bread (fst ?j) (snd ?j) s; bc.finish False b c s }) = Some s'"
      "bcache_ok s'" "cache_view s' = (cache_view s)(?k := (cache_view s ?k)\<lparr>seen := N ?j, refs := refs (cache_view s ?k)\<rparr>)"
      "disk s' = (disk s)(?k := N ?j)" "dwrites s' = (?k, N ?j) # dwrites s" "outside s' = outside s"
    using j by (auto simp: d(2) logged_view_sel)
  have "cache_view s' = logged_view (disk s') N P"
    using k unfolding s'(3) by (auto simp: s'(4) d(2) logged_view_def uncached_def fun_eq_iff)
  then have "lview N P s'" by (rule lview_outside [OF v s'(6,2)])
  moreover have "write_log_loop (tail # ts) s = write_log_loop ts s'"
    unfolding write_log_loop_finish using s'(1) by (simp only: fst_conv snd_conv bind.simps)
  ultimately show ?thesis using s'(4-6) by blast
qed

lemma write_log_loop_law:
  fixes s :: "'z logst_scheme"
  assumes "lview N P s" and "\<forall>t \<in> set ts. logkey s (t + 1) \<notin> P" and "home s ` set ts \<subseteq> P" and "card P + 1 \<le> NBUF"
  shows "\<exists>s'. write_log_loop ts s = Some s' \<and> lview N P s' \<and> outside s' = outside s \<and>
    disk s' = apply_writes (map (\<lambda>t. (logkey s (t + 1), N (home s t))) ts) (disk s) \<and>
    dwrites s' = rev (map (\<lambda>t. (logkey s (t + 1), N (home s t))) ts) @ dwrites s"
  using assms
proof (induction ts arbitrary: s)
  case Nil
  then show ?case by simp
next
  case (Cons u ts)
  obtain s1 where s1: "write_log_loop (u # ts) s = write_log_loop ts s1" "lview N P s1" "outside s1 = outside s"
      "disk s1 = (disk s)(logkey s (u + 1) := N (home s u))" "dwrites s1 = (logkey s (u + 1), N (home s u)) # dwrites s"
    using write_log_step [OF Cons.prems(1) _ _ Cons.prems(4), of u ts] Cons.prems(2,3) by (auto simp del: write_log_loop.simps)
  obtain s' where "write_log_loop ts s1 = Some s'" "lview N P s'" "outside s' = outside s1"
      "disk s' = apply_writes (map (\<lambda>t. (logkey s (t + 1), N (home s t))) ts) (disk s1)"
      "dwrites s' = rev (map (\<lambda>t. (logkey s (t + 1), N (home s t))) ts) @ dwrites s1"
    using Cons.IH [OF s1(2)] Cons.prems(2-4) by (auto simp: outside_log [OF s1(3)])
  then show ?case using s1 by auto
qed

subsection \<open>Commit and recovery as sequences of writes\<close>

definition log_region :: "u32 \<Rightarrow> int \<Rightarrow> bkey set" where
  "log_region dev start = log_block dev start ` {..30}"

definition commit_writes :: "(nat \<Rightarrow> bkey) \<Rightarrow> bkey list \<Rightarrow> (bkey \<Rightarrow> block) \<Rightarrow> block \<Rightarrow> (bkey \<times> block) list" where
  "commit_writes lk hs N d =
     map (\<lambda>t. (lk (t + 1), N (hs ! t))) [0..<length hs] @ [(lk 0, head_bytes (map snd hs) d)] @
     map (\<lambda>t. (hs ! t, N (hs ! t))) [0..<length hs] @ [(lk 0, head_bytes [] (head_bytes (map snd hs) d))]"

definition redo_writes :: "(nat \<Rightarrow> bkey) \<Rightarrow> u32 \<Rightarrow> (bkey \<Rightarrow> block) \<Rightarrow> (bkey \<times> block) list" where
  "redo_writes lk dev D =
     map (\<lambda>t. ((dev, head_blocks (D (lk 0)) ! t), D (lk (t + 1)))) [0..<length (head_blocks (D (lk 0)))] @
     [(lk 0, head_bytes [] (D (lk 0)))]"

lemma homes_nth:
  "lview N P s \<Longrightarrow> length (homes s) = nat (lh_n s)"
  "lview N P s \<Longrightarrow> t < nat (lh_n s) \<Longrightarrow> homes s ! t = home s t"
  "lview N P s \<Longrightarrow> map snd (homes s) = take (nat (lh_n s)) (lh_block s)"
  using lviewD(4-6) [of N P s] by (auto simp: homes_def comp_def)

lemma not_region: "log_region dev start \<inter> A = {} \<Longrightarrow> i \<le> 30 \<Longrightarrow> log_block dev start i \<notin> A"
  by (auto simp: log_region_def)

lemma lview_count:
  assumes "lview N P s" "0 \<le> n" "n \<le> 30" "length bs = 30"
  shows "lview N P (s\<lparr>lh_n := n\<rparr>)" "lview N P (s\<lparr>lh_n := n, lh_block := bs\<rparr>)"
  using assms cache_cong [of "s\<lparr>lh_n := n\<rparr>" s] cache_cong [of "s\<lparr>lh_n := n, lh_block := bs\<rparr>" s]
  by (simp_all add: lview_def)

lemma write_head_zero:
  assumes v: "lview N P s" and h: "logkey s 0 \<notin> P" and room: "card P < NBUF"
  shows "\<exists>s'. write_head (s\<lparr>lh_n := 0\<rparr>) = Some s' \<and> lview N P s' \<and> outside s' = outside (s\<lparr>lh_n := 0\<rparr>) \<and>
    disk s' = (disk s)(logkey s 0 := head_bytes [] (disk s (logkey s 0))) \<and>
    dwrites s' = (logkey s 0, head_bytes [] (disk s (logkey s 0))) # dwrites s"
  using write_head_law [OF lview_count(1) [OF v], of 0 "lh_block s"] h room lviewD(6) [OF v] by simp

lemma commit_law:
  assumes v: "lview N (set (homes s)) s" and ds: "distinct (homes s)"
    and a: "log_region (word_of_int (ldev s)) (lstart s) \<inter> set (homes s) = {}" and n: "0 < lh_n s" "lh_n s \<le> 29"
  shows "\<exists>s'. commit s = Some s' \<and> lview N {} s' \<and> outside s' = outside (s\<lparr>lh_n := 0\<rparr>) \<and>
    disk s' = apply_writes (commit_writes (logkey s) (homes s) N (disk s (logkey s 0))) (disk s) \<and>
    dwrites s' = rev (commit_writes (logkey s) (homes s) N (disk s (logkey s 0))) @ dwrites s"
proof -
  let ?P = "set (homes s)" let ?n = "nat (lh_n s)" let ?L = "\<lambda>t. logkey s (t + 1)"
  let ?h = "logkey s 0" let ?H = "head_bytes (map snd (homes s)) (disk s ?h)"
  note hn = homes_nth [OF v] and nr = not_region [OF a]
  have len: "length (homes s) = ?n" "?n \<le> 29" using hn(1) n by auto
  have c: "card ?P = ?n" using ds len by (simp add: distinct_card)
  have hm: "map (home s) [0..<?n] = homes s" using hn(2) len by (intro nth_equalityI) auto
  have W1: "map (\<lambda>t. (?L t, N (home s t))) [0..<?n] = map (\<lambda>t. (?L t, N (homes s ! t))) [0..<?n]"
    using hn(2) by simp
  obtain s1 where s1: "write_log s = Some s1" "lview N ?P s1" "outside s1 = outside s"
      "disk s1 = apply_writes (map (\<lambda>t. (?L t, N (homes s ! t))) [0..<?n]) (disk s)"
      "dwrites s1 = rev (map (\<lambda>t. (?L t, N (homes s ! t))) [0..<?n]) @ dwrites s"
  proof -
    have "\<forall>t \<in> set [0..<?n]. logkey s (t + 1) \<notin> ?P" using nr len by auto
    moreover have "home s ` set [0..<?n] \<subseteq> ?P" using hm by (metis set_map subset_refl)
    moreover have "card ?P + 1 \<le> NBUF" using c len by (simp add: NBUF_def)
    ultimately show ?thesis
      using that write_log_loop_law [OF v, of "[0..<?n]"] unfolding write_log_def W1 by blast
  qed
  have Lh: "?L t \<noteq> ?h" if "t < ?n" for t
    using log_block_inj [OF lviewD(3) [OF v], of "t + 1" 0] that len by simp
  then have h1: "disk s1 ?h = disk s ?h"
    unfolding s1(4) by (intro apply_writes_other) (force simp: image_image)
  have k1: "logkey s1 = logkey s" by (simp add: outside_log [OF s1(3)])
  obtain s2 where s2: "write_head s1 = Some s2" "lview N ?P s2" "outside s2 = outside s1"
      "disk s2 = (disk s1)(?h := ?H)" "dwrites s2 = (?h, ?H) # dwrites s1"
    using write_head_law [OF s1(2)] nr [of 0] c len h1 hn(3) unfolding k1
    by (auto simp: NBUF_def outside_log [OF s1(3)])
  have o2: "outside s2 = outside s" using s2(3) s1(3) by simp
  note k2 = outside_log(3,7,8,9) [OF o2]
  have L2: "disk s2 (?L t) = N (homes s ! t)" if "t < ?n" for t
  proof -
    have "distinct (map ?L [0..<?n])"
      using log_block_inj [OF lviewD(3) [OF v]] len by (auto simp: distinct_map inj_on_def)
    then show ?thesis
      using apply_writes_at [of ?L "[0..<?n]" t] Lh [OF that] that by (simp add: s2(4) s1(4))
  qed
  have W2: "map (\<lambda>t. (home s t, disk s2 (?L t))) [0..<?n] = map (\<lambda>t. (homes s ! t, N (homes s ! t))) [0..<?n]"
    using hn(2) L2 by simp
  obtain s3 where s3: "install_trans False s2 = Some s3" "lview N {} s3" "outside s3 = outside s2"
      "disk s3 = apply_writes (map (\<lambda>t. (homes s ! t, N (homes s ! t))) [0..<?n]) (disk s2)"
      "dwrites s3 = rev (map (\<lambda>t. (homes s ! t, N (homes s ! t))) [0..<?n]) @ dwrites s2"
  proof -
    have P: "home s ` set [0..<?n] = ?P" using hm by (metis set_map)
    have "\<forall>t \<in> set [0..<?n]. logkey s (t + 1) \<notin> ?P" using nr len by auto
    moreover from this have "\<forall>t \<in> set [0..<?n]. \<forall>u \<in> set [0..<?n]. home s t \<noteq> logkey s (u + 1)" using P by (metis imageI)
    moreover have "distinct (map (home s) [0..<?n])" using ds hm by simp
    moreover have "card ?P + 1 \<le> NBUF" using c len by (simp add: NBUF_def)
    ultimately show ?thesis
      using that install_loop_law [OF s2(2), of "[0..<?n]" False] P
      unfolding install_trans_def k2 W2 by auto
  qed
  have o3: "outside s3 = outside s" using s3(3) o2 by simp
  have k3: "logkey s3 = logkey s" by (simp add: outside_log [OF o3])
  have h3: "disk s3 ?h = ?H"
    unfolding s3(4) using nr [of 0] len by (subst apply_writes_other) (auto simp: image_image s2(4))
  obtain s4 where s4: "write_head (s3\<lparr>lh_n := 0\<rparr>) = Some s4" "lview N {} s4" "outside s4 = outside (s3\<lparr>lh_n := 0\<rparr>)"
      "disk s4 = (disk s3)(?h := head_bytes [] ?H)" "dwrites s4 = (?h, head_bytes [] ?H) # dwrites s3"
    using write_head_zero [OF s3(2)] h3 unfolding k3 by (auto simp: NBUF_def)
  have "outside s4 = outside (s\<lparr>lh_n := 0\<rparr>)" using s4(3) o3 by (cases s; cases s3) (simp add: outside_def)
  moreover have "commit s = Some s4" using n s1(1) s2(1) s3(1) s4(1) by (simp add: commit_def)
  ultimately show ?thesis
    using s4(2,4,5) s3(4,5) s2(4,5) s1(4,5) len by (simp add: commit_writes_def)
qed

text \<open>A disk whose log header names at most \<^verbatim>\<open>LOGSIZE\<close> blocks, none of them in the log.\<close>

definition log_disk_ok :: "u32 \<Rightarrow> int \<Rightarrow> (bkey \<Rightarrow> block) \<Rightarrow> bool" where
  "log_disk_ok dev start D \<longleftrightarrow>
     length (D (log_block dev start 0)) = BSIZE \<and> sint (get32 0 (D (log_block dev start 0))) \<in> {0..30} \<and>
     log_region dev start \<inter> Pair dev ` set (head_blocks (D (log_block dev start 0))) = {}"

lemma recover_law:
  fixes s :: "'z logst_scheme"
  assumes v: "lview N {} s" and ok: "log_disk_ok (word_of_int (ldev s)) (lstart s) (disk s)"
  shows "\<exists>s'. recover_from_log s = Some s' \<and> lview N {} s' \<and> lh_n s' = 0 \<and> held s' = held s \<and>
    disk s' = apply_writes (redo_writes (logkey s) (word_of_int (ldev s)) (disk s)) (disk s) \<and>
    dwrites s' = rev (redo_writes (logkey s) (word_of_int (ldev s)) (disk s)) @ dwrites s"
proof -
  let ?h = "logkey s 0" let ?L = "\<lambda>t. logkey s (t + 1)" let ?dev = "word_of_int (ldev s) :: u32"
  let ?bs = "head_blocks (disk s ?h)"
  have okD: "sint (get32 0 (disk s ?h)) \<in> {0..30}" "log_region ?dev (lstart s) \<inter> Pair ?dev ` set ?bs = {}"
    using ok by (auto simp: log_disk_ok_def)
  obtain s1 m bl where s1: "read_head s = Some s1" "lview N {} s1" "outside s1 = outside (s\<lparr>lh_n := m, lh_block := bl\<rparr>)"
      "homes s1 = map (Pair ?dev) ?bs" "disk s1 = disk s" "dwrites s1 = dwrites s"
    using read_head_law [OF v _ _ okD(1)] by (auto simp: NBUF_def)
  note o1 = outside_log [OF s1(3)]
  have k1: "ldev s1 = ldev s" "lstart s1 = lstart s" by (simp_all add: o1)
  let ?n = "nat (lh_n s1)"
  note hn = homes_nth [OF s1(2)]
  have len: "length ?bs = ?n" "?n \<le> 30" using hn(1) s1(4) lviewD(5) [OF s1(2)] by auto
  have H: "(?dev, lh_block s1 ! t) = (?dev, ?bs ! t)" if "t < ?n" for t
    using hn(2) [OF that] s1(4) that len by (simp add: k1)
  have W: "map (\<lambda>t. ((?dev, lh_block s1 ! t), disk s (?L t))) [0..<?n] = map (\<lambda>t. ((?dev, ?bs ! t), disk s (?L t))) [0..<?n]"
    using H by auto
  have out: "(?dev, ?bs ! t) \<notin> log_region ?dev (lstart s)" if "t < ?n" for t
  proof -
    have "(?dev, ?bs ! t) \<in> Pair ?dev ` set ?bs" using that len by simp
    then show ?thesis using okD(2) by blast
  qed
  have r: "log_block ?dev (lstart s) i \<in> log_region ?dev (lstart s)" if "i \<le> 30" for i
    using that by (auto simp: log_region_def)
  have "\<forall>t \<in> set [0..<?n]. \<forall>u \<in> set [0..<?n]. home s1 t \<noteq> logkey s1 (u + 1)"
  proof (intro ballI)
    fix t u assume "t \<in> set [0..<?n]" "u \<in> set [0..<?n]"
    then have "t < ?n" "u + 1 \<le> 30" using len by auto
    then show "home s1 t \<noteq> logkey s1 (u + 1)" using out [of t] r [of "u + 1"] H [of t] unfolding k1 by auto
  qed
  then obtain s2 where s2: "install_trans True s1 = Some s2" "lview N {} s2" "outside s2 = outside s1"
      "disk s2 = apply_writes (map (\<lambda>t. ((?dev, ?bs ! t), disk s (?L t))) [0..<?n]) (disk s)"
      "dwrites s2 = rev (map (\<lambda>t. ((?dev, ?bs ! t), disk s (?L t))) [0..<?n]) @ dwrites s"
    using install_loop_law [OF s1(2), of "[0..<?n]" True] unfolding install_trans_def k1 s1(5,6) W by auto
  have k2: "ldev s2 = ldev s" "lstart s2 = lstart s" "held s2 = held s" by (simp_all add: outside_log [OF s2(3)] o1)
  have "?h \<notin> fst ` set (map (\<lambda>t. ((?dev, ?bs ! t), disk s (?L t))) [0..<?n])"
  proof
    assume "?h \<in> fst ` set (map (\<lambda>t. ((?dev, ?bs ! t), disk s (?L t))) [0..<?n])"
    then obtain t where "t < ?n" "?h = (?dev, ?bs ! t)" by auto
    then show False using out [of t] r [of 0] by simp
  qed
  then have h2: "disk s2 ?h = disk s ?h" unfolding s2(4) by (rule apply_writes_other)
  obtain s3 where s3: "write_head (s2\<lparr>lh_n := 0\<rparr>) = Some s3" "lview N {} s3" "outside s3 = outside (s2\<lparr>lh_n := 0\<rparr>)"
      "disk s3 = (disk s2)(?h := head_bytes [] (disk s ?h))" "dwrites s3 = (?h, head_bytes [] (disk s ?h)) # dwrites s2"
    using write_head_zero [OF s2(2)] h2 unfolding k2 by (auto simp: NBUF_def)
  have "lh_n s3 = 0" "held s3 = held s" by (simp_all add: outside_log [OF s3(3)] k2)
  then show ?thesis
    using s1(1) s2(1,4,5) s3 len by (simp add: recover_from_log_def redo_writes_def)
qed

text \<open>The kernel as it starts on a given disk.\<close>

definition power_on :: "(bkey \<Rightarrow> block) \<Rightarrow> logst" where
  "power_on D = \<lparr>held = [], bufs = \<lambda>_. zero_buf, lru = \<lambda>_. \<lparr>lnext = None, lprev = None\<rparr>, disk = D, dwrites = [],
     curpid = 1, lstart = 0, lsize = 0, outstanding = 0, committing = False, ldev = 0, lh_n = 0,
     lh_block = replicate 30 0, log_wakeups = 0\<rparr>"

definition recovered :: "int \<Rightarrow> xv6fs_superblock \<Rightarrow> (bkey \<Rightarrow> block) \<Rightarrow> logst option" where
  "recovered dev sb D = binit (power_on D) \<bind> initlog dev (Some sb)"

lemma recovered_law:
  assumes g: "geom (word_of_int dev) (sint (sb_logstart sb))" and ok: "log_disk_ok (word_of_int dev) (sint (sb_logstart sb)) D"
  shows "\<exists>s. recovered dev sb D = Some s \<and>
    disk s = apply_writes (redo_writes (log_block (word_of_int dev) (sint (sb_logstart sb))) (word_of_int dev) D) D \<and>
    dwrites s = rev (redo_writes (log_block (word_of_int dev) (sint (sb_logstart sb))) (word_of_int dev) D)"
proof -
  have "loaded (power_on D)" by (simp add: loaded_def power_on_def)
  then obtain l where l: "binit (power_on D) = Some (power_on D\<lparr>lru := l\<rparr>)" "bcache_ok (power_on D\<lparr>lru := l\<rparr>)"
      "cache_view (power_on D\<lparr>lru := l\<rparr>) = uncached (disk (power_on D))" using binit_ok by blast
  let ?s = "power_on D\<lparr>lru := l, lstart := sint (sb_logstart sb), lsize := sint (sb_nlog sb), ldev := dev\<rparr>"
  have "bcache_ok ?s" "cache_view ?s = uncached D"
    using cache_cong [of ?s "power_on D\<lparr>lru := l\<rparr>"] l(2,3) by (simp_all add: power_on_def)
  then have "lview (\<lambda>_. []) {} ?s" using g by (simp add: lview_def logged_view_empty power_on_def)
  from recover_law [OF this] ok show ?thesis
    using l(1) by (auto simp: recovered_def initlog_def BSIZE_def power_on_def)
qed

end
