(* ===== verification/XV_Crash.thy ===== *)
theory XV_Crash
  imports XV_Log
begin

section \<open>Crashes\<close>

text \<open>
  What is on the disk after a crash at any point of a transaction or of a recovery, and after the
  recovery that follows.  The blocks of the log itself are left out of the comparison: they are
  scratch space of the log.
\<close>

lemma apply_writes_twice:
  "k \<in> fst ` set ws \<Longrightarrow> apply_writes ws D k = apply_writes ws E k"
proof (induction ws arbitrary: D E)
  case (Cons w ws)
  obtain j d where w: "w = (j, d)" by (cases w)
  show ?case
  proof (cases "k \<in> fst ` set ws")
    case True
    then show ?thesis using Cons.IH w by simp
  next
    case False
    then show ?thesis using Cons.prems w apply_writes_other [OF False] by auto
  qed
qed simp

lemma apply_writes_redo: "apply_writes ws (apply_writes (take j ws) D) = apply_writes ws D"
proof
  fix k show "apply_writes ws (apply_writes (take j ws) D) k = apply_writes ws D k"
  proof (cases "k \<in> fst ` set ws")
    case True
    then show ?thesis by (rule apply_writes_twice)
  next
    case False
    then have "k \<notin> fst ` set (take j ws)" by (meson image_mono set_take_subset subsetD)
    then show ?thesis using False by (simp add: apply_writes_other)
  qed
qed

lemma take_map_upt: "take j (map f [0..<n]) = map f [0..<min j n]"
  by (cases "j \<le> n") (simp_all add: take_map take_upt min_def)

lemma region_block: "i \<le> 30 \<Longrightarrow> log_block dev start i \<in> log_region dev start"
  by (auto simp: log_region_def)

lemma head_blocks_zero: "sint (get32 0 d) = 0 \<Longrightarrow> head_blocks d = []"
  by (simp add: head_blocks_def)

lemma head_bytes_Nil:
  assumes "length d = BSIZE"
  shows "sint (get32 0 (head_bytes [] d)) = 0" "head_blocks (head_bytes [] d) = []"
  using head_count [of d "[]"] assms by (simp_all add: BSIZE_def head_blocks_zero)

text \<open>Prefixes of the writes of a commit, and what redoing the log then gives.\<close>

lemma commit_crash:
  fixes hs :: "bkey list" and D :: "bkey \<Rightarrow> block"
  assumes g: "geom dev start" and n: "length hs \<le> 29" and ds: "distinct hs" and dev: "\<forall>k \<in> set hs. fst k = dev"
    and a: "log_region dev start \<inter> set hs = {}"
    and D: "length (D (log_block dev start 0)) = BSIZE" "sint (get32 0 (D (log_block dev start 0))) = 0"
    and E: "E = apply_writes (take j (commit_writes (log_block dev start) hs N (D (log_block dev start 0)))) D"
  shows "log_disk_ok dev start E \<and>
    (\<forall>k. k \<notin> log_region dev start \<longrightarrow>
      apply_writes (redo_writes (log_block dev start) dev E) E k = (if j \<le> length hs then D k else if k \<in> set hs then N k else D k))"
proof -
  let ?L = "log_block dev start" let ?n = "length hs" let ?h = "?L 0" let ?R = "log_region dev start"
  let ?W1 = "map (\<lambda>t. (?L (t + 1), N (hs ! t))) [0..<?n]" let ?W2 = "map (\<lambda>t. (hs ! t, N (hs ! t))) [0..<?n]"
  let ?H = "head_bytes (map snd hs) (D ?h)"
  have inR: "?L i \<in> ?R" if "i \<le> 30" for i using that by (rule region_block)
  have hsR: "hs ! t \<notin> ?R" if "t < ?n" for t using a that by (meson disjoint_iff nth_mem)
  have inj: "?L i = ?L i' \<longleftrightarrow> i = i'" if "i \<le> 30" "i' \<le> 30" for i i'
    using log_block_inj [OF g] that by simp
  have W1R: "fst ` set (take i ?W1) \<subseteq> ?R - {?h}" for i
  proof -
    have "?L (t + 1) \<in> ?R - {?h}" if "t < ?n" for t using n inR [of "t + 1"] inj [of "t + 1" 0] that by simp
    then have "(\<lambda>t. ?L (t + 1)) ` {0..<min i ?n} \<subseteq> ?R - {?h}" by (intro image_subsetI) simp
    then show ?thesis by (simp add: take_map_upt image_image)
  qed
  have W1o: "apply_writes (take i ?W1) F k = F k" if "k \<notin> ?R" for i k F
    using W1R [of i] that by (intro apply_writes_other) blast
  then have W1a: "apply_writes ?W1 F k = F k" if "k \<notin> ?R" for k F
    using W1o [of k ?n F] that by simp
  have W2: "fst ` set (take i ?W2) \<subseteq> set hs" for i by (auto simp: take_map_upt)
  have W2all: "apply_writes ?W2 F k = (if k \<in> set hs then N k else F k)" for F k
  proof (cases "k \<in> set hs")
    case True
    then obtain t where "t < ?n" "k = hs ! t" by (auto simp: in_set_conv_nth)
    then show ?thesis using apply_writes_at [of "(!) hs" "[0..<?n]" t "\<lambda>t. N (hs ! t)"] ds by (simp add: map_nth)
  next
    case False
    then show ?thesis by (subst apply_writes_other) auto
  qed
  consider "j \<le> ?n" | m where "j = ?n + 1 + m" "m \<le> ?n" | "j > 2 * ?n + 1" 
  proof -
    assume *: "j \<le> ?n \<Longrightarrow> thesis" "\<And>m. j = ?n + 1 + m \<Longrightarrow> m \<le> ?n \<Longrightarrow> thesis" "2 * ?n + 1 < j \<Longrightarrow> thesis"
    then show thesis using *(2) [of "j - ?n - 1"] by linarith
  qed
  then show ?thesis
  proof cases
    case 1
    then have E1: "E = apply_writes (take j ?W1) D" by (simp add: E commit_writes_def)
    then have h: "E ?h = D ?h" using W1R [of j] by (auto intro: apply_writes_other)
    have "E k = D k" if "k \<notin> ?R" for k unfolding E1 using that by (rule W1o)
    then show ?thesis
      using 1 D h inR [of 0] by (auto simp: log_disk_ok_def redo_writes_def head_blocks_zero)
  next
    case (2 m)
    then have E2: "E = apply_writes (take m ?W2) ((apply_writes ?W1 D)(?h := ?H))" by (simp add: E commit_writes_def)
    have keep: "E k = ((apply_writes ?W1 D)(?h := ?H)) k" if "k \<in> ?R" for k
      unfolding E2 using W2 [of m] a that by (intro apply_writes_other) blast
    then have h: "E ?h = ?H" using inR [of 0] by simp
    have bs: "head_blocks ?H = map snd hs" using D(1) n by (intro head_blocks_bytes) (simp_all add: BSIZE_def)
    have "distinct (map (\<lambda>t. ?L (t + 1)) [0..<?n])" using inj n by (auto simp: distinct_map inj_on_def)
    then have log: "E (?L (t + 1)) = N (hs ! t)" if "t < ?n" for t
      using keep [of "?L (t + 1)"] inR [of "t + 1"] inj [of "t + 1" 0] n that
        apply_writes_at [of "\<lambda>t. ?L (t + 1)" "[0..<?n]" t "\<lambda>t. N (hs ! t)" D] by simp
    have pair: "(dev, snd (hs ! t)) = hs ! t" if "t < ?n" for t using dev that by (metis nth_mem prod.collapse)
    have redo: "redo_writes ?L dev E = ?W2 @ [(?h, head_bytes [] ?H)]"
      using log pair by (simp add: redo_writes_def h bs)
    have "Pair dev ` set (map snd hs) = set hs" using dev by force
    then have "log_disk_ok dev start E"
      using a D(1) n head_count [of "D ?h" "map snd hs"] by (simp add: log_disk_ok_def h bs BSIZE_def)
    moreover have "E k = D k" if "k \<notin> ?R" "k \<notin> set hs" for k
    proof -
      have "E k = ((apply_writes ?W1 D)(?h := ?H)) k" unfolding E2 using W2 [of m] that(2) by (intro apply_writes_other) blast
      moreover have "apply_writes ?W1 D k = D k" using that(1) by (rule W1a)
      ultimately show ?thesis using that(1) inR [of 0] by auto
    qed
    ultimately show ?thesis using 2 inR [of 0] by (auto simp: redo W2all)
  next
    case 3
    then have E3: "E = (apply_writes ?W2 ((apply_writes ?W1 D)(?h := ?H)))(?h := head_bytes [] ?H)"
      by (simp add: E commit_writes_def)
    then have "E ?h = head_bytes [] ?H" by simp
    moreover have "length ?H = BSIZE" using D(1) by simp
    moreover have "E k = (if k \<in> set hs then N k else D k)" if "k \<notin> ?R" for k
    proof -
      have "apply_writes ?W1 D k = D k" using that by (rule W1a)
      then show ?thesis using that inR [of 0] by (auto simp: E3 W2all)
    qed
    ultimately show ?thesis
      using 3 inR [of 0] by (auto simp: log_disk_ok_def redo_writes_def head_bytes_Nil)
  qed
qed

lemma redo_crash:
  fixes D :: "bkey \<Rightarrow> block"
  assumes g: "geom dev start" and D: "log_disk_ok dev start D"
    and E: "E = apply_writes (take j (redo_writes (log_block dev start) dev D)) D"
  shows "log_disk_ok dev start E \<and>
    (\<forall>k. k \<notin> log_region dev start \<longrightarrow>
      apply_writes (redo_writes (log_block dev start) dev E) E k = apply_writes (redo_writes (log_block dev start) dev D) D k)"
proof -
  let ?L = "log_block dev start" let ?h = "?L 0" let ?R = "log_region dev start" let ?W = "redo_writes ?L dev D"
  let ?bs = "head_blocks (D ?h)" let ?W2 = "map (\<lambda>t. ((dev, ?bs ! t), D (?L (t + 1)))) [0..<length ?bs]"
  have ok: "length (D ?h) = BSIZE" "sint (get32 0 (D ?h)) \<in> {0..30}" "?R \<inter> Pair dev ` set ?bs = {}"
    using D by (auto simp: log_disk_ok_def)
  have len: "length ?bs \<le> 30" using ok(2) by (auto simp: head_blocks_def)
  have W: "?W = ?W2 @ [(?h, head_bytes [] (D ?h))]" by (simp add: redo_writes_def)
  have hR: "?h \<in> ?R" by (rule region_block) simp
  show ?thesis
  proof (cases "j \<le> length ?bs")
    case True
    then have E2: "E = apply_writes (take j ?W2) D" by (simp add: E W)
    have W2: "fst ` set (take j ?W2) \<subseteq> Pair dev ` set ?bs" by (auto simp: take_map_upt)
    have keep: "E k = D k" if "k \<in> ?R" for k
      unfolding E2 using W2 ok(3) that by (intro apply_writes_other) blast
    have log: "E (?L (t + 1)) = D (?L (t + 1))" if "t < length ?bs" for t
      using that len by (intro keep region_block) simp
    have same: "redo_writes ?L dev E = ?W"
      using log by (simp add: redo_writes_def keep [OF hR])
    have "apply_writes ?W (apply_writes (take j ?W) D) = apply_writes ?W D" by (rule apply_writes_redo)
    then show ?thesis using D keep [OF hR] same E by (simp add: log_disk_ok_def)
  next
    case False
    then have "take j ?W = ?W" by (simp add: W)
    then have E3: "E = (apply_writes ?W2 D)(?h := head_bytes [] (D ?h))" by (simp add: E W)
    then have h: "E ?h = head_bytes [] (D ?h)" by simp
    then have "redo_writes ?L dev E = [(?h, head_bytes [] (E ?h))]"
      using ok(1) by (simp add: redo_writes_def head_bytes_Nil)
    moreover have "apply_writes ?W D = E" by (simp add: W E3)
    ultimately show ?thesis using ok(1) hR h by (auto simp: log_disk_ok_def head_bytes_Nil)
  qed
qed


subsection \<open>Transactions\<close>

lemma log_find_in: "x \<in> set xs \<Longrightarrow> log_find x xs < length xs \<and> xs ! log_find x xs = x"
  by (induction xs) auto

lemma log_find_out: "x \<notin> set xs \<Longrightarrow> log_find x xs = length xs"
  by (induction xs) auto

text \<open>The state of the log between the updates of a transaction.\<close>

definition in_trans :: "(bkey \<Rightarrow> block) \<Rightarrow> 'z logst_scheme \<Rightarrow> bool" where
  "in_trans N s \<longleftrightarrow> lview N (set (homes s)) s \<and> distinct (homes s) \<and> 1 \<le> outstanding s \<and>
     L_log \<notin> set (held s) \<and> (\<forall>k. k \<notin> set (homes s) \<longrightarrow> N k = disk s k)"

lemma in_transD:
  assumes "in_trans N s"
  shows "lview N (set (homes s)) s" "distinct (homes s)" "1 \<le> outstanding s" "L_log \<notin> set (held s)"
    "\<And>k. k \<notin> set (homes s) \<Longrightarrow> N k = disk s k" "length (homes s) = nat (lh_n s)"
  using assms homes_nth(1) unfolding in_trans_def by blast+

lemma homes_fst: "k \<in> set (homes s) \<Longrightarrow> fst k = word_of_int (ldev s)"
  by (auto simp: homes_def)

lemma log_write_law:
  fixes s :: "'z logst_scheme"
  assumes ok: "bcache_ok s" and h: "handle s b = Some k" and dev: "fst k = word_of_int (ldev s)"
    and lk: "L_log \<notin> set (held s)" and n: "0 \<le> lh_n s" "lh_n s < 30" "lh_n s < lsize s - 1" "length (lh_block s) = 30"
    and out: "1 \<le> outstanding s" and few: "refs (cache_view s k) < 4294967295"
  shows "if k \<in> set (homes s) then log_write b s = Some s
    else \<exists>s'. log_write b s = Some s' \<and> bcache_ok s' \<and> handle s' b = Some k \<and>
      cache_view s' = (cache_view s)(k := (cache_view s k)\<lparr>refs := refs (cache_view s k) + 1\<rparr>) \<and>
      disk s' = disk s \<and> dwrites s' = dwrites s \<and>
      outside s' = outside (s\<lparr>lh_n := lh_n s + 1, lh_block := (lh_block s)[nat (lh_n s) := snd k]\<rparr>)"
proof -
  let ?x = "snd k" let ?bs = "take (nat (lh_n s)) (lh_block s)" let ?i = "log_find ?x ?bs"
  have bn: "bblockno (bufs s b) = ?x" using handle_Some(3) [OF ok h] by (auto simp: ekey_def)
  have mem: "k \<in> set (homes s) \<longleftrightarrow> ?x \<in> set ?bs" using dev by (cases k) (auto simp: homes_def)
  let ?s1 = "s\<lparr>held := L_log # held s, lh_block := (lh_block s)[?i := ?x]\<rparr>"
  show ?thesis
  proof (cases "k \<in> set (homes s)")
    case True
    then have i: "?i < length ?bs" "?bs ! ?i = ?x" using log_find_in [of ?x ?bs] mem by auto
    then have "(lh_block s)[?i := ?x] = lh_block s" by (metis list_update_id nth_take length_take min_less_iff_conj)
    moreover have "int ?i \<noteq> lh_n s" using i(1) by auto
    ultimately show ?thesis using True lk n out bn by (simp add: log_write_def)
  next
    case False
    then have i: "?i = nat (lh_n s)" using log_find_out [of ?x ?bs] mem n by auto
    have c: "cache_view ?s1 = cache_view s" "handle ?s1 = handle s" by (rule cache_cong; simp)+
    have ok1: "bcache_ok ?s1" using ok by (simp add: bcache_ok_def)
    have "\<exists>s'. bpin b ?s1 = Some s' \<and> bcache_ok s' \<and>
        cache_view s' = (cache_view ?s1)(k := (cache_view ?s1 k)\<lparr>refs := refs (cache_view ?s1 k) + 1\<rparr>) \<and>
        disk s' = disk ?s1 \<and> dwrites s' = dwrites ?s1 \<and> carries handle cache_view outside ?s1 s'"
      by (rule bpin_law [OF ok1]) (use h few c in simp_all)
    then obtain s2 where s2: "bpin b ?s1 = Some s2" "bcache_ok s2"
        "cache_view s2 = (cache_view s)(k := (cache_view s k)\<lparr>refs := refs (cache_view s k) + 1\<rparr>)"
        "disk s2 = disk s" "dwrites s2 = dwrites s" "carries handle cache_view outside ?s1 s2"
      by (auto simp: c)
    have o2: "outside s2 = outside ?s1" using s2(6) by (rule bc.carriesD(2))
    note f2 = outside_log [OF o2]
    have h2: "handle s2 b = Some k" using bc.carriesD(1) [OF s2(6), of b k] h by (simp add: c s2(3))
    let ?s3 = "s2\<lparr>lh_n := lh_n s2 + 1, held := held s\<rparr>"
    have c3: "cache_view ?s3 = cache_view s2" "handle ?s3 = handle s2" by (rule cache_cong; simp)+
    have "bcache_ok ?s3" using s2(2) bcache_okD(4) [OF ok] by (simp add: bcache_ok_def)
    moreover have "outside ?s3 = outside (s\<lparr>lh_n := lh_n s + 1, lh_block := (lh_block s)[nat (lh_n s) := ?x]\<rparr>)"
      using o2 f2 i by (cases s; cases s2) (simp add: outside_def)
    moreover have "log_write b s = Some ?s3"
      using lk n out bn i s2(1) f2 by (simp add: log_write_def)
    ultimately show ?thesis using False s2(3-5) h2 c3 by simp
  qed
qed

definition same_log :: "'z logst_scheme \<Rightarrow> 'z logst_scheme \<Rightarrow> bool" where
  "same_log s s' \<longleftrightarrow> disk s' = disk s \<and> dwrites s' = dwrites s \<and> lstart s' = lstart s \<and> lsize s' = lsize s \<and>
     ldev s' = ldev s \<and> outstanding s' = outstanding s \<and> committing s' = committing s \<and> held s' = held s"

lemma log_update_law:
  fixes s :: "'z logst_scheme"
  assumes t: "in_trans N s" and dev: "fst k = word_of_int (ldev s)" and n: "lh_n s < 30" "lh_n s < lsize s - 1"
  shows "\<exists>s'. log_update k d s = Some s' \<and> in_trans (N(k := d)) s' \<and>
    homes s' = (if k \<in> set (homes s) then homes s else homes s @ [k]) \<and> same_log s s'"
proof -
  note tD = in_transD [OF t] and v = lviewD [OF in_transD(1) [OF t]]
  let ?P = "set (homes s)" let ?D = "disk s" let ?N = "N(k := d)" let ?r = "if k \<in> ?P then 1 else 0 :: nat"
  have card: "card ?P < NBUF" using tD(2,6) n(1) v(4) by (simp add: distinct_card NBUF_def)
  have "\<exists>b s'. bread (fst k) (snd k) s = Some (b, s') \<and> bcache_ok s' \<and> handle s' b = Some k \<and>
      cache_view s' = (cache_view s)(k := (cache_view s k)\<lparr>refs := refs (cache_view s k) + 1, locker := Some (curpid s)\<rparr>) \<and>
      disk s' = disk s \<and> dwrites s' = dwrites s \<and> carries handle cache_view outside s s'"
    by (rule bread_law [OF v(1)])
      (use v(3) card in \<open>simp_all add: dev geom_def v(2) logged_view_sel logged_view_in_use\<close>)
  then obtain b s1 where s1: "bread (fst k) (snd k) s = Some (b, s1)" "bcache_ok s1" "handle s1 b = Some k"
      "cache_view s1 = (logged_view ?D N ?P)(k := (logged_view ?D N ?P k)\<lparr>refs := ?r + 1, locker := Some (curpid s)\<rparr>)"
      "disk s1 = ?D" "dwrites s1 = dwrites s" "outside s1 = outside s"
    by (auto simp: v(2) logged_view_sel carries_def)
  let ?s2 = "put_data b d s1"
  have s2: "bcache_ok ?s2" "cache_view ?s2 = (logged_view ?D N ?P)(k := \<lparr>seen = d, refs = ?r + 1, locker = Some (curpid s)\<rparr>)"
      "disk ?s2 = ?D" "dwrites ?s2 = dwrites s" "outside ?s2 = outside s" "handle ?s2 b = Some k"
    using put_data_law [OF s1(2,3), of d] s1(3-7) bc.carriesD(1) [of s1 ?s2 b k]
    by (auto simp: carries_def logged_view_def uncached_def)
  note o2 = outside_log [OF s2(5)]
  have hm2: "homes ?s2 = homes s" by (simp add: homes_def o2)
  have lw: "if k \<in> set (homes ?s2) then log_write b ?s2 = Some ?s2
      else \<exists>s'. log_write b ?s2 = Some s' \<and> bcache_ok s' \<and> handle s' b = Some k \<and>
        cache_view s' = (cache_view ?s2)(k := (cache_view ?s2 k)\<lparr>refs := refs (cache_view ?s2 k) + 1\<rparr>) \<and>
        disk s' = disk ?s2 \<and> dwrites s' = dwrites ?s2 \<and>
        outside s' = outside (?s2\<lparr>lh_n := lh_n ?s2 + 1, lh_block := (lh_block ?s2)[nat (lh_n ?s2) := snd k]\<rparr>)"
    by (rule log_write_law [OF s2(1,6)]) (use dev n tD(3,4) v(4,6) in \<open>simp_all add: o2 s2(2)\<close>)
  let ?n = "if k \<in> ?P then lh_n s else lh_n s + 1"
  let ?bs = "if k \<in> ?P then lh_block s else (lh_block s)[nat (lh_n s) := snd k]"
  obtain s3 where s3: "log_write b ?s2 = Some s3" "bcache_ok s3" "handle s3 b = Some k"
      "cache_view s3 = (logged_view ?D N ?P)(k := \<lparr>seen = d, refs = 2, locker = Some (curpid s)\<rparr>)"
      "disk s3 = ?D" "dwrites s3 = dwrites s" "outside s3 = outside (s\<lparr>lh_n := ?n, lh_block := ?bs\<rparr>)"
  proof (cases "k \<in> ?P")
    case True
    moreover have "outside ?s2 = outside (s\<lparr>lh_n := lh_n s, lh_block := lh_block s\<rparr>)" using s2(5) by simp
    ultimately show ?thesis using that [of ?s2] lw s2 hm2 by (simp add: numeral_2_eq_2)
  next
    case False
    then obtain s' where s': "log_write b ?s2 = Some s'" "bcache_ok s'" "handle s' b = Some k"
        "cache_view s' = (cache_view ?s2)(k := (cache_view ?s2 k)\<lparr>refs := refs (cache_view ?s2 k) + 1\<rparr>)"
        "disk s' = disk ?s2" "dwrites s' = dwrites ?s2"
        "outside s' = outside (?s2\<lparr>lh_n := lh_n ?s2 + 1, lh_block := (lh_block ?s2)[nat (lh_n ?s2) := snd k]\<rparr>)"
      using lw hm2 by auto
    have "outside s' = outside (s\<lparr>lh_n := lh_n s + 1, lh_block := (lh_block s)[nat (lh_n s) := snd k]\<rparr>)"
      using s'(7) s2(5) o2 by (cases s; cases ?s2) (simp add: outside_def)
    then show ?thesis using that [of s'] s' s2(2-4) False by (simp add: numeral_2_eq_2)
  qed
  note o3 = outside_log [OF s3(7)]
  obtain s4 where s4: "brelse b s3 = Some s4" "bcache_ok s4"
      "cache_view s4 = (logged_view ?D N ?P)(k := \<lparr>seen = d, refs = 1, locker = None\<rparr>)"
      "disk s4 = ?D" "dwrites s4 = dwrites s" "outside s4 = outside s3"
    using brelse_law [OF s3(2,3)] by (auto simp: s3(4-6) o3 carries_def)
  have o4: "outside s4 = outside (s\<lparr>lh_n := ?n, lh_block := ?bs\<rparr>)" using s4(6) s3(7) by simp
  note f4 = outside_log [OF o4]
  have h4: "homes s4 = (if k \<in> ?P then homes s else homes s @ [k])"
  proof -
    have "nat (lh_n s) < length (lh_block s)" "nat (lh_n s + 1) = Suc (nat (lh_n s))" using n(1) v(4,6) by auto
    moreover from this(1) have "take (Suc (nat (lh_n s))) ((lh_block s)[nat (lh_n s) := snd k]) = take (nat (lh_n s)) (lh_block s) @ [snd k]"
      by (simp add: take_Suc_conv_app_nth)
    ultimately show ?thesis using dev by (cases k) (auto simp: homes_def f4)
  qed
  have P4: "set (homes s4) = insert k ?P" by (auto simp: h4)
  have "cache_view s4 = logged_view (disk s4) ?N (set (homes s4))"
    unfolding s4(3,4) P4 by (auto simp: logged_view_def fun_eq_iff)
  then have "lview ?N (set (homes s4)) s4" using s4(2) v(3-6) n by (auto simp: lview_def f4)
  moreover have "distinct (homes s4)" using tD(2) by (simp add: h4)
  moreover have "?N j = disk s4 j" if "j \<notin> set (homes s4)" for j using that tD(5) by (auto simp: P4 s4(4))
  ultimately have "in_trans ?N s4" using tD(3,4) by (simp add: in_trans_def f4)
  moreover have "log_update k d s = Some s4" using s1(1) s3(1) s4(1) by (simp add: log_update_def)
  ultimately show ?thesis using h4 s4(4,5) by (auto simp: same_log_def f4)
qed

lemma same_log_trans: "same_log s t \<Longrightarrow> same_log t u \<Longrightarrow> same_log s u"
  by (simp add: same_log_def)

lemma log_updates_law:
  fixes s :: "'z logst_scheme"
  assumes "in_trans N s" "\<forall>k \<in> fst ` set us. fst k = word_of_int (ldev s)"
    and "card (set (homes s) \<union> fst ` set us) \<le> 10" "11 < lsize s"
  shows "\<exists>s'. log_updates us s = Some s' \<and> in_trans (apply_writes us N) s' \<and>
    set (homes s') = set (homes s) \<union> fst ` set us \<and> same_log s s'"
  using assms
proof (induction us arbitrary: s N)
  case Nil
  then show ?case by (simp add: same_log_def)
next
  case (Cons u us)
  obtain k d where u: "u = (k, d)" by (cases u)
  note tD = in_transD [OF Cons.prems(1)]
  have "card (set (homes s)) \<le> card (set (homes s) \<union> fst ` set (u # us))" by (intro card_mono) auto
  then have n: "lh_n s \<le> 10"
    using Cons.prems(3) tD(2,6) lviewD(4) [OF tD(1)] by (simp add: distinct_card)
  obtain s1 where s1: "log_update k d s = Some s1" "in_trans (N(k := d)) s1"
      "homes s1 = (if k \<in> set (homes s) then homes s else homes s @ [k])" "same_log s s1"
    using log_update_law [OF Cons.prems(1), of k d] Cons.prems(2,4) n u by auto
  have P: "set (homes s1) \<union> fst ` set us = set (homes s) \<union> fst ` set (u # us)" using s1(3) u by auto
  have "ldev s1 = ldev s" "lsize s1 = lsize s" using s1(4) by (simp_all add: same_log_def)
  then obtain s' where "log_updates us s1 = Some s'" "in_trans (apply_writes us (N(k := d))) s'"
      "set (homes s') = set (homes s1) \<union> fst ` set us" "same_log s1 s'"
    using Cons.IH [OF s1(2)] Cons.prems(2-4) unfolding P by (auto simp: fun_upd_def)
  then show ?case using s1(1,4) P u same_log_trans by auto
qed

text \<open>Between transactions: no operation runs, no block is referenced, and the log on the disk is empty.\<close>

definition idle_log :: "'z logst_scheme \<Rightarrow> bool" where
  "idle_log s \<longleftrightarrow> lview (disk s) {} s \<and> lh_n s = 0 \<and> outstanding s = 0 \<and> \<not> committing s \<and> L_log \<notin> set (held s) \<and>
     length (disk s (logkey s 0)) = BSIZE \<and> sint (get32 0 (disk s (logkey s 0))) = 0"

lemma lview_cong:
  assumes "lview N P s" "bufs s' = bufs s" "disk s' = disk s" "lru s' = lru s" "L_bcache \<notin> set (held s')"
    "ldev s' = ldev s" "lstart s' = lstart s" "lh_n s' = lh_n s" "lh_block s' = lh_block s"
  shows "lview N P s'"
proof -
  have "cache_view s' = cache_view s" by (rule cache_cong(1) [OF assms(2,3)])
  moreover have "bcache_ok s'"
    using lviewD(1) [OF assms(1)] assms(5) unfolding bcache_ok_def assms(2,3,4) by blast
  ultimately show ?thesis using assms(1) by (simp add: lview_def assms)
qed

lemma begin_op_idle:
  assumes "idle_log s"
  shows "\<exists>s'. begin_op s = Some (True, s') \<and> in_trans (disk s) s' \<and> homes s' = [] \<and> outstanding s' = 1 \<and> \<not> committing s' \<and>
    disk s' = disk s \<and> dwrites s' = dwrites s \<and> lstart s' = lstart s \<and> ldev s' = ldev s \<and> lsize s' = lsize s"
proof -
  let ?s = "s\<lparr>outstanding := 1\<rparr>"
  have i: "lview (disk s) {} s" "lh_n s = 0" "outstanding s = 0" "\<not> committing s" "L_log \<notin> set (held s)"
    using assms by (auto simp: idle_log_def)
  have "begin_op s = Some (True, ?s)" using i by (cases s) (simp add: begin_op_def MAXOPBLOCKS_def)
  moreover have h: "homes ?s = []" using i(2) by (simp add: homes_def)
  moreover have "lview (disk s) {} ?s"
    by (rule lview_cong [OF i(1)]) (use bcache_okD(4) [OF lviewD(1) [OF i(1)]] in simp_all)
  then have "in_trans (disk s) ?s" using i(5) h by (simp add: in_trans_def)
  ultimately show ?thesis using i(4) by simp
qed

lemma end_op_commits:
  assumes t: "in_trans N s" and o: "outstanding s = 1" "\<not> committing s" and n: "lh_n s \<le> 29"
    and a: "log_region (word_of_int (ldev s)) (lstart s) \<inter> set (homes s) = {}"
  shows "\<exists>s' W. end_op s = Some s' \<and> W = (if homes s = [] then [] else commit_writes (logkey s) (homes s) N (disk s (logkey s 0))) \<and>
    disk s' = apply_writes W (disk s) \<and> dwrites s' = rev W @ dwrites s \<and>
    lview N {} s' \<and> lh_n s' = 0 \<and> outstanding s' = 0 \<and> \<not> committing s' \<and> held s' = held s \<and> ldev s' = ldev s \<and> lstart s' = lstart s"
proof -
  note tD = in_transD [OF t]
  have lb: "L_bcache \<notin> set (held s)" using bcache_okD(4) [OF lviewD(1) [OF tD(1)]] .
  let ?s1 = "s\<lparr>outstanding := 0, committing := True\<rparr>"
  let ?W = "if homes s = [] then [] else commit_writes (logkey s) (homes s) N (disk s (logkey s 0))"
  have hm: "homes ?s1 = homes s" by (simp add: homes_def)
  have v1: "lview N (set (homes s)) ?s1" by (rule lview_cong [OF tD(1)]) (use lb in simp_all)
  obtain s2 where s2: "commit ?s1 = Some s2" "lview N {} s2" "outside s2 = outside (?s1\<lparr>lh_n := 0\<rparr>)"
      "disk s2 = apply_writes ?W (disk s)" "dwrites s2 = rev ?W @ dwrites s"
  proof (cases "homes s = []")
    case True
    then have "lh_n s = 0" using tD(6) lviewD(4) [OF tD(1)] by simp
    moreover from this have "outside ?s1 = outside (?s1\<lparr>lh_n := 0\<rparr>)" by (cases s) (simp add: outside_def)
    ultimately show ?thesis using that [of ?s1] v1 True by (simp add: commit_def)
  next
    case False
    then have "0 < length (homes s)" by simp
    then have "0 < lh_n s" unfolding tD(6) by simp
    then show ?thesis using that commit_law [of N ?s1] v1 tD(2) a n False by (auto simp: hm)
  qed
  note f2 = outside_log [OF s2(3)]
  let ?s3 = "s2\<lparr>committing := False, log_wakeups := log_wakeups s2 + 1\<rparr>"
  have "end_op s = Some ?s3"
  proof -
    have "s\<lparr>held := L_log # held s, outstanding := 0, committing := True, held := held s\<rparr> = ?s1" by (cases s) simp
    moreover have "s2\<lparr>held := L_log # held s, committing := False, log_wakeups := Suc (log_wakeups s2), held := held s\<rparr> = ?s3"
      using f2(1) by (cases s2) simp
    ultimately show ?thesis using o tD(4) s2(1) f2 by (simp add: end_op_def)
  qed
  moreover have "lview N {} ?s3" by (rule lview_cong [OF s2(2)]) (use lb f2 in simp_all)
  ultimately show ?thesis using s2(4,5) f2 by auto
qed

lemma lview_empty: "lview N {} s \<Longrightarrow> lview M {} s"
  by (simp add: lview_def logged_view_empty)

lemma end_op_idle:
  assumes t: "in_trans N s" and o: "outstanding s = 1" "\<not> committing s" and n: "length (homes s) \<le> 29"
    and a: "log_region (word_of_int (ldev s)) (lstart s) \<inter> set (homes s) = {}"
    and D: "length (disk s (logkey s 0)) = BSIZE" "sint (get32 0 (disk s (logkey s 0))) = 0"
  shows "\<exists>s' W. end_op s = Some s' \<and> idle_log s' \<and> dwrites s' = rev W @ dwrites s \<and> disk s' = apply_writes W (disk s) \<and>
    (\<forall>k. k \<notin> log_region (word_of_int (ldev s)) (lstart s) \<longrightarrow> disk s' k = N k) \<and>
    (\<forall>j E. E = apply_writes (take j W) (disk s) \<longrightarrow> log_disk_ok (word_of_int (ldev s)) (lstart s) E \<and>
      ((\<forall>k. k \<notin> log_region (word_of_int (ldev s)) (lstart s) \<longrightarrow>
          apply_writes (redo_writes (logkey s) (word_of_int (ldev s)) E) E k = disk s k) \<or>
       (\<forall>k. k \<notin> log_region (word_of_int (ldev s)) (lstart s) \<longrightarrow>
          apply_writes (redo_writes (logkey s) (word_of_int (ldev s)) E) E k = N k)))"
proof -
  let ?R = "log_region (word_of_int (ldev s)) (lstart s)" let ?h = "logkey s 0" let ?hs = "homes s"
  note tD = in_transD [OF t]
  have g: "geom (word_of_int (ldev s)) (lstart s)" using lviewD(3) [OF tD(1)] .
  have dev: "\<forall>k \<in> set ?hs. fst k = word_of_int (ldev s)" using homes_fst by blast
  have hR: "?h \<in> ?R" by (rule region_block) simp
  define W where "W = (if ?hs = [] then [] else commit_writes (logkey s) ?hs N (disk s ?h))"
  have "lh_n s \<le> 29" using n tD(6) by simp
  then obtain s' where s': "end_op s = Some s'" "disk s' = apply_writes W (disk s)" "dwrites s' = rev W @ dwrites s"
      "lview N {} s'" "lh_n s' = 0" "outstanding s' = 0" "\<not> committing s'" "held s' = held s" "ldev s' = ldev s" "lstart s' = lstart s"
    using end_op_commits [OF t o _ a] unfolding W_def by blast
  have all: "log_disk_ok (word_of_int (ldev s)) (lstart s) E \<and> (\<forall>k. k \<notin> ?R \<longrightarrow>
      apply_writes (redo_writes (logkey s) (word_of_int (ldev s)) E) E k = (if j \<le> length ?hs then disk s k else N k))"
    if E: "E = apply_writes (take j W) (disk s)" for j E
  proof (cases "?hs = []")
    case True
    then have "N k = disk s k" for k using tD(5) by simp
    then show ?thesis using True D hR E by (auto simp: W_def log_disk_ok_def redo_writes_def head_blocks_zero)
  next
    case False
    then have "E = apply_writes (take j (commit_writes (logkey s) ?hs N (disk s ?h))) (disk s)" using E by (simp add: W_def)
    from commit_crash [OF g n tD(2) dev a D this] tD(5) show ?thesis by auto
  qed
  have final: "disk s' k = N k" if "k \<notin> ?R" for k
  proof (cases "?hs = []")
    case True then show ?thesis using tD(5) s'(2) by (simp add: W_def)
  next
    case False
    have E: "apply_writes W (disk s) = apply_writes (take (length W) W) (disk s)" by simp
    have "\<not> length W \<le> length ?hs" using False by (simp add: W_def commit_writes_def)
    then have "apply_writes (redo_writes (logkey s) (word_of_int (ldev s)) (disk s')) (disk s') k = N k"
      using all [OF E] that by (simp add: s'(2) del: split_paired_All)
    moreover have "disk s' ?h = head_bytes [] (head_bytes (map snd ?hs) (disk s ?h))"
      using False by (simp add: s'(2) W_def commit_writes_def)
    then have "redo_writes (logkey s) (word_of_int (ldev s)) (disk s') = [(?h, head_bytes [] (disk s' ?h))]"
      using D(1) by (simp add: redo_writes_def head_bytes_Nil)
    ultimately show ?thesis using that hR by (auto split: if_splits)
  qed
  have "length (disk s' ?h) = BSIZE" "sint (get32 0 (disk s' ?h)) = 0"
    using D head_bytes_Nil(1) [of "head_bytes (map snd ?hs) (disk s ?h)"]
    by (auto simp: s'(2) W_def commit_writes_def)
  then have "idle_log s'" using s' tD(4) lview_empty [OF s'(4)] by (simp add: idle_log_def)
  then show ?thesis using s'(1-3) final all
    by (intro exI [of _ s'] exI [of _ W]) (metis (no_types, lifting))
qed


text \<open>A fresh file system of which block 2 begins the log, as \<^verbatim>\<open>mkfs\<close> lays it out.\<close>

definition mkfs_sb :: xv6fs_superblock where
  "mkfs_sb = \<lparr>sb_magic = 0x10203040, sb_size = 2000, sb_nblocks = 1954, sb_ninodes = 200, sb_nlog = 30, sb_logstart = 2,
     sb_inodestart = 32, sb_bmapstart = 45, sb_flags = 0\<rparr>"

definition zero_disk :: "bkey \<Rightarrow> block" where
  "zero_disk k = replicate BSIZE 0"

lemma zero_disk_head: "length (zero_disk k) = BSIZE" "sint (get32 0 (zero_disk k)) = 0"
  by (simp_all add: zero_disk_def get32_def BSIZE_def)

lemma fresh_idle: "\<exists>s :: logst. idle_log s \<and> lstart s = 2 \<and> lsize s = 30 \<and> ldev s = 1 \<and> disk s = zero_disk"
proof -
  have "loaded (power_on zero_disk)" by (simp add: loaded_def power_on_def)
  then obtain l where l: "bcache_ok (power_on zero_disk\<lparr>lru := l\<rparr>)"
      "cache_view (power_on zero_disk\<lparr>lru := l\<rparr>) = uncached (disk (power_on zero_disk))" using binit_ok by blast
  let ?s = "power_on zero_disk\<lparr>lru := l, lstart := 2, lsize := 30, ldev := 1\<rparr>"
  have "bcache_ok ?s" "cache_view ?s = uncached zero_disk"
    using cache_cong [of ?s "power_on zero_disk\<lparr>lru := l\<rparr>"] l by (simp_all add: power_on_def)
  then have "lview zero_disk {} ?s" by (simp add: lview_def logged_view_empty power_on_def geom_def)
  then have "idle_log ?s" using zero_disk_head by (simp add: idle_log_def power_on_def)
  then show ?thesis by (intro exI [of _ ?s]) (simp add: power_on_def)
qed

lemma in_region_2: "(1, x) \<in> log_region 1 2 \<Longrightarrow> unat x \<le> 32"
proof -
  assume "(1, x) \<in> log_region 1 2"
  then obtain i where "i \<le> 30" "x = word_of_int (2 + int i)" by (auto simp: log_region_def log_block_def)
  then show ?thesis by (simp add: unat_word_ariths unat_of_nat)
qed



subsection \<open>Reservations\<close>

lemma begin_op_more:
  assumes t: "in_trans N s" and c: "\<not> committing s" and r: "lh_n s + (outstanding s + 1) * 10 \<le> 30"
  shows "begin_op s = Some (True, s\<lparr>outstanding := outstanding s + 1\<rparr>)" "in_trans N (s\<lparr>outstanding := outstanding s + 1\<rparr>)"
proof -
  note tD = in_transD [OF t]
  let ?s = "s\<lparr>outstanding := outstanding s + 1\<rparr>"
  show "begin_op s = Some (True, ?s)" using tD(4) c r by (cases s) (simp add: begin_op_def MAXOPBLOCKS_def)
  have "lview N (set (homes s)) ?s"
    by (rule lview_cong [OF tD(1)]) (use bcache_okD(4) [OF lviewD(1) [OF tD(1)]] in simp_all)
  then show "in_trans N ?s" using tD by (simp add: in_trans_def homes_def)
qed

lemma log_updates_distinct:
  fixes s :: "'z logst_scheme"
  assumes "in_trans N s" "\<forall>k \<in> fst ` set us. fst k = word_of_int (ldev s)"
    and "distinct (homes s @ map fst us)" "length (homes s) + length us \<le> 30" "int (length (homes s) + length us) \<le> lsize s - 1"
  shows "\<exists>s'. log_updates us s = Some s' \<and> in_trans (apply_writes us N) s' \<and> homes s' = homes s @ map fst us \<and> same_log s s'"
  using assms
proof (induction us arbitrary: s N)
  case Nil
  then show ?case by (simp add: same_log_def)
next
  case (Cons u us)
  obtain k d where u: "u = (k, d)" by (cases u)
  have "lh_n s = int (length (homes s))" using in_transD(1,6) [OF Cons.prems(1)] lviewD(4) by fastforce
  then obtain s1 where s1: "log_update k d s = Some s1" "in_trans (N(k := d)) s1" "homes s1 = homes s @ [k]" "same_log s s1"
    using log_update_law [OF Cons.prems(1), of k d] Cons.prems(2-5) u by auto
  have "ldev s1 = ldev s" "lsize s1 = lsize s" using s1(4) by (simp_all add: same_log_def)
  then obtain s' where "log_updates us s1 = Some s'" "in_trans (apply_writes us (N(k := d))) s'"
      "homes s' = homes s @ map fst (u # us)" "same_log s1 s'"
    using Cons.IH [OF s1(2)] Cons.prems(2-5) u by (auto simp: s1(3) fun_upd_def)
  then show ?case using s1(1,4) u same_log_trans by auto
qed

lemma log_update_full:
  fixes s :: "'z logst_scheme"
  assumes t: "in_trans N s" and dev: "fst k = word_of_int (ldev s)" and n: "lh_n s = lsize s - 1" "lh_n s \<le> 29"
  shows "log_update k d s = None"
proof -
  note tD = in_transD [OF t] and v = lviewD [OF in_transD(1) [OF t]]
  have "card (set (homes s)) < NBUF" using tD(2,6) n(2) v(4) by (simp add: distinct_card NBUF_def)
  then have "\<exists>b s'. bread (fst k) (snd k) s = Some (b, s') \<and> bcache_ok s' \<and> handle s' b = Some k \<and>
      cache_view s' = (cache_view s)(k := (cache_view s k)\<lparr>refs := refs (cache_view s k) + 1, locker := Some (curpid s)\<rparr>) \<and>
      disk s' = disk s \<and> dwrites s' = dwrites s \<and> carries handle cache_view outside s s'"
    by (intro bread_law [OF v(1)])
      (use v(3) in \<open>simp_all add: dev geom_def v(2) logged_view_sel logged_view_in_use\<close>)
  then obtain b s1 where s1: "bread (fst k) (snd k) s = Some (b, s1)" "outside s1 = outside s" by (auto simp: carries_def)
  have "outside (put_data b d s1) = outside s" using s1(2) by (simp add: put_data_def)
  note o = outside_log [OF this]
  have "log_write b (put_data b d s1) = None" using tD(4) n by (simp add: log_write_def o)
  then show ?thesis using s1(1) by (simp add: log_update_def)
qed

text \<open>
  C22: \<^verbatim>\<open>begin_op\<close> admits three concurrent operations of up to
  \<^verbatim>\<open>MAXOPBLOCKS\<close> blocks each on a log of \<^verbatim>\<open>LOGSIZE\<close> blocks, which is the size \<^verbatim>\<open>mkfs\<close> gives it;
  but the header takes one of these blocks, and when the three operations together update all the blocks they
  reserved, the last \<^verbatim>\<open>log_write\<close> panics.
\<close>

theorem log_reservation_exceeds_log:
  fixes s :: logst
  assumes i: "idle_log s" and size: "lsize s = LOGSIZE"
    and us: "length us = nat (3 * MAXOPBLOCKS)" "distinct (map fst us)" "\<forall>k \<in> fst ` set us. fst k = word_of_int (ldev s)"
  shows "\<exists>s1 s2 s3 s4. begin_op s = Some (True, s1) \<and> begin_op s1 = Some (True, s2) \<and> begin_op s2 = Some (True, s3) \<and>
    log_updates (butlast us) s3 = Some s4 \<and> log_update (fst (last us)) (snd (last us)) s4 = None"
proof -
  obtain s1 where s1: "begin_op s = Some (True, s1)" "in_trans (disk s) s1" "homes s1 = []" "outstanding s1 = 1" "\<not> committing s1"
      "ldev s1 = ldev s" "lsize s1 = lsize s"
    using begin_op_idle [OF i] by blast
  have n1: "lh_n s1 = 0" using in_transD(1,6) [OF s1(2)] lviewD(4) s1(3) by fastforce
  let ?s2 = "s1\<lparr>outstanding := 2\<rparr>" let ?s3 = "s1\<lparr>outstanding := 3\<rparr>"
  have s2: "begin_op s1 = Some (True, ?s2)" "in_trans (disk s) ?s2"
    using begin_op_more [OF s1(2,5)] n1 s1(4) by simp_all
  have s3: "begin_op ?s2 = Some (True, ?s3)" "in_trans (disk s) ?s3"
    using begin_op_more [OF s2(2)] n1 s1(5) by simp_all
  have h3: "homes ?s3 = []" "ldev ?s3 = ldev s" "lsize ?s3 = 30" using s1(3,6,7) size by (simp_all add: homes_def)
  have ne: "us \<noteq> []" "length us = 30" using us(1) by (auto simp: MAXOPBLOCKS_def)
  then have split: "us = butlast us @ [last us]" by simp
  have "\<forall>k \<in> fst ` set (butlast us). fst k = word_of_int (ldev s)" using us(3) in_set_butlastD by fastforce
  moreover have "distinct (map fst (butlast us))" using us(2) by (metis distinct_butlast map_butlast)
  ultimately obtain s4 where s4: "log_updates (butlast us) ?s3 = Some s4" "in_trans (apply_writes (butlast us) (disk s)) s4"
      "homes s4 = map fst (butlast us)" "same_log ?s3 s4"
    using log_updates_distinct [OF s3(2), of "butlast us"] ne h3 by auto
  have "length (homes s4) = 29" using s4(3) ne(2) by simp
  then have "lh_n s4 = 29" using in_transD(6) [OF s4(2)] by simp
  moreover have "lsize s4 = 30" "ldev s4 = ldev s" using s4(4) h3 by (simp_all add: same_log_def)
  moreover have "fst (fst (last us)) = word_of_int (ldev s)" using us(3) ne(1) by (simp add: last_in_set)
  ultimately have "log_update (fst (last us)) (snd (last us)) s4 = None"
    using log_update_full [OF s4(2)] by simp
  then show ?thesis using s1(1) s2(1) s3(1) s4(1) by blast
qed

definition thirty_updates :: "(bkey \<times> block) list" where
  "thirty_updates = map (\<lambda>i. ((1, of_nat (40 + i)), replicate BSIZE 7)) [0..<30]"

theorem log_reservation_exceeds_log_witness:
  "\<exists>(s :: logst) s1 s2 s3 s4. begin_op s = Some (True, s1) \<and> begin_op s1 = Some (True, s2) \<and> begin_op s2 = Some (True, s3) \<and>
    log_updates (butlast thirty_updates) s3 = Some s4 \<and> log_update (1, 69) (replicate BSIZE 7) s4 = None"
proof -
  obtain s :: logst where s: "idle_log s" "lsize s = 30" "ldev s = 1" using fresh_idle by blast
  have "inj_on (\<lambda>i. (1 :: u32, of_nat (40 + i) :: u32)) {0..<30}"
    by (rule inj_onI) (auto simp: word_of_nat_eq_iff take_bit_nat_eq_self)
  then have "distinct (map fst thirty_updates)" by (simp add: thirty_updates_def distinct_map comp_def)
  moreover have "last thirty_updates = ((1, 69), replicate BSIZE 7)" by (simp add: thirty_updates_def last_map)
  ultimately have "\<exists>s1 s2 s3 s4. begin_op s = Some (True, s1) \<and> begin_op s1 = Some (True, s2) \<and> begin_op s2 = Some (True, s3) \<and>
      log_updates (butlast thirty_updates) s3 = Some s4 \<and> log_update (1, 69) (replicate BSIZE 7) s4 = None"
    using log_reservation_exceeds_log [OF s(1), of thirty_updates] s(2,3)
    by (auto simp: thirty_updates_def MAXOPBLOCKS_def)
  then show ?thesis by blast
qed

end
