(* ===== verification/XV_Ext4_Layout.thy ===== *)
theory XV_Ext4_Layout
  imports XV_Prelude
begin

text \<open>
  On-disk structures of ext4 (\<^verbatim>\<open>include/ext4_types.h\<close>).

  The file system code casts pointers into disk blocks to packed C structures, computes checksums
  over their bytes and reads their members with \<^verbatim>\<open>to_le16\<close>, \<^verbatim>\<open>to_le32\<close> and
  \<^verbatim>\<open>to_le64\<close>, which are the identity on the little-endian machines of this kernel. A structure
  is therefore the list of its bytes, and a member is a \<^emph>\<open>field\<close>: its offset and its size. The
  layouts list the members in the order of the source; the compiler's offsets are the sums of the
  sizes before them, since the structures are packed (or have no member that needs padding).
\<close>

type_synonym u16 = "16 word"
type_synonym field = "nat \<times> nat"
type_synonym layout = "(string \<times> nat) list"

subsection \<open>Layouts\<close>

text \<open>\<^verbatim>\<open>offsetof\<close> and \<^verbatim>\<open>sizeof\<close> of a member.\<close>

fun fld :: "layout \<Rightarrow> string \<Rightarrow> field" where
  "fld [] m = (0, 0)"
| "fld ((n, k) # fs) m = (if n = m then (0, k) else (case fld fs m of (ofs, sz) \<Rightarrow> (k + ofs, sz)))"

definition layout_size :: "layout \<Rightarrow> nat" where
  "layout_size fs = sum_list (map snd fs)"

text \<open>Element \<open>i\<close> of an array member whose elements have \<open>w\<close> bytes, and a member of a member.\<close>

definition elem_fld :: "field \<Rightarrow> nat \<Rightarrow> nat \<Rightarrow> field" where
  "elem_fld f w i = (fst f + w * i, w)"

definition sub_fld :: "field \<Rightarrow> field \<Rightarrow> field" where
  "sub_fld f g = (fst f + fst g, snd g)"

definition ext4_sblock :: layout where
  "ext4_sblock =
    [(''inodes_count'', 4), (''blocks_count_lo'', 4), (''reserved_blocks_count_lo'', 4), (''free_blocks_count_lo'', 4),
     (''free_inodes_count'', 4), (''first_data_block'', 4), (''log_block_size'', 4), (''log_cluster_size'', 4),
     (''blocks_per_group'', 4), (''frags_per_group'', 4), (''inodes_per_group'', 4), (''mount_time'', 4), (''write_time'', 4),
     (''mount_count'', 2), (''max_mount_count'', 2), (''magic'', 2), (''state'', 2), (''errors'', 2), (''minor_rev_level'', 2),
     (''last_check_time'', 4), (''check_interval'', 4), (''creator_os'', 4), (''rev_level'', 4),
     (''def_resuid'', 2), (''def_resgid'', 2),
     (''first_inode'', 4), (''inode_size'', 2), (''block_group_index'', 2),
     (''features_compatible'', 4), (''features_incompatible'', 4), (''features_read_only'', 4),
     (''uuid'', 16), (''volume_name'', 16), (''last_mounted'', 64), (''algorithm_usage_bitmap'', 4),
     (''s_prealloc_blocks'', 1), (''s_prealloc_dir_blocks'', 1), (''s_reserved_gdt_blocks'', 2),
     (''journal_uuid'', 16), (''journal_inode_number'', 4), (''journal_dev'', 4), (''last_orphan'', 4), (''hash_seed'', 16),
     (''default_hash_version'', 1), (''journal_backup_type'', 1), (''desc_size'', 2), (''default_mount_opts'', 4),
     (''first_meta_bg'', 4), (''mkfs_time'', 4), (''journal_blocks'', 68),
     (''blocks_count_hi'', 4), (''reserved_blocks_count_hi'', 4), (''free_blocks_count_hi'', 4),
     (''min_extra_isize'', 2), (''want_extra_isize'', 2), (''flags'', 4), (''raid_stride'', 2), (''mmp_interval'', 2),
     (''mmp_block'', 8), (''raid_stripe_width'', 4), (''log_groups_per_flex'', 1), (''checksum_type'', 1), (''reserved_pad'', 2),
     (''kbytes_written'', 8), (''snapshot_inum'', 4), (''snapshot_id'', 4), (''snapshot_r_blocks_count'', 8), (''snapshot_list'', 4),
     (''error_count'', 4), (''first_error_time'', 4), (''first_error_ino'', 4), (''first_error_block'', 8),
     (''first_error_func'', 32), (''first_error_line'', 4), (''last_error_time'', 4), (''last_error_ino'', 4),
     (''last_error_line'', 4), (''last_error_block'', 8), (''last_error_func'', 32), (''mount_opts'', 64),
     (''usr_quota_inum'', 4), (''grp_quota_inum'', 4), (''overhead_clusters'', 4), (''backup_bgs'', 8),
     (''encrypt_algos'', 4), (''encrypt_pw_salt'', 16), (''lpf_ino'', 4), (''padding'', 400), (''checksum'', 4)]"

definition ext4_bgroup :: layout where
  "ext4_bgroup =
    [(''block_bitmap_lo'', 4), (''inode_bitmap_lo'', 4), (''inode_table_first_block_lo'', 4),
     (''free_blocks_count_lo'', 2), (''free_inodes_count_lo'', 2), (''used_dirs_count_lo'', 2), (''flags'', 2),
     (''exclude_bitmap_lo'', 4), (''block_bitmap_csum_lo'', 2), (''inode_bitmap_csum_lo'', 2),
     (''itable_unused_lo'', 2), (''checksum'', 2),
     (''block_bitmap_hi'', 4), (''inode_bitmap_hi'', 4), (''inode_table_first_block_hi'', 4),
     (''free_blocks_count_hi'', 2), (''free_inodes_count_hi'', 2), (''used_dirs_count_hi'', 2), (''itable_unused_hi'', 2),
     (''exclude_bitmap_hi'', 4), (''block_bitmap_csum_hi'', 2), (''inode_bitmap_csum_hi'', 2), (''reserved'', 4)]"

text \<open>The two structures of the union \<^verbatim>\<open>osd2\<close> and the inode.\<close>

definition osd2_linux2 :: layout where
  "osd2_linux2 = [(''blocks_high'', 2), (''file_acl_high'', 2), (''uid_high'', 2), (''gid_high'', 2), (''checksum_lo'', 2), (''reserved2'', 2)]"

definition osd2_hurd2 :: layout where
  "osd2_hurd2 = [(''reserved1'', 2), (''mode_high'', 2), (''uid_high'', 2), (''gid_high'', 2), (''author'', 4)]"

definition EXT4_INODE_DIRECT_BLOCK_COUNT :: nat where
  "EXT4_INODE_DIRECT_BLOCK_COUNT = 12"

definition EXT4_INODE_INDIRECT_BLOCK :: nat where
  "EXT4_INODE_INDIRECT_BLOCK = EXT4_INODE_DIRECT_BLOCK_COUNT"

definition EXT4_INODE_DOUBLE_INDIRECT_BLOCK :: nat where
  "EXT4_INODE_DOUBLE_INDIRECT_BLOCK = EXT4_INODE_INDIRECT_BLOCK + 1"

definition EXT4_INODE_TRIPPLE_INDIRECT_BLOCK :: nat where
  "EXT4_INODE_TRIPPLE_INDIRECT_BLOCK = EXT4_INODE_DOUBLE_INDIRECT_BLOCK + 1"

definition EXT4_INODE_BLOCKS :: nat where
  "EXT4_INODE_BLOCKS = EXT4_INODE_TRIPPLE_INDIRECT_BLOCK + 1"

lemmas inode_block_defs = EXT4_INODE_BLOCKS_def EXT4_INODE_TRIPPLE_INDIRECT_BLOCK_def
  EXT4_INODE_DOUBLE_INDIRECT_BLOCK_def EXT4_INODE_INDIRECT_BLOCK_def EXT4_INODE_DIRECT_BLOCK_COUNT_def

definition ext4_inode :: layout where
  "ext4_inode =
    [(''mode'', 2), (''uid'', 2), (''size_lo'', 4), (''access_time'', 4), (''change_inode_time'', 4), (''modification_time'', 4),
     (''deletion_time'', 4), (''gid'', 2), (''links_count'', 2), (''blocks_count_lo'', 4), (''flags'', 4), (''unused_osd1'', 4),
     (''blocks'', 4 * EXT4_INODE_BLOCKS), (''generation'', 4), (''file_acl_lo'', 4), (''size_hi'', 4), (''obso_faddr'', 4),
     (''osd2'', max (layout_size osd2_linux2) (layout_size osd2_hurd2)),
     (''extra_isize'', 2), (''checksum_hi'', 2), (''ctime_extra'', 4), (''mtime_extra'', 4), (''atime_extra'', 4),
     (''crtime'', 4), (''crtime_extra'', 4), (''version_hi'', 4)]"

abbreviation sbf :: "string \<Rightarrow> field" where "sbf \<equiv> fld ext4_sblock"
abbreviation bgf :: "string \<Rightarrow> field" where "bgf \<equiv> fld ext4_bgroup"
abbreviation inof :: "string \<Rightarrow> field" where "inof \<equiv> fld ext4_inode"
abbreviation linux2 :: "string \<Rightarrow> field" where "linux2 m \<equiv> sub_fld (inof ''osd2'') (fld osd2_linux2 m)"
abbreviation hurd2 :: "string \<Rightarrow> field" where "hurd2 m \<equiv> sub_fld (inof ''osd2'') (fld osd2_hurd2 m)"

subsection \<open>Loads and stores of little-endian numbers\<close>

fun le_load :: "u8 list \<Rightarrow> 'a::len word" where
  "le_load [] = 0"
| "le_load (b # bs) = ucast b OR push_bit 8 (le_load bs)"

fun le_store :: "nat \<Rightarrow> 'a::len word \<Rightarrow> u8 list" where
  "le_store 0 v = []"
| "le_store (Suc n) v = ucast v # le_store n (drop_bit 8 v)"

definition getf :: "field \<Rightarrow> u8 list \<Rightarrow> 'a::len word" where
  "getf f d = le_load (take (snd f) (drop (fst f) d))"

definition putf :: "field \<Rightarrow> 'a::len word \<Rightarrow> u8 list \<Rightarrow> u8 list" where
  "putf f v d = take (fst f) d @ le_store (snd f) v @ drop (fst f + snd f) d"

definition in_struct :: "field \<Rightarrow> u8 list \<Rightarrow> bool" where
  "in_struct f d \<longleftrightarrow> fst f + snd f \<le> length d"

definition apart :: "field \<Rightarrow> field \<Rightarrow> bool" where
  "apart f g \<longleftrightarrow> fst f + snd f \<le> fst g \<or> fst g + snd g \<le> fst f"

lemma length_le_store [simp]: "length (le_store n v) = n"
  by (induction n v rule: le_store.induct) auto

lemma nth_le_store: "i < n \<Longrightarrow> le_store n v ! i = ucast (drop_bit (8 * i) v)"
proof (induction n v arbitrary: i rule: le_store.induct)
  case (2 n v)
  then show ?case by (cases i) (auto simp: drop_bit_drop_bit ac_simps)
qed simp

lemma bit_le_load:
  "bit (le_load bs :: 'a::len word) k \<longleftrightarrow> k < LENGTH('a) \<and> k div 8 < length bs \<and> bit (bs ! (k div 8)) (k mod 8)"
proof (induction bs arbitrary: k)
  case (Cons b bs)
  show ?case
  proof (cases "k < 8")
    case True
    then show ?thesis by (auto simp: bit_simps)
  next
    case False
    then have "k div 8 = Suc ((k - 8) div 8)" "k mod 8 = (k - 8) mod 8" by (simp_all add: le_div_geq le_mod_geq)
    then show ?thesis using False Cons.IH [of "k - 8"] bit_imp_le_length [of b k]
      by (auto simp: bit_simps)
  qed
qed simp

lemma length_putf [simp]: "in_struct f d \<Longrightarrow> length (putf f v d) = length d"
  by (simp add: in_struct_def putf_def)

lemma in_struct_putf [simp]: "in_struct f d \<Longrightarrow> in_struct g (putf f v d) = in_struct g d"
  by (simp add: in_struct_def putf_def)

lemma getf_bit:
  "in_struct f d \<Longrightarrow> bit (getf f d :: 'a::len word) k \<longleftrightarrow>
     k < LENGTH('a) \<and> k < 8 * snd f \<and> bit (d ! (fst f + k div 8)) (k mod 8)"
proof -
  assume i: "in_struct f d"
  have e: "k div 8 < snd f \<longleftrightarrow> k < 8 * snd f" by (simp add: less_mult_imp_div_less div_less_iff_less_mult mult.commute)
  show "bit (getf f d :: 'a::len word) k \<longleftrightarrow> k < LENGTH('a) \<and> k < 8 * snd f \<and> bit (d ! (fst f + k div 8)) (k mod 8)"
    using i by (auto simp: getf_def bit_le_load in_struct_def e [symmetric])
qed

text \<open>What a member reads after a store to it, and after a store to another one.\<close>

lemma getf_putf_same:
  fixes v :: "'b::len word"
  assumes "in_struct f d"
  shows "(getf f (putf f v d) :: 'a::len word) = ucast (take_bit (8 * snd f) v)"
proof (rule bit_word_eqI)
  fix k assume k: "k < LENGTH('a)"
  have n: "putf f v d ! (fst f + k div 8) = ucast (drop_bit (8 * (k div 8)) v)" if "k < 8 * snd f"
  proof -
    have "k div 8 < snd f" using that by (simp add: less_mult_imp_div_less mult.commute)
    then show ?thesis using assms by (simp add: putf_def in_struct_def nth_append nth_le_store)
  qed
  have "8 * (k div 8) + k mod 8 = k" by simp
  then have "bit (ucast (drop_bit (8 * (k div 8)) v) :: u8) (k mod 8) = bit v k"
    by (simp add: bit_simps)
  then show "bit (getf f (putf f v d) :: 'a word) k = bit (ucast (take_bit (8 * snd f) v) :: 'a word) k"
    using assms k n by (auto simp: getf_bit bit_simps dest: bit_imp_le_length)
qed

lemma getf_putf_apart:
  assumes "apart f g" "in_struct f d"
  shows "getf g (putf f v d) = getf g d"
proof -
  have "take (snd g) (drop (fst g) (putf f v d)) = take (snd g) (drop (fst g) d)"
    using assms unfolding apart_def
  proof (elim disjE)
    assume "fst f + snd f \<le> fst g"
    then show ?thesis using assms(2) by (simp add: putf_def in_struct_def)
  next
    assume "fst g + snd g \<le> fst f"
    then show ?thesis using assms(2)
      by (intro nth_equalityI) (auto simp: putf_def in_struct_def nth_append)
  qed
  then show ?thesis by (simp add: getf_def)
qed

lemma take_putf: "n \<le> fst f \<Longrightarrow> in_struct f d \<Longrightarrow> take n (putf f v d) = take n d"
  by (simp add: putf_def in_struct_def)

subsection \<open>Members do not overlap\<close>

lemma fld_bound: "m \<in> fst ` set fs \<Longrightarrow> fst (fld fs m) + snd (fld fs m) \<le> layout_size fs"
proof (induction fs)
  case (Cons a fs)
  show ?case
  proof (cases "fst a = m")
    case False
    then have "m \<in> fst ` set fs" using Cons.prems by auto
    then have "fst (fld fs m) + snd (fld fs m) \<le> layout_size fs" by (rule Cons.IH)
    then show ?thesis using False by (cases a; cases "fld fs m") (simp add: layout_size_def)
  qed (cases a, simp add: layout_size_def)
qed simp

lemma fld_apart:
  "m \<in> fst ` set fs \<Longrightarrow> n \<in> fst ` set fs \<Longrightarrow> m \<noteq> n \<Longrightarrow> apart (fld fs m) (fld fs n)"
proof (induction fs)
  case (Cons a fs)
  show ?case
  proof (cases "fst a = m \<or> fst a = n")
    case True
    then show ?thesis using Cons.prems(3)
      by (cases a; cases "fld fs m"; cases "fld fs n") (auto simp: apart_def)
  next
    case False
    then have "apart (fld fs m) (fld fs n)" using Cons.prems by (intro Cons.IH) auto
    then show ?thesis using False
      by (cases a; cases "fld fs m"; cases "fld fs n") (auto simp: apart_def)
  qed
qed simp

text \<open>Offsets of the members that the modelled routines use.\<close>

lemma sb_fields [simp]:
  "sbf ''inodes_count'' = (0, 4)"
  "sbf ''blocks_count_lo'' = (4, 4)"
  "sbf ''free_blocks_count_lo'' = (12, 4)"
  "sbf ''free_inodes_count'' = (16, 4)"
  "sbf ''first_data_block'' = (20, 4)"
  "sbf ''log_block_size'' = (24, 4)"
  "sbf ''log_cluster_size'' = (28, 4)"
  "sbf ''blocks_per_group'' = (32, 4)"
  "sbf ''inodes_per_group'' = (40, 4)"
  "sbf ''magic'' = (56, 2)"
  "sbf ''creator_os'' = (72, 4)"
  "sbf ''rev_level'' = (76, 4)"
  "sbf ''first_inode'' = (84, 4)"
  "sbf ''inode_size'' = (88, 2)"
  "sbf ''features_compatible'' = (92, 4)"
  "sbf ''features_incompatible'' = (96, 4)"
  "sbf ''features_read_only'' = (100, 4)"
  "sbf ''uuid'' = (104, 16)"
  "sbf ''s_reserved_gdt_blocks'' = (206, 2)"
  "sbf ''hash_seed'' = (236, 16)"
  "sbf ''desc_size'' = (254, 2)"
  "sbf ''first_meta_bg'' = (260, 4)"
  "sbf ''blocks_count_hi'' = (336, 4)"
  "sbf ''free_blocks_count_hi'' = (344, 4)"
  "sbf ''flags'' = (352, 4)"
  "sbf ''log_groups_per_flex'' = (372, 1)"
  "sbf ''checksum_type'' = (373, 1)"
  "sbf ''checksum'' = (1020, 4)"
  by (simp_all add: ext4_sblock_def)

lemma bg_fields [simp]:
  "bgf ''block_bitmap_lo'' = (0, 4)"
  "bgf ''inode_bitmap_lo'' = (4, 4)"
  "bgf ''inode_table_first_block_lo'' = (8, 4)"
  "bgf ''free_blocks_count_lo'' = (12, 2)"
  "bgf ''free_inodes_count_lo'' = (14, 2)"
  "bgf ''used_dirs_count_lo'' = (16, 2)"
  "bgf ''flags'' = (18, 2)"
  "bgf ''exclude_bitmap_lo'' = (20, 4)"
  "bgf ''block_bitmap_csum_lo'' = (24, 2)"
  "bgf ''inode_bitmap_csum_lo'' = (26, 2)"
  "bgf ''itable_unused_lo'' = (28, 2)"
  "bgf ''checksum'' = (30, 2)"
  "bgf ''block_bitmap_hi'' = (32, 4)"
  "bgf ''inode_bitmap_hi'' = (36, 4)"
  "bgf ''inode_table_first_block_hi'' = (40, 4)"
  "bgf ''free_blocks_count_hi'' = (44, 2)"
  "bgf ''free_inodes_count_hi'' = (46, 2)"
  "bgf ''used_dirs_count_hi'' = (48, 2)"
  "bgf ''itable_unused_hi'' = (50, 2)"
  "bgf ''exclude_bitmap_hi'' = (52, 4)"
  "bgf ''block_bitmap_csum_hi'' = (56, 2)"
  "bgf ''inode_bitmap_csum_hi'' = (58, 2)"
  "bgf ''reserved'' = (60, 4)"
  by (simp_all add: ext4_bgroup_def)

lemma inode_fields [simp]:
  "inof ''mode'' = (0, 2)"
  "inof ''uid'' = (2, 2)"
  "inof ''size_lo'' = (4, 4)"
  "inof ''access_time'' = (8, 4)"
  "inof ''change_inode_time'' = (12, 4)"
  "inof ''modification_time'' = (16, 4)"
  "inof ''deletion_time'' = (20, 4)"
  "inof ''gid'' = (24, 2)"
  "inof ''links_count'' = (26, 2)"
  "inof ''blocks_count_lo'' = (28, 4)"
  "inof ''flags'' = (32, 4)"
  "inof ''unused_osd1'' = (36, 4)"
  "inof ''blocks'' = (40, 60)"
  "inof ''generation'' = (100, 4)"
  "inof ''file_acl_lo'' = (104, 4)"
  "inof ''size_hi'' = (108, 4)"
  "inof ''obso_faddr'' = (112, 4)"
  "inof ''osd2'' = (116, 12)"
  "inof ''extra_isize'' = (128, 2)"
  "inof ''checksum_hi'' = (130, 2)"
  "inof ''ctime_extra'' = (132, 4)"
  "inof ''mtime_extra'' = (136, 4)"
  "inof ''atime_extra'' = (140, 4)"
  "inof ''crtime'' = (144, 4)"
  "inof ''crtime_extra'' = (148, 4)"
  "inof ''version_hi'' = (152, 4)"
  by (simp_all add: ext4_inode_def inode_block_defs layout_size_def osd2_linux2_def osd2_hurd2_def)

lemma osd2_fields [simp]:
  "fld osd2_linux2 ''blocks_high'' = (0, 2)"
  "fld osd2_linux2 ''file_acl_high'' = (2, 2)"
  "fld osd2_linux2 ''checksum_lo'' = (8, 2)"
  "fld osd2_hurd2 ''mode_high'' = (2, 2)"
  by (simp_all add: osd2_linux2_def osd2_hurd2_def)

lemma sub_fld_pair [simp]: "sub_fld (a, b) (c, e) = (a + c, e)"
  by (simp add: sub_fld_def)

lemma layout_sizes:
  "layout_size ext4_sblock = 1024" "layout_size ext4_bgroup = 64" "layout_size ext4_inode = 156"
  by (simp_all add: layout_size_def ext4_sblock_def ext4_bgroup_def ext4_inode_def inode_block_defs osd2_linux2_def osd2_hurd2_def)



end
