(* ===== verification/XV_Ext4_Crc.thy ===== *)
theory XV_Ext4_Crc
  imports XV_Prelude
begin

section \<open>Checksums of the ext4 file system\<close>

text \<open>
  \<^verbatim>\<open>kernel/fs/ext4_crc32.c\<close>: the table-driven CRC-32 and CRC-32C, and the CRC-16 of
  \<^verbatim>\<open>kernel/fs/ext4_block_group.c\<close>, over the bytes at \<^verbatim>\<open>buf\<close>
  (the list \<open>p\<close> has the \<^verbatim>\<open>size\<close> bytes).  The lemmas relate them to the bit-serial definition of
  a reflected CRC with the polynomials the comments name.
\<close>

definition crc32_tab :: "u32 list" where
  "crc32_tab =
    [0x00000000, 0x77073096, 0xee0e612c, 0x990951ba, 0x076dc419, 0x706af48f, 0xe963a535, 0x9e6495a3,
     0x0edb8832, 0x79dcb8a4, 0xe0d5e91e, 0x97d2d988, 0x09b64c2b, 0x7eb17cbd, 0xe7b82d07, 0x90bf1d91,
     0x1db71064, 0x6ab020f2, 0xf3b97148, 0x84be41de, 0x1adad47d, 0x6ddde4eb, 0xf4d4b551, 0x83d385c7,
     0x136c9856, 0x646ba8c0, 0xfd62f97a, 0x8a65c9ec, 0x14015c4f, 0x63066cd9, 0xfa0f3d63, 0x8d080df5,
     0x3b6e20c8, 0x4c69105e, 0xd56041e4, 0xa2677172, 0x3c03e4d1, 0x4b04d447, 0xd20d85fd, 0xa50ab56b,
     0x35b5a8fa, 0x42b2986c, 0xdbbbc9d6, 0xacbcf940, 0x32d86ce3, 0x45df5c75, 0xdcd60dcf, 0xabd13d59,
     0x26d930ac, 0x51de003a, 0xc8d75180, 0xbfd06116, 0x21b4f4b5, 0x56b3c423, 0xcfba9599, 0xb8bda50f,
     0x2802b89e, 0x5f058808, 0xc60cd9b2, 0xb10be924, 0x2f6f7c87, 0x58684c11, 0xc1611dab, 0xb6662d3d,
     0x76dc4190, 0x01db7106, 0x98d220bc, 0xefd5102a, 0x71b18589, 0x06b6b51f, 0x9fbfe4a5, 0xe8b8d433,
     0x7807c9a2, 0x0f00f934, 0x9609a88e, 0xe10e9818, 0x7f6a0dbb, 0x086d3d2d, 0x91646c97, 0xe6635c01,
     0x6b6b51f4, 0x1c6c6162, 0x856530d8, 0xf262004e, 0x6c0695ed, 0x1b01a57b, 0x8208f4c1, 0xf50fc457,
     0x65b0d9c6, 0x12b7e950, 0x8bbeb8ea, 0xfcb9887c, 0x62dd1ddf, 0x15da2d49, 0x8cd37cf3, 0xfbd44c65,
     0x4db26158, 0x3ab551ce, 0xa3bc0074, 0xd4bb30e2, 0x4adfa541, 0x3dd895d7, 0xa4d1c46d, 0xd3d6f4fb,
     0x4369e96a, 0x346ed9fc, 0xad678846, 0xda60b8d0, 0x44042d73, 0x33031de5, 0xaa0a4c5f, 0xdd0d7cc9,
     0x5005713c, 0x270241aa, 0xbe0b1010, 0xc90c2086, 0x5768b525, 0x206f85b3, 0xb966d409, 0xce61e49f,
     0x5edef90e, 0x29d9c998, 0xb0d09822, 0xc7d7a8b4, 0x59b33d17, 0x2eb40d81, 0xb7bd5c3b, 0xc0ba6cad,
     0xedb88320, 0x9abfb3b6, 0x03b6e20c, 0x74b1d29a, 0xead54739, 0x9dd277af, 0x04db2615, 0x73dc1683,
     0xe3630b12, 0x94643b84, 0x0d6d6a3e, 0x7a6a5aa8, 0xe40ecf0b, 0x9309ff9d, 0x0a00ae27, 0x7d079eb1,
     0xf00f9344, 0x8708a3d2, 0x1e01f268, 0x6906c2fe, 0xf762575d, 0x806567cb, 0x196c3671, 0x6e6b06e7,
     0xfed41b76, 0x89d32be0, 0x10da7a5a, 0x67dd4acc, 0xf9b9df6f, 0x8ebeeff9, 0x17b7be43, 0x60b08ed5,
     0xd6d6a3e8, 0xa1d1937e, 0x38d8c2c4, 0x4fdff252, 0xd1bb67f1, 0xa6bc5767, 0x3fb506dd, 0x48b2364b,
     0xd80d2bda, 0xaf0a1b4c, 0x36034af6, 0x41047a60, 0xdf60efc3, 0xa867df55, 0x316e8eef, 0x4669be79,
     0xcb61b38c, 0xbc66831a, 0x256fd2a0, 0x5268e236, 0xcc0c7795, 0xbb0b4703, 0x220216b9, 0x5505262f,
     0xc5ba3bbe, 0xb2bd0b28, 0x2bb45a92, 0x5cb36a04, 0xc2d7ffa7, 0xb5d0cf31, 0x2cd99e8b, 0x5bdeae1d,
     0x9b64c2b0, 0xec63f226, 0x756aa39c, 0x026d930a, 0x9c0906a9, 0xeb0e363f, 0x72076785, 0x05005713,
     0x95bf4a82, 0xe2b87a14, 0x7bb12bae, 0x0cb61b38, 0x92d28e9b, 0xe5d5be0d, 0x7cdcefb7, 0x0bdbdf21,
     0x86d3d2d4, 0xf1d4e242, 0x68ddb3f8, 0x1fda836e, 0x81be16cd, 0xf6b9265b, 0x6fb077e1, 0x18b74777,
     0x88085ae6, 0xff0f6a70, 0x66063bca, 0x11010b5c, 0x8f659eff, 0xf862ae69, 0x616bffd3, 0x166ccf45,
     0xa00ae278, 0xd70dd2ee, 0x4e048354, 0x3903b3c2, 0xa7672661, 0xd06016f7, 0x4969474d, 0x3e6e77db,
     0xaed16a4a, 0xd9d65adc, 0x40df0b66, 0x37d83bf0, 0xa9bcae53, 0xdebb9ec5, 0x47b2cf7f, 0x30b5ffe9,
     0xbdbdf21c, 0xcabac28a, 0x53b39330, 0x24b4a3a6, 0xbad03605, 0xcdd70693, 0x54de5729, 0x23d967bf,
     0xb3667a2e, 0xc4614ab8, 0x5d681b02, 0x2a6f2b94, 0xb40bbe37, 0xc30c8ea1, 0x5a05df1b, 0x2d02ef8d]"

definition crc32c_tab :: "u32 list" where
  "crc32c_tab =
    [0x00000000, 0xf26b8303, 0xe13b70f7, 0x1350f3f4, 0xc79a971f, 0x35f1141c, 0x26a1e7e8, 0xd4ca64eb,
     0x8ad958cf, 0x78b2dbcc, 0x6be22838, 0x9989ab3b, 0x4d43cfd0, 0xbf284cd3, 0xac78bf27, 0x5e133c24,
     0x105ec76f, 0xe235446c, 0xf165b798, 0x030e349b, 0xd7c45070, 0x25afd373, 0x36ff2087, 0xc494a384,
     0x9a879fa0, 0x68ec1ca3, 0x7bbcef57, 0x89d76c54, 0x5d1d08bf, 0xaf768bbc, 0xbc267848, 0x4e4dfb4b,
     0x20bd8ede, 0xd2d60ddd, 0xc186fe29, 0x33ed7d2a, 0xe72719c1, 0x154c9ac2, 0x061c6936, 0xf477ea35,
     0xaa64d611, 0x580f5512, 0x4b5fa6e6, 0xb93425e5, 0x6dfe410e, 0x9f95c20d, 0x8cc531f9, 0x7eaeb2fa,
     0x30e349b1, 0xc288cab2, 0xd1d83946, 0x23b3ba45, 0xf779deae, 0x05125dad, 0x1642ae59, 0xe4292d5a,
     0xba3a117e, 0x4851927d, 0x5b016189, 0xa96ae28a, 0x7da08661, 0x8fcb0562, 0x9c9bf696, 0x6ef07595,
     0x417b1dbc, 0xb3109ebf, 0xa0406d4b, 0x522bee48, 0x86e18aa3, 0x748a09a0, 0x67dafa54, 0x95b17957,
     0xcba24573, 0x39c9c670, 0x2a993584, 0xd8f2b687, 0x0c38d26c, 0xfe53516f, 0xed03a29b, 0x1f682198,
     0x5125dad3, 0xa34e59d0, 0xb01eaa24, 0x42752927, 0x96bf4dcc, 0x64d4cecf, 0x77843d3b, 0x85efbe38,
     0xdbfc821c, 0x2997011f, 0x3ac7f2eb, 0xc8ac71e8, 0x1c661503, 0xee0d9600, 0xfd5d65f4, 0x0f36e6f7,
     0x61c69362, 0x93ad1061, 0x80fde395, 0x72966096, 0xa65c047d, 0x5437877e, 0x4767748a, 0xb50cf789,
     0xeb1fcbad, 0x197448ae, 0x0a24bb5a, 0xf84f3859, 0x2c855cb2, 0xdeeedfb1, 0xcdbe2c45, 0x3fd5af46,
     0x7198540d, 0x83f3d70e, 0x90a324fa, 0x62c8a7f9, 0xb602c312, 0x44694011, 0x5739b3e5, 0xa55230e6,
     0xfb410cc2, 0x092a8fc1, 0x1a7a7c35, 0xe811ff36, 0x3cdb9bdd, 0xceb018de, 0xdde0eb2a, 0x2f8b6829,
     0x82f63b78, 0x709db87b, 0x63cd4b8f, 0x91a6c88c, 0x456cac67, 0xb7072f64, 0xa457dc90, 0x563c5f93,
     0x082f63b7, 0xfa44e0b4, 0xe9141340, 0x1b7f9043, 0xcfb5f4a8, 0x3dde77ab, 0x2e8e845f, 0xdce5075c,
     0x92a8fc17, 0x60c37f14, 0x73938ce0, 0x81f80fe3, 0x55326b08, 0xa759e80b, 0xb4091bff, 0x466298fc,
     0x1871a4d8, 0xea1a27db, 0xf94ad42f, 0x0b21572c, 0xdfeb33c7, 0x2d80b0c4, 0x3ed04330, 0xccbbc033,
     0xa24bb5a6, 0x502036a5, 0x4370c551, 0xb11b4652, 0x65d122b9, 0x97baa1ba, 0x84ea524e, 0x7681d14d,
     0x2892ed69, 0xdaf96e6a, 0xc9a99d9e, 0x3bc21e9d, 0xef087a76, 0x1d63f975, 0x0e330a81, 0xfc588982,
     0xb21572c9, 0x407ef1ca, 0x532e023e, 0xa145813d, 0x758fe5d6, 0x87e466d5, 0x94b49521, 0x66df1622,
     0x38cc2a06, 0xcaa7a905, 0xd9f75af1, 0x2b9cd9f2, 0xff56bd19, 0x0d3d3e1a, 0x1e6dcdee, 0xec064eed,
     0xc38d26c4, 0x31e6a5c7, 0x22b65633, 0xd0ddd530, 0x0417b1db, 0xf67c32d8, 0xe52cc12c, 0x1747422f,
     0x49547e0b, 0xbb3ffd08, 0xa86f0efc, 0x5a048dff, 0x8ecee914, 0x7ca56a17, 0x6ff599e3, 0x9d9e1ae0,
     0xd3d3e1ab, 0x21b862a8, 0x32e8915c, 0xc083125f, 0x144976b4, 0xe622f5b7, 0xf5720643, 0x07198540,
     0x590ab964, 0xab613a67, 0xb831c993, 0x4a5a4a90, 0x9e902e7b, 0x6cfbad78, 0x7fab5e8c, 0x8dc0dd8f,
     0xe330a81a, 0x115b2b19, 0x020bd8ed, 0xf0605bee, 0x24aa3f05, 0xd6c1bc06, 0xc5914ff2, 0x37faccf1,
     0x69e9f0d5, 0x9b8273d6, 0x88d28022, 0x7ab90321, 0xae7367ca, 0x5c18e4c9, 0x4f48173d, 0xbd23943e,
     0xf36e6f75, 0x0105ec76, 0x12551f82, 0xe03e9c81, 0x34f4f86a, 0xc69f7b69, 0xd5cf889d, 0x27a40b9e,
     0x79b737ba, 0x8bdcb4b9, 0x988c474d, 0x6ae7c44e, 0xbe2da0a5, 0x4c4623a6, 0x5f16d052, 0xad7d5351]"

fun crc32 :: "u32 \<Rightarrow> u8 list \<Rightarrow> u32 list \<Rightarrow> u32" where
  "crc32 crc [] tab = crc"
| "crc32 crc (b # p) tab = crc32 (tab ! unat ((crc XOR ucast b) AND 0xFF) XOR drop_bit 8 crc) p tab"

definition ext4_crc32 :: "u32 \<Rightarrow> u8 list \<Rightarrow> u32" where
  "ext4_crc32 crc buf = crc32 crc buf crc32_tab"

definition ext4_crc32c :: "u32 \<Rightarrow> u8 list \<Rightarrow> u32" where
  "ext4_crc32c crc buf = crc32 crc buf crc32c_tab"

text \<open>\<^verbatim>\<open>fs/ext4_block_group.c\<close>: the CRC-16 of block group descriptors.\<close>

definition crc16_tab :: "16 word list" where
  "crc16_tab =
    [0x0000, 0xC0C1, 0xC181, 0x0140, 0xC301, 0x03C0, 0x0280, 0xC241, 0xC601, 0x06C0, 0x0780, 0xC741,
     0x0500, 0xC5C1, 0xC481, 0x0440, 0xCC01, 0x0CC0, 0x0D80, 0xCD41, 0x0F00, 0xCFC1, 0xCE81, 0x0E40,
     0x0A00, 0xCAC1, 0xCB81, 0x0B40, 0xC901, 0x09C0, 0x0880, 0xC841, 0xD801, 0x18C0, 0x1980, 0xD941,
     0x1B00, 0xDBC1, 0xDA81, 0x1A40, 0x1E00, 0xDEC1, 0xDF81, 0x1F40, 0xDD01, 0x1DC0, 0x1C80, 0xDC41,
     0x1400, 0xD4C1, 0xD581, 0x1540, 0xD701, 0x17C0, 0x1680, 0xD641, 0xD201, 0x12C0, 0x1380, 0xD341,
     0x1100, 0xD1C1, 0xD081, 0x1040, 0xF001, 0x30C0, 0x3180, 0xF141, 0x3300, 0xF3C1, 0xF281, 0x3240,
     0x3600, 0xF6C1, 0xF781, 0x3740, 0xF501, 0x35C0, 0x3480, 0xF441, 0x3C00, 0xFCC1, 0xFD81, 0x3D40,
     0xFF01, 0x3FC0, 0x3E80, 0xFE41, 0xFA01, 0x3AC0, 0x3B80, 0xFB41, 0x3900, 0xF9C1, 0xF881, 0x3840,
     0x2800, 0xE8C1, 0xE981, 0x2940, 0xEB01, 0x2BC0, 0x2A80, 0xEA41, 0xEE01, 0x2EC0, 0x2F80, 0xEF41,
     0x2D00, 0xEDC1, 0xEC81, 0x2C40, 0xE401, 0x24C0, 0x2580, 0xE541, 0x2700, 0xE7C1, 0xE681, 0x2640,
     0x2200, 0xE2C1, 0xE381, 0x2340, 0xE101, 0x21C0, 0x2080, 0xE041, 0xA001, 0x60C0, 0x6180, 0xA141,
     0x6300, 0xA3C1, 0xA281, 0x6240, 0x6600, 0xA6C1, 0xA781, 0x6740, 0xA501, 0x65C0, 0x6480, 0xA441,
     0x6C00, 0xACC1, 0xAD81, 0x6D40, 0xAF01, 0x6FC0, 0x6E80, 0xAE41, 0xAA01, 0x6AC0, 0x6B80, 0xAB41,
     0x6900, 0xA9C1, 0xA881, 0x6840, 0x7800, 0xB8C1, 0xB981, 0x7940, 0xBB01, 0x7BC0, 0x7A80, 0xBA41,
     0xBE01, 0x7EC0, 0x7F80, 0xBF41, 0x7D00, 0xBDC1, 0xBC81, 0x7C40, 0xB401, 0x74C0, 0x7580, 0xB541,
     0x7700, 0xB7C1, 0xB681, 0x7640, 0x7200, 0xB2C1, 0xB381, 0x7340, 0xB101, 0x71C0, 0x7080, 0xB041,
     0x5000, 0x90C1, 0x9181, 0x5140, 0x9301, 0x53C0, 0x5280, 0x9241, 0x9601, 0x56C0, 0x5780, 0x9741,
     0x5500, 0x95C1, 0x9481, 0x5440, 0x9C01, 0x5CC0, 0x5D80, 0x9D41, 0x5F00, 0x9FC1, 0x9E81, 0x5E40,
     0x5A00, 0x9AC1, 0x9B81, 0x5B40, 0x9901, 0x59C0, 0x5880, 0x9841, 0x8801, 0x48C0, 0x4980, 0x8941,
     0x4B00, 0x8BC1, 0x8A81, 0x4A40, 0x4E00, 0x8EC1, 0x8F81, 0x4F40, 0x8D01, 0x4DC0, 0x4C80, 0x8C41,
     0x4400, 0x84C1, 0x8581, 0x4540, 0x8701, 0x47C0, 0x4680, 0x8641, 0x8201, 0x42C0, 0x4380, 0x8341,
     0x4100, 0x81C1, 0x8081, 0x4040]"

fun ext4_bg_crc16 :: "16 word \<Rightarrow> u8 list \<Rightarrow> 16 word" where
  "ext4_bg_crc16 crc [] = crc"
| "ext4_bg_crc16 crc (b # buffer) =
     ext4_bg_crc16 (((drop_bit 8 crc AND 0xFF) XOR crc16_tab ! unat ((crc XOR ucast b) AND 0xFF)) AND 0xFFFF) buffer"

subsection \<open>The bit-serial definition\<close>

definition crc_shift :: "'a::len word \<Rightarrow> 'a word \<Rightarrow> 'a word" where
  "crc_shift poly c = (if bit c 0 then drop_bit 1 c XOR poly else drop_bit 1 c)"

fun crc_serial :: "'a::len word \<Rightarrow> 'a word \<Rightarrow> u8 list \<Rightarrow> 'a word" where
  "crc_serial poly crc [] = crc"
| "crc_serial poly crc (b # p) = crc_serial poly ((crc_shift poly ^^ 8) (crc XOR ucast b)) p"

lemma crc_shift_push:
  fixes y :: "'a::len word"
  assumes "\<not> bit y (LENGTH('a) - 1)"
  shows "crc_shift poly (x XOR push_bit 1 y) = crc_shift poly x XOR y"
proof -
  have "drop_bit 1 (push_bit 1 y) = y"
  proof (rule bit_word_eqI)
    fix n assume "n < LENGTH('a)"
    then show "bit (drop_bit 1 (push_bit 1 y)) n = bit y n"
      using assms by (cases "n = LENGTH('a) - 1") (simp_all only: bit_drop_bit_eq comp_apply bit_push_bit_iff, auto dest: bit_imp_le_length)
  qed
  moreover have "\<not> bit (push_bit 1 y) 0" by (simp only: bit_push_bit_iff) simp
  ultimately show ?thesis
    by (simp only: crc_shift_def bit_xor_iff drop_bit_xor) (simp add: ac_simps)
qed

lemma crc_shift_pushes:
  fixes x y :: "'a::len word"
  shows "n \<le> 8 \<Longrightarrow> (crc_shift poly ^^ n) (x XOR push_bit n (drop_bit 8 y)) = (crc_shift poly ^^ n) x XOR drop_bit 8 y"
proof (induction n arbitrary: x)
  case (Suc n)
  let ?z = "push_bit n (drop_bit 8 y)"
  have "\<not> bit ?z (LENGTH('a) - 1)" using Suc.prems by (auto simp: bit_simps dest: bit_imp_le_length)
  then have "crc_shift poly (x XOR push_bit (Suc n) (drop_bit 8 y)) = crc_shift poly x XOR ?z"
    using crc_shift_push [of ?z poly x] by simp
  then show ?case using Suc by (simp add: funpow_Suc_right del: funpow.simps)
qed simp

lemma and_FF: "(x :: 'a::len word) AND 0xFF = take_bit 8 x"
  by (simp add: take_bit_eq_mask mask_eq_exp_minus_1)

lemma low_high: "(x :: 'a::len word) = (x AND 0xFF) XOR push_bit 8 (drop_bit 8 x)"
  unfolding and_FF by (rule bit_word_eqI) (auto simp: bit_simps)

lemma crc_byte: "(crc_shift poly ^^ 8) x = (crc_shift poly ^^ 8) (x AND 0xFF) XOR drop_bit 8 x"
  using crc_shift_pushes [of 8 poly "x AND 0xFF" x] low_high [of x] by simp

text \<open>A table of 256 entries that holds the bit-serial result of every byte.\<close>

definition crc_table :: "'a::len word \<Rightarrow> 'a word list \<Rightarrow> bool" where
  "crc_table poly tab \<longleftrightarrow> tab = map (\<lambda>i. (crc_shift poly ^^ 8) (of_nat i)) [0..<256]"

lemma crc_table_nth:
  assumes "crc_table poly tab"
  shows "tab ! unat (x AND 0xFF) = (crc_shift poly ^^ 8) (x AND 0xFF)"
proof -
  have "unat (x AND 0xFF) < 256" using take_bit_nat_less_exp [of 8 "unat x"] by (simp add: and_FF unsigned_take_bit_eq)
  then show ?thesis using assms by (simp add: crc_table_def)
qed

lemma crc32_serial:
  assumes "crc_table poly tab"
  shows "crc32 crc p tab = crc_serial poly crc p"
proof (induction p arbitrary: crc)
  case (Cons b p)
  have "drop_bit 8 (crc XOR ucast b) = drop_bit 8 crc"
    by (rule bit_word_eqI) (auto simp: bit_simps dest: bit_imp_le_length)
  then show ?case
    using Cons crc_byte [of poly "crc XOR ucast b"] by (simp add: crc_table_nth [OF assms])
qed simp

text \<open>The bit-serial step is linear, so a table is determined by its entries at the powers of two.\<close>

lemma crc_shift_xor: "crc_shift poly (x XOR y) = crc_shift poly x XOR crc_shift poly y"
  by (simp add: crc_shift_def bit_xor_iff drop_bit_xor ac_simps)

lemma crc_shifts_xor: "(crc_shift poly ^^ n) (x XOR y) = (crc_shift poly ^^ n) x XOR (crc_shift poly ^^ n) y"
  by (induction n arbitrary: x y) (simp_all add: crc_shift_xor)

lemma of_nat_power_add:
  assumes "i < 2 ^ k" "k < LENGTH('a)"
  shows "(of_nat (2 ^ k + i) :: 'a::len word) = of_nat (2 ^ k) XOR of_nat i"
proof -
  have "\<not> bit (of_nat i :: 'a word) k" using assms bit_take_bit_iff [of k i k] by (simp add: bit_of_nat_iff take_bit_nat_eq_self)
  then have "(of_nat (2 ^ k) :: 'a word) AND of_nat i = 0"
    by (intro bit_word_eqI) (auto simp: bit_simps)
  then show ?thesis by (simp add: disjunctive_add_eq_xor)
qed

fun crc_tab_of :: "(nat \<Rightarrow> 'a::len word) \<Rightarrow> nat \<Rightarrow> 'a word list" where
  "crc_tab_of e 0 = [0]"
| "crc_tab_of e (Suc k) = crc_tab_of e k @ map ((XOR) (e k)) (crc_tab_of e k)"

lemma crc_tab_of_shifts:
  fixes poly :: "'a::len word"
  shows "k \<le> LENGTH('a) \<Longrightarrow> crc_tab_of (\<lambda>k. (crc_shift poly ^^ n) (2 ^ k)) k = map (\<lambda>i. (crc_shift poly ^^ n) (of_nat i)) [0..<2 ^ k]"
proof (induction k)
  case 0
  have "(crc_shift poly ^^ n) 0 = 0" by (induction n) (simp_all add: crc_shift_def)
  then show ?case by simp
next
  case (Suc k)
  let ?f = "\<lambda>i. (crc_shift poly ^^ n) (of_nat i)"
  have "map ?f [2 ^ k..<2 ^ Suc k] = map (\<lambda>i. ?f (2 ^ k + i)) [0..<2 ^ k]"
    by (rule nth_equalityI) auto
  also have "\<dots> = map (\<lambda>i. (crc_shift poly ^^ n) (2 ^ k) XOR ?f i) [0..<2 ^ k]"
    using Suc.prems of_nat_power_add [of _ k, where ?'a = 'a] by (auto simp: crc_shifts_xor)
  finally have "map ?f [0..<2 ^ Suc k] = map ?f [0..<2 ^ k] @ map (\<lambda>i. (crc_shift poly ^^ n) (2 ^ k) XOR ?f i) [0..<2 ^ k]"
    using upt_add_eq_append [of 0 "2 ^ k" "2 ^ k"] by (simp add: mult_2)
  then show ?case using Suc by (simp add: comp_def)
qed

lemma crc_table_of:
  fixes poly :: "'a::len word"
  assumes "8 \<le> LENGTH('a)" and "tab = crc_tab_of (\<lambda>k. (crc_shift poly ^^ 8) (2 ^ k)) 8"
  shows "crc_table poly tab"
  using assms crc_tab_of_shifts [where ?k = 8 and ?n = 8 and ?poly = poly] by (simp add: crc_table_def)

lemma funpow_8: "(f ^^ 8) x = f (f (f (f (f (f (f (f x)))))))"
  by (simp add: eval_nat_numeral)

lemma crc_tab_of_8:
  "crc_tab_of e 8 = (let t = [0]; t = t @ map ((XOR) (e 0)) t; t = t @ map ((XOR) (e 1)) t; t = t @ map ((XOR) (e 2)) t;
     t = t @ map ((XOR) (e 3)) t; t = t @ map ((XOR) (e 4)) t; t = t @ map ((XOR) (e 5)) t; t = t @ map ((XOR) (e 6)) t
     in t @ map ((XOR) (e 7)) t)"
  by (simp add: eval_nat_numeral Let_def)

lemma crc32_table: "crc_table 0xEDB88320 crc32_tab"
  by (rule crc_table_of, simp, unfold crc_tab_of_8 funpow_8) (simp add: crc_shift_def crc32_tab_def Let_def)

lemma crc32c_table: "crc_table 0x82F63B78 crc32c_tab"
  by (rule crc_table_of, simp, unfold crc_tab_of_8 funpow_8) (simp add: crc_shift_def crc32c_tab_def Let_def)

lemma crc16_table: "crc_table 0xA001 crc16_tab"
  by (rule crc_table_of, simp, unfold crc_tab_of_8 funpow_8) (simp add: crc_shift_def crc16_tab_def Let_def)

lemma crc16_serial: "ext4_bg_crc16 crc p = crc_serial 0xA001 crc p"
proof (induction p arbitrary: crc)
  case (Cons b p)
  have "drop_bit 8 crc AND 0xFF = drop_bit 8 (crc XOR ucast b)"
    unfolding and_FF by (rule bit_word_eqI) (auto simp: bit_simps dest: bit_imp_le_length)
  moreover have "(x :: 16 word) AND 0xFFFF = x" for x
  proof -
    have "(0xFFFF :: 16 word) = - 1" by simp
    then show ?thesis by (simp only: and.right_neutral)
  qed
  ultimately show ?case
    using Cons crc_byte [of "0xA001" "crc XOR ucast b"] by (simp add: crc_table_nth [OF crc16_table] xor.commute)
qed simp

text \<open>
  C29: the table-driven checksums are the bit-serial CRCs of the reflected polynomials of CRC-32,
  CRC-32C and CRC-16, for every initial value and all bytes; so the three tables have no wrong entry.
\<close>

theorem crc32_is_bit_serial:
  "ext4_crc32 crc buf = crc_serial 0xEDB88320 crc buf \<and> ext4_crc32c crc buf = crc_serial 0x82F63B78 crc buf
   \<and> ext4_bg_crc16 crc' buf = crc_serial 0xA001 crc' buf"
  by (simp add: ext4_crc32_def ext4_crc32c_def crc32_serial [OF crc32_table] crc32_serial [OF crc32c_table] crc16_serial)

end
