(* ===== verification/XV_Ext4_Super.thy ===== *)
theory XV_Ext4_Super
  imports XV_Ext4_Layout XV_Ext4_Crc
begin

text \<open>
  The superblock of ext4 (\<^verbatim>\<open>include/ext4_super.h\<close>, \<^verbatim>\<open>fs/ext4_super.c\<close>) without its transfer
  to and from the disk, which is in the theory of the block device.

  A shift by 32 or more and a division by zero, both undefined in C, are \<open>None\<close>.
\<close>

subsection \<open>Constants\<close>

definition EXT4_SUPERBLOCK_MAGIC :: u16 where "EXT4_SUPERBLOCK_MAGIC = 0xEF53"
definition EXT4_SUPERBLOCK_SIZE :: nat where "EXT4_SUPERBLOCK_SIZE = 1024"
definition EXT4_SUPERBLOCK_OFFSET :: u64 where "EXT4_SUPERBLOCK_OFFSET = 1024"
definition EXT4_SUPERBLOCK_OS_LINUX :: u32 where "EXT4_SUPERBLOCK_OS_LINUX = 0"
definition EXT4_SUPERBLOCK_OS_HURD :: u32 where "EXT4_SUPERBLOCK_OS_HURD = 1"
definition EXT4_CHECKSUM_CRC32C :: u32 where "EXT4_CHECKSUM_CRC32C = 1"
definition EXT4_CRC32_INIT :: u32 where "EXT4_CRC32_INIT = 0xFFFFFFFF"
definition EXT4_FRO_COM_SPARSE_SUPER :: u32 where "EXT4_FRO_COM_SPARSE_SUPER = 0x0001"
definition EXT4_FRO_COM_HUGE_FILE :: u32 where "EXT4_FRO_COM_HUGE_FILE = 0x0008"
definition EXT4_FRO_COM_METADATA_CSUM :: u32 where "EXT4_FRO_COM_METADATA_CSUM = 0x0400"
definition EXT4_FINCOM_META_BG :: u32 where "EXT4_FINCOM_META_BG = 0x0010"
definition EXT4_MIN_BLOCK_GROUP_DESCRIPTOR_SIZE :: u16 where "EXT4_MIN_BLOCK_GROUP_DESCRIPTOR_SIZE = 32"
definition EXT4_MAX_BLOCK_GROUP_DESCRIPTOR_SIZE :: u16 where "EXT4_MAX_BLOCK_GROUP_DESCRIPTOR_SIZE = 64"

lemmas ext4_consts = EXT4_SUPERBLOCK_MAGIC_def EXT4_SUPERBLOCK_SIZE_def EXT4_SUPERBLOCK_OFFSET_def
  EXT4_SUPERBLOCK_OS_LINUX_def EXT4_SUPERBLOCK_OS_HURD_def EXT4_CHECKSUM_CRC32C_def EXT4_CRC32_INIT_def
  EXT4_FRO_COM_SPARSE_SUPER_def EXT4_FRO_COM_HUGE_FILE_def EXT4_FRO_COM_METADATA_CSUM_def EXT4_FINCOM_META_BG_def
  EXT4_MIN_BLOCK_GROUP_DESCRIPTOR_SIZE_def EXT4_MAX_BLOCK_GROUP_DESCRIPTOR_SIZE_def

definition shl32 :: "u32 \<Rightarrow> u32 \<Rightarrow> u32 option" where
  "shl32 x n = (if n < 32 then Some (push_bit (unat n) x) else None)"

definition shr32 :: "u32 \<Rightarrow> u32 \<Rightarrow> u32 option" where
  "shr32 x n = (if n < 32 then Some (drop_bit (unat n) x) else None)"

definition div32 :: "u32 \<Rightarrow> u32 \<Rightarrow> u32 option" where
  "div32 x y = (if y = 0 then None else Some (x div y))"

subsection \<open>Members of the superblock\<close>

definition ext4_sb_get_blocks_cnt :: "u8 list \<Rightarrow> u64" where
  "ext4_sb_get_blocks_cnt s = push_bit 32 (getf (sbf ''blocks_count_hi'') s) OR getf (sbf ''blocks_count_lo'') s"

definition ext4_sb_set_blocks_cnt :: "u8 list \<Rightarrow> u64 \<Rightarrow> u8 list" where
  "ext4_sb_set_blocks_cnt s cnt =
     (let s = putf (sbf ''blocks_count_lo'') (drop_bit 32 (push_bit 32 cnt)) s
      in putf (sbf ''blocks_count_hi'') (drop_bit 32 cnt) s)"

definition ext4_sb_get_free_blocks_cnt :: "u8 list \<Rightarrow> u64" where
  "ext4_sb_get_free_blocks_cnt s = push_bit 32 (getf (sbf ''free_blocks_count_hi'') s) OR getf (sbf ''free_blocks_count_lo'') s"

definition ext4_sb_set_free_blocks_cnt :: "u8 list \<Rightarrow> u64 \<Rightarrow> u8 list" where
  "ext4_sb_set_free_blocks_cnt s cnt =
     (let s = putf (sbf ''free_blocks_count_lo'') (drop_bit 32 (push_bit 32 cnt)) s
      in putf (sbf ''free_blocks_count_hi'') (drop_bit 32 cnt) s)"

definition ext4_sb_get_block_size :: "u8 list \<Rightarrow> u32 option" where
  "ext4_sb_get_block_size s = shl32 1024 (getf (sbf ''log_block_size'') s)"

definition ext4_sb_get_desc_size :: "u8 list \<Rightarrow> u16" where
  "ext4_sb_get_desc_size s =
     (let size = getf (sbf ''desc_size'') s
      in if size < EXT4_MIN_BLOCK_GROUP_DESCRIPTOR_SIZE then EXT4_MIN_BLOCK_GROUP_DESCRIPTOR_SIZE else size)"

definition ext4_sb_check_flag :: "u8 list \<Rightarrow> u32 \<Rightarrow> bool" where
  "ext4_sb_check_flag s v \<longleftrightarrow> getf (sbf ''flags'') s AND v \<noteq> 0"

definition ext4_sb_feature_com :: "u8 list \<Rightarrow> u32 \<Rightarrow> bool" where
  "ext4_sb_feature_com s v \<longleftrightarrow> getf (sbf ''features_compatible'') s AND v \<noteq> 0"

definition ext4_sb_feature_incom :: "u8 list \<Rightarrow> u32 \<Rightarrow> bool" where
  "ext4_sb_feature_incom s v \<longleftrightarrow> getf (sbf ''features_incompatible'') s AND v \<noteq> 0"

definition ext4_sb_feature_ro_com :: "u8 list \<Rightarrow> u32 \<Rightarrow> bool" where
  "ext4_sb_feature_ro_com s v \<longleftrightarrow> getf (sbf ''features_read_only'') s AND v \<noteq> 0"

definition ext4_sb_bg_to_flex :: "u8 list \<Rightarrow> u32 \<Rightarrow> u32 option" where
  "ext4_sb_bg_to_flex s block_group = shr32 block_group (getf (sbf ''log_groups_per_flex'') s)"

definition ext4_sb_flex_bg_size :: "u8 list \<Rightarrow> u32 option" where
  "ext4_sb_flex_bg_size s = shl32 1 (getf (sbf ''log_groups_per_flex'') s)"

definition ext4_sb_first_meta_bg :: "u8 list \<Rightarrow> u32" where
  "ext4_sb_first_meta_bg s = getf (sbf ''first_meta_bg'') s"

subsection \<open>Block groups\<close>

definition ext4_block_group_cnt :: "u8 list \<Rightarrow> u32 option" where
  "ext4_block_group_cnt s =
     (let blocks_count = ext4_sb_get_blocks_cnt s;
          blocks_per_group = getf (sbf ''blocks_per_group'') s :: u32
      in if blocks_per_group = 0 then None
         else let block_groups_count = ucast (blocks_count div ucast blocks_per_group)
              in Some (if blocks_count mod ucast blocks_per_group \<noteq> 0 then block_groups_count + 1 else block_groups_count))"

definition ext4_blocks_in_group_cnt :: "u8 list \<Rightarrow> u32 \<Rightarrow> u32 option" where
  "ext4_blocks_in_group_cnt s bgid = do {
     block_group_count \<leftarrow> ext4_block_group_cnt s;
     let blocks_per_group = (getf (sbf ''blocks_per_group'') s :: u32);
     let total_blocks = ext4_sb_get_blocks_cnt s;
     Some (if bgid < block_group_count - 1 then blocks_per_group
           else ucast (total_blocks - ucast ((block_group_count - 1) * blocks_per_group)))
   }"

definition ext4_inodes_in_group_cnt :: "u8 list \<Rightarrow> u32 \<Rightarrow> u32 option" where
  "ext4_inodes_in_group_cnt s bgid = do {
     block_group_count \<leftarrow> ext4_block_group_cnt s;
     let inodes_per_group = getf (sbf ''inodes_per_group'') s;
     let total_inodes = getf (sbf ''inodes_count'') s;
     Some (if bgid < block_group_count - 1 then inodes_per_group
           else total_inodes - (block_group_count - 1) * inodes_per_group)
   }"

subsection \<open>The checksum and the validation\<close>

definition ext4_sb_csum :: "u8 list \<Rightarrow> u32" where
  "ext4_sb_csum s = ext4_crc32c EXT4_CRC32_INIT (take (fst (sbf ''checksum'')) s)"

definition ext4_sb_verify_csum :: "u8 list \<Rightarrow> bool" where
  "ext4_sb_verify_csum s =
     (if \<not> ext4_sb_feature_ro_com s EXT4_FRO_COM_METADATA_CSUM then True
      else if getf (sbf ''checksum_type'') s \<noteq> EXT4_CHECKSUM_CRC32C then False
      else getf (sbf ''checksum'') s = ext4_sb_csum s)"

definition ext4_sb_set_csum :: "u8 list \<Rightarrow> u8 list" where
  "ext4_sb_set_csum s =
     (if \<not> ext4_sb_feature_ro_com s EXT4_FRO_COM_METADATA_CSUM then s
      else putf (sbf ''checksum'') (ext4_sb_csum s) s)"

definition ext4_sb_check :: "u8 list \<Rightarrow> bool" where
  "ext4_sb_check s =
     (if getf (sbf ''magic'') s \<noteq> EXT4_SUPERBLOCK_MAGIC then False
      else if (getf (sbf ''inodes_count'') s :: u32) = 0 then False
      else if ext4_sb_get_blocks_cnt s = 0 then False
      else if (getf (sbf ''blocks_per_group'') s :: u32) = 0 then False
      else if (getf (sbf ''inodes_per_group'') s :: u32) = 0 then False
      else if (getf (sbf ''inode_size'') s :: u16) < 128 then False
      else if (getf (sbf ''first_inode'') s :: u32) < 11 then False
      else if ext4_sb_get_desc_size s < EXT4_MIN_BLOCK_GROUP_DESCRIPTOR_SIZE then False
      else if ext4_sb_get_desc_size s > EXT4_MAX_BLOCK_GROUP_DESCRIPTOR_SIZE then False
      else if \<not> ext4_sb_verify_csum s then False
      else True)"

subsection \<open>Backup superblocks and group descriptor blocks\<close>

partial_function (option) is_power_of :: "u32 \<Rightarrow> u32 \<Rightarrow> bool option" where
  "is_power_of a b =
     (if a < b then Some False
      else if a = b then Some True
      else if b = 0 then None
      else if a mod b \<noteq> 0 then Some False
      else is_power_of (a div b) b)"

definition ext4_sb_sparse :: "u32 \<Rightarrow> bool option" where
  "ext4_sb_sparse grp =
     (if grp \<le> 1 then Some True
      else if grp AND 1 = 0 then Some False
      else do {
        p7 \<leftarrow> is_power_of grp 7;
        if p7 then Some True else do {
        p5 \<leftarrow> is_power_of grp 5;
        if p5 then Some True else is_power_of grp 3 }
      })"

definition ext4_sb_is_super_in_bg :: "u8 list \<Rightarrow> u32 \<Rightarrow> bool option" where
  "ext4_sb_is_super_in_bg s grp =
     (if ext4_sb_feature_ro_com s EXT4_FRO_COM_SPARSE_SUPER
      then do { sp \<leftarrow> ext4_sb_sparse grp; Some (if \<not> sp then False else True) }
      else Some True)"

definition dsc_per_block :: "u8 list \<Rightarrow> u32 option" where
  "dsc_per_block s = do { bs \<leftarrow> ext4_sb_get_block_size s; div32 bs (ucast (ext4_sb_get_desc_size s)) }"

definition ext4_bg_num_gdb_meta :: "u8 list \<Rightarrow> u32 \<Rightarrow> u32 option" where
  "ext4_bg_num_gdb_meta s grp = do {
     dpb \<leftarrow> dsc_per_block s;
     metagroup \<leftarrow> div32 grp dpb;
     let first = metagroup * dpb;
     let last = first + dpb - 1;
     Some (if grp = first \<or> grp = first + 1 \<or> grp = last then 1 else 0)
   }"

definition ext4_bg_num_gdb_nometa :: "u8 list \<Rightarrow> u32 \<Rightarrow> u32 option" where
  "ext4_bg_num_gdb_nometa s grp = do {
     sup \<leftarrow> ext4_sb_is_super_in_bg s grp;
     if \<not> sup then Some 0
     else do {
       dpb \<leftarrow> dsc_per_block s;
       cnt \<leftarrow> ext4_block_group_cnt s;
       db_count \<leftarrow> div32 (cnt + dpb - 1) dpb;
       Some (if ext4_sb_feature_incom s EXT4_FINCOM_META_BG then ext4_sb_first_meta_bg s else db_count)
     }
   }"

definition ext4_bg_num_gdb :: "u8 list \<Rightarrow> u32 \<Rightarrow> u32 option" where
  "ext4_bg_num_gdb s grp = do {
     dpb \<leftarrow> dsc_per_block s;
     let first_meta_bg = ext4_sb_first_meta_bg s;
     metagroup \<leftarrow> div32 grp dpb;
     if \<not> ext4_sb_feature_incom s EXT4_FINCOM_META_BG \<or> metagroup < first_meta_bg
     then ext4_bg_num_gdb_nometa s grp
     else ext4_bg_num_gdb_meta s grp
   }"

definition ext4_num_base_meta_clusters :: "u8 list \<Rightarrow> u32 \<Rightarrow> u32 option" where
  "ext4_num_base_meta_clusters s block_group = do {
     dpb \<leftarrow> dsc_per_block s;
     sup \<leftarrow> ext4_sb_is_super_in_bg s block_group;
     let num = (if sup then 1 else 0);
     num \<leftarrow> (if \<not> ext4_sb_feature_incom s EXT4_FINCOM_META_BG \<or> block_group < ext4_sb_first_meta_bg s * dpb
             then if num \<noteq> 0
                  then do {
                    gdb \<leftarrow> ext4_bg_num_gdb s block_group;
                    Some (num + gdb + getf (sbf ''s_reserved_gdt_blocks'') s) }
                  else Some num
             else do { gdb \<leftarrow> ext4_bg_num_gdb s block_group; Some (num + gdb) });
     clustersize \<leftarrow> shl32 1024 (getf (sbf ''log_cluster_size'') s);
     bs \<leftarrow> ext4_sb_get_block_size s;
     cluster_ratio \<leftarrow> div32 clustersize bs;
     shr32 (num + cluster_ratio - 1) (getf (sbf ''log_cluster_size'') s)
   }"

subsection \<open>Powers\<close>

lemma power_of_times:
  fixes a b :: nat
  assumes "b \<noteq> 0" "a \<noteq> b" "a mod b = 0"
  shows "(\<exists>k. a = b ^ Suc k) \<longleftrightarrow> (\<exists>k. a div b = b ^ Suc k)"
proof -
  have e: "a = b * (a div b)" using assms by auto
  have "a = b ^ Suc k \<longleftrightarrow> a div b = b ^ k" for k
    using assms(1) e by (metis nonzero_mult_div_cancel_left power_Suc)
  moreover have "a div b \<noteq> b ^ 0" using e assms(2) by (metis mult.right_neutral power_0)
  ultimately show ?thesis by (metis not0_implies_Suc)
qed

lemma is_power_of_spec:
  "2 \<le> unat b \<Longrightarrow> is_power_of a b = Some (\<exists>k. unat a = unat b ^ Suc k)"
proof (induction "unat a" arbitrary: a rule: less_induct)
  case less
  note b = less.prems
  have nz: "b \<noteq> 0" using b by auto
  consider "a < b" | "a = b" | "b < a" "a mod b \<noteq> 0" | "b < a" "a mod b = 0"
    using less_linear [of a b] by metis
  then show ?case
  proof cases
    case 1
    then have "unat a < unat b" by (simp add: word_less_nat_alt)
    moreover have "unat b \<le> unat b ^ Suc k" for k using b by simp
    ultimately have "\<nexists>k. unat a = unat b ^ Suc k" by (metis not_le)
    then show ?thesis using 1 by (subst is_power_of.simps) simp
  next
    case 2
    have "\<exists>k. unat b = unat b ^ Suc k" by (rule exI [of _ 0]) simp
    moreover have "is_power_of b b = Some True" by (subst is_power_of.simps) simp
    ultimately show ?thesis using 2 by simp
  next
    case 3
    then have "unat a mod unat b \<noteq> 0" by (metis unat_0 unat_mod word_unat_eq_iff)
    then have "\<nexists>k. unat a = unat b ^ Suc k" by (metis mod_mult_self1_is_0 power_Suc)
    then show ?thesis using 3 nz by (subst is_power_of.simps) auto
  next
    case 4
    then have m: "unat a mod unat b = 0" "unat a \<noteq> unat b" by (metis unat_0 unat_mod, auto simp: word_less_nat_alt)
    have "unat (a div b) < unat a" using b 4 by (simp add: unat_div word_less_nat_alt)
    from less.hyps [OF this b] have "is_power_of (a div b) b = Some (\<exists>k. unat a div unat b = unat b ^ Suc k)"
      by (simp add: unat_div)
    moreover have "(\<exists>k. unat a div unat b = unat b ^ Suc k) = (\<exists>k. unat a = unat b ^ Suc k)"
      using power_of_times [of "unat b" "unat a"] m b by auto
    moreover have "is_power_of a b = is_power_of (a div b) b"
      using 4 nz by (subst is_power_of.simps) auto
    ultimately show ?thesis by simp
  qed
qed

text \<open>
  C33: the loops of \<^verbatim>\<open>ext4_sb_sparse\<close> end for every group number, and the
  groups with a backup of the superblock are 0, 1 and the powers of 3, 5 and 7.
\<close>

theorem sparse_super_groups:
  "ext4_sb_sparse g = Some (unat g = 0 \<or> (\<exists>k. unat g = 3 ^ k) \<or> (\<exists>k. unat g = 5 ^ k) \<or> (\<exists>k. unat g = 7 ^ k))"
proof -
  have pw: "(\<exists>k. unat g = p ^ k) \<longleftrightarrow> unat g = 1 \<or> (\<exists>k. unat g = p ^ Suc k)" for p
    by (metis not0_implies_Suc power_0)
  have odd_pw: "odd (unat g)" if "unat g = p ^ k" "odd p" for p k using that by simp
  have "unat (g AND 1) = unat g mod 2" by (simp add: and_one_eq unat_mod)
  then have ev: "g AND 1 = 0 \<longleftrightarrow> even (unat g)" by (metis even_iff_mod_2_eq_zero unat_eq_0)
  show ?thesis
  proof (cases "g \<le> 1")
    case True
    then have "unat g = 0 \<or> unat g = 1" by (auto simp: word_le_nat_alt)
    then show ?thesis using True pw by (auto simp: ext4_sb_sparse_def)
  next
    case False
    then have n: "unat g \<noteq> 0" "unat g \<noteq> 1" by (auto simp: word_le_nat_alt)
    show ?thesis
    proof (cases "even (unat g)")
      case True
      then show ?thesis using False n odd_pw [of 3] odd_pw [of 5] odd_pw [of 7] ev by (auto simp: ext4_sb_sparse_def)
    next
      case odd: False
      then show ?thesis using False n ev
        by (auto simp: ext4_sb_sparse_def is_power_of_spec pw)
    qed
  qed
qed

subsection \<open>The groups partition the blocks\<close>

lemma unat_ucast_up: "unat (ucast (y :: u32) :: u64) = unat y"
proof -
  have "unat y < 2 ^ 64" by (rule less_le_trans [OF u32_lt]) simp
  then show ?thesis by (simp add: unsigned_ucast_eq take_bit_nat_eq_self)
qed

lemma unat_ucast_down: "unat x < 2 ^ 32 \<Longrightarrow> unat (ucast (x :: u64) :: u32) = unat x"
  by (simp add: unsigned_ucast_eq take_bit_nat_eq_self)

lemma ucast_diff_u32: "(ucast (x - ucast y :: u64) :: u32) = ucast x - y"
proof -
  have u: "uint (ucast y :: u64) = uint y" by (metis uint_nat unat_ucast_up)
  have "uint (x - ucast y :: u64) = take_bit 64 (uint x - uint y)" by (simp add: uint_word_ariths u take_bit_eq_mod)
  then have "(word_of_int (uint (x - ucast y :: u64)) :: u32) = word_of_int (uint x - uint y)"
    by (simp only: word_of_int_eq_iff take_bit_take_bit) simp
  also have "\<dots> = (word_of_int (uint x) :: u32) - word_of_int (uint y)" by (simp only: of_int_diff)
  finally show ?thesis by (simp only: ucast_eq word_of_int_uint)
qed

lemma group_cnt_ceiling:
  assumes "ext4_block_group_cnt s = Some n" "ext4_sb_get_blocks_cnt s = T" "getf (sbf ''blocks_per_group'') s = (B :: u32)"
    and "unat T \<le> unat B * (2 ^ 32 - 1)"
  shows "0 < unat B" "unat T \<le> unat n * unat B" "T \<noteq> 0 \<Longrightarrow> (unat n - 1) * unat B < unat T" "T \<noteq> 0 \<Longrightarrow> 0 < unat n"
proof -
  show B: "0 < unat B" using assms(1,3) by (auto simp: ext4_block_group_cnt_def Let_def unat_gt_0 split: if_splits)
  let ?q = "unat T div unat B"
  have "unat T div unat B \<le> unat B * (2 ^ 32 - 1) div unat B" using assms(4) by (rule div_le_mono)
  then have q: "?q \<le> 2 ^ 32 - 1" using B by simp
  have "unat (ucast (T div ucast B) :: u32) = ?q"
    using q by (simp add: unat_ucast_down unat_div unat_ucast_up)
  moreover have um: "unat (T mod ucast B) = unat T mod unat B" by (simp add: unat_mod unat_ucast_up)
  moreover have "T mod ucast B \<noteq> 0 \<longleftrightarrow> unat T mod unat B \<noteq> 0" by (simp only: um [symmetric] unat_eq_0 not_False_eq_True)
  moreover have "?q + 1 < 2 ^ 32" if "unat T mod unat B \<noteq> 0"
  proof -
    have "unat B * ?q < unat T" using mult_div_mod_eq [of "unat B" "unat T"] that by linarith
    then have "unat B * ?q < unat B * (2 ^ 32 - 1)" using assms(4) by (rule less_le_trans)
    then show ?thesis by simp
  qed
  ultimately have n: "unat n = (if unat T mod unat B \<noteq> 0 then ?q + 1 else ?q)"
    using assms(1-3) by (auto simp: ext4_block_group_cnt_def Let_def unat_word_ariths split: if_splits)
  obtain q r where qr: "unat T = q * unat B + r" "r < unat B" "unat n = (if r \<noteq> 0 then q + 1 else q)"
    using n that [of ?q "unat T mod unat B"] B by simp
  show "unat T \<le> unat n * unat B" using qr by auto
  show "0 < unat n" if "T \<noteq> 0" using that qr by (cases "q = 0") (auto simp: unat_gt_0)
  show "(unat n - 1) * unat B < unat T" if "T \<noteq> 0"
  proof -
    have "unat T \<noteq> 0" using that by (simp add: unat_eq_0)
    then show ?thesis using qr B by (cases q; cases "r = 0") auto
  qed
qed

lemma group_sizes:
  assumes "ext4_block_group_cnt s = Some n" "ext4_sb_get_blocks_cnt s = T" "getf (sbf ''blocks_per_group'') s = (B :: u32)"
    and "unat T \<le> unat B * (2 ^ 32 - 1)" "T \<noteq> 0" "unat g < unat n"
  shows "\<exists>c. ext4_blocks_in_group_cnt s g = Some c
    \<and> unat c = (if unat g < unat n - 1 then unat B else unat T - (unat n - 1) * unat B)"
proof -
  note c = group_cnt_ceiling [OF assms(1-4)] and n = group_cnt_ceiling(4) [OF assms(1-5)]
  have n1: "unat (n - 1) = unat n - 1" using n by (simp add: unat_minus_one unat_gt_0)
  let ?r = "unat T - (unat n - 1) * unat B"
  have r: "?r \<le> unat B" using c(2) n by (cases "unat n") (auto simp: add.commute)
  have "(ucast T :: u32) = of_nat (unat T)" by (simp only: of_nat_unat)
  moreover have "(n - 1) * B = of_nat ((unat n - 1) * unat B)" unfolding n1 [symmetric] by simp
  ultimately have "(ucast T :: u32) - (n - 1) * B = of_nat ?r"
    using c(3) [OF assms(5)] by (simp only: of_nat_diff less_imp_le)
  then have "unat (ucast T - (n - 1) * B :: u32) = ?r"
    using r by (simp only: unat_of_nat) (simp add: take_bit_nat_eq_self le_less_trans [OF _ u32_lt])
  then show ?thesis
    using assms(1-3) n1 by (auto simp: ext4_blocks_in_group_cnt_def Let_def ucast_diff_u32 word_less_nat_alt)
qed

lemma sb_check_groups:
  "ext4_sb_check s \<Longrightarrow> getf (sbf ''blocks_per_group'') s \<noteq> (0 :: u32) \<and> ext4_sb_get_blocks_cnt s \<noteq> 0"
  by (simp add: ext4_sb_check_def split: if_splits)


text \<open>A superblock of 20000 blocks in groups of 8192.\<close>

definition sb_small :: "u8 list" where
  "sb_small =
     putf (sbf ''magic'') EXT4_SUPERBLOCK_MAGIC (putf (sbf ''inodes_count'') (5000 :: u32)
    (putf (sbf ''blocks_count_lo'') (20000 :: u32) (putf (sbf ''blocks_per_group'') (8192 :: u32)
    (putf (sbf ''inodes_per_group'') (2000 :: u32) (putf (sbf ''inode_size'') (256 :: u16)
    (putf (sbf ''first_inode'') (11 :: u32) (replicate 1024 0)))))))"

lemma getf_zeros [simp]: "getf f (replicate n 0) = 0"
proof -
  have "le_load (replicate k 0) = 0" for k by (induction k) simp_all
  then show ?thesis by (simp add: getf_def)
qed

lemma take_bit_all: "take_bit LENGTH('a) (v :: 'a::len word) = v"
  by (rule bit_word_eqI) (auto simp: bit_simps)

lemmas take_bit_full = take_bit_all [where ?'a = 64, simplified] take_bit_all [where ?'a = 32, simplified]

lemmas member_access = getf_putf_same getf_putf_apart apart_def in_struct_def

lemma sb_small_ok: "ext4_sb_check sb_small" "ext4_sb_get_blocks_cnt sb_small = 20000" "getf (sbf ''blocks_per_group'') sb_small = (8192 :: u32)"
  by (simp_all add: sb_small_def ext4_sb_check_def ext4_sb_get_blocks_cnt_def ext4_sb_get_desc_size_def ext4_sb_verify_csum_def
      ext4_sb_feature_ro_com_def ext4_consts member_access)


end
