(* ===== verification/XV_Ext4_Group.thy ===== *)
theory XV_Ext4_Group
  imports XV_Ext4_Super
begin

text \<open>
  Block group descriptors (\<^verbatim>\<open>include/ext4_block_group.h\<close>). The descriptor on the disk has the size
  the superblock gives, and the high halves of its members exist only when that is more than 32 bytes.
\<close>

abbreviation wide_desc :: "u8 list \<Rightarrow> bool" where
  "wide_desc s \<equiv> EXT4_MIN_BLOCK_GROUP_DESCRIPTOR_SIZE < ext4_sb_get_desc_size s"

definition ext4_bg_get_block_bitmap :: "u8 list \<Rightarrow> u8 list \<Rightarrow> u64" where
  "ext4_bg_get_block_bitmap bg s =
     (let v = getf (bgf ''block_bitmap_lo'') bg
      in if wide_desc s then v OR push_bit 32 (getf (bgf ''block_bitmap_hi'') bg) else v)"

definition ext4_bg_set_block_bitmap :: "u8 list \<Rightarrow> u8 list \<Rightarrow> u64 \<Rightarrow> u8 list" where
  "ext4_bg_set_block_bitmap bg s blk =
     (let bg = putf (bgf ''block_bitmap_lo'') (ucast blk :: u32) bg
      in if wide_desc s then putf (bgf ''block_bitmap_hi'') (drop_bit 32 blk) bg else bg)"

definition ext4_bg_get_inode_bitmap :: "u8 list \<Rightarrow> u8 list \<Rightarrow> u64" where
  "ext4_bg_get_inode_bitmap bg s =
     (let v = getf (bgf ''inode_bitmap_lo'') bg
      in if wide_desc s then v OR push_bit 32 (getf (bgf ''inode_bitmap_hi'') bg) else v)"

definition ext4_bg_set_inode_bitmap :: "u8 list \<Rightarrow> u8 list \<Rightarrow> u64 \<Rightarrow> u8 list" where
  "ext4_bg_set_inode_bitmap bg s blk =
     (let bg = putf (bgf ''inode_bitmap_lo'') (ucast blk :: u32) bg
      in if wide_desc s then putf (bgf ''inode_bitmap_hi'') (drop_bit 32 blk) bg else bg)"

definition ext4_bg_get_inode_table_first_block :: "u8 list \<Rightarrow> u8 list \<Rightarrow> u64" where
  "ext4_bg_get_inode_table_first_block bg s =
     (let v = getf (bgf ''inode_table_first_block_lo'') bg
      in if wide_desc s then v OR push_bit 32 (getf (bgf ''inode_table_first_block_hi'') bg) else v)"

definition ext4_bg_set_inode_table_first_block :: "u8 list \<Rightarrow> u8 list \<Rightarrow> u64 \<Rightarrow> u8 list" where
  "ext4_bg_set_inode_table_first_block bg s blk =
     (let bg = putf (bgf ''inode_table_first_block_lo'') (ucast blk :: u32) bg
      in if wide_desc s then putf (bgf ''inode_table_first_block_hi'') (drop_bit 32 blk) bg else bg)"

definition ext4_bg_get_free_blocks_count :: "u8 list \<Rightarrow> u8 list \<Rightarrow> u32" where
  "ext4_bg_get_free_blocks_count bg s =
     (let v = getf (bgf ''free_blocks_count_lo'') bg
      in if wide_desc s then v OR push_bit 16 (getf (bgf ''free_blocks_count_hi'') bg) else v)"

definition ext4_bg_set_free_blocks_count :: "u8 list \<Rightarrow> u8 list \<Rightarrow> u32 \<Rightarrow> u8 list" where
  "ext4_bg_set_free_blocks_count bg s cnt =
     (let bg = putf (bgf ''free_blocks_count_lo'') (drop_bit 16 (push_bit 16 cnt)) bg
      in if wide_desc s then putf (bgf ''free_blocks_count_hi'') (drop_bit 16 cnt) bg else bg)"

definition ext4_bg_get_free_inodes_count :: "u8 list \<Rightarrow> u8 list \<Rightarrow> u32" where
  "ext4_bg_get_free_inodes_count bg s =
     (let v = getf (bgf ''free_inodes_count_lo'') bg
      in if wide_desc s then v OR push_bit 16 (getf (bgf ''free_inodes_count_hi'') bg) else v)"

definition ext4_bg_set_free_inodes_count :: "u8 list \<Rightarrow> u8 list \<Rightarrow> u32 \<Rightarrow> u8 list" where
  "ext4_bg_set_free_inodes_count bg s cnt =
     (let bg = putf (bgf ''free_inodes_count_lo'') (drop_bit 16 (push_bit 16 cnt)) bg
      in if wide_desc s then putf (bgf ''free_inodes_count_hi'') (drop_bit 16 cnt) bg else bg)"

definition ext4_bg_get_used_dirs_count :: "u8 list \<Rightarrow> u8 list \<Rightarrow> u32" where
  "ext4_bg_get_used_dirs_count bg s =
     (let v = getf (bgf ''used_dirs_count_lo'') bg
      in if wide_desc s then v OR push_bit 16 (getf (bgf ''used_dirs_count_hi'') bg) else v)"

definition ext4_bg_set_used_dirs_count :: "u8 list \<Rightarrow> u8 list \<Rightarrow> u32 \<Rightarrow> u8 list" where
  "ext4_bg_set_used_dirs_count bg s cnt =
     (let bg = putf (bgf ''used_dirs_count_lo'') (drop_bit 16 (push_bit 16 cnt)) bg
      in if wide_desc s then putf (bgf ''used_dirs_count_hi'') (drop_bit 16 cnt) bg else bg)"

definition ext4_bg_get_itable_unused :: "u8 list \<Rightarrow> u8 list \<Rightarrow> u32" where
  "ext4_bg_get_itable_unused bg s =
     (let v = getf (bgf ''itable_unused_lo'') bg
      in if wide_desc s then v OR push_bit 16 (getf (bgf ''itable_unused_hi'') bg) else v)"

definition ext4_bg_set_itable_unused :: "u8 list \<Rightarrow> u8 list \<Rightarrow> u32 \<Rightarrow> u8 list" where
  "ext4_bg_set_itable_unused bg s cnt =
     (let bg = putf (bgf ''itable_unused_lo'') (drop_bit 16 (push_bit 16 cnt)) bg
      in if wide_desc s then putf (bgf ''itable_unused_hi'') (drop_bit 16 cnt) bg else bg)"

definition ext4_bg_set_checksum :: "u8 list \<Rightarrow> u16 \<Rightarrow> u8 list" where
  "ext4_bg_set_checksum bg crc = putf (bgf ''checksum'') crc bg"

definition ext4_bg_has_flag :: "u8 list \<Rightarrow> u32 \<Rightarrow> bool" where
  "ext4_bg_has_flag bg f \<longleftrightarrow> getf (bgf ''flags'') bg AND f \<noteq> 0"

definition ext4_bg_set_flag :: "u8 list \<Rightarrow> u32 \<Rightarrow> u8 list" where
  "ext4_bg_set_flag bg f =
     (let flags = getf (bgf ''flags'') bg :: u16;
          flags = ucast (ucast flags OR f) :: u16
      in putf (bgf ''flags'') flags bg)"

definition ext4_bg_clear_flag :: "u8 list \<Rightarrow> u32 \<Rightarrow> u8 list" where
  "ext4_bg_clear_flag bg f =
     (let flags = getf (bgf ''flags'') bg :: u16;
          flags = ucast (ucast flags AND NOT f) :: u16
      in putf (bgf ''flags'') flags bg)"

subsection \<open>Members that are split into two halves\<close>

text \<open>
  What a routine may rely on for a number that it stores in a descriptor: it reads the value back
  modulo the capacity of the member, an update through the getter is not lost, and the last of a
  sequence of stores wins.
\<close>

locale stored_number =
  fixes get :: "u8 list \<Rightarrow> 'n::len word"
    and set_to :: "u8 list \<Rightarrow> 'n word \<Rightarrow> u8 list"
    and ok :: "u8 list \<Rightarrow> bool"
    and bits :: nat
  assumes ok_set: "ok d \<Longrightarrow> ok (set_to d v)"
    and get_set: "ok d \<Longrightarrow> get (set_to d v) = take_bit bits v"
begin

lemma get_after_sets: "ok d \<Longrightarrow> get (set_to (foldl set_to d vs) v) = take_bit bits v"
proof -
  assume "ok d"
  then have "ok (foldl set_to d vs)" by (induction vs arbitrary: d) (auto simp: ok_set)
  then show ?thesis by (rule get_set)
qed

lemma update_roundtrip:
  "ok d \<Longrightarrow> take_bit bits (f (get d)) = f (get d) \<Longrightarrow> get (set_to d (f (get d))) = f (get d)"
  by (simp add: get_set)

end

definition desc_ok :: "u8 list \<Rightarrow> u8 list \<Rightarrow> bool" where
  "desc_ok s bg \<longleftrightarrow> (if wide_desc s then 64 else 32) \<le> length bg"

lemma halves_64: "take_bit 32 v OR push_bit 32 (take_bit 32 (drop_bit 32 v)) = (v :: u64)"
  by (rule bit_word_eqI) (auto simp: bit_simps dest: bit_imp_le_length)

lemma low_64: "ucast (ucast v :: u32) = take_bit 32 (v :: u64)"
  by (rule bit_word_eqI) (auto simp: bit_simps)

lemma halves_32: "take_bit 16 v OR push_bit 16 (take_bit 16 (drop_bit 16 v)) = (v :: u32)"
  by (rule bit_word_eqI) (auto simp: bit_simps dest: bit_imp_le_length)

lemma low_32: "take_bit 16 (drop_bit 16 (push_bit 16 v)) = take_bit 16 (v :: u32)"
  by (rule bit_word_eqI) (auto simp: bit_simps)

lemmas halves = halves_64 low_64 halves_32 low_32 take_bit_full

interpretation block_bitmap: stored_number "\<lambda>bg. ext4_bg_get_block_bitmap bg s" "\<lambda>bg. ext4_bg_set_block_bitmap bg s" "desc_ok s"
    "if wide_desc s then 64 else 32" for s
  by unfold_locales (auto simp: ext4_bg_get_block_bitmap_def ext4_bg_set_block_bitmap_def Let_def desc_ok_def member_access halves)

interpretation inode_bitmap: stored_number "\<lambda>bg. ext4_bg_get_inode_bitmap bg s" "\<lambda>bg. ext4_bg_set_inode_bitmap bg s" "desc_ok s"
    "if wide_desc s then 64 else 32" for s
  by unfold_locales (auto simp: ext4_bg_get_inode_bitmap_def ext4_bg_set_inode_bitmap_def Let_def desc_ok_def member_access halves)

interpretation inode_table: stored_number "\<lambda>bg. ext4_bg_get_inode_table_first_block bg s"
    "\<lambda>bg. ext4_bg_set_inode_table_first_block bg s" "desc_ok s" "if wide_desc s then 64 else 32" for s
  by unfold_locales (auto simp: ext4_bg_get_inode_table_first_block_def ext4_bg_set_inode_table_first_block_def Let_def
      desc_ok_def member_access halves)

interpretation free_blocks: stored_number "\<lambda>bg. ext4_bg_get_free_blocks_count bg s"
    "\<lambda>bg. ext4_bg_set_free_blocks_count bg s" "desc_ok s" "if wide_desc s then 32 else 16" for s
  by unfold_locales (auto simp: ext4_bg_get_free_blocks_count_def ext4_bg_set_free_blocks_count_def Let_def
      desc_ok_def member_access halves)

interpretation free_inodes: stored_number "\<lambda>bg. ext4_bg_get_free_inodes_count bg s"
    "\<lambda>bg. ext4_bg_set_free_inodes_count bg s" "desc_ok s" "if wide_desc s then 32 else 16" for s
  by unfold_locales (auto simp: ext4_bg_get_free_inodes_count_def ext4_bg_set_free_inodes_count_def Let_def
      desc_ok_def member_access halves)

interpretation used_dirs: stored_number "\<lambda>bg. ext4_bg_get_used_dirs_count bg s"
    "\<lambda>bg. ext4_bg_set_used_dirs_count bg s" "desc_ok s" "if wide_desc s then 32 else 16" for s
  by unfold_locales (auto simp: ext4_bg_get_used_dirs_count_def ext4_bg_set_used_dirs_count_def Let_def
      desc_ok_def member_access halves)

interpretation itable_unused: stored_number "\<lambda>bg. ext4_bg_get_itable_unused bg s"
    "\<lambda>bg. ext4_bg_set_itable_unused bg s" "desc_ok s" "if wide_desc s then 32 else 16" for s
  by unfold_locales (auto simp: ext4_bg_get_itable_unused_def ext4_bg_set_itable_unused_def Let_def
      desc_ok_def member_access halves)

text \<open>The flags of a descriptor: a flag of the low 16 bits that is set is seen, and one that is cleared is not.\<close>

lemma flag_set_clear:
  assumes "32 \<le> length bg" "i < 16"
  shows "ext4_bg_has_flag (ext4_bg_set_flag bg (2 ^ i)) (2 ^ i)"
    and "\<not> ext4_bg_has_flag (ext4_bg_clear_flag bg (2 ^ i)) (2 ^ i)"
proof -
  have e: "x AND 2 ^ i \<noteq> 0 \<longleftrightarrow> bit x i" for x :: u32
    by (simp add: bit_iff_and_push_bit_not_eq_0)
  show "ext4_bg_has_flag (ext4_bg_set_flag bg (2 ^ i)) (2 ^ i)"
    using assms unfolding ext4_bg_has_flag_def e by (simp add: ext4_bg_set_flag_def Let_def member_access bit_simps)
  show "\<not> ext4_bg_has_flag (ext4_bg_clear_flag bg (2 ^ i)) (2 ^ i)"
    using assms unfolding ext4_bg_has_flag_def e by (simp add: ext4_bg_clear_flag_def Let_def member_access bit_simps)
qed



end
