(* ===== verification/XV_Ext4_Bitmap.thy ===== *)
theory XV_Ext4_Bitmap
  imports XV_Prelude
begin

section \<open>Bitmaps of the ext4 file system\<close>

text \<open>
  \<^verbatim>\<open>kernel/include/ext4_bitmap.h\<close> and \<^verbatim>\<open>kernel/fs/ext4_bitmap.c\<close>, built with \<^verbatim>\<open>CONFIG_UNALIGNED_ACCESS\<close> 0.
  A bitmap is the list of its bytes; a pointer into it is the list with the number \<open>p\<close> of bytes
  the pointer is past the beginning.  Bit numbers and counts are the values of \<^verbatim>\<open>uint32_t\<close> variables.
  An access outside the bitmap is \<open>None\<close>.
\<close>

type_synonym bitmap = "u8 list"

definition EOK :: int where
  "EOK = 0"

definition EIO :: int where
  "EIO = 5"

definition ENXIO :: int where
  "ENXIO = 6"

definition ENOMEM :: int where
  "ENOMEM = 12"

definition EINVAL :: int where
  "EINVAL = 22"

definition ENOSPC :: int where
  "ENOSPC = 28"

definition ENOTSUP :: int where
  "ENOTSUP = 95"

definition ext4_bmap_bit_set :: "nat \<Rightarrow> bitmap \<Rightarrow> nat \<Rightarrow> bitmap option" where
  "ext4_bmap_bit_set p bmap b = do {
     ensure (p + b div 8 < length bmap);
     Some (bmap[p + b div 8 := bmap ! (p + b div 8) OR push_bit (b mod 8) 1])
   }"

definition ext4_bmap_bit_clr :: "nat \<Rightarrow> bitmap \<Rightarrow> nat \<Rightarrow> bitmap option" where
  "ext4_bmap_bit_clr p bmap b = do {
     ensure (p + b div 8 < length bmap);
     Some (bmap[p + b div 8 := bmap ! (p + b div 8) AND NOT (push_bit (b mod 8) 1)])
   }"

definition ext4_bmap_is_bit_set :: "nat \<Rightarrow> bitmap \<Rightarrow> nat \<Rightarrow> bool option" where
  "ext4_bmap_is_bit_set p bmap b = do {
     ensure (p + b div 8 < length bmap);
     Some (bmap ! (p + b div 8) AND push_bit (b mod 8) 1 \<noteq> 0)
   }"

definition ext4_bmap_is_bit_clr :: "nat \<Rightarrow> bitmap \<Rightarrow> nat \<Rightarrow> bool option" where
  "ext4_bmap_is_bit_clr p bmap b = map_option Not (ext4_bmap_is_bit_set p bmap b)"

definition inc32 :: "nat \<Rightarrow> nat" where
  "inc32 i = (i + 1) mod 2 ^ 32"

text \<open>\<^verbatim>\<open>while (i & 7)\<close> of \<^verbatim>\<open>ext4_bmap_bits_free\<close>; the flag of the result says that the function returned.\<close>

function free_head :: "nat \<Rightarrow> nat \<Rightarrow> bitmap \<Rightarrow> (bool \<times> nat \<times> nat \<times> bitmap) option" where
  "free_head i bcnt bmap =
     (if i mod 8 = 0 then Some (False, i, bcnt, bmap)
      else if bcnt = 0 then Some (True, i, bcnt, bmap)
      else do { bmap \<leftarrow> ext4_bmap_bit_clr 0 bmap i; free_head (inc32 i) (bcnt - 1) bmap })"
  by pat_completeness auto

lemma mod8_inc32: "inc32 i mod 8 = (i + 1) mod 8"
  by (simp add: inc32_def mod_mod_cancel)

termination free_head
  by (relation "measure (\<lambda>(i, bcnt, bmap). bcnt)") auto

function free_bytes :: "nat \<Rightarrow> nat \<Rightarrow> bitmap \<Rightarrow> (nat \<times> nat \<times> bitmap) option" where
  "free_bytes p bcnt bmap =
     (if bcnt \<ge> 8 then do { ensure (p < length bmap); free_bytes (p + 1) (bcnt - 8) (bmap[p := 0]) }
      else Some (p, bcnt, bmap))"
  by pat_completeness auto

termination free_bytes
  by (relation "measure (\<lambda>(p, bcnt, bmap). bcnt)") auto

fun free_tail :: "nat \<Rightarrow> nat list \<Rightarrow> bitmap \<Rightarrow> bitmap option" where
  "free_tail p [] bmap = Some bmap"
| "free_tail p (i # is) bmap = do { bmap \<leftarrow> ext4_bmap_bit_clr p bmap i; free_tail p is bmap }"

definition ext4_bmap_bits_free :: "bitmap \<Rightarrow> nat \<Rightarrow> nat \<Rightarrow> bitmap option" where
  "ext4_bmap_bits_free bmap sbit bcnt = do {
     (returned, i, bcnt, bmap) \<leftarrow> free_head sbit bcnt bmap;
     (if returned then Some bmap
      else do {
        (p, bcnt, bmap) \<leftarrow> free_bytes (i div 8) bcnt bmap;
        free_tail p [0..<bcnt] bmap
      })
   }"

text \<open>
  The loops of \<^verbatim>\<open>ext4_bmap_bit_find_clr\<close>: \<open>Inl\<close> is the value the function returns with the bit it
  stores, \<open>Inr\<close> the values of the variables at the end of the loop.
\<close>

function find_head :: "nat \<Rightarrow> nat \<Rightarrow> nat \<Rightarrow> bitmap \<Rightarrow> (int \<times> nat option + nat \<times> nat) option" where
  "find_head i bcnt sbit bmap =
     (if i mod 8 = 0 then Some (Inr (i, bcnt))
      else if bcnt = 0 then Some (Inl (ENOSPC, None))
      else do {
        c \<leftarrow> ext4_bmap_is_bit_clr 0 bmap i;
        if c then Some (Inl (EOK, Some sbit)) else find_head (inc32 i) (bcnt - 1) sbit bmap
      })"
  by pat_completeness auto

termination find_head
  by (relation "measure (\<lambda>(i, bcnt, sbit, bmap). bcnt)") auto

fun find_bit :: "nat \<Rightarrow> nat \<Rightarrow> nat list \<Rightarrow> bitmap \<Rightarrow> nat option option" where
  "find_bit p sbit [] bmap = Some None"
| "find_bit p sbit (i # is) bmap = do {
     c \<leftarrow> ext4_bmap_is_bit_clr p bmap i;
     if c then Some (Some (sbit + i)) else find_bit p sbit is bmap
   }"

function find_bytes :: "nat \<Rightarrow> nat \<Rightarrow> nat \<Rightarrow> bitmap \<Rightarrow> (int \<times> nat option + nat \<times> nat \<times> nat) option" where
  "find_bytes p bcnt sbit bmap =
     (if bcnt \<ge> 8 then do {
        ensure (p < length bmap);
        r \<leftarrow> (if bmap ! p \<noteq> 0xFF then find_bit p sbit [0..<8] bmap else Some None);
        (case r of Some x \<Rightarrow> Some (Inl (EOK, Some x))
         | None \<Rightarrow> find_bytes (p + 1) (bcnt - 8) (sbit + 8) bmap)
      } else Some (Inr (p, bcnt, sbit)))"
  by pat_completeness auto

termination find_bytes
  by (relation "measure (\<lambda>(p, bcnt, sbit, bmap). bcnt)") auto

definition ext4_bmap_bit_find_clr :: "bitmap \<Rightarrow> nat \<Rightarrow> nat \<Rightarrow> (int \<times> nat option) option" where
  "ext4_bmap_bit_find_clr bmap sbit ebit = do {
     r \<leftarrow> find_head sbit ((2 ^ 32 + ebit - sbit) mod 2 ^ 32) sbit bmap;
     (case r of Inl res \<Rightarrow> Some res
      | Inr (sbit, bcnt) \<Rightarrow> do {
          r \<leftarrow> find_bytes (sbit div 8) bcnt sbit bmap;
          (case r of Inl res \<Rightarrow> Some res
           | Inr (p, bcnt, sbit) \<Rightarrow> do {
               r \<leftarrow> find_bit p sbit [0..<bcnt] bmap;
               Some (case r of Some x \<Rightarrow> (EOK, Some x) | None \<Rightarrow> (ENOSPC, None))
             })
        })
   }"

declare free_head.simps [simp del] free_bytes.simps [simp del] find_head.simps [simp del] find_bytes.simps [simp del]

subsection \<open>Bits of a bitmap\<close>

definition bmbit :: "bitmap \<Rightarrow> nat \<Rightarrow> bool" where
  "bmbit bmap n = bit (bmap ! (n div 8)) (n mod 8)"

lemma bit_number: "n = 8 * p + b \<longleftrightarrow> n div 8 = p + b div 8 \<and> n mod 8 = b mod (8 :: nat)"
proof
  assume "n div 8 = p + b div 8 \<and> n mod 8 = b mod 8"
  then show "n = 8 * p + b" using div_mult_mod_eq [of n 8] div_mult_mod_eq [of b 8] by linarith
qed simp

lemma bit_push_1: "bit (2 ^ k :: u8) n \<longleftrightarrow> n = k \<and> k < 8"
  by (auto simp: bit_simps)

lemma bit_clr:
  assumes "p + b div 8 < length bmap"
  shows "\<exists>bmap'. ext4_bmap_bit_clr p bmap b = Some bmap' \<and> length bmap' = length bmap \<and>
    (\<forall>n < 8 * length bmap. bmbit bmap' n = (bmbit bmap n \<and> n \<noteq> 8 * p + b))"
proof -
  let ?k = "p + b div 8" let ?x = "bmap ! ?k AND NOT (push_bit (b mod 8) 1)"
  have "bmbit (bmap[?k := ?x]) n = (bmbit bmap n \<and> n \<noteq> 8 * p + b)" if "n < 8 * length bmap" for n
    using assms unfolding bit_number [of n p b]
    by (cases "n div 8 = ?k") (auto simp: bmbit_def bit_and_iff bit_not_iff bit_push_1)
  then show ?thesis using assms by (simp add: ext4_bmap_bit_clr_def)
qed

lemma bit_set:
  assumes "p + b div 8 < length bmap"
  shows "\<exists>bmap'. ext4_bmap_bit_set p bmap b = Some bmap' \<and> length bmap' = length bmap \<and>
    (\<forall>n < 8 * length bmap. bmbit bmap' n = (bmbit bmap n \<or> n = 8 * p + b))"
proof -
  let ?k = "p + b div 8" let ?x = "bmap ! ?k OR push_bit (b mod 8) 1"
  have "bmbit (bmap[?k := ?x]) n = (bmbit bmap n \<or> n = 8 * p + b)" if "n < 8 * length bmap" for n
    using assms unfolding bit_number [of n p b]
    by (cases "n div 8 = ?k") (auto simp: bmbit_def bit_or_iff bit_push_1)
  then show ?thesis using assms by (simp add: ext4_bmap_bit_set_def)
qed

lemma and_push_bit: "(x :: u8) AND 2 ^ k = 0 \<longleftrightarrow> \<not> bit x k"
proof -
  have "bit (x AND 2 ^ k) n \<longleftrightarrow> n = k \<and> bit x k" for n
    by (auto simp: bit_and_iff bit_push_1 dest: bit_imp_le_length)
  then show ?thesis by (metis bit_0_eq bit_eq_iff bot_apply bot_bool_def)
qed

lemma is_bit:
  assumes "p + b div 8 < length bmap"
  shows "ext4_bmap_is_bit_set p bmap b = Some (bmbit bmap (8 * p + b))"
    "ext4_bmap_is_bit_clr p bmap b = Some (\<not> bmbit bmap (8 * p + b))"
proof -
  have "(8 * p + b) div 8 = p + b div 8" "(8 * p + b) mod 8 = b mod 8" by auto
  then show "ext4_bmap_is_bit_set p bmap b = Some (bmbit bmap (8 * p + b))"
    "ext4_bmap_is_bit_clr p bmap b = Some (\<not> bmbit bmap (8 * p + b))"
    using assms by (simp_all add: ext4_bmap_is_bit_clr_def ext4_bmap_is_bit_set_def bmbit_def and_push_bit)
qed

lemma inc32_eq [simp]: "i + 1 < 2 ^ 32 \<Longrightarrow> inc32 i = i + 1"
  by (simp add: inc32_def)

subsection \<open>Freeing a range\<close>

text \<open>The bits of \<open>bmap'\<close> are those of \<open>bmap\<close> with the bits in a set cleared.\<close>

definition cleared :: "nat set \<Rightarrow> bitmap \<Rightarrow> bitmap \<Rightarrow> bool" where
  "cleared A bmap bmap' \<longleftrightarrow> length bmap' = length bmap \<and> (\<forall>n < 8 * length bmap. bmbit bmap' n = (bmbit bmap n \<and> n \<notin> A))"

lemma cleared_refl: "cleared {} bmap bmap"
  by (simp add: cleared_def)

lemma cleared_trans: "cleared A b c \<Longrightarrow> cleared B c d \<Longrightarrow> cleared (A \<union> B) b d"
  by (auto simp: cleared_def)

lemma free_head_clears:
  assumes "i + bcnt \<le> 8 * length bmap" "i + bcnt < 2 ^ 32"
  shows "\<exists>j c bmap'. free_head i bcnt bmap = Some (c = 0 \<and> j mod 8 \<noteq> 0, j, c, bmap') \<and> i \<le> j \<and> j + c = i + bcnt \<and>
    (c = 0 \<or> j mod 8 = 0) \<and> cleared {i..<j} bmap bmap'"
  using assms
proof (induction i bcnt bmap rule: free_head.induct)
  case (1 i bcnt bmap)
  show ?case
  proof (cases "i mod 8 = 0 \<or> bcnt = 0")
    case True
    then show ?thesis using cleared_refl by (subst free_head.simps) auto
  next
    case False
    then have "0 + i div 8 < length bmap" using "1.prems"(1) by linarith
    from bit_clr [OF this] obtain b1 where b1: "ext4_bmap_bit_clr 0 bmap i = Some b1" "cleared {i} bmap b1"
      by (auto simp: cleared_def)
    have len: "length b1 = length bmap" using b1(2) by (simp add: cleared_def)
    have "inc32 i = i + 1" using False "1.prems"(2) by simp
    then obtain j c b2 where r: "free_head (i + 1) (bcnt - 1) b1 = Some (c = 0 \<and> j mod 8 \<noteq> 0, j, c, b2)" "i + 1 \<le> j"
        "j + c = i + bcnt" "c = 0 \<or> j mod 8 = 0" "cleared {i + 1..<j} b1 b2"
      using "1.IH" [OF _ _ b1(1)] False "1.prems" len by auto
    have "{i} \<union> {i + 1..<j} = {i..<j}" using r(2) by auto
    then have "cleared {i..<j} bmap b2" using cleared_trans [OF b1(2) r(5)] by simp
    moreover have "free_head i bcnt bmap = free_head (i + 1) (bcnt - 1) b1"
      using False b1(1) \<open>inc32 i = i + 1\<close> by (subst free_head.simps) simp
    ultimately show ?thesis using r by auto
  qed
qed

lemma cleared_byte:
  assumes "p < length bmap"
  shows "cleared {8 * p..<8 * (p + 1)} bmap (bmap[p := 0])"
proof -
  have e: "n \<in> {8 * p..<8 * (p + 1)} \<longleftrightarrow> n div 8 = p" for n by auto
  have "bmbit (bmap[p := 0]) n = (bmbit bmap n \<and> n div 8 \<noteq> p)" for n
    using assms by (cases "n div 8 = p") (simp_all add: bmbit_def)
  then show ?thesis unfolding cleared_def e by simp
qed

lemma free_bytes_clears:
  assumes "8 * p + bcnt \<le> 8 * length bmap"
  shows "\<exists>q c bmap'. free_bytes p bcnt bmap = Some (q, c, bmap') \<and> c < 8 \<and> p \<le> q \<and> 8 * q + c = 8 * p + bcnt \<and>
    cleared {8 * p..<8 * q} bmap bmap'"
  using assms
proof (induction p bcnt bmap rule: free_bytes.induct)
  case (1 p bcnt bmap)
  show ?case
  proof (cases "8 \<le> bcnt")
    case True
    then have p: "p < length bmap" using "1.prems" by linarith
    have "\<exists>q c bmap'. free_bytes (p + 1) (bcnt - 8) (bmap[p := 0]) = Some (q, c, bmap') \<and> c < 8 \<and> p + 1 \<le> q \<and>
        8 * q + c = 8 * (p + 1) + (bcnt - 8) \<and> cleared {8 * (p + 1)..<8 * q} (bmap[p := 0]) bmap'"
      using "1.IH" [OF True _] p "1.prems" True by simp
    then obtain q c b where r: "free_bytes (p + 1) (bcnt - 8) (bmap[p := 0]) = Some (q, c, b)" "c < 8" "p + 1 \<le> q"
        "8 * q + c = 8 * (p + 1) + (bcnt - 8)" "cleared {8 * (p + 1)..<8 * q} (bmap[p := 0]) b" by blast
    have "{8 * p..<8 * (p + 1)} \<union> {8 * (p + 1)..<8 * q} = {8 * p..<8 * q}" using r(3) by auto
    then have "cleared {8 * p..<8 * q} bmap b" using cleared_trans [OF cleared_byte [OF p] r(5)] by simp
    moreover have "free_bytes p bcnt bmap = Some (q, c, b)" using True p r(1) by (subst free_bytes.simps) simp
    moreover have "8 * q + c = 8 * p + bcnt" "p \<le> q" using r(3,4) True by simp_all
    ultimately show ?thesis using r(2) by blast
  next
    case False
    then show ?thesis using cleared_refl by (subst free_bytes.simps) auto
  qed
qed

lemma free_tail_clears:
  "(\<And>i. i \<in> set is \<Longrightarrow> p + i div 8 < length bmap) \<Longrightarrow>
   \<exists>bmap'. free_tail p is bmap = Some bmap' \<and> cleared ((+) (8 * p) ` set is) bmap bmap'"
proof (induction "is" arbitrary: bmap)
  case Nil
  then show ?case by (simp add: cleared_refl)
next
  case (Cons i "is")
  obtain b1 where b1: "ext4_bmap_bit_clr p bmap i = Some b1" "cleared {8 * p + i} bmap b1"
    using bit_clr [of p i bmap] Cons.prems by (auto simp: cleared_def)
  have "length b1 = length bmap" using b1(2) by (simp add: cleared_def)
  then obtain b2 where b2: "free_tail p is b1 = Some b2" "cleared ((+) (8 * p) ` set is) b1 b2"
    using Cons by (metis list.set_intros(2))
  then show ?case using cleared_trans [OF b1(2) b2(2)] b1(1) by simp
qed

text \<open>
  C27: \<^verbatim>\<open>ext4_bmap_bits_free\<close> clears exactly the \<^verbatim>\<open>bcnt\<close> bits from
  \<^verbatim>\<open>sbit\<close> on, whatever the alignment of the range, and touches no byte outside the bitmap.
\<close>

theorem bits_free_clears_range:
  assumes "sbit + bcnt \<le> 8 * length bmap" "sbit + bcnt < 2 ^ 32"
  shows "\<exists>bmap'. ext4_bmap_bits_free bmap sbit bcnt = Some bmap' \<and> length bmap' = length bmap \<and>
    (\<forall>n < 8 * length bmap. bmbit bmap' n = (bmbit bmap n \<and> \<not> (sbit \<le> n \<and> n < sbit + bcnt)))"
proof -
  obtain j c b1 where h: "free_head sbit bcnt bmap = Some (c = 0 \<and> j mod 8 \<noteq> 0, j, c, b1)" "sbit \<le> j" "j + c = sbit + bcnt"
      "c = 0 \<or> j mod 8 = 0" "cleared {sbit..<j} bmap b1"
    using free_head_clears [OF assms] by (elim exE conjE) (rule that)
  have len1: "length b1 = length bmap" using h(5) by (simp add: cleared_def)
  have "\<exists>b. ext4_bmap_bits_free bmap sbit bcnt = Some b \<and> cleared {sbit..<sbit + bcnt} bmap b"
  proof (cases "c = 0 \<and> j mod 8 \<noteq> 0")
    case True
    then show ?thesis using h by (auto simp: ext4_bmap_bits_free_def)
  next
    case False
    then have j: "8 * (j div 8) = j" using h(4) by auto
    obtain q d b2 where m: "free_bytes (j div 8) c b1 = Some (q, d, b2)" "d < 8" "j div 8 \<le> q" "8 * q + d = 8 * (j div 8) + c"
        "cleared {8 * (j div 8)..<8 * q} b1 b2"
      using free_bytes_clears [of "j div 8" c b1] assms(1) h(3) j len1 by auto
    have len2: "length b2 = length bmap" using m(5) len1 by (simp add: cleared_def)
    have "q + i div 8 < length b2" if "i \<in> set [0..<d]" for i
      using that m(2,4) j h(3) assms(1) len2 by auto
    from free_tail_clears [OF this] obtain b3 where t: "free_tail q [0..<d] b2 = Some b3"
        "cleared ((+) (8 * q) ` set [0..<d]) b2 b3" by blast
    have "(+) (8 * q) ` set [0..<d] = {8 * q..<8 * q + d}" by (simp add: add.commute)
    moreover have "8 * q + d = sbit + bcnt" "j \<le> 8 * q" "8 * q \<le> 8 * q + d" using h(3) m(3,4) j by linarith+
    ultimately have "{sbit..<j} \<union> {8 * (j div 8)..<8 * q} \<union> (+) (8 * q) ` set [0..<d] = {sbit..<sbit + bcnt}"
      using h(2) j by (simp add: ivl_disj_un_two(3))
    then have "cleared {sbit..<sbit + bcnt} bmap b3"
      using cleared_trans [OF cleared_trans [OF h(5) m(5)] t(2)] by simp
    then show ?thesis using False h(1) m(1) t(1) by (auto simp: ext4_bmap_bits_free_def)
  qed
  then show ?thesis by (auto simp: cleared_def)
qed

theorem bits_free_clears_range_witness:
  "\<exists>bmap'. ext4_bmap_bits_free [0xFF, 0xFF, 0xFF] 5 14 = Some bmap' \<and> bmbit bmap' 4 \<and> \<not> bmbit bmap' 18"
proof -
  obtain b where b: "ext4_bmap_bits_free [0xFF, 0xFF, 0xFF] 5 14 = Some b"
      "\<forall>n < 24. bmbit b n = (bmbit [0xFF, 0xFF, 0xFF] n \<and> \<not> (5 \<le> n \<and> n < 19))"
    using bits_free_clears_range [of 5 14 "[0xFF, 0xFF, 0xFF]"] by auto
  have "bmbit b 4" "\<not> bmbit b 18" using b(2) by (simp_all add: bmbit_def [of "[0xFF, 0xFF, 0xFF]"])
  then show ?thesis using b(1) by blast
qed

subsection \<open>Searching for a clear bit\<close>

definition all_set :: "bitmap \<Rightarrow> nat \<Rightarrow> nat \<Rightarrow> bool" where
  "all_set bmap a b \<longleftrightarrow> (\<forall>n. a \<le> n \<longrightarrow> n < b \<longrightarrow> bmbit bmap n)"

lemma all_set_join: "all_set bmap a b \<Longrightarrow> all_set bmap b c \<Longrightarrow> all_set bmap a c"
  unfolding all_set_def using leI by blast

lemma all_set_empty [simp]: "all_set bmap a a"
  by (simp add: all_set_def)

lemma all_set_snoc: "bmbit bmap a \<Longrightarrow> all_set bmap (a + 1) b \<Longrightarrow> all_set bmap a b"
  unfolding all_set_def by (metis Suc_eq_plus1 Suc_leI nat_less_le)

text \<open>The first clear bit of a range.\<close>

definition first_clear :: "bitmap \<Rightarrow> nat \<Rightarrow> nat \<Rightarrow> nat \<Rightarrow> bool" where
  "first_clear bmap a b m \<longleftrightarrow> a \<le> m \<and> m < b \<and> \<not> bmbit bmap m \<and> all_set bmap a m"

lemma round_up_8:
  assumes "i mod 8 \<noteq> (0 :: nat)"
  shows "(i + 7) div 8 = i div 8 + 1"
proof -
  have "i + 7 = i mod 8 + 7 + 8 * (i div 8)" using div_mult_mod_eq [of i 8] by linarith
  then have "(i + 7) div 8 = i div 8 + (i mod 8 + 7) div 8" by (metis div_mult_self2 numeral_eq_iff zero_neq_numeral add.commute)
  moreover have "(i mod 8 + 7) div 8 = 1" using assms mod_less_divisor [of 8 i] by (intro div_nat_eqI) simp_all
  ultimately show ?thesis by simp
qed

lemma find_head_spec:
  assumes "i + bcnt \<le> 8 * length bmap" "i + bcnt < 2 ^ 32"
  shows "(\<exists>m. find_head i bcnt s bmap = Some (Inl (EOK, Some s)) \<and> first_clear bmap i (i + bcnt) m \<and> m < 8 * ((i + 7) div 8)) \<or>
    find_head i bcnt s bmap = Some (Inl (ENOSPC, None)) \<and> all_set bmap i (i + bcnt) \<or>
    (\<exists>j c. find_head i bcnt s bmap = Some (Inr (j, c)) \<and> j = 8 * ((i + 7) div 8) \<and> j + c = i + bcnt \<and> all_set bmap i j)"
  using assms
proof (induction bcnt arbitrary: i)
  case 0
  then show ?case by (subst (1 2 3) find_head.simps) auto
next
  case (Suc bcnt)
  show ?case
  proof (cases "i mod 8 = 0")
    case True
    then have "8 * ((i + 7) div 8) = i" by auto
    then show ?thesis using True by (subst (1 2 3) find_head.simps) auto
  next
    case False
    have i: "0 + i div 8 < length bmap" using Suc.prems(1) by linarith
    have e: "8 * ((i + 1 + 7) div 8) = 8 * ((i + 7) div 8)" using round_up_8 [OF False] div_add_self1 [of 8 i] by simp
    have lt: "i < 8 * ((i + 7) div 8)" using round_up_8 [OF False] div_mult_mod_eq [of i 8] mod_less_divisor [of 8 i] by linarith
    have step: "find_head i (Suc bcnt) s bmap = (if bmbit bmap i then find_head (i + 1) bcnt s bmap else Some (Inl (EOK, Some s)))"
      using False is_bit(2) [OF i] Suc.prems by (subst find_head.simps) simp
    show ?thesis
    proof (cases "bmbit bmap i")
      case True
      then have a: "all_set bmap (i + 1) b \<Longrightarrow> all_set bmap i b" for b using all_set_snoc by blast
      have f: "first_clear bmap (i + 1) b m \<Longrightarrow> first_clear bmap i b m" for b m
        using a by (auto simp: first_clear_def)
      have IH: "(\<exists>m. find_head (i + 1) bcnt s bmap = Some (Inl (EOK, Some s)) \<and> first_clear bmap (i + 1) (i + 1 + bcnt) m \<and> m < 8 * ((i + 1 + 7) div 8)) \<or>
          find_head (i + 1) bcnt s bmap = Some (Inl (ENOSPC, None)) \<and> all_set bmap (i + 1) (i + 1 + bcnt) \<or>
          (\<exists>j c. find_head (i + 1) bcnt s bmap = Some (Inr (j, c)) \<and> j = 8 * ((i + 1 + 7) div 8) \<and> j + c = i + 1 + bcnt \<and> all_set bmap (i + 1) j)"
        using Suc.IH [of "i + 1"] Suc.prems by simp
      have s: "i + Suc bcnt = i + 1 + bcnt" by simp
      show ?thesis unfolding step s if_P [OF True] using IH [unfolded e] a f by blast
    next
      case False
      then have "first_clear bmap i (i + Suc bcnt) i" by (simp add: first_clear_def)
      then show ?thesis using False lt unfolding step by auto
    qed
  qed
qed

lemma find_bit_spec:
  assumes "\<forall>i. a \<le> i \<longrightarrow> i < a + n \<longrightarrow> p + i div 8 < length bmap"
  shows "(\<exists>m. find_bit p s [a..<a + n] bmap = Some (Some (s + m)) \<and> first_clear bmap (8 * p + a) (8 * p + a + n) (8 * p + m)) \<or>
    find_bit p s [a..<a + n] bmap = Some None \<and> all_set bmap (8 * p + a) (8 * p + a + n)"
  using assms
proof (induction n arbitrary: a)
  case 0
  then show ?case by simp
next
  case (Suc n)
  have u: "[a..<a + Suc n] = a # [a + 1..<a + 1 + n]" by (simp add: upt_conv_Cons)
  have step: "find_bit p s [a..<a + Suc n] bmap =
      (if bmbit bmap (8 * p + a) then find_bit p s [a + 1..<a + 1 + n] bmap else Some (Some (s + a)))"
    unfolding u using is_bit(2) [of p a bmap] Suc.prems by simp
  show ?case
  proof (cases "bmbit bmap (8 * p + a)")
    case True
    then have a: "all_set bmap (8 * p + (a + 1)) b \<Longrightarrow> all_set bmap (8 * p + a) b" for b
      using all_set_snoc [of bmap "8 * p + a"] by (simp add: ac_simps)
    then have f: "first_clear bmap (8 * p + (a + 1)) b m \<Longrightarrow> first_clear bmap (8 * p + a) b m" for b m
      by (auto simp: first_clear_def)
    have s: "8 * p + a + Suc n = 8 * p + (a + 1) + n" by simp
    have IH: "(\<exists>m. find_bit p s [a + 1..<a + 1 + n] bmap = Some (Some (s + m)) \<and> first_clear bmap (8 * p + (a + 1)) (8 * p + (a + 1) + n) (8 * p + m)) \<or>
        find_bit p s [a + 1..<a + 1 + n] bmap = Some None \<and> all_set bmap (8 * p + (a + 1)) (8 * p + (a + 1) + n)"
      by (rule Suc.IH) (use Suc.prems in auto)
    then show ?thesis unfolding step s if_P [OF True] using a f by blast
  next
    case False
    then have "first_clear bmap (8 * p + a) (8 * p + a + Suc n) (8 * p + a)" by (simp add: first_clear_def)
    then show ?thesis using False unfolding step by auto
  qed
qed

lemma full_byte:
  assumes "bmap ! p = 0xFF"
  shows "all_set bmap (8 * p) (8 * p + 8)"
proof -
  have "bit (0xFF :: u8) k" if "k < 8" for k
  proof -
    have "(0xFF :: u8) = mask 8" by (simp add: mask_eq_exp_minus_1)
    then show ?thesis using that by (simp only: bit_mask_iff) simp
  qed
  moreover have "n div 8 = p" if "8 * p \<le> n" "n < 8 * p + 8" for n using that by auto
  ultimately show ?thesis using assms by (simp add: all_set_def bmbit_def)
qed

lemma find_bytes_spec:
  assumes "8 * p + bcnt \<le> 8 * length bmap"
  shows "(\<exists>m. find_bytes p bcnt (8 * p) bmap = Some (Inl (EOK, Some m)) \<and> first_clear bmap (8 * p) (8 * p + bcnt) m) \<or>
    (\<exists>q c. find_bytes p bcnt (8 * p) bmap = Some (Inr (q, c, 8 * q)) \<and> c < 8 \<and> 8 * q + c = 8 * p + bcnt \<and> p \<le> q \<and> all_set bmap (8 * p) (8 * q))"
  using assms
proof (induction bcnt arbitrary: p rule: less_induct)
  case (less bcnt)
  show ?case
  proof (cases "8 \<le> bcnt")
    case False
    then have "find_bytes p bcnt (8 * p) bmap = Some (Inr (p, bcnt, 8 * p))" by (subst find_bytes.simps) simp
    then show ?thesis using False by auto
  next
    case True
    then have p: "p < length bmap" using less.prems by linarith
    have "\<forall>i. 0 \<le> i \<longrightarrow> i < 0 + 8 \<longrightarrow> p + i div 8 < length bmap" using p by simp
    from find_bit_spec [OF this, of "8 * p"]
    have fb: "(\<exists>m. find_bit p (8 * p) [0..<8] bmap = Some (Some (8 * p + m)) \<and> first_clear bmap (8 * p) (8 * p + 8) (8 * p + m)) \<or>
        find_bit p (8 * p) [0..<8] bmap = Some None \<and> all_set bmap (8 * p) (8 * p + 8)" by simp
    define r where "r = (if bmap ! p \<noteq> 0xFF then find_bit p (8 * p) [0..<8] bmap else Some None)"
    have r: "(\<exists>m. r = Some (Some m) \<and> first_clear bmap (8 * p) (8 * p + 8) m) \<or> r = Some None \<and> all_set bmap (8 * p) (8 * p + 8)"
      using fb full_byte [of bmap p] by (auto simp: r_def)
    have step: "find_bytes p bcnt (8 * p) bmap = r \<bind> (\<lambda>r. case r of Some x \<Rightarrow> Some (Inl (EOK, Some x))
        | None \<Rightarrow> find_bytes (p + 1) (bcnt - 8) (8 * (p + 1)) bmap)"
      using True p by (subst find_bytes.simps) (simp add: r_def add.commute)
    from r show ?thesis
    proof (elim disjE exE conjE)
      fix m assume m: "r = Some (Some m)" "first_clear bmap (8 * p) (8 * p + 8) m"
      then have "first_clear bmap (8 * p) (8 * p + bcnt) m" using True by (auto simp: first_clear_def)
      then show ?thesis using m(1) unfolding step by auto
    next
      assume m: "r = Some None" "all_set bmap (8 * p) (8 * p + 8)"
      have s: "8 * (p + 1) + (bcnt - 8) = 8 * p + bcnt" "8 * (p + 1) = 8 * p + 8" using True by simp_all
      have IH: "(\<exists>m. find_bytes (p + 1) (bcnt - 8) (8 * (p + 1)) bmap = Some (Inl (EOK, Some m)) \<and> first_clear bmap (8 * (p + 1)) (8 * p + bcnt) m) \<or>
          (\<exists>q c. find_bytes (p + 1) (bcnt - 8) (8 * (p + 1)) bmap = Some (Inr (q, c, 8 * q)) \<and> c < 8 \<and> 8 * q + c = 8 * p + bcnt \<and> p + 1 \<le> q \<and> all_set bmap (8 * (p + 1)) (8 * q))"
        using less.IH [of "bcnt - 8" "p + 1"] less.prems True unfolding s(1) by auto
      have a: "all_set bmap (8 * (p + 1)) b \<Longrightarrow> all_set bmap (8 * p) b" for b
        using all_set_join [OF m(2)] unfolding s(2) by blast
      have f: "first_clear bmap (8 * (p + 1)) b k \<Longrightarrow> first_clear bmap (8 * p) b k" for b k
        using a by (auto simp: first_clear_def)
      have "find_bytes p bcnt (8 * p) bmap = find_bytes (p + 1) (bcnt - 8) (8 * (p + 1)) bmap"
        unfolding step m(1) by simp
      then show ?thesis using IH a f by auto
    qed
  qed
qed

text \<open>
  C28: \<^verbatim>\<open>ext4_bmap_bit_find_clr\<close> stays inside the bitmap, returns \<^verbatim>\<open>ENOSPC\<close>
  exactly when every bit from \<^verbatim>\<open>sbit\<close> to \<^verbatim>\<open>ebit\<close> is set, and otherwise finds the first clear bit; but if
  that bit is before the first byte boundary after \<^verbatim>\<open>sbit\<close>, it reports \<^verbatim>\<open>sbit\<close> in its place.
\<close>

theorem find_clr_result:
  assumes "sbit \<le> ebit" "ebit \<le> 8 * length bmap" "ebit < 2 ^ 32"
  shows "(ext4_bmap_bit_find_clr bmap sbit ebit = Some (ENOSPC, None) \<and> (\<forall>n. sbit \<le> n \<longrightarrow> n < ebit \<longrightarrow> bmbit bmap n)) \<or>
    (\<exists>m. first_clear bmap sbit ebit m \<and>
      ext4_bmap_bit_find_clr bmap sbit ebit = Some (EOK, Some (if m < 8 * ((sbit + 7) div 8) then sbit else m)))"
proof -
  have c: "(2 ^ 32 + ebit - sbit) mod 2 ^ 32 = ebit - sbit" using assms by (simp add: mod_if)
  have b: "sbit + (ebit - sbit) = ebit" using assms(1) by simp
  note F = ext4_bmap_bit_find_clr_def [of bmap sbit ebit, unfolded c]
  let ?j = "8 * ((sbit + 7) div 8)"
  have h: "(\<exists>m. find_head sbit (ebit - sbit) sbit bmap = Some (Inl (EOK, Some sbit)) \<and> first_clear bmap sbit ebit m \<and> m < ?j) \<or>
      find_head sbit (ebit - sbit) sbit bmap = Some (Inl (ENOSPC, None)) \<and> all_set bmap sbit ebit \<or>
      (\<exists>j c. find_head sbit (ebit - sbit) sbit bmap = Some (Inr (j, c)) \<and> j = ?j \<and> j + c = ebit \<and> all_set bmap sbit j)"
    using find_head_spec [of sbit "ebit - sbit" bmap sbit] assms(2,3) unfolding b by blast
  from h show ?thesis
  proof (elim disjE exE conjE)
    fix m assume m: "find_head sbit (ebit - sbit) sbit bmap = Some (Inl (EOK, Some sbit))" "first_clear bmap sbit ebit m" "m < ?j"
    then show ?thesis by (auto simp: F intro!: exI [of _ m])
  next
    assume "find_head sbit (ebit - sbit) sbit bmap = Some (Inl (ENOSPC, None))" "all_set bmap sbit ebit"
    then show ?thesis by (simp add: F all_set_def)
  next
    fix j d assume j: "find_head sbit (ebit - sbit) sbit bmap = Some (Inr (j, d))" "j = ?j" "j + d = ebit" "all_set bmap sbit j"
    define p where "p = (sbit + 7) div 8"
    have jp: "j = 8 * p" "j div 8 = p" using j(2) by (simp_all add: p_def)
    have f: "first_clear bmap j ebit m \<Longrightarrow> first_clear bmap sbit ebit m \<and> \<not> m < ?j" for m
      using all_set_join [OF j(4)] j(2) by (auto simp: first_clear_def p_def)
    have bytes: "(\<exists>m. find_bytes p d j bmap = Some (Inl (EOK, Some m)) \<and> first_clear bmap j ebit m) \<or>
        (\<exists>q c. find_bytes p d j bmap = Some (Inr (q, c, 8 * q)) \<and> c < 8 \<and> 8 * q + c = ebit \<and> p \<le> q \<and> all_set bmap j (8 * q))"
      using find_bytes_spec [of p d bmap] j(3) assms(2) unfolding jp(1) by blast
    from bytes show ?thesis
    proof (elim disjE exE conjE)
      fix m assume m: "find_bytes p d j bmap = Some (Inl (EOK, Some m))" "first_clear bmap j ebit m"
      then have "ext4_bmap_bit_find_clr bmap sbit ebit = Some (EOK, Some m)"
        using j(1) jp(2) by (simp add: F)
      then show ?thesis using f [OF m(2)] by auto
    next
      fix q e assume q: "find_bytes p d j bmap = Some (Inr (q, e, 8 * q))" "e < 8" "8 * q + e = ebit" "p \<le> q" "all_set bmap j (8 * q)"
      have "\<forall>i. 0 \<le> i \<longrightarrow> i < 0 + e \<longrightarrow> q + i div 8 < length bmap" using q(2,3) assms(2) by auto
      from find_bit_spec [OF this, of "8 * q"] q(3)
      have fb: "(\<exists>m. find_bit q (8 * q) [0..<e] bmap = Some (Some (8 * q + m)) \<and> first_clear bmap (8 * q) ebit (8 * q + m)) \<or>
          find_bit q (8 * q) [0..<e] bmap = Some None \<and> all_set bmap (8 * q) ebit" by simp
      from fb show ?thesis
      proof (elim disjE exE conjE)
        fix m assume m: "find_bit q (8 * q) [0..<e] bmap = Some (Some (8 * q + m))" "first_clear bmap (8 * q) ebit (8 * q + m)"
        have le: "j \<le> 8 * q" using q(4) jp(1) by simp
        have "first_clear bmap j ebit (8 * q + m)" using m(2) all_set_join [OF q(5)] le by (auto simp: first_clear_def)
        moreover have "ext4_bmap_bit_find_clr bmap sbit ebit = Some (EOK, Some (8 * q + m))"
          using j(1) jp(2) q(1) m(1) by (simp add: F)
        ultimately show ?thesis using f by auto
      next
        assume n: "find_bit q (8 * q) [0..<e] bmap = Some None" "all_set bmap (8 * q) ebit"
        then have "all_set bmap sbit ebit" using all_set_join [OF all_set_join [OF j(4) q(5)]] by blast
        then show ?thesis using j(1) jp(2) q(1) n(1) by (simp add: F all_set_def)
      qed
    qed
  qed
qed

text \<open>Bit 1 is set and bit 2 is clear: the search from bit 1 reports bit 1.\<close>

theorem find_clr_result_witness:
  "ext4_bmap_bit_find_clr [0xFB] 1 8 = Some (EOK, Some 1) \<and> bmbit [0xFB] 1 \<and> \<not> bmbit [0xFB] 2"
proof -
  have e: "(ext4_bmap_bit_find_clr [0xFB] 1 8 = Some (ENOSPC, None) \<and> (\<forall>n. 1 \<le> n \<longrightarrow> n < 8 \<longrightarrow> bmbit [0xFB] n)) \<or>
    (\<exists>m. first_clear [0xFB] 1 8 m \<and>
      ext4_bmap_bit_find_clr [0xFB] 1 8 = Some (EOK, Some (if m < 8 * ((1 + 7) div 8) then 1 else m)))"
    by (rule find_clr_result) simp_all
  have b: "bmbit [0xFB] 1" "\<not> bmbit [0xFB] 2" by (simp_all add: bmbit_def)
  have "m < 8" if "first_clear [0xFB] 1 8 m" for m using that by (simp add: first_clear_def)
  moreover have "\<not> (\<forall>n. 1 \<le> n \<longrightarrow> n < 8 \<longrightarrow> bmbit [0xFB] n)" using b(2) by (auto intro!: exI [of _ 2])
  ultimately have "ext4_bmap_bit_find_clr [0xFB] 1 8 = Some (EOK, Some 1)" using e by auto
  then show ?thesis using b by simp
qed

end
