(* ===== verification/XV_Ext4_Inode.thy ===== *)
theory XV_Ext4_Inode
  imports XV_Ext4_Group XV_Ext4_Bitmap
begin

text \<open>
  Inodes of ext4 (\<^verbatim>\<open>fs/ext4_inode.c\<close>): every getter and setter, on the bytes of the inode and of the
  superblock. An inode of the original size has 128 bytes; the members after them are only used when the
  superblock declares larger inodes. A blocks number that goes out of the array \<^verbatim>\<open>blocks\<close> is \<open>None\<close>.
\<close>

definition EXT4_GOOD_OLD_INODE_SIZE :: u16 where "EXT4_GOOD_OLD_INODE_SIZE = 128"
definition EXT4_INODE_MODE_DIRECTORY :: u32 where "EXT4_INODE_MODE_DIRECTORY = 0x4000"
definition EXT4_INODE_MODE_FILE :: u32 where "EXT4_INODE_MODE_FILE = 0x8000"
definition EXT4_INODE_MODE_SOFTLINK :: u32 where "EXT4_INODE_MODE_SOFTLINK = 0xA000"
definition EXT4_INODE_MODE_TYPE_MASK :: u32 where "EXT4_INODE_MODE_TYPE_MASK = 0xF000"
definition EXT4_INODE_FLAG_IMMUTABLE :: u32 where "EXT4_INODE_FLAG_IMMUTABLE = 0x00000010"
definition EXT4_INODE_FLAG_APPEND :: u32 where "EXT4_INODE_FLAG_APPEND = 0x00000020"
definition EXT4_INODE_FLAG_HUGE_FILE :: u32 where "EXT4_INODE_FLAG_HUGE_FILE = 0x00040000"

lemmas inode_consts = EINVAL_def EXT4_GOOD_OLD_INODE_SIZE_def EXT4_INODE_MODE_DIRECTORY_def EXT4_INODE_MODE_FILE_def
  EXT4_INODE_MODE_SOFTLINK_def EXT4_INODE_MODE_TYPE_MASK_def EXT4_INODE_FLAG_IMMUTABLE_def EXT4_INODE_FLAG_APPEND_def
  EXT4_INODE_FLAG_HUGE_FILE_def EOK_def

text \<open>The loop of \<^verbatim>\<open>ext4_inode_block_bits_count\<close>.\<close>

function block_bits :: "u32 \<Rightarrow> u32 \<Rightarrow> u32" where
  "block_bits bits sz =
     (let bits = bits + 1; sz = drop_bit 1 sz
      in if 256 < sz then block_bits bits sz else bits)"
  by pat_completeness auto

lemma unat_half: "unat (drop_bit 1 sz :: u32) = unat sz div 2"
  by (simp add: drop_bit_eq_div unat_div)

termination block_bits
proof (relation "measure (\<lambda>(bits, sz). unat sz)")
  fix bits sz b s :: u32
  assume "b = bits + 1" "s = drop_bit 1 sz" "256 < s"
  then show "((b, s), bits, sz) \<in> measure (\<lambda>(bits, sz). unat sz)"
    using unat_half [of sz] by (auto simp: word_less_nat_alt)
qed simp

declare block_bits.simps [simp del]

definition ext4_inode_block_bits_count :: "u32 \<Rightarrow> u32" where
  "ext4_inode_block_bits_count block_size = block_bits 8 block_size"

definition ext4_inode_get_mode :: "u8 list \<Rightarrow> u8 list \<Rightarrow> u32" where
  "ext4_inode_get_mode sb inode =
     (let v = getf (inof ''mode'') inode
      in if getf (sbf ''creator_os'') sb = EXT4_SUPERBLOCK_OS_HURD
         then v OR push_bit 16 (getf (hurd2 ''mode_high'') inode) else v)"

definition ext4_inode_set_mode :: "u8 list \<Rightarrow> u8 list \<Rightarrow> u32 \<Rightarrow> u8 list" where
  "ext4_inode_set_mode sb inode mode =
     (let inode = putf (inof ''mode'') (drop_bit 16 (push_bit 16 mode)) inode
      in if getf (sbf ''creator_os'') sb = EXT4_SUPERBLOCK_OS_HURD
         then putf (hurd2 ''mode_high'') (drop_bit 16 mode) inode else inode)"

definition ext4_inode_get_uid :: "u8 list \<Rightarrow> u32" where
  "ext4_inode_get_uid inode = getf (inof ''uid'') inode"

definition ext4_inode_set_uid :: "u8 list \<Rightarrow> u32 \<Rightarrow> u8 list" where
  "ext4_inode_set_uid inode uid = putf (inof ''uid'') uid inode"

definition ext4_inode_type :: "u8 list \<Rightarrow> u8 list \<Rightarrow> u32" where
  "ext4_inode_type sb inode = ext4_inode_get_mode sb inode AND EXT4_INODE_MODE_TYPE_MASK"

definition ext4_inode_is_type :: "u8 list \<Rightarrow> u8 list \<Rightarrow> u32 \<Rightarrow> bool" where
  "ext4_inode_is_type sb inode ty \<longleftrightarrow> ext4_inode_type sb inode = ty"

definition ext4_inode_get_size :: "u8 list \<Rightarrow> u8 list \<Rightarrow> u64" where
  "ext4_inode_get_size sb inode =
     (let v = getf (inof ''size_lo'') inode
      in if 0 < (getf (sbf ''rev_level'') sb :: u32) \<and> ext4_inode_is_type sb inode EXT4_INODE_MODE_FILE
         then v OR push_bit 32 (getf (inof ''size_hi'') inode) else v)"

definition ext4_inode_set_size :: "u8 list \<Rightarrow> u64 \<Rightarrow> u8 list" where
  "ext4_inode_set_size inode sz =
     (let inode = putf (inof ''size_lo'') (drop_bit 32 (push_bit 32 sz)) inode
      in putf (inof ''size_hi'') (drop_bit 32 sz) inode)"

definition ext4_inode_get_csum :: "u8 list \<Rightarrow> u8 list \<Rightarrow> u32" where
  "ext4_inode_get_csum sb inode =
     (let inode_size = getf (sbf ''inode_size'') sb :: u16;
          v = getf (linux2 ''checksum_lo'') inode
      in if EXT4_GOOD_OLD_INODE_SIZE < inode_size then v OR push_bit 16 (getf (inof ''checksum_hi'') inode) else v)"

definition ext4_inode_set_csum :: "u8 list \<Rightarrow> u8 list \<Rightarrow> u32 \<Rightarrow> u8 list" where
  "ext4_inode_set_csum sb inode checksum =
     (let inode_size = getf (sbf ''inode_size'') sb :: u16;
          inode = putf (linux2 ''checksum_lo'') (drop_bit 16 (push_bit 16 checksum)) inode
      in if EXT4_GOOD_OLD_INODE_SIZE < inode_size then putf (inof ''checksum_hi'') (drop_bit 16 checksum) inode else inode)"

definition ext4_inode_get_access_time :: "u8 list \<Rightarrow> u32" where
  "ext4_inode_get_access_time inode = getf (inof ''access_time'') inode"

definition ext4_inode_set_access_time :: "u8 list \<Rightarrow> u32 \<Rightarrow> u8 list" where
  "ext4_inode_set_access_time inode time = putf (inof ''access_time'') time inode"

definition ext4_inode_get_change_inode_time :: "u8 list \<Rightarrow> u32" where
  "ext4_inode_get_change_inode_time inode = getf (inof ''change_inode_time'') inode"

definition ext4_inode_set_change_inode_time :: "u8 list \<Rightarrow> u32 \<Rightarrow> u8 list" where
  "ext4_inode_set_change_inode_time inode time = putf (inof ''change_inode_time'') time inode"

definition ext4_inode_get_modif_time :: "u8 list \<Rightarrow> u32" where
  "ext4_inode_get_modif_time inode = getf (inof ''modification_time'') inode"

definition ext4_inode_set_modif_time :: "u8 list \<Rightarrow> u32 \<Rightarrow> u8 list" where
  "ext4_inode_set_modif_time inode time = putf (inof ''modification_time'') time inode"

definition ext4_inode_get_del_time :: "u8 list \<Rightarrow> u32" where
  "ext4_inode_get_del_time inode = getf (inof ''deletion_time'') inode"

definition ext4_inode_set_del_time :: "u8 list \<Rightarrow> u32 \<Rightarrow> u8 list" where
  "ext4_inode_set_del_time inode time = putf (inof ''deletion_time'') time inode"

definition ext4_inode_get_gid :: "u8 list \<Rightarrow> u32" where
  "ext4_inode_get_gid inode = getf (inof ''gid'') inode"

definition ext4_inode_set_gid :: "u8 list \<Rightarrow> u32 \<Rightarrow> u8 list" where
  "ext4_inode_set_gid inode gid = putf (inof ''gid'') gid inode"

definition ext4_inode_get_links_cnt :: "u8 list \<Rightarrow> u16" where
  "ext4_inode_get_links_cnt inode = getf (inof ''links_count'') inode"

definition ext4_inode_set_links_cnt :: "u8 list \<Rightarrow> u16 \<Rightarrow> u8 list" where
  "ext4_inode_set_links_cnt inode cnt = putf (inof ''links_count'') cnt inode"

definition ext4_inode_get_flags :: "u8 list \<Rightarrow> u32" where
  "ext4_inode_get_flags inode = getf (inof ''flags'') inode"

definition ext4_inode_set_flags :: "u8 list \<Rightarrow> u32 \<Rightarrow> u8 list" where
  "ext4_inode_set_flags inode flags = putf (inof ''flags'') flags inode"

definition ext4_inode_has_flag :: "u8 list \<Rightarrow> u32 \<Rightarrow> bool" where
  "ext4_inode_has_flag inode f \<longleftrightarrow> ext4_inode_get_flags inode AND f \<noteq> 0"

definition ext4_inode_clear_flag :: "u8 list \<Rightarrow> u32 \<Rightarrow> u8 list" where
  "ext4_inode_clear_flag inode f = (let flags = ext4_inode_get_flags inode in ext4_inode_set_flags inode (flags AND NOT f))"

definition ext4_inode_set_flag :: "u8 list \<Rightarrow> u32 \<Rightarrow> u8 list" where
  "ext4_inode_set_flag inode f = (let flags = ext4_inode_get_flags inode in ext4_inode_set_flags inode (flags OR f))"

definition ext4_inode_get_blocks_count :: "u8 list \<Rightarrow> u8 list \<Rightarrow> u64 option" where
  "ext4_inode_get_blocks_count sb inode =
     (let cnt = getf (inof ''blocks_count_lo'') inode
      in if ext4_sb_feature_ro_com sb EXT4_FRO_COM_HUGE_FILE
         then let cnt = cnt OR push_bit 32 (getf (linux2 ''blocks_high'') inode)
              in if ext4_inode_has_flag inode EXT4_INODE_FLAG_HUGE_FILE
                 then do {
                   block_count \<leftarrow> ext4_sb_get_block_size sb;
                   let b = ext4_inode_block_bits_count block_count;
                   Some (push_bit (unat (b - 9)) cnt) }
                 else Some cnt
         else Some cnt)"

definition ext4_inode_set_blocks_count :: "u8 list \<Rightarrow> u8 list \<Rightarrow> u64 \<Rightarrow> (int \<times> u8 list) option" where
  "ext4_inode_set_blocks_count sb inode count =
     (let mx = drop_bit 32 (NOT 0)
      in if count \<le> mx then
           let inode = putf (inof ''blocks_count_lo'') (ucast count :: u32) inode;
               inode = putf (linux2 ''blocks_high'') (0 :: u16) inode
           in Some (EOK, ext4_inode_clear_flag inode EXT4_INODE_FLAG_HUGE_FILE)
         else if \<not> ext4_sb_feature_ro_com sb EXT4_FRO_COM_HUGE_FILE then Some (EINVAL, inode)
         else let mx = drop_bit 16 (NOT 0)
              in if count \<le> mx then
                   let inode = putf (inof ''blocks_count_lo'') (ucast count :: u32) inode;
                       inode = putf (linux2 ''blocks_high'') (ucast (drop_bit 32 count) :: u16) inode
                   in Some (EOK, ext4_inode_clear_flag inode EXT4_INODE_FLAG_HUGE_FILE)
                 else do {
                   block_count \<leftarrow> ext4_sb_get_block_size sb;
                   let block_bits = ext4_inode_block_bits_count block_count;
                   let inode = ext4_inode_set_flag inode EXT4_INODE_FLAG_HUGE_FILE;
                   let count = drop_bit (unat (block_bits - 9)) count;
                   let inode = putf (inof ''blocks_count_lo'') (ucast count :: u32) inode;
                   let inode = putf (linux2 ''blocks_high'') (ucast (drop_bit 32 count) :: u16) inode;
                   Some (EOK, inode) })"

definition ext4_inode_get_generation :: "u8 list \<Rightarrow> u32" where
  "ext4_inode_get_generation inode = getf (inof ''generation'') inode"

definition ext4_inode_set_generation :: "u8 list \<Rightarrow> u32 \<Rightarrow> u8 list" where
  "ext4_inode_set_generation inode gen = putf (inof ''generation'') gen inode"

definition ext4_inode_get_extra_isize :: "u8 list \<Rightarrow> u8 list \<Rightarrow> u16" where
  "ext4_inode_get_extra_isize sb inode =
     (let inode_size = getf (sbf ''inode_size'') sb
      in if EXT4_GOOD_OLD_INODE_SIZE < inode_size then getf (inof ''extra_isize'') inode else 0)"

definition ext4_inode_set_extra_isize :: "u8 list \<Rightarrow> u8 list \<Rightarrow> u16 \<Rightarrow> u8 list" where
  "ext4_inode_set_extra_isize sb inode sz =
     (let inode_size = getf (sbf ''inode_size'') sb
      in if EXT4_GOOD_OLD_INODE_SIZE < inode_size then putf (inof ''extra_isize'') sz inode else inode)"

definition ext4_inode_get_file_acl :: "u8 list \<Rightarrow> u8 list \<Rightarrow> u64" where
  "ext4_inode_get_file_acl inode sb =
     (let v = getf (inof ''file_acl_lo'') inode
      in if getf (sbf ''creator_os'') sb = EXT4_SUPERBLOCK_OS_LINUX
         then v OR ucast (push_bit 16 (getf (linux2 ''file_acl_high'') inode) :: u32) else v)"

definition ext4_inode_set_file_acl :: "u8 list \<Rightarrow> u8 list \<Rightarrow> u64 \<Rightarrow> u8 list" where
  "ext4_inode_set_file_acl inode sb acl =
     (let inode = putf (inof ''file_acl_lo'') (drop_bit 32 (push_bit 32 acl)) inode
      in if getf (sbf ''creator_os'') sb = EXT4_SUPERBLOCK_OS_LINUX
         then putf (linux2 ''file_acl_high'') (ucast (drop_bit 32 acl) :: u16) inode else inode)"

definition ext4_inode_get_direct_block :: "u8 list \<Rightarrow> u32 \<Rightarrow> u32 option" where
  "ext4_inode_get_direct_block inode idx =
     (if unat idx < EXT4_INODE_BLOCKS then Some (getf (elem_fld (inof ''blocks'') 4 (unat idx)) inode) else None)"

definition ext4_inode_set_direct_block :: "u8 list \<Rightarrow> u32 \<Rightarrow> u32 \<Rightarrow> u8 list option" where
  "ext4_inode_set_direct_block inode idx block =
     (if unat idx < EXT4_INODE_BLOCKS then Some (putf (elem_fld (inof ''blocks'') 4 (unat idx)) block inode) else None)"

definition ext4_inode_get_indirect_block :: "u8 list \<Rightarrow> u32 \<Rightarrow> u32 option" where
  "ext4_inode_get_indirect_block inode idx =
     (let i = unat (idx + of_nat EXT4_INODE_INDIRECT_BLOCK)
      in if i < EXT4_INODE_BLOCKS then Some (getf (elem_fld (inof ''blocks'') 4 i) inode) else None)"

definition ext4_inode_set_indirect_block :: "u8 list \<Rightarrow> u32 \<Rightarrow> u32 \<Rightarrow> u8 list option" where
  "ext4_inode_set_indirect_block inode idx block =
     (let i = unat (idx + of_nat EXT4_INODE_INDIRECT_BLOCK)
      in if i < EXT4_INODE_BLOCKS then Some (putf (elem_fld (inof ''blocks'') 4 i) block inode) else None)"

definition ext4_inode_get_dev :: "u8 list \<Rightarrow> u32 option" where
  "ext4_inode_get_dev inode = do {
     dev_0 \<leftarrow> ext4_inode_get_direct_block inode 0;
     dev_1 \<leftarrow> ext4_inode_get_direct_block inode 1;
     Some (if dev_0 \<noteq> 0 then dev_0 else dev_1)
   }"

definition ext4_inode_set_dev :: "u8 list \<Rightarrow> u32 \<Rightarrow> u8 list option" where
  "ext4_inode_set_dev inode dev =
     (if dev AND NOT 0xFFFF \<noteq> 0 then ext4_inode_set_direct_block inode 1 dev
      else ext4_inode_set_direct_block inode 0 dev)"

definition ext4_inode_can_truncate :: "u8 list \<Rightarrow> u8 list \<Rightarrow> bool" where
  "ext4_inode_can_truncate sb inode =
     (if ext4_inode_has_flag inode EXT4_INODE_FLAG_APPEND \<or> ext4_inode_has_flag inode EXT4_INODE_FLAG_IMMUTABLE then False
      else if ext4_inode_is_type sb inode EXT4_INODE_MODE_FILE \<or> ext4_inode_is_type sb inode EXT4_INODE_MODE_DIRECTORY
          \<or> ext4_inode_is_type sb inode EXT4_INODE_MODE_SOFTLINK then True
      else False)"

text \<open>The extent header is at the start of the array \<^verbatim>\<open>blocks\<close>: the offset of the pointer in the inode.\<close>

definition ext4_inode_get_extent_header :: nat where
  "ext4_inode_get_extent_header = fst (inof ''blocks'')"

subsection \<open>Reading back what was stored\<close>

lemma take_bit_small: "unat v < 2 ^ n \<Longrightarrow> take_bit n v = (v :: 'a::len word)"
  by (simp add: word_unat_eq_iff unsigned_take_bit_eq take_bit_nat_eq_self)

lemma low_half_64: "drop_bit 32 (push_bit 32 v) = take_bit 32 (v :: u64)"
  by (rule bit_word_eqI) (auto simp: bit_simps)

lemma inode_flag:
  assumes "128 \<le> length inode" "f \<noteq> 0"
  shows "ext4_inode_has_flag (ext4_inode_set_flag inode f) f"
    and "\<not> ext4_inode_has_flag (ext4_inode_clear_flag inode f) f"
proof -
  have "(x OR f) AND f = f" "(x AND NOT f) AND f = 0" for x by (rule bit_word_eqI; auto simp: bit_simps)+
  then show "ext4_inode_has_flag (ext4_inode_set_flag inode f) f" "\<not> ext4_inode_has_flag (ext4_inode_clear_flag inode f) f"
    using assms by (simp_all add: ext4_inode_has_flag_def ext4_inode_set_flag_def ext4_inode_clear_flag_def
        ext4_inode_set_flags_def ext4_inode_get_flags_def member_access take_bit_full)
qed

lemmas inode_access = member_access halves low_half_64 Let_def
  ext4_inode_get_mode_def ext4_inode_set_mode_def ext4_inode_get_uid_def ext4_inode_set_uid_def
  ext4_inode_get_size_def ext4_inode_set_size_def ext4_inode_is_type_def ext4_inode_type_def
  ext4_inode_get_csum_def ext4_inode_set_csum_def ext4_inode_get_access_time_def ext4_inode_set_access_time_def
  ext4_inode_get_change_inode_time_def ext4_inode_set_change_inode_time_def
  ext4_inode_get_modif_time_def ext4_inode_set_modif_time_def ext4_inode_get_del_time_def ext4_inode_set_del_time_def
  ext4_inode_get_gid_def ext4_inode_set_gid_def ext4_inode_get_links_cnt_def ext4_inode_set_links_cnt_def
  ext4_inode_get_flags_def ext4_inode_set_flags_def ext4_inode_get_generation_def ext4_inode_set_generation_def
  ext4_inode_get_extra_isize_def ext4_inode_set_extra_isize_def ext4_inode_get_file_acl_def ext4_inode_set_file_acl_def
  ext4_inode_get_direct_block_def ext4_inode_set_direct_block_def elem_fld_def inode_block_defs



text \<open>
  C40: on a file system of Linux \<^verbatim>\<open>ext4_inode_get_file_acl\<close> returns the block that
  \<^verbatim>\<open>ext4_inode_set_file_acl\<close> stored exactly when its number fits in 32 bits: the getter puts the
  high half at bit 16 instead of bit 32.
\<close>

theorem inode_file_acl:
  assumes "128 \<le> length inode" "getf (sbf ''creator_os'') sb = EXT4_SUPERBLOCK_OS_LINUX"
  shows "ext4_inode_get_file_acl (ext4_inode_set_file_acl inode sb acl) sb = acl \<longleftrightarrow> unat acl < 2 ^ 32"
proof -
  let ?r = "ext4_inode_get_file_acl (ext4_inode_set_file_acl inode sb acl) sb"
  have r: "?r = take_bit 32 acl OR ucast (push_bit 16 (ucast (take_bit 16 (ucast (drop_bit 32 acl) :: u16)) :: u32))"
    using assms by (simp add: inode_access ext4_consts)
  have "take_bit 32 ?r = ?r" unfolding r by (rule bit_word_eqI) (auto simp: bit_simps)
  then have "unat ?r < 2 ^ 32" by (metis take_bit_nat_less_exp unsigned_take_bit_eq)
  moreover have "?r = acl" if "unat acl < 2 ^ 32"
  proof -
    have t: "take_bit 32 acl = acl" by (rule take_bit_small) (rule that)
    have "drop_bit 32 acl = 0" using arg_cong [OF t, of "drop_bit 32"] by (simp add: drop_bit_take_bit)
    then show ?thesis unfolding r by (simp add: t)
  qed
  ultimately show ?thesis by auto
qed

theorem inode_file_acl_witness:
  "ext4_inode_get_file_acl (ext4_inode_set_file_acl (replicate 128 0) sb_small 0x100000000) sb_small \<noteq> 0x100000000"
proof -
  have "getf (sbf ''creator_os'') sb_small = EXT4_SUPERBLOCK_OS_LINUX"
    by (simp add: sb_small_def ext4_consts member_access)
  then show ?thesis using inode_file_acl [of "replicate 128 0" sb_small "0x100000000"] by simp
qed

subsection \<open>The number of blocks\<close>

definition blocks_48 :: "u8 list \<Rightarrow> u64 \<Rightarrow> u8 list" where
  "blocks_48 inode c = putf (linux2 ''blocks_high'') (ucast (drop_bit 32 c) :: u16) (putf (inof ''blocks_count_lo'') (ucast c :: u32) inode)"

lemma halves_48: "take_bit 32 c OR push_bit 32 (ucast (ucast (drop_bit 32 c) :: u16)) = take_bit 48 (c :: u64)"
  by (rule bit_word_eqI) (auto simp: bit_simps)

lemma blocks_48_read:
  assumes "128 \<le> length inode"
  shows "(getf (inof ''blocks_count_lo'') (blocks_48 inode c) :: u64) = take_bit 32 c"
    and "getf (inof ''blocks_count_lo'') (blocks_48 inode c) OR push_bit 32 (getf (linux2 ''blocks_high'') (blocks_48 inode c)) = take_bit 48 c"
    and "ext4_inode_get_flags (blocks_48 inode c) = ext4_inode_get_flags inode"
    and "length (blocks_48 inode c) = length inode"
proof -
  have t: "take_bit 16 (x :: u16) = x" for x using take_bit_all [of x] by simp
  show "(getf (inof ''blocks_count_lo'') (blocks_48 inode c) :: u64) = take_bit 32 c"
    "getf (inof ''blocks_count_lo'') (blocks_48 inode c) OR push_bit 32 (getf (linux2 ''blocks_high'') (blocks_48 inode c)) = take_bit 48 c"
    "ext4_inode_get_flags (blocks_48 inode c) = ext4_inode_get_flags inode"
    "length (blocks_48 inode c) = length inode"
    using assms by (simp_all add: blocks_48_def member_access halves t halves_48 ext4_inode_get_flags_def)
qed

lemma flags_keep_blocks:
  assumes "128 \<le> length inode"
  shows "getf (inof ''blocks_count_lo'') (ext4_inode_set_flags inode f) = getf (inof ''blocks_count_lo'') inode"
    and "getf (linux2 ''blocks_high'') (ext4_inode_set_flags inode f) = getf (linux2 ''blocks_high'') inode"
  using assms by (simp_all add: ext4_inode_set_flags_def member_access)

text \<open>What the getter returns on an inode whose count is \<open>c\<close> in 48 bits, by its huge-file flag.\<close>

lemma get_blocks_count_48:
  assumes "getf (inof ''blocks_count_lo'') inode = take_bit 32 c"
    and "getf (inof ''blocks_count_lo'') inode OR push_bit 32 (getf (linux2 ''blocks_high'') inode) = take_bit 48 c"
    and "ext4_sb_get_block_size sb = Some bs" "k = unat (ext4_inode_block_bits_count bs - 9)"
  shows "ext4_inode_get_blocks_count sb inode = Some
    (if ext4_sb_feature_ro_com sb EXT4_FRO_COM_HUGE_FILE
     then if ext4_inode_has_flag inode EXT4_INODE_FLAG_HUGE_FILE then push_bit k (take_bit 48 c) else take_bit 48 c
     else take_bit 32 c)"
  using assms by (simp add: ext4_inode_get_blocks_count_def Let_def del: inode_fields osd2_fields)


lemma block_bits_log:
  "ext4_inode_block_bits_count 1024 = 10" "ext4_inode_block_bits_count 2048 = 11" "ext4_inode_block_bits_count 4096 = 12"
  "ext4_inode_block_bits_count 65536 = 16"
  by (simp_all add: ext4_inode_block_bits_count_def block_bits.simps)

definition sb_huge :: "u8 list" where
  "sb_huge = putf (sbf ''features_read_only'') EXT4_FRO_COM_HUGE_FILE sb_small"


text \<open>
  Device numbers: a number of more than 16 bits goes to \<^verbatim>\<open>blocks[1]\<close>, the others to
  \<^verbatim>\<open>blocks[0]\<close>, which the getter prefers; it returns the number just stored if the other
  slot does not hide it, as in a new inode.
\<close>

lemma inode_dev:
  assumes "128 \<le> length inode" "ext4_inode_get_direct_block inode 0 = Some d0" "ext4_inode_get_direct_block inode 1 = Some d1"
  shows "\<exists>inode'. ext4_inode_set_dev inode dev = Some inode'
    \<and> ext4_inode_get_dev inode' = Some
        (if dev AND NOT 0xFFFF \<noteq> 0 then (if d0 \<noteq> 0 then d0 else dev) else (if dev \<noteq> 0 then dev else d1))"
  using assms by (auto simp: ext4_inode_set_dev_def ext4_inode_get_dev_def inode_access)

end
