(* ===== verification/XV_Ext4_Blockdev.thy ===== *)
theory XV_Ext4_Blockdev
  imports XV_Ext4_Super XV_Ext4_Bitmap XV_Bio
begin

text \<open>
  The block device below ext4: \<^verbatim>\<open>fs/ext4_blockdev.c\<close> without the cache of logical blocks, and its
  interface to the buffer cache of the kernel, \<^verbatim>\<open>fs/blockdev.c\<close>.

  \<^verbatim>\<open>struct ext4_blockdev_iface\<close> is a record of functions over the state \<open>'s\<close> of the driver; the
  numbers of \<^verbatim>\<open>struct ext4_blockdev\<close> and of the interface are the record \<open>ext4_blockdev\<close>. An output
  buffer is a result, an input buffer an argument. A failed \<^verbatim>\<open>ext4_assert\<close> and a division by zero
  are \<open>None\<close>.

  The locale \<open>byte_device\<close> says what the interface promises about the bytes of the device. In it the
  byte-wise transfers are shown to read and to overwrite exactly their range, across the unaligned
  ends. The interpretation discharges its laws for the buffer cache of the kernel.
\<close>

record 's ext4_blockdev_iface =
  bd_open :: "'s \<Rightarrow> (int \<times> 's) option"
  bd_bread :: "u64 \<Rightarrow> u32 \<Rightarrow> 's \<Rightarrow> (int \<times> u8 list \<times> 's) option"
  bd_bwrite :: "u8 list \<Rightarrow> u64 \<Rightarrow> u32 \<Rightarrow> 's \<Rightarrow> (int \<times> 's) option"
  bd_close :: "'s \<Rightarrow> (int \<times> 's) option"
  bd_lock :: "('s \<Rightarrow> (int \<times> 's) option) option"
  bd_unlock :: "('s \<Rightarrow> (int \<times> 's) option) option"

record ext4_blockdev =
  part_offset :: u64
  part_size :: u64
  lg_bsize :: u32
  lg_bcnt :: u64
  ph_bsize :: u32
  ph_bcnt :: u64
  ph_bbuf :: "u8 list"
  ph_refctr :: u32
  bread_ctr :: u32
  bwrite_ctr :: u32

subsection \<open>Transfers of whole blocks\<close>

definition ext4_bdif_lock :: "'s ext4_blockdev_iface \<Rightarrow> 's \<Rightarrow> 's option" where
  "ext4_bdif_lock f s =
     (case bd_lock f of None \<Rightarrow> Some s
      | Some l \<Rightarrow> do { (r, s) \<leftarrow> l s; ensure (r = EOK); Some s })"

definition ext4_bdif_unlock :: "'s ext4_blockdev_iface \<Rightarrow> 's \<Rightarrow> 's option" where
  "ext4_bdif_unlock f s =
     (case bd_unlock f of None \<Rightarrow> Some s
      | Some l \<Rightarrow> do { (r, s) \<leftarrow> l s; ensure (r = EOK); Some s })"

definition ext4_bdif_bread ::
  "'s ext4_blockdev_iface \<Rightarrow> u64 \<Rightarrow> u32 \<Rightarrow> ext4_blockdev \<Rightarrow> 's \<Rightarrow> (int \<times> u8 list \<times> ext4_blockdev \<times> 's) option" where
  "ext4_bdif_bread f blk_id blk_cnt bd s = do {
     s \<leftarrow> ext4_bdif_lock f s;
     (r, buf, s) \<leftarrow> bd_bread f blk_id blk_cnt s;
     let bd = bd\<lparr>bread_ctr := bread_ctr bd + 1\<rparr>;
     s \<leftarrow> ext4_bdif_unlock f s;
     Some (r, buf, bd, s)
   }"

definition ext4_bdif_bwrite ::
  "'s ext4_blockdev_iface \<Rightarrow> u8 list \<Rightarrow> u64 \<Rightarrow> u32 \<Rightarrow> ext4_blockdev \<Rightarrow> 's \<Rightarrow> (int \<times> ext4_blockdev \<times> 's) option" where
  "ext4_bdif_bwrite f buf blk_id blk_cnt bd s = do {
     s \<leftarrow> ext4_bdif_lock f s;
     (r, s) \<leftarrow> bd_bwrite f buf blk_id blk_cnt s;
     let bd = bd\<lparr>bwrite_ctr := bwrite_ctr bd + 1\<rparr>;
     s \<leftarrow> ext4_bdif_unlock f s;
     Some (r, bd, s)
   }"

definition ext4_block_init :: "'s ext4_blockdev_iface \<Rightarrow> ext4_blockdev \<Rightarrow> 's \<Rightarrow> (int \<times> ext4_blockdev \<times> 's) option" where
  "ext4_block_init f bd s =
     (if ph_refctr bd \<noteq> 0 then Some (EOK, bd\<lparr>ph_refctr := ph_refctr bd + 1\<rparr>, s)
      else do {
        (rc, s) \<leftarrow> bd_open f s;
        if rc \<noteq> EOK then Some (rc, bd, s) else Some (EOK, bd\<lparr>ph_refctr := 1\<rparr>, s)
      })"

definition ext4_block_set_lb_size :: "ext4_blockdev \<Rightarrow> u32 \<Rightarrow> ext4_blockdev option" where
  "ext4_block_set_lb_size bd lb_bsize = do {
     ensure (ph_bsize bd \<noteq> 0 \<and> lb_bsize mod ph_bsize bd = 0);
     ensure (lb_bsize \<noteq> 0);
     Some (bd\<lparr>lg_bsize := lb_bsize, lg_bcnt := part_size bd div ucast lb_bsize\<rparr>)
   }"

definition ext4_block_fini :: "'s ext4_blockdev_iface \<Rightarrow> ext4_blockdev \<Rightarrow> 's \<Rightarrow> (int \<times> ext4_blockdev \<times> 's) option" where
  "ext4_block_fini f bd s =
     (if ph_refctr bd = 0 then Some (EOK, bd, s)
      else let bd = bd\<lparr>ph_refctr := ph_refctr bd - 1\<rparr>
           in if ph_refctr bd \<noteq> 0 then Some (EOK, bd, s)
              else do { (r, s) \<leftarrow> bd_close f s; Some (r, bd, s) })"

definition ext4_blocks_get_direct ::
  "'s ext4_blockdev_iface \<Rightarrow> u64 \<Rightarrow> u32 \<Rightarrow> ext4_blockdev \<Rightarrow> 's \<Rightarrow> (int \<times> u8 list \<times> ext4_blockdev \<times> 's) option" where
  "ext4_blocks_get_direct f lba cnt bd s = do {
     ensure (ph_bsize bd \<noteq> 0);
     let pba = (lba * ucast (lg_bsize bd) + part_offset bd) div ucast (ph_bsize bd);
     let pb_cnt = lg_bsize bd div ph_bsize bd;
     ext4_bdif_bread f pba (pb_cnt * cnt) bd s
   }"

definition ext4_blocks_set_direct ::
  "'s ext4_blockdev_iface \<Rightarrow> u8 list \<Rightarrow> u64 \<Rightarrow> u32 \<Rightarrow> ext4_blockdev \<Rightarrow> 's \<Rightarrow> (int \<times> ext4_blockdev \<times> 's) option" where
  "ext4_blocks_set_direct f buf lba cnt bd s = do {
     ensure (ph_bsize bd \<noteq> 0);
     let pba = (lba * ucast (lg_bsize bd) + part_offset bd) div ucast (ph_bsize bd);
     let pb_cnt = lg_bsize bd div ph_bsize bd;
     ext4_bdif_bwrite f buf pba (pb_cnt * cnt) bd s
   }"

subsection \<open>Transfers of bytes\<close>

text \<open>
  The three parts of \<^verbatim>\<open>ext4_block_readbytes\<close>: the unaligned start, the aligned blocks and the rest.
  Each gives the error code, the bytes it appends to the buffer, the length that is left and the next
  block.
\<close>

definition readbytes_head ::
  "'s ext4_blockdev_iface \<Rightarrow> u64 \<Rightarrow> u32 \<Rightarrow> u64 \<Rightarrow> ext4_blockdev \<Rightarrow> 's
   \<Rightarrow> (int \<times> u8 list \<times> u32 \<times> u64 \<times> ext4_blockdev \<times> 's) option" where
  "readbytes_head f off len block_idx bd s =
     (let unalg = ucast (off AND ucast (ph_bsize bd - 1)) :: u32
      in if unalg \<noteq> 0 then
           let rlen = (if len < ph_bsize bd - unalg then len else ph_bsize bd - unalg)
           in do {
             (r, buf, bd, s) \<leftarrow> ext4_bdif_bread f block_idx 1 bd s;
             let bd = bd\<lparr>ph_bbuf := buf\<rparr>;
             if r \<noteq> EOK then Some (r, [], len, block_idx, bd, s)
             else Some (EOK, take (unat rlen) (drop (unat unalg) (ph_bbuf bd)), len - rlen, block_idx + 1, bd, s)
           }
         else Some (EOK, [], len, block_idx, bd, s))"

definition readbytes_blocks ::
  "'s ext4_blockdev_iface \<Rightarrow> u32 \<Rightarrow> u64 \<Rightarrow> ext4_blockdev \<Rightarrow> 's
   \<Rightarrow> (int \<times> u8 list \<times> u32 \<times> u64 \<times> ext4_blockdev \<times> 's) option" where
  "readbytes_blocks f len block_idx bd s =
     (let blen = len div ph_bsize bd
      in if blen \<noteq> 0 then do {
           (r, buf, bd, s) \<leftarrow> ext4_bdif_bread f block_idx blen bd s;
           if r \<noteq> EOK then Some (r, buf, len, block_idx, bd, s)
           else Some (EOK, buf, len - ph_bsize bd * blen, block_idx + ucast blen, bd, s)
         }
         else Some (EOK, [], len, block_idx, bd, s))"

definition readbytes_rest ::
  "'s ext4_blockdev_iface \<Rightarrow> u32 \<Rightarrow> u64 \<Rightarrow> ext4_blockdev \<Rightarrow> 's \<Rightarrow> (int \<times> u8 list \<times> ext4_blockdev \<times> 's) option" where
  "readbytes_rest f len block_idx bd s =
     (if len \<noteq> 0 then do {
        (r, buf, bd, s) \<leftarrow> ext4_bdif_bread f block_idx 1 bd s;
        let bd = bd\<lparr>ph_bbuf := buf\<rparr>;
        if r \<noteq> EOK then Some (r, [], bd, s)
        else Some (EOK, take (unat len) (ph_bbuf bd), bd, s)
      }
      else Some (EOK, [], bd, s))"

definition ext4_block_readbytes ::
  "'s ext4_blockdev_iface \<Rightarrow> u64 \<Rightarrow> u32 \<Rightarrow> ext4_blockdev \<Rightarrow> 's \<Rightarrow> (int \<times> u8 list \<times> ext4_blockdev \<times> 's) option" where
  "ext4_block_readbytes f off len bd s =
     (if ph_refctr bd = 0 then Some (EIO, [], bd, s)
      else if part_size bd < off + ucast len then Some (EINVAL, [], bd, s)
      else do {
        ensure (ph_bsize bd \<noteq> 0);
        let block_idx = (off + part_offset bd) div ucast (ph_bsize bd);
        (r, p, len, block_idx, bd, s) \<leftarrow> readbytes_head f off len block_idx bd s;
        if r \<noteq> EOK then Some (r, p, bd, s)
        else do {
          (r, q, len, block_idx, bd, s) \<leftarrow> readbytes_blocks f len block_idx bd s;
          if r \<noteq> EOK then Some (r, p @ q, bd, s)
          else do {
            (r, t, bd, s) \<leftarrow> readbytes_rest f len block_idx bd s;
            Some (r, p @ q @ t, bd, s)
          }
        }
      })"

text \<open>
  \<^verbatim>\<open>ext4_block_writebytes\<close>, in the same three parts. Each gives the error code, the bytes it has not
  written, the length that is left and the next block.
\<close>

definition writebytes_head ::
  "'s ext4_blockdev_iface \<Rightarrow> u64 \<Rightarrow> u8 list \<Rightarrow> u32 \<Rightarrow> u64 \<Rightarrow> ext4_blockdev \<Rightarrow> 's
   \<Rightarrow> (int \<times> u8 list \<times> u32 \<times> u64 \<times> ext4_blockdev \<times> 's) option" where
  "writebytes_head f off p len block_idx bd s =
     (let unalg = ucast (off AND ucast (ph_bsize bd - 1)) :: u32
      in if unalg \<noteq> 0 then
           let wlen = (if len < ph_bsize bd - unalg then len else ph_bsize bd - unalg)
           in do {
             (r, buf, bd, s) \<leftarrow> ext4_bdif_bread f block_idx 1 bd s;
             let bd = bd\<lparr>ph_bbuf := buf\<rparr>;
             if r \<noteq> EOK then Some (r, p, len, block_idx, bd, s)
             else do {
               let bd = bd\<lparr>ph_bbuf := take (unat unalg) (ph_bbuf bd) @ take (unat wlen) p
                          @ drop (unat unalg + unat wlen) (ph_bbuf bd)\<rparr>;
               (r, bd, s) \<leftarrow> ext4_bdif_bwrite f (ph_bbuf bd) block_idx 1 bd s;
               if r \<noteq> EOK then Some (r, p, len, block_idx, bd, s)
               else Some (EOK, drop (unat wlen) p, len - wlen, block_idx + 1, bd, s)
             }
           }
         else Some (EOK, p, len, block_idx, bd, s))"

definition writebytes_blocks ::
  "'s ext4_blockdev_iface \<Rightarrow> u8 list \<Rightarrow> u32 \<Rightarrow> u64 \<Rightarrow> ext4_blockdev \<Rightarrow> 's
   \<Rightarrow> (int \<times> u8 list \<times> u32 \<times> u64 \<times> ext4_blockdev \<times> 's) option" where
  "writebytes_blocks f p len block_idx bd s =
     (let blen = len div ph_bsize bd
      in if blen \<noteq> 0 then do {
           (r, bd, s) \<leftarrow> ext4_bdif_bwrite f (take (unat (ph_bsize bd * blen)) p) block_idx blen bd s;
           if r \<noteq> EOK then Some (r, p, len, block_idx, bd, s)
           else Some (EOK, drop (unat (ph_bsize bd * blen)) p, len - ph_bsize bd * blen, block_idx + ucast blen, bd, s)
         }
         else Some (EOK, p, len, block_idx, bd, s))"

definition writebytes_rest ::
  "'s ext4_blockdev_iface \<Rightarrow> u8 list \<Rightarrow> u32 \<Rightarrow> u64 \<Rightarrow> ext4_blockdev \<Rightarrow> 's \<Rightarrow> (int \<times> ext4_blockdev \<times> 's) option" where
  "writebytes_rest f p len block_idx bd s =
     (if len \<noteq> 0 then do {
        (r, buf, bd, s) \<leftarrow> ext4_bdif_bread f block_idx 1 bd s;
        let bd = bd\<lparr>ph_bbuf := buf\<rparr>;
        if r \<noteq> EOK then Some (r, bd, s)
        else do {
          let bd = bd\<lparr>ph_bbuf := take (unat len) p @ drop (unat len) (ph_bbuf bd)\<rparr>;
          (r, bd, s) \<leftarrow> ext4_bdif_bwrite f (ph_bbuf bd) block_idx 1 bd s;
          Some (r, bd, s)
        }
      }
      else Some (EOK, bd, s))"

definition ext4_block_writebytes ::
  "'s ext4_blockdev_iface \<Rightarrow> u64 \<Rightarrow> u8 list \<Rightarrow> u32 \<Rightarrow> ext4_blockdev \<Rightarrow> 's \<Rightarrow> (int \<times> ext4_blockdev \<times> 's) option" where
  "ext4_block_writebytes f off p len bd s =
     (if ph_refctr bd = 0 then Some (EIO, bd, s)
      else if part_size bd < off + ucast len then Some (EINVAL, bd, s)
      else do {
        ensure (ph_bsize bd \<noteq> 0);
        let block_idx = (off + part_offset bd) div ucast (ph_bsize bd);
        (r, p, len, block_idx, bd, s) \<leftarrow> writebytes_head f off p len block_idx bd s;
        if r \<noteq> EOK then Some (r, bd, s)
        else do {
          (r, p, len, block_idx, bd, s) \<leftarrow> writebytes_blocks f p len block_idx bd s;
          if r \<noteq> EOK then Some (r, bd, s) else writebytes_rest f p len block_idx bd s
        }
      })"

subsection \<open>The superblock on the device\<close>

definition ext4_sb_write ::
  "'s ext4_blockdev_iface \<Rightarrow> u8 list \<Rightarrow> ext4_blockdev \<Rightarrow> 's \<Rightarrow> (int \<times> u8 list \<times> ext4_blockdev \<times> 's) option" where
  "ext4_sb_write f sb bd s = do {
     let sb = ext4_sb_set_csum sb;
     (r, bd, s) \<leftarrow> ext4_block_writebytes f EXT4_SUPERBLOCK_OFFSET sb (of_nat EXT4_SUPERBLOCK_SIZE) bd s;
     Some (r, sb, bd, s)
   }"

definition ext4_sb_read ::
  "'s ext4_blockdev_iface \<Rightarrow> ext4_blockdev \<Rightarrow> 's \<Rightarrow> (int \<times> u8 list \<times> ext4_blockdev \<times> 's) option" where
  "ext4_sb_read f bd s = ext4_block_readbytes f EXT4_SUPERBLOCK_OFFSET (of_nat EXT4_SUPERBLOCK_SIZE) bd s"

subsection \<open>The bytes of a device\<close>

definition overwrite :: "(nat \<Rightarrow> u8) \<Rightarrow> nat \<Rightarrow> u8 list \<Rightarrow> nat \<Rightarrow> u8" where
  "overwrite c a p x = (if a \<le> x \<and> x < a + length p then p ! (x - a) else c x)"

lemma overwrite_append: "overwrite (overwrite c a p) (a + length p) q = overwrite c a (p @ q)"
  by (auto simp: overwrite_def fun_eq_iff nth_append)

lemma overwrite_Nil [simp]: "overwrite c a [] = c"
  by (auto simp: overwrite_def fun_eq_iff)

lemma overwrite_merge:
  assumes "b \<le> a" "a + length p \<le> e"
  shows "overwrite c b (map c [b..<a] @ p @ map c [a + length p..<e]) = overwrite c a p"
  using assms by (auto simp: overwrite_def fun_eq_iff nth_append)

lemma map_overwrite:
  "map (overwrite c a p) [a..<a + length p] = p"
  by (rule nth_equalityI) (auto simp: overwrite_def)

lemma take_drop_upt:
  "m \<le> a \<Longrightarrow> a + n \<le> k \<Longrightarrow> take n (drop (a - m) (map c [m..<k])) = map c [a..<a + n]"
  by (simp add: take_map drop_map)

lemma map_upt_split: "a \<le> b \<Longrightarrow> b \<le> e \<Longrightarrow> map c [a..<e] = map c [a..<b] @ map c [b..<e]"
  by (metis le_Suc_ex map_append upt_add_eq_append)

lemma patch_block:
  assumes "a = b + u" "u + length q \<le> e - b" "b \<le> e"
  shows "take u (map c [b..<e]) @ q @ drop (u + length q) (map c [b..<e]) = map c [b..<a] @ q @ map c [a + length q..<e]"
  using assms by (simp add: take_map drop_map add.assoc)

lemma unat_exp: "n < 32 \<Longrightarrow> unat (2 ^ n :: u32) = 2 ^ n"
proof -
  assume "n < 32"
  then have "(2 :: nat) ^ n < 2 ^ 32" by (rule power_strict_increasing) simp
  then have "unat (of_nat (2 ^ n) :: u32) = 2 ^ n" by (simp only: unat_of_nat) (simp add: take_bit_nat_eq_self)
  then show ?thesis by simp
qed

lemma unalg_mod:
  assumes "n < 32"
  shows "unat (ucast (off AND ucast (2 ^ n - 1 :: u32)) :: u32) = unat (off :: u64) mod 2 ^ n"
proof -
  have "(ucast (mask n :: u32) :: u64) = mask n"
    using assms by (intro bit_word_eqI) (auto simp: bit_simps)
  then have e: "off AND ucast (2 ^ n - 1 :: u32) = take_bit n off"
    by (simp only: mask_eq_exp_minus_1 [symmetric] take_bit_eq_mask)
  have "unat (take_bit n off) = unat off mod 2 ^ n" unfolding unsigned_take_bit_eq by (rule take_bit_eq_mod)
  moreover have "unat off mod 2 ^ n < 2 ^ 32" 
  proof (rule less_trans)
    show "unat off mod 2 ^ n < 2 ^ n" by simp
    show "(2 :: nat) ^ n < 2 ^ 32" by (rule power_strict_increasing) (use assms in simp_all)
  qed
  ultimately show ?thesis unfolding e by (simp add: unat_ucast_down)
qed

text \<open>The numbers of a device that a transfer leaves alone.\<close>

definition geometry :: "ext4_blockdev \<Rightarrow> u64 \<times> u64 \<times> u32 \<times> u64 \<times> u32 \<times> u64 \<times> u32" where
  "geometry bd = (part_offset bd, part_size bd, lg_bsize bd, lg_bcnt bd, ph_bsize bd, ph_bcnt bd, ph_refctr bd)"

lemma geometry_update [simp]:
  "geometry (bd\<lparr>bread_ctr := r\<rparr>) = geometry bd" "geometry (bd\<lparr>bwrite_ctr := w\<rparr>) = geometry bd"
  "geometry (bd\<lparr>ph_bbuf := b\<rparr>) = geometry bd"
  by (simp_all add: geometry_def)

lemma geometryD:
  "geometry bd' = geometry bd \<Longrightarrow> part_offset bd' = part_offset bd \<and> part_size bd' = part_size bd \<and> lg_bsize bd' = lg_bsize bd
     \<and> lg_bcnt bd' = lg_bcnt bd \<and> ph_bsize bd' = ph_bsize bd \<and> ph_bcnt bd' = ph_bcnt bd \<and> ph_refctr bd' = ph_refctr bd"
  by (simp add: geometry_def)

lemma minus_of_unat [simp]: "(len :: u32) - of_nat (unat r) = len - r"
  by simp

lemma some_left: "unat (x - r) = unat x - unat r \<Longrightarrow> x - r \<noteq> 0 \<Longrightarrow> unat r < unat (x :: u32)"
  by (metis unat_gt_0 zero_less_diff)

subsection \<open>What the interface promises, and what the transfers of bytes do\<close>

locale byte_device =
  fixes f :: "'s ext4_blockdev_iface"
    and ok :: "'s \<Rightarrow> bool"
    and content :: "'s \<Rightarrow> nat \<Rightarrow> u8"
    and n :: nat
    and cap :: nat
  assumes bits: "0 < n" "n < 32" and cap: "cap \<le> 2 ^ 62" "2 ^ n dvd cap"
    and bread_law: "\<And>s blk cnt. ok s \<Longrightarrow> (unat blk + unat cnt) * 2 ^ n \<le> cap \<Longrightarrow> unat cnt < 2 ^ 31 \<Longrightarrow>
      \<exists>s'. bd_bread f blk cnt s = Some (EOK, map (content s) [unat blk * 2 ^ n..<(unat blk + unat cnt) * 2 ^ n], s')
        \<and> ok s' \<and> content s' = content s"
    and bwrite_law: "\<And>s blk cnt d. ok s \<Longrightarrow> (unat blk + unat cnt) * 2 ^ n \<le> cap \<Longrightarrow> unat cnt < 2 ^ 31 \<Longrightarrow>
      length d = unat cnt * 2 ^ n \<Longrightarrow>
      \<exists>s'. bd_bwrite f d blk cnt s = Some (EOK, s') \<and> ok s' \<and> content s' = overwrite (content s) (unat blk * 2 ^ n) d"
    and lock_law: "\<And>s l. ok s \<Longrightarrow> bd_lock f = Some l \<Longrightarrow> \<exists>s'. l s = Some (EOK, s') \<and> ok s' \<and> content s' = content s"
    and unlock_law: "\<And>s l. ok s \<Longrightarrow> bd_unlock f = Some l \<Longrightarrow> \<exists>s'. l s = Some (EOK, s') \<and> ok s' \<and> content s' = content s"
begin

lemma locks:
  assumes "ok s"
  shows "\<exists>s'. ext4_bdif_lock f s = Some s' \<and> ok s' \<and> content s' = content s"
    and "\<exists>s'. ext4_bdif_unlock f s = Some s' \<and> ok s' \<and> content s' = content s"
proof -
  show "\<exists>s'. ext4_bdif_lock f s = Some s' \<and> ok s' \<and> content s' = content s"
  proof (cases "bd_lock f")
    case (Some l)
    from lock_law [OF assms Some] show ?thesis by (elim exE conjE) (simp add: ext4_bdif_lock_def Some)
  qed (simp add: ext4_bdif_lock_def assms)
  show "\<exists>s'. ext4_bdif_unlock f s = Some s' \<and> ok s' \<and> content s' = content s"
  proof (cases "bd_unlock f")
    case (Some l)
    from unlock_law [OF assms Some] show ?thesis by (elim exE conjE) (simp add: ext4_bdif_unlock_def Some)
  qed (simp add: ext4_bdif_unlock_def assms)
qed

lemma bdif_bread:
  assumes "ok s" "(unat blk + unat cnt) * 2 ^ n \<le> cap" "unat cnt < 2 ^ 31"
  shows "\<exists>s'. ext4_bdif_bread f blk cnt bd s = Some (EOK, map (content s) [unat blk * 2 ^ n..<(unat blk + unat cnt) * 2 ^ n],
      bd\<lparr>bread_ctr := bread_ctr bd + 1\<rparr>, s') \<and> ok s' \<and> content s' = content s"
proof -
  obtain s1 where s1: "ext4_bdif_lock f s = Some s1" "ok s1" "content s1 = content s" using locks(1) [OF assms(1)] by blast
  obtain s2 where s2: "bd_bread f blk cnt s1 = Some (EOK, map (content s) [unat blk * 2 ^ n..<(unat blk + unat cnt) * 2 ^ n], s2)"
      "ok s2" "content s2 = content s"
    using bread_law [OF s1(2) assms(2,3)] s1(3) by auto
  obtain s3 where "ext4_bdif_unlock f s2 = Some s3" "ok s3" "content s3 = content s" using locks(2) [OF s2(2)] s2(3) by auto
  then show ?thesis using s1 s2 by (simp add: ext4_bdif_bread_def)
qed

lemma bdif_bwrite:
  assumes "ok s" "(unat blk + unat cnt) * 2 ^ n \<le> cap" "unat cnt < 2 ^ 31" "length d = unat cnt * 2 ^ n"
  shows "\<exists>s'. ext4_bdif_bwrite f d blk cnt bd s = Some (EOK, bd\<lparr>bwrite_ctr := bwrite_ctr bd + 1\<rparr>, s')
    \<and> ok s' \<and> content s' = overwrite (content s) (unat blk * 2 ^ n) d"
proof -
  obtain s1 where s1: "ext4_bdif_lock f s = Some s1" "ok s1" "content s1 = content s" using locks(1) [OF assms(1)] by blast
  obtain s2 where s2: "bd_bwrite f d blk cnt s1 = Some (EOK, s2)" "ok s2" "content s2 = overwrite (content s) (unat blk * 2 ^ n) d"
    using bwrite_law [OF s1(2) assms(2-4)] s1(3) by auto
  obtain s3 where "ext4_bdif_unlock f s2 = Some s3" "ok s3" "content s3 = content s2" using locks(2) [OF s2(2)] by auto
  then show ?thesis using s1 s2 by (simp add: ext4_bdif_bwrite_def)
qed

text \<open>An address below the capacity is in a block that is below it as a whole.\<close>

lemma block_below: "a < cap \<Longrightarrow> (a div 2 ^ n + 1) * 2 ^ n \<le> cap"
proof -
  assume "a < cap"
  obtain m where m: "cap = 2 ^ n * m" using cap(2) by blast
  then have "a div 2 ^ n < m" using \<open>a < cap\<close> by (simp add: less_mult_imp_div_less mult.commute)
  then have "(a div 2 ^ n + 1) * 2 ^ n \<le> m * 2 ^ n" by (intro mult_le_mono1) simp
  then show ?thesis using m by (simp add: mult.commute)
qed

lemma next_block: "(unat b + 1) * 2 ^ n \<le> cap \<Longrightarrow> unat (b + 1) = unat (b :: u64) + 1"
proof -
  assume "(unat b + 1) * 2 ^ n \<le> cap"
  then have "unat b + 1 \<le> cap" by (metis dual_order.trans mult.right_neutral mult_le_mono2 one_le_numeral one_le_power)
  then have "unat b + 1 < 2 ^ 64" using cap(1) by simp
  then show ?thesis by (simp add: unat_word_ariths)
qed

text \<open>Facts on the first, possibly unaligned block of a range of bytes at the address \<open>a\<close>.\<close>

lemma first_block:
  fixes off :: u64 and len :: u32
  assumes bs: "ph_bsize bd = 2 ^ n" and m: "unat off mod 2 ^ n = a mod 2 ^ n" and u: "a mod 2 ^ n \<noteq> 0"
    and c: "a + unat len \<le> cap" and i: "unat (idx :: u64) = a div 2 ^ n"
    and U: "U = ucast (off AND ucast (ph_bsize bd - 1))"
    and R: "R = (if len < ph_bsize bd - U then len else ph_bsize bd - U)"
  shows "unat U = a mod 2 ^ n" "unat R = min (unat len) (2 ^ n - a mod 2 ^ n)"
    "(unat idx + unat (1 :: u32)) * 2 ^ n \<le> cap" "a = unat idx * 2 ^ n + unat U"
    "unat U + unat R \<le> 2 ^ n" "unat (len - R) = unat len - unat R"
    "unat R < unat len \<Longrightarrow> a + unat R = unat (idx + 1) * 2 ^ n"
proof -
  show U': "unat U = a mod 2 ^ n" unfolding U bs by (subst unalg_mod) (use bits m in auto)
  have "unat (2 ^ n - U :: u32) = 2 ^ n - unat U"
    by (subst unat_sub) (use U' in \<open>auto simp: word_le_nat_alt unat_exp bits less_imp_le\<close>)
  then show R': "unat R = min (unat len) (2 ^ n - a mod 2 ^ n)"
    unfolding R bs U' [symmetric] by (auto simp: word_less_nat_alt)
  show a: "a = unat idx * 2 ^ n + unat U" unfolding i U' by (rule div_mult_mod_eq [symmetric])
  have "a \<noteq> cap" using u cap(2) by auto
  then have "a < cap" using c by simp
  from block_below [OF this] show b: "(unat idx + unat (1 :: u32)) * 2 ^ n \<le> cap" using i by simp
  have "a mod 2 ^ n < 2 ^ n" by simp
  then show UR: "unat U + unat R \<le> 2 ^ n" using U' R' by linarith
  show "unat (len - R) = unat len - unat R" by (rule unat_sub) (use R' in \<open>simp add: word_le_nat_alt\<close>)
  show "a + unat R = unat (idx + 1) * 2 ^ n" if "unat R < unat len"
  proof -
    have "unat R = 2 ^ n - unat U" using that R' U' by linarith
    then have "a + unat R = unat idx * 2 ^ n + 2 ^ n" using a UR by linarith
    moreover have "unat (idx + 1) = unat idx + 1" using next_block [of idx] b by simp
    ultimately show ?thesis by simp
  qed
qed

lemma read_head:
  assumes ok: "ok s" and bs: "ph_bsize bd = 2 ^ n" and m: "unat off mod 2 ^ n = a mod 2 ^ n"
    and c: "a + unat len \<le> cap" and i: "unat idx = a div 2 ^ n"
  shows "\<exists>r idx' bd' s'. readbytes_head f off len idx bd s = Some (EOK, map (content s) [a..<a + unat r], len - r, idx', bd', s')
    \<and> unat r \<le> unat len \<and> unat (len - r) = unat len - unat r \<and> (unat r < unat len \<longrightarrow> a + unat r = unat idx' * 2 ^ n)
    \<and> geometry bd' = geometry bd \<and> ok s' \<and> content s' = content s"
proof -
  define U :: u32 where "U = ucast (off AND ucast (ph_bsize bd - 1))"
  define R where "R = (if len < ph_bsize bd - U then len else ph_bsize bd - U)"
  show ?thesis
  proof (cases "a mod 2 ^ n = 0")
    case True
    have "unat U = 0" unfolding U_def bs by (subst unalg_mod) (use bits m True in auto)
    then have "readbytes_head f off len idx bd s = Some (EOK, [], len, idx, bd, s)"
      by (simp add: readbytes_head_def Let_def U_def [symmetric] unat_eq_0)
    then show ?thesis using ok i True by (intro exI [of _ 0] exI [of _ idx] exI [of _ bd] exI [of _ s]) auto
  next
    case False
    note fb = first_block [OF bs m False c i U_def R_def]
    define B where "B = map (content s) [unat idx * 2 ^ n..<(unat idx + unat (1 :: u32)) * 2 ^ n]"
    obtain s' where s': "ext4_bdif_bread f idx 1 bd s = Some (EOK, B, bd\<lparr>bread_ctr := bread_ctr bd + 1\<rparr>, s')"
        "ok s'" "content s' = content s"
      using bdif_bread [OF ok fb(3), of bd] unfolding B_def by auto
    have "U \<noteq> 0" using fb(1) False by auto
    have d: "take (unat R) (drop (unat U) B) = map (content s) [a..<a + unat R]"
    proof -
      have k: "(unat idx + unat (1 :: u32)) * 2 ^ n = unat idx * 2 ^ n + 2 ^ n" by simp
      have e: "a - unat idx * 2 ^ n = unat U" "unat idx * 2 ^ n \<le> a" "a + unat R \<le> (unat idx + unat (1 :: u32)) * 2 ^ n"
        unfolding k using fb(4,5) by linarith+
      show ?thesis unfolding B_def using take_drop_upt [OF e(2,3), of "content s"] unfolding e(1) .
    qed
    have "readbytes_head f off len idx bd s = Some (EOK, map (content s) [a..<a + unat R], len - R, idx + 1,
        bd\<lparr>bread_ctr := bread_ctr bd + 1, ph_bbuf := B\<rparr>, s')"
      using \<open>U \<noteq> 0\<close> s'(1) d unfolding readbytes_head_def Let_def U_def [symmetric] R_def [symmetric] by simp
    moreover have "unat R \<le> unat len" using fb(2) by simp
    moreover have "geometry (bd\<lparr>bread_ctr := bread_ctr bd + 1, ph_bbuf := B\<rparr>) = geometry bd" by simp
    ultimately show ?thesis using fb(6,7) s'(2,3) by blast
  qed
qed

text \<open>The number of whole blocks in what is left.\<close>

lemma whole_blocks:
  assumes bs: "ph_bsize bd = 2 ^ n" and c: "a + unat (len :: u32) \<le> cap" and al: "len \<noteq> 0 \<longrightarrow> a = unat (idx :: u64) * 2 ^ n"
    and L: "L = len div ph_bsize bd"
  shows "unat (ph_bsize bd * L) = unat L * 2 ^ n" "unat L * 2 ^ n \<le> unat len" "unat len - unat L * 2 ^ n < 2 ^ n"
    "unat L < 2 ^ 31" "unat (len - ph_bsize bd * L) = unat len - unat L * 2 ^ n"
    "L \<noteq> 0 \<Longrightarrow> (unat idx + unat L) * 2 ^ n \<le> cap" "L \<noteq> 0 \<Longrightarrow> a = unat idx * 2 ^ n"
    "L \<noteq> 0 \<Longrightarrow> unat (idx + ucast L) = unat idx + unat L"
proof -
  have uL: "unat L = unat len div 2 ^ n" using bs bits by (simp add: L unat_div unat_exp)
  show le: "unat L * 2 ^ n \<le> unat len" unfolding uL by simp
  have d: "unat len - unat L * 2 ^ n = unat len mod 2 ^ n" unfolding uL by (rule minus_div_mult_eq_mod)
  then show "unat len - unat L * 2 ^ n < 2 ^ n" by simp
  have b: "unat (ph_bsize bd) = 2 ^ n" using bs bits by (simp add: unat_exp)
  have "2 ^ n * unat L < 4294967296" by (rule le_less_trans [OF _ u32_lt [of len]]) (use le in \<open>simp add: mult.commute\<close>)
  then have "unat (ph_bsize bd * L) = 2 ^ n * unat L" by (simp add: unat_word_ariths b)
  then show p: "unat (ph_bsize bd * L) = unat L * 2 ^ n" by (simp only: mult.commute)
  show "unat (len - ph_bsize bd * L) = unat len - unat L * 2 ^ n"
    unfolding p [symmetric] by (rule unat_sub) (use p le in \<open>simp add: word_le_nat_alt\<close>)
  have "(2 :: nat) ^ 1 \<le> 2 ^ n" by (rule power_increasing) (use bits in auto)
  then have "unat L * 2 \<le> unat L * 2 ^ n" by simp
  then have "unat L < 2147483648" using le u32_lt [of len] by linarith
  then show "unat L < 2 ^ 31" by simp
  assume "L \<noteq> 0"
  then have "len \<noteq> 0" using L by auto
  then show a: "a = unat idx * 2 ^ n" using al by blast
  have "(unat idx + unat L) * 2 ^ n = a + unat L * 2 ^ n" unfolding a by (rule distrib_right)
  then show b: "(unat idx + unat L) * 2 ^ n \<le> cap" using le c by linarith
  have "unat idx + unat L \<le> (unat idx + unat L) * 2 ^ n" by simp
  then have "unat idx + unat L \<le> 2 ^ 62" using b cap(1) by (rule order_trans [OF order_trans])
  then show "unat (idx + ucast L) = unat idx + unat L" by (simp add: unat_word_ariths unat_ucast_up)
qed

lemma read_blocks:
  assumes ok: "ok s" and bs: "ph_bsize bd = 2 ^ n" and c: "a + unat len \<le> cap" and al: "len \<noteq> 0 \<longrightarrow> a = unat idx * 2 ^ n"
  shows "\<exists>r idx' bd' s'. readbytes_blocks f len idx bd s = Some (EOK, map (content s) [a..<a + unat r], len - r, idx', bd', s')
    \<and> unat r \<le> unat len \<and> unat (len - r) = unat len - unat r \<and> unat len - unat r < 2 ^ n
    \<and> (unat r < unat len \<longrightarrow> a + unat r = unat idx' * 2 ^ n)
    \<and> geometry bd' = geometry bd \<and> ok s' \<and> content s' = content s"
proof -
  define L where "L = len div ph_bsize bd"
  note w = whole_blocks [OF bs c al L_def]
  show ?thesis
  proof (cases "L = 0")
    case True
    then have "readbytes_blocks f len idx bd s = Some (EOK, [], len, idx, bd, s)"
      by (simp add: readbytes_blocks_def L_def [symmetric])
    then show ?thesis using ok w(3) True al
      by (intro exI [of _ 0] exI [of _ idx] exI [of _ bd] exI [of _ s]) (auto simp: unat_eq_0)
  next
    case False
    define B where "B = map (content s) [unat idx * 2 ^ n..<(unat idx + unat L) * 2 ^ n]"
    obtain s' where s': "ext4_bdif_bread f idx L bd s = Some (EOK, B, bd\<lparr>bread_ctr := bread_ctr bd + 1\<rparr>, s')"
        "ok s'" "content s' = content s"
      using bdif_bread [OF ok w(6) [OF False] w(4), of bd] unfolding B_def by auto
    have k: "(unat idx + unat L) * 2 ^ n = a + unat L * 2 ^ n" unfolding w(7) [OF False] by (rule distrib_right)
    let ?r = "ph_bsize bd * L"
    have "B = map (content s) [a..<a + unat ?r]" unfolding B_def w(1) k w(7) [OF False, symmetric] ..
    then have "readbytes_blocks f len idx bd s =
        Some (EOK, map (content s) [a..<a + unat ?r], len - ?r, idx + ucast L, bd\<lparr>bread_ctr := bread_ctr bd + 1\<rparr>, s')"
      using False s'(1) unfolding readbytes_blocks_def Let_def L_def [symmetric] by simp
    moreover have "unat ?r \<le> unat len" "unat (len - ?r) = unat len - unat ?r" "unat len - unat ?r < 2 ^ n"
      unfolding w(1) by (rule w)+
    moreover have "a + unat ?r = unat (idx + ucast L) * 2 ^ n" unfolding w(1) w(8) [OF False] k ..
    moreover have "geometry (bd\<lparr>bread_ctr := bread_ctr bd + 1\<rparr>) = geometry bd" by simp
    ultimately show ?thesis using s'(2,3) by blast
  qed
qed

text \<open>The last block of a range, of which only the first \<open>len\<close> bytes are in the range.\<close>

lemma last_block:
  assumes c: "a + unat (len :: u32) \<le> cap" and al: "a = unat (idx :: u64) * 2 ^ n" and l: "len \<noteq> 0"
  shows "(unat idx + unat (1 :: u32)) * 2 ^ n \<le> cap"
proof -
  have "0 < unat len" using l by (simp add: unat_gt_0)
  then have "a < cap" using c by linarith
  from block_below [OF this] show ?thesis using al by simp
qed

lemma read_rest:
  assumes ok: "ok s" and bs: "ph_bsize bd = 2 ^ n" and c: "a + unat len \<le> cap" and al: "len \<noteq> 0 \<longrightarrow> a = unat idx * 2 ^ n"
    and l: "unat len < 2 ^ n"
  shows "\<exists>bd' s'. readbytes_rest f len idx bd s = Some (EOK, map (content s) [a..<a + unat len], bd', s')
    \<and> geometry bd' = geometry bd \<and> ok s' \<and> content s' = content s"
proof (cases "len = 0")
  case True
  then show ?thesis using ok by (simp add: readbytes_rest_def)
next
  case False
  then have a: "a = unat idx * 2 ^ n" using al by blast
  define B where "B = map (content s) [unat idx * 2 ^ n..<(unat idx + unat (1 :: u32)) * 2 ^ n]"
  obtain s' where s': "ext4_bdif_bread f idx 1 bd s = Some (EOK, B, bd\<lparr>bread_ctr := bread_ctr bd + 1\<rparr>, s')"
      "ok s'" "content s' = content s"
    using bdif_bread [OF ok last_block [OF c a False], of bd] unfolding B_def by auto
  have "a + unat len \<le> (unat idx + unat (1 :: u32)) * 2 ^ n" using a l by simp
  then have "take (unat len) B = map (content s) [a..<a + unat len]"
    unfolding B_def a [symmetric] using take_drop_upt [of a a "unat len" _ "content s"] by simp
  then have "readbytes_rest f len idx bd s = Some (EOK, map (content s) [a..<a + unat len],
      bd\<lparr>bread_ctr := bread_ctr bd + 1, ph_bbuf := B\<rparr>, s')"
    using False s'(1) by (simp add: readbytes_rest_def)
  then show ?thesis using s'(2,3) by simp
qed

text \<open>The start of a range of bytes of a partition that begins on a block.\<close>

lemma range_start:
  assumes bs: "ph_bsize bd = 2 ^ n" and po: "unat (part_offset bd) mod 2 ^ n = 0"
    and c1: "unat off + unat (len :: u32) \<le> unat (part_size bd)" and c2: "unat (part_offset bd) + unat (part_size bd) \<le> cap"
    and a: "a = unat off + unat (part_offset bd)"
  shows "\<not> part_size bd < off + ucast len" "ph_bsize bd \<noteq> 0" "unat off mod 2 ^ n = a mod 2 ^ n" "a + unat len \<le> cap"
    "unat ((off + part_offset bd) div ucast (ph_bsize bd)) = a div 2 ^ n"
proof -
  have "unat off + unat len < 18446744073709551616" using c1 u64_lt [of "part_size bd"] by linarith
  then have "unat (off + ucast len) = unat off + unat len" by (simp add: unat_word_ariths unat_ucast_up)
  then show "\<not> part_size bd < off + ucast len" using c1 by (simp add: word_less_nat_alt)
  have b: "unat (ph_bsize bd) = 2 ^ n" using bs bits by (simp add: unat_exp)
  then show "ph_bsize bd \<noteq> 0" by auto
  show "unat off mod 2 ^ n = a mod 2 ^ n" unfolding a using po by (metis add.right_neutral mod_add_right_eq mod_mod_trivial)
  show l: "a + unat len \<le> cap" using a c1 c2 by linarith
  then have "unat off + unat (part_offset bd) < 2 ^ 64" using a cap(1) by simp
  then have "unat (off + part_offset bd) = a" using a by (simp add: unat_word_ariths)
  then show "unat ((off + part_offset bd) div ucast (ph_bsize bd)) = a div 2 ^ n" by (simp add: unat_div unat_ucast_up b)
qed

lemma readbytes:
  assumes ok: "ok s" and bs: "ph_bsize bd = 2 ^ n" and ref: "ph_refctr bd \<noteq> 0" and po: "unat (part_offset bd) mod 2 ^ n = 0"
    and c1: "unat off + unat len \<le> unat (part_size bd)" and c2: "unat (part_offset bd) + unat (part_size bd) \<le> cap"
    and a: "a = unat off + unat (part_offset bd)"
  shows "\<exists>bd' s'. ext4_block_readbytes f off len bd s = Some (EOK, map (content s) [a..<a + unat len], bd', s')
    \<and> geometry bd' = geometry bd \<and> ok s' \<and> content s' = content s"
proof -
  note rs = range_start [OF bs po c1 c2 a]
  let ?i = "(off + part_offset bd) div ucast (ph_bsize bd)"
  obtain r idx1 bd1 s1 where 1: "readbytes_head f off len ?i bd s = Some (EOK, map (content s) [a..<a + unat r], len - r, idx1, bd1, s1)"
      "unat r \<le> unat len" "unat (len - r) = unat len - unat r" "unat r < unat len \<longrightarrow> a + unat r = unat idx1 * 2 ^ n"
      "geometry bd1 = geometry bd" "ok s1" "content s1 = content s"
    using read_head [OF ok bs rs(3-5)] by blast
  have b1: "ph_bsize bd1 = 2 ^ n" using geometryD [OF 1(5)] bs by simp
  have l1: "a + unat r + unat (len - r) \<le> cap" using rs(4) 1(2,3) by linarith
  have al1: "len - r \<noteq> 0 \<longrightarrow> a + unat r = unat idx1 * 2 ^ n" using some_left [OF 1(3)] 1(4) by blast
  obtain q idx2 bd2 s2 where 2: "readbytes_blocks f (len - r) idx1 bd1 s1 =
        Some (EOK, map (content s) [a + unat r..<a + unat r + unat q], len - r - q, idx2, bd2, s2)"
      "unat q \<le> unat (len - r)" "unat (len - r - q) = unat (len - r) - unat q" "unat (len - r) - unat q < 2 ^ n"
      "unat q < unat (len - r) \<longrightarrow> a + unat r + unat q = unat idx2 * 2 ^ n"
      "geometry bd2 = geometry bd1" "ok s2" "content s2 = content s"
    using read_blocks [OF 1(6) b1 l1 al1] unfolding 1(7) by blast
  have b2: "ph_bsize bd2 = 2 ^ n" using geometryD [OF 2(6)] b1 by simp
  have l2: "a + unat r + unat q + unat (len - r - q) \<le> cap" using l1 2(2,3) by linarith
  have al2: "len - r - q \<noteq> 0 \<longrightarrow> a + unat r + unat q = unat idx2 * 2 ^ n" using some_left [OF 2(3)] 2(5) by blast
  obtain bd3 s3 where 3: "readbytes_rest f (len - r - q) idx2 bd2 s2 =
        Some (EOK, map (content s) [a + unat r + unat q..<a + unat r + unat q + unat (len - r - q)], bd3, s3)"
      "geometry bd3 = geometry bd2" "ok s3" "content s3 = content s"
    using read_rest [OF 2(7) b2 l2 al2] 2(3,4) unfolding 2(8) by auto
  have e: "a + unat r + unat q + unat (len - r - q) = a + unat len" using 1(2,3) 2(2,3) by linarith
  have ap: "map (content s) [a..<a + unat len] = map (content s) [a..<a + unat r]
      @ map (content s) [a + unat r..<a + unat r + unat q] @ map (content s) [a + unat r + unat q..<a + unat len]"
    using map_upt_split [of a "a + unat r" "a + unat len" "content s"]
      map_upt_split [of "a + unat r" "a + unat r + unat q" "a + unat len" "content s"] 1(2,3) 2(2) by simp
  have "ext4_block_readbytes f off len bd s = Some (EOK, map (content s) [a..<a + unat len], bd3, s3)"
    unfolding ap using rs(1,2) ref 1(1) 2(1) 3(1) by (simp add: ext4_block_readbytes_def Let_def e)
  then show ?thesis using 1(5) 2(6) 3 by auto
qed

lemma write_head:
  assumes ok: "ok s" and bs: "ph_bsize bd = 2 ^ n" and m: "unat off mod 2 ^ n = a mod 2 ^ n"
    and c: "a + unat len \<le> cap" and i: "unat idx = a div 2 ^ n" and p: "length p = unat len"
  shows "\<exists>r idx' bd' s'. writebytes_head f off p len idx bd s = Some (EOK, drop (unat r) p, len - r, idx', bd', s')
    \<and> unat r \<le> unat len \<and> unat (len - r) = unat len - unat r \<and> (unat r < unat len \<longrightarrow> a + unat r = unat idx' * 2 ^ n)
    \<and> geometry bd' = geometry bd \<and> ok s' \<and> content s' = overwrite (content s) a (take (unat r) p)"
proof -
  define U :: u32 where "U = ucast (off AND ucast (ph_bsize bd - 1))"
  define R where "R = (if len < ph_bsize bd - U then len else ph_bsize bd - U)"
  show ?thesis
  proof (cases "a mod 2 ^ n = 0")
    case True
    have "unat U = 0" unfolding U_def bs by (subst unalg_mod) (use bits m True in auto)
    then have "writebytes_head f off p len idx bd s = Some (EOK, p, len, idx, bd, s)"
      by (simp add: writebytes_head_def Let_def U_def [symmetric] unat_eq_0)
    then show ?thesis using ok i True by (intro exI [of _ 0] exI [of _ idx] exI [of _ bd] exI [of _ s]) auto
  next
    case False
    note fb = first_block [OF bs m False c i U_def R_def]
    have rl: "unat R \<le> unat len" using fb(2) by simp
    let ?b = "unat idx * 2 ^ n" and ?e = "(unat idx + unat (1 :: u32)) * 2 ^ n"
    define B where "B = map (content s) [?b..<?e]"
    define q where "q = take (unat R) p"
    define D where "D = take (unat U) B @ q @ drop (unat U + unat R) B"
    obtain s1 where s1: "ext4_bdif_bread f idx 1 bd s = Some (EOK, B, bd\<lparr>bread_ctr := bread_ctr bd + 1\<rparr>, s1)"
        "ok s1" "content s1 = content s"
      using bdif_bread [OF ok fb(3), of bd] unfolding B_def by auto
    have e: "?e = ?b + 2 ^ n" by simp
    have lq: "length q = unat R" using rl p by (simp add: q_def)
    have D: "D = map (content s) [?b..<a] @ q @ map (content s) [a + length q..<?e]"
      unfolding D_def B_def lq by (rule patch_block [OF fb(4), of q, unfolded lq]) (use fb(5) in simp_all)
    have ae: "?b \<le> a" "a + length q \<le> ?e" unfolding lq e using fb(4,5) by linarith+
    have "length D = unat (1 :: u32) * 2 ^ n" unfolding D using ae e by simp
    from bdif_bwrite [OF s1(2) fb(3) _ this] obtain s2 bd2 where
      s2: "ext4_bdif_bwrite f D idx 1 (bd\<lparr>bread_ctr := bread_ctr bd + 1, ph_bbuf := D\<rparr>) s1 = Some (EOK, bd2, s2)"
        "bd2 = bd\<lparr>bread_ctr := bread_ctr bd + 1, ph_bbuf := D, bwrite_ctr := bwrite_ctr bd + 1\<rparr>"
        "ok s2" "content s2 = overwrite (content s) ?b D"
      unfolding s1(3) by fastforce
    have cs: "content s2 = overwrite (content s) a (take (unat R) p)"
      unfolding s2(4) D q_def [symmetric] by (rule overwrite_merge [OF ae])
    have "U \<noteq> 0" using fb(1) False by auto
    have "writebytes_head f off p len idx bd s = Some (EOK, drop (unat R) p, len - R, idx + 1, bd2, s2)"
      using \<open>U \<noteq> 0\<close> s1(1) s2(1) unfolding writebytes_head_def Let_def U_def [symmetric] R_def [symmetric] D_def q_def by simp
    moreover have "geometry bd2 = geometry bd" unfolding s2(2) by (simp add: geometry_def)
    ultimately show ?thesis using rl fb(6,7) s2(3) cs by blast
  qed
qed

lemma write_blocks:
  assumes ok: "ok s" and bs: "ph_bsize bd = 2 ^ n" and c: "a + unat len \<le> cap" and al: "len \<noteq> 0 \<longrightarrow> a = unat idx * 2 ^ n"
    and p: "length p = unat len"
  shows "\<exists>r idx' bd' s'. writebytes_blocks f p len idx bd s = Some (EOK, drop (unat r) p, len - r, idx', bd', s')
    \<and> unat r \<le> unat len \<and> unat (len - r) = unat len - unat r \<and> unat len - unat r < 2 ^ n
    \<and> (unat r < unat len \<longrightarrow> a + unat r = unat idx' * 2 ^ n)
    \<and> geometry bd' = geometry bd \<and> ok s' \<and> content s' = overwrite (content s) a (take (unat r) p)"
proof -
  define L where "L = len div ph_bsize bd"
  note w = whole_blocks [OF bs c al L_def]
  show ?thesis
  proof (cases "L = 0")
    case True
    then have "writebytes_blocks f p len idx bd s = Some (EOK, p, len, idx, bd, s)"
      by (simp add: writebytes_blocks_def L_def [symmetric])
    then show ?thesis using ok w(3) True al
      by (intro exI [of _ 0] exI [of _ idx] exI [of _ bd] exI [of _ s]) (auto simp: unat_eq_0)
  next
    case False
    define r where "r = ph_bsize bd * L"
    note w = w [folded r_def]
    have "length (take (unat r) p) = unat L * 2 ^ n" using p w(1,2) by simp
    from bdif_bwrite [OF ok w(6) [OF False] w(4) this, of bd] obtain s' where
      s': "ext4_bdif_bwrite f (take (unat r) p) idx L bd s = Some (EOK, bd\<lparr>bwrite_ctr := bwrite_ctr bd + 1\<rparr>, s')"
        "ok s'" "content s' = overwrite (content s) (unat idx * 2 ^ n) (take (unat r) p)"
      by blast
    have k: "(unat idx + unat L) * 2 ^ n = a + unat L * 2 ^ n" unfolding w(7) [OF False] by (rule distrib_right)
    have "writebytes_blocks f p len idx bd s =
        Some (EOK, drop (unat r) p, len - r, idx + ucast L, bd\<lparr>bwrite_ctr := bwrite_ctr bd + 1\<rparr>, s')"
      using False s'(1) unfolding writebytes_blocks_def Let_def L_def [symmetric] r_def [symmetric] by (simp add: r_def)
    moreover have "unat r \<le> unat len" "unat (len - r) = unat len - unat r" "unat len - unat r < 2 ^ n"
      unfolding w(1) by (rule w)+
    moreover have "a + unat r = unat (idx + ucast L) * 2 ^ n" unfolding w(1) w(8) [OF False] k ..
    moreover have "geometry (bd\<lparr>bwrite_ctr := bwrite_ctr bd + 1\<rparr>) = geometry bd" by simp
    ultimately show ?thesis using s'(2) s'(3) [folded w(7) [OF False]] by blast
  qed
qed

lemma write_rest:
  assumes ok: "ok s" and bs: "ph_bsize bd = 2 ^ n" and c: "a + unat len \<le> cap" and al: "len \<noteq> 0 \<longrightarrow> a = unat idx * 2 ^ n"
    and l: "unat len < 2 ^ n" and p: "length p = unat len"
  shows "\<exists>bd' s'. writebytes_rest f p len idx bd s = Some (EOK, bd', s')
    \<and> geometry bd' = geometry bd \<and> ok s' \<and> content s' = overwrite (content s) a p"
proof (cases "len = 0")
  case True
  then show ?thesis using ok p by (simp add: writebytes_rest_def)
next
  case False
  then have a: "a = unat idx * 2 ^ n" using al by blast
  note lb = last_block [OF c a False]
  let ?e = "(unat idx + unat (1 :: u32)) * 2 ^ n"
  define B where "B = map (content s) [a..<?e]"
  define D where "D = p @ drop (unat len) B"
  obtain s1 where s1: "ext4_bdif_bread f idx 1 bd s = Some (EOK, B, bd\<lparr>bread_ctr := bread_ctr bd + 1\<rparr>, s1)"
      "ok s1" "content s1 = content s"
    using bdif_bread [OF ok lb, of bd, folded a] unfolding B_def by auto
  have e: "?e = a + 2 ^ n" unfolding a by simp
  have D: "D = map (content s) [a..<a] @ p @ map (content s) [a + length p..<?e]"
    unfolding D_def B_def using p by (simp add: drop_map)
  have ae: "a + length p \<le> ?e" unfolding e p using l by simp
  have "length D = unat (1 :: u32) * 2 ^ n" unfolding D using ae e by simp
  from bdif_bwrite [OF s1(2) lb _ this] obtain s2 bd2 where
    s2: "ext4_bdif_bwrite f D idx 1 (bd\<lparr>bread_ctr := bread_ctr bd + 1, ph_bbuf := D\<rparr>) s1 = Some (EOK, bd2, s2)"
      "bd2 = bd\<lparr>bread_ctr := bread_ctr bd + 1, ph_bbuf := D, bwrite_ctr := bwrite_ctr bd + 1\<rparr>"
      "ok s2" "content s2 = overwrite (content s) a D"
    unfolding s1(3) a [symmetric] by fastforce
  have cs: "content s2 = overwrite (content s) a p"
    unfolding s2(4) D by (rule overwrite_merge [OF order_refl ae])
  have "writebytes_rest f p len idx bd s = Some (EOK, bd2, s2)"
    using False s1(1) s2(1) p by (simp add: writebytes_rest_def D_def)
  moreover have "geometry bd2 = geometry bd" unfolding s2(2) by (simp add: geometry_def)
  ultimately show ?thesis using s2(3) cs by blast
qed

lemma writebytes:
  assumes ok: "ok s" and bs: "ph_bsize bd = 2 ^ n" and ref: "ph_refctr bd \<noteq> 0" and po: "unat (part_offset bd) mod 2 ^ n = 0"
    and c1: "unat off + unat len \<le> unat (part_size bd)" and c2: "unat (part_offset bd) + unat (part_size bd) \<le> cap"
    and a: "a = unat off + unat (part_offset bd)" and p: "length p = unat len"
  shows "\<exists>bd' s'. ext4_block_writebytes f off p len bd s = Some (EOK, bd', s')
    \<and> geometry bd' = geometry bd \<and> ok s' \<and> content s' = overwrite (content s) a p"
proof -
  note rs = range_start [OF bs po c1 c2 a]
  let ?i = "(off + part_offset bd) div ucast (ph_bsize bd)"
  obtain r idx1 bd1 s1 where 1: "writebytes_head f off p len ?i bd s = Some (EOK, drop (unat r) p, len - r, idx1, bd1, s1)"
      "unat r \<le> unat len" "unat (len - r) = unat len - unat r" "unat r < unat len \<longrightarrow> a + unat r = unat idx1 * 2 ^ n"
      "geometry bd1 = geometry bd" "ok s1" "content s1 = overwrite (content s) a (take (unat r) p)"
    using write_head [OF ok bs rs(3-5) p] by blast
  have b1: "ph_bsize bd1 = 2 ^ n" using geometryD [OF 1(5)] bs by simp
  have l1: "a + unat r + unat (len - r) \<le> cap" using rs(4) 1(2,3) by linarith
  have al1: "len - r \<noteq> 0 \<longrightarrow> a + unat r = unat idx1 * 2 ^ n" using some_left [OF 1(3)] 1(4) by blast
  have p1: "length (drop (unat r) p) = unat (len - r)" using p 1(3) by simp
  obtain q idx2 bd2 s2 where 2: "writebytes_blocks f (drop (unat r) p) (len - r) idx1 bd1 s1 =
        Some (EOK, drop (unat q) (drop (unat r) p), len - r - q, idx2, bd2, s2)"
      "unat q \<le> unat (len - r)" "unat (len - r - q) = unat (len - r) - unat q" "unat (len - r) - unat q < 2 ^ n"
      "unat q < unat (len - r) \<longrightarrow> a + unat r + unat q = unat idx2 * 2 ^ n"
      "geometry bd2 = geometry bd1" "ok s2" "content s2 = overwrite (content s1) (a + unat r) (take (unat q) (drop (unat r) p))"
    using write_blocks [OF 1(6) b1 l1 al1 p1] by blast
  have b2: "ph_bsize bd2 = 2 ^ n" using geometryD [OF 2(6)] b1 by simp
  have l2: "a + unat r + unat q + unat (len - r - q) \<le> cap" using l1 2(2,3) by linarith
  have al2: "len - r - q \<noteq> 0 \<longrightarrow> a + unat r + unat q = unat idx2 * 2 ^ n" using some_left [OF 2(3)] 2(5) by blast
  have p2: "length (drop (unat q) (drop (unat r) p)) = unat (len - r - q)" using p1 2(3) by simp
  have l3: "unat (len - r - q) < 2 ^ n" using 2(3,4) by simp
  obtain bd3 s3 where 3: "writebytes_rest f (drop (unat q) (drop (unat r) p)) (len - r - q) idx2 bd2 s2 = Some (EOK, bd3, s3)"
      "geometry bd3 = geometry bd2" "ok s3" "content s3 = overwrite (content s2) (a + unat r + unat q) (drop (unat q) (drop (unat r) p))"
    using write_rest [OF 2(7) b2 l2 al2 l3 p2] by blast
  let ?p1 = "take (unat r) p" and ?p2 = "take (unat q) (drop (unat r) p)" and ?p3 = "drop (unat q) (drop (unat r) p)"
  have ln: "length ?p1 = unat r" "length ?p2 = unat q" using 1(2,3) 2(2) p p1 by simp_all
  have "content s3 = overwrite (overwrite (overwrite (content s) a ?p1) (a + length ?p1) ?p2) (a + length (?p1 @ ?p2)) ?p3"
    unfolding 3(4) 2(8) 1(7) ln length_append by (simp add: add.assoc)
  also have "\<dots> = overwrite (content s) a (?p1 @ ?p2 @ ?p3)" by (simp only: overwrite_append append_assoc)
  finally have "content s3 = overwrite (content s) a p" by (simp only: append_take_drop_id)
  moreover have "ext4_block_writebytes f off p len bd s = Some (EOK, bd3, s3)"
    using rs(1,2) ref 1(1) 2(1) 3(1) by (simp add: ext4_block_writebytes_def Let_def)
  moreover have "geometry bd3 = geometry bd" using 1(5) 2(6) 3(2) by simp
  ultimately show ?thesis using 3(3) by blast
qed

end

subsection \<open>The device on the buffer cache\<close>

text \<open>\<^verbatim>\<open>fs/blockdev.c\<close>. The two loops transfer one block of \<^verbatim>\<open>BSIZE\<close> bytes per round.\<close>

definition ROOTDEV :: u32 where
  "ROOTDEV = 1"

fun blockdev_bread_loop :: "nat list \<Rightarrow> u64 \<Rightarrow> 'z biost_scheme \<Rightarrow> (u8 list \<times> 'z biost_scheme) option" where
  "blockdev_bread_loop [] blk_id s = Some ([], s)"
| "blockdev_bread_loop (i # is) blk_id s = do {
     (b, s) \<leftarrow> bread ROOTDEV (ucast (blk_id + of_nat i)) s;
     let d = get_data b s;
     s \<leftarrow> brelse b s;
     (bp, s) \<leftarrow> blockdev_bread_loop is blk_id s;
     Some (d @ bp, s)
   }"

fun blockdev_bwrite_loop :: "nat list \<Rightarrow> u8 list \<Rightarrow> u64 \<Rightarrow> 'z biost_scheme \<Rightarrow> 'z biost_scheme option" where
  "blockdev_bwrite_loop [] bp blk_id s = Some s"
| "blockdev_bwrite_loop (i # is) bp blk_id s = do {
     (b, s) \<leftarrow> bget ROOTDEV (ucast (blk_id + of_nat i)) s;
     let s = put_data b (take BSIZE bp) s;
     s \<leftarrow> bwrite b s;
     s \<leftarrow> brelse b s;
     blockdev_bwrite_loop is (drop BSIZE bp) blk_id s
   }"

definition blockdev_bread :: "u64 \<Rightarrow> u32 \<Rightarrow> 'z biost_scheme \<Rightarrow> (int \<times> u8 list \<times> 'z biost_scheme) option" where
  "blockdev_bread blk_id blk_cnt s = do {
     (bp, s) \<leftarrow> blockdev_bread_loop [0..<unat blk_cnt] blk_id s;
     Some (EOK, bp, s)
   }"

definition blockdev_bwrite :: "u8 list \<Rightarrow> u64 \<Rightarrow> u32 \<Rightarrow> 'z biost_scheme \<Rightarrow> (int \<times> 'z biost_scheme) option" where
  "blockdev_bwrite buf blk_id blk_cnt s = do {
     s \<leftarrow> blockdev_bwrite_loop [0..<unat blk_cnt] buf blk_id s;
     Some (EOK, s)
   }"

definition blockdev_skeleton :: "'s \<Rightarrow> (int \<times> 's) option" where
  "blockdev_skeleton s = Some (EOK, s)"

definition blockdev_iface :: "'z biost_scheme ext4_blockdev_iface" where
  "blockdev_iface =
     \<lparr>bd_open = blockdev_skeleton, bd_bread = blockdev_bread, bd_bwrite = blockdev_bwrite,
      bd_close = blockdev_skeleton, bd_lock = Some blockdev_skeleton, bd_unlock = Some blockdev_skeleton\<rparr>"

text \<open>The static instance \<^verbatim>\<open>blockdev\<close>.\<close>

definition blockdev :: ext4_blockdev where
  "blockdev =
     \<lparr>part_offset = 0, part_size = push_bit 32 1 * of_nat BSIZE, lg_bsize = 0, lg_bcnt = 0, ph_bsize = of_nat BSIZE,
      ph_bcnt = push_bit 32 1, ph_bbuf = replicate BSIZE 0, ph_refctr = 0, bread_ctr = 0, bwrite_ctr = 0\<rparr>"

text \<open>The cache is idle: no block is locked, a buffer is free, and all blocks have their size.\<close>

definition dev_ready :: "'z biost_scheme \<Rightarrow> bool" where
  "dev_ready s \<longleftrightarrow> bcache_ok s \<and> (\<forall>k. locker (cache_view s k) = None \<and> refs (cache_view s k) < 4294967295
     \<and> length (seen (cache_view s k)) = BSIZE) \<and> card {k. 0 < refs (cache_view s k)} < NBUF"

definition dev_block :: "'z biost_scheme \<Rightarrow> u32 \<Rightarrow> block" where
  "dev_block s b = seen (cache_view s (ROOTDEV, b))"

definition dev_content :: "'z biost_scheme \<Rightarrow> nat \<Rightarrow> u8" where
  "dev_content s a = (if a < 2 ^ 41 then dev_block s (of_nat (a div BSIZE)) ! (a mod BSIZE) else 0)"

lemma dev_readyD:
  assumes "dev_ready s"
  shows "bcache_ok s" "locker (cache_view s k) = None" "refs (cache_view s k) < 4294967295"
    "length (seen (cache_view s k)) = BSIZE" "card {k. 0 < refs (cache_view s k)} < NBUF"
  using assms unfolding dev_ready_def by blast+

lemma dev_ready_update:
  assumes "dev_ready s" "bcache_ok s'" "length d = BSIZE" "cache_view s' = (cache_view s)(k := (cache_view s k)\<lparr>seen := d\<rparr>)"
  shows "dev_ready s'"
proof -
  have "refs (cache_view s' j) = refs (cache_view s j)" "locker (cache_view s' j) = locker (cache_view s j)" for j
    by (simp_all add: assms(4))
  moreover have "length (seen (cache_view s' j)) = BSIZE" for j
    using dev_readyD(4) [OF assms(1)] assms(3) by (simp add: assms(4))
  ultimately show ?thesis using dev_readyD [OF assms(1)] assms(2) by (simp add: dev_ready_def)
qed

lemma block_read:
  assumes r: "dev_ready s"
  shows "\<exists>b s1 s'. bread ROOTDEV n s = Some (b, s1) \<and> get_data b s1 = dev_block s n \<and> brelse b s1 = Some s'
    \<and> dev_ready s' \<and> dev_block s' = dev_block s"
proof -
  let ?k = "(ROOTDEV, n)"
  note d = dev_readyD [OF r]
  have "fst ?k \<noteq> 0" by (simp add: ROOTDEV_def)
  from bread_law [OF d(1) this d(2,3)] d(5) obtain b s1 where
    s1: "bread ROOTDEV n s = Some (b, s1)" "bcache_ok s1" "handle s1 b = Some ?k"
      "cache_view s1 = (cache_view s)(?k := (cache_view s ?k)\<lparr>refs := refs (cache_view s ?k) + 1, locker := Some (curpid s)\<rparr>)"
      "disk s1 = disk s" "carries handle cache_view outside s s1"
    by auto
  have pid: "curpid s1 = curpid s" using s1(6) by (simp add: carries_def outside_def)
  have g: "get_data b s1 = dev_block s n"
    using get_data_law [OF s1(2,3)] by (simp add: s1(4) dev_block_def)
  have "1 < refs (cache_view s1 ?k) \<or> seen (cache_view s1 ?k) = disk s1 ?k"
    using unreferenced_on_disk [OF d(1), of ?k] s1(5) by (cases "refs (cache_view s ?k) = 0") (simp_all add: s1(4))
  from brelse_law [OF s1(2,3) _ this] obtain s' where
    s': "brelse b s1 = Some s'" "bcache_ok s'"
      "cache_view s' = (cache_view s1)(?k := (cache_view s1 ?k)\<lparr>refs := refs (cache_view s1 ?k) - 1, locker := None\<rparr>)"
    using pid by (auto simp: s1(4))
  have "cache_view s' = cache_view s"
    using d(2) by (auto simp: s'(3) s1(4) fun_eq_iff)
  moreover have "dev_ready s'"
    by (rule dev_ready_update [OF r s'(2) d(4) [of ?k], of ?k]) (simp add: calculation)
  ultimately show ?thesis using s1(1) g s'(1) by (simp add: dev_block_def fun_eq_iff)
qed

text \<open>The buffer that \<^verbatim>\<open>bget\<close> returns, which need not hold the bytes of its block.\<close>

definition granted :: "bkey \<Rightarrow> buf \<Rightarrow> int \<Rightarrow> buf" where
  "granted k x pid =
     \<lparr>bvalid = (ekey x = k \<and> bvalid x), bdev = fst k, bblockno = snd k, block_lock = \<lparr>sl_locked = True, lpid = pid\<rparr>,
      refcnt = (if ekey x = k then refcnt x + 1 else 1), bdata = bdata x\<rparr>"

lemma bget_eq:
  assumes ok: "bcache_ok s" and k: "fst k \<noteq> 0"
    and free: "locker (cache_view s k) = None"
    and room: "0 < refs (cache_view s k) \<or> card {k. 0 < refs (cache_view s k)} < NBUF"
  shows "\<exists>b<NBUF. (slot s k = Some b \<or> slot s k = None \<and> refcnt (bufs s b) = 0) \<and>
    bget (fst k) (snd k) s = Some (b, s\<lparr>bufs := (bufs s)(b := granted k (bufs s b) (curpid s))\<rparr>)"
proof -
  obtain bs where bs: "lru_order (lru s) bs" "distinct bs" "set bs = {..<NBUF}" using bcache_okD(1) [OF ok] by blast
  note search = lru_search [of "s\<lparr>held := L_bcache # held s\<rparr>" bs, simplified, OF bs(1)]
  note bcache_okD(4) [OF ok, simp]
  show ?thesis
  proof (cases "slot s k")
    case (Some b)
    then have b: "b < NBUF" "ekey (bufs s b) = k" using slot_SomeD by blast+
    have "\<not> sl_locked (block_lock (bufs s b))"
      using free Some by (auto simp: cache_view_def entry_of_def split: if_splits)
    then have "bget (fst k) (snd k) s = Some (b, s\<lparr>bufs := (bufs s)(b := granted k (bufs s b) (curpid s))\<rparr>)"
      using Some b find_slot [OF ok bs(3) k]
      by (cases "bufs s b") (auto simp: bget_def search acquire_buf_eq on_buf_def granted_def ekey_def)
    then show ?thesis using Some b by auto
  next
    case None
    then have "\<exists>b<NBUF. refcnt (bufs s b) = 0" using room free_buffer [OF ok] by (simp add: cache_view_def)
    then have "find (\<lambda>b. refcnt (bufs s b) = 0) (rev bs) \<noteq> None" using bs(3) by (auto simp: find_None_iff)
    then obtain b where b: "find (\<lambda>b. refcnt (bufs s b) = 0) (rev bs) = Some b" by blast
    then have "b \<in> set (rev bs)" "refcnt (bufs s b) = 0" unfolding find_Some_iff by (metis nth_mem)+
    then have b': "b < NBUF" "refcnt (bufs s b) = 0" using bs(3) by auto
    have u: "\<not> sl_locked (block_lock (bufs s b))" using bcache_okD(3) [OF ok b'(1)] b'(2) by (simp add: buf_ok_def)
    have e: "ekey (bufs s b) \<noteq> k" using slot_NoneD [OF None k b'(1)] .
    have "bget (fst k) (snd k) s = Some (b, s\<lparr>bufs := (bufs s)(b := granted k (bufs s b) (curpid s))\<rparr>)"
      using None b b' e u find_slot [OF ok bs(3) k]
      by (cases "bufs s b") (auto simp: bget_def search acquire_buf_eq on_buf_def granted_def)
    then show ?thesis using None b' by blast
  qed
qed

lemma block_write:
  assumes r: "dev_ready s" and l: "length d = BSIZE"
  shows "\<exists>b s1 s2 s'. bget ROOTDEV n s = Some (b, s1) \<and> bwrite b (put_data b d s1) = Some s2 \<and> brelse b s2 = Some s'
    \<and> dev_ready s' \<and> dev_block s' = (dev_block s)(n := d)"
proof -
  let ?k = "(ROOTDEV, n)"
  note dr = dev_readyD [OF r]
  have k: "fst ?k \<noteq> 0" by (simp add: ROOTDEV_def)
  obtain b where b: "b < NBUF" "slot s ?k = Some b \<or> slot s ?k = None \<and> refcnt (bufs s b) = 0"
      "bget ROOTDEV n s = Some (b, s\<lparr>bufs := (bufs s)(b := granted ?k (bufs s b) (curpid s))\<rparr>)"
    using bget_eq [OF dr(1) k dr(2)] dr(5) by auto
  let ?g = "(granted ?k (bufs s b) (curpid s))\<lparr>bdata := d\<rparr>"
  let ?s1 = "s\<lparr>bufs := (bufs s)(b := granted ?k (bufs s b) (curpid s))\<rparr>"
  let ?s2 = "s\<lparr>bufs := (bufs s)(b := ?g), disk := (disk s)(?k := d), dwrites := (?k, d) # dwrites s\<rparr>"
  have w: "bwrite b (put_data b d ?s1) = Some ?s2"
    by (simp add: bwrite_def put_data_def on_buf_def disk_rw_def holdingsleep_def granted_def Let_def)
  obtain bs where bs: "lru_order (lru s) bs" "distinct bs" "set bs = {..<NBUF}" using bcache_okD(1) [OF dr(1)] by blast
  obtain l1 where l1: "lru_unlink b (lru s) = Some l1" "lru_order l1 (remove1 b bs)"
    using lru_unlink_order [OF bs(1)] bs(3) b(1) by auto
  obtain l2 where l2: "lru_push b l1 = Some l2" "lru_order l2 (b # remove1 b bs)"
    using lru_push_order [OF l1(2), of b] bs(2) by auto
  let ?x = "(block_lock_update releasesleep ?g)\<lparr>refcnt := refcnt ?g - 1\<rparr>"
  define s' where "s' = ?s2\<lparr>bufs := (bufs s)(b := ?x), lru := if refcnt ?x = 0 then l2 else lru s\<rparr>"
  have rel: "brelse b ?s2 = Some s'"
    using l1(1) l2(1) bcache_okD(4) [OF dr(1)] by (simp add: brelse_def on_buf_def s'_def holdingsleep_def granted_def)
  have "set (b # remove1 b bs) = {..<NBUF}" "distinct (b # remove1 b bs)" using bs b(1) by auto
  then have order: "\<exists>bs. lru_order (lru s') bs \<and> distinct bs \<and> set bs = {..<NBUF}"
    using l2(2) bs by (auto simp: s'_def)
  have e: "ekey (bufs s b) = ?k \<longleftrightarrow> slot s ?k = Some b"
    using b slot_SomeD [of s ?k b] slot_NoneD [of s ?k b] k by auto
  have rc: "refcnt ?x = (if slot s ?k = Some b then refcnt (bufs s b) else 0)" by (simp add: granted_def e)
  have "buf_ok ?x d"
    using bcache_okD(3) [OF dr(1) b(1)] rc k
    by (auto simp: buf_ok_def granted_def e releasesleep_def split: if_splits)
  then have u: "buf_update s s' b ?x ?k d"
    using dr(1) b k order by (simp add: buf_update_def s'_def ekey_def granted_def)
  have en: "entry_of ?x d = (cache_view s ?k)\<lparr>seen := d\<rparr>"
    using rc b(2) dr(2) [of ?k] by (auto simp: entry_of_def cache_view_def granted_def releasesleep_def)
  have v: "bcache_ok s'" "cache_view s' = (cache_view s)(?k := (cache_view s ?k)\<lparr>seen := d\<rparr>)"
    using buf_update_effect [OF u] unfolding en by (auto simp: s'_def outside_def)
  have "dev_ready s'" by (rule dev_ready_update [OF r v(1) l v(2)])
  then show ?thesis using b(3) w rel v(2) by (auto simp: dev_block_def fun_eq_iff)
qed

text \<open>The bytes of consecutive blocks.\<close>

lemma content_block:
  assumes "dev_ready s" "(b + 1) * BSIZE \<le> 2 ^ 41"
  shows "map (dev_content s) [b * BSIZE..<(b + 1) * BSIZE] = dev_block s (of_nat b)"
proof (rule nth_equalityI)
  show "length (map (dev_content s) [b * BSIZE..<(b + 1) * BSIZE]) = length (dev_block s (of_nat b))"
    using dev_readyD(4) [OF assms(1)] by (simp add: dev_block_def)
  fix i assume "i < length (map (dev_content s) [b * BSIZE..<(b + 1) * BSIZE])"
  then have i: "i < BSIZE" by simp
  then have "(b * BSIZE + i) div BSIZE = b" "(b * BSIZE + i) mod BSIZE = i" "b * BSIZE + i < 2 ^ 41"
    using assms(2) by simp_all
  then show "map (dev_content s) [b * BSIZE..<(b + 1) * BSIZE] ! i = dev_block s (of_nat b) ! i"
    using i by (simp add: dev_content_def)
qed

lemma content_update:
  assumes l: "length d = BSIZE" and b: "(b + 1) * BSIZE \<le> 2 ^ 41"
    and u: "dev_block s' = (dev_block s)(of_nat b := d)"
  shows "dev_content s' = overwrite (dev_content s) (b * BSIZE) d"
proof
  fix a
  have bound: "b * BSIZE + length d \<le> 2 ^ 41" using b l by simp
  show "dev_content s' a = overwrite (dev_content s) (b * BSIZE) d a"
  proof (cases "a < 2 ^ 41")
    case True
    have small: "a div BSIZE < 2 ^ 32" "b < 2 ^ 32" using True b by (simp_all add: BSIZE_def)
    have eq: "(of_nat (a div BSIZE) :: u32) = of_nat b \<longleftrightarrow> a div BSIZE = b"
      using small by (simp add: word_of_nat_eq_iff take_bit_nat_eq_self)
    show ?thesis
    proof (cases "a div BSIZE = b")
      case same: True
      then have "a = b * BSIZE + a mod BSIZE" by (metis div_mult_mod_eq)
      moreover have "a mod BSIZE < BSIZE" by (simp add: BSIZE_def)
      ultimately have "b * BSIZE \<le> a" "a < b * BSIZE + length d" "a - b * BSIZE = a mod BSIZE" using l by linarith+
      then show ?thesis using same True u by (simp add: dev_content_def overwrite_def)
    next
      case False
      then have "\<not> (b * BSIZE \<le> a \<and> a < b * BSIZE + length d)"
        using l by (metis div_nat_eqI mult.commute mult_Suc add.commute)
      then show ?thesis using False True eq u by (auto simp: dev_content_def overwrite_def)
    qed
  next
    case False
    then have "\<not> a < b * BSIZE + length d" using bound by linarith
    then show ?thesis using False by (simp add: dev_content_def overwrite_def)
  qed
qed

lemma dev_content_cong: "dev_block s' = dev_block s \<Longrightarrow> dev_content s' = dev_content s"
  by (simp add: dev_content_def fun_eq_iff)

lemma block_number:
  assumes "(unat blk + i + 1) * BSIZE \<le> 2 ^ 41"
  shows "(ucast (blk + of_nat i :: u64) :: u32) = of_nat (unat blk + i)"
proof -
  have "unat blk + i < 2 ^ 32" using assms by (simp add: BSIZE_def)
  then have "unat (blk + of_nat i :: u64) = unat blk + i" by (intro unat_add_lt) simp
  then show ?thesis by (metis of_nat_unat)
qed

lemma bread_loop:
  assumes "dev_ready s" "(unat blk + i + m) * BSIZE \<le> 2 ^ 41"
  shows "\<exists>s'. blockdev_bread_loop [i..<i + m] blk s = Some (map (dev_content s) [(unat blk + i) * BSIZE..<(unat blk + i + m) * BSIZE], s')
    \<and> dev_ready s' \<and> dev_content s' = dev_content s"
  using assms
proof (induction m arbitrary: i s)
  case (Suc m)
  have b: "(unat blk + i + 1) * BSIZE \<le> 2 ^ 41"
    by (rule order_trans [OF mult_le_mono1 Suc.prems(2)]) simp
  obtain p s1 s2 where 1: "bread ROOTDEV (of_nat (unat blk + i)) s = Some (p, s1)" "get_data p s1 = dev_block s (of_nat (unat blk + i))"
      "brelse p s1 = Some s2" "dev_ready s2" "dev_block s2 = dev_block s"
    using block_read [OF Suc.prems(1), of "of_nat (unat blk + i)"] by blast
  have c2: "dev_content s2 = dev_content s" by (rule dev_content_cong [OF 1(5)])
  obtain s3 where 2: "blockdev_bread_loop [Suc i..<Suc i + m] blk s2 =
      Some (map (dev_content s) [(unat blk + Suc i) * BSIZE..<(unat blk + Suc i + m) * BSIZE], s3)" "dev_ready s3" "dev_content s3 = dev_content s"
    using Suc.IH [OF 1(4), of "Suc i"] Suc.prems(2) unfolding c2 by auto
  have "map (dev_content s) [(unat blk + i) * BSIZE..<(unat blk + i + Suc m) * BSIZE] =
      dev_block s (of_nat (unat blk + i)) @ map (dev_content s) [(unat blk + Suc i) * BSIZE..<(unat blk + Suc i + m) * BSIZE]"
    using map_upt_split [of "(unat blk + i) * BSIZE" "(unat blk + i + 1) * BSIZE" "(unat blk + i + Suc m) * BSIZE" "dev_content s"]
      content_block [OF Suc.prems(1) b] by simp
  moreover have "[i..<i + Suc m] = i # [Suc i..<Suc i + m]" by (simp add: upt_rec)
  ultimately show ?case using 1 2 block_number [OF b] by simp
qed (auto)

lemma bwrite_loop:
  assumes "dev_ready s" "(unat blk + i + m) * BSIZE \<le> 2 ^ 41" "length bp = m * BSIZE"
  shows "\<exists>s'. blockdev_bwrite_loop [i..<i + m] bp blk s = Some s'
    \<and> dev_ready s' \<and> dev_content s' = overwrite (dev_content s) ((unat blk + i) * BSIZE) bp"
  using assms
proof (induction m arbitrary: i s bp)
  case (Suc m)
  have b: "(unat blk + i + 1) * BSIZE \<le> 2 ^ 41"
    by (rule order_trans [OF mult_le_mono1 Suc.prems(2)]) simp
  have l: "length (take BSIZE bp) = BSIZE" "length (drop BSIZE bp) = m * BSIZE" using Suc.prems(3) by simp_all
  obtain p s1 s2 s3 where 1: "bget ROOTDEV (of_nat (unat blk + i)) s = Some (p, s1)" "bwrite p (put_data p (take BSIZE bp) s1) = Some s2"
      "brelse p s2 = Some s3" "dev_ready s3" "dev_block s3 = (dev_block s)(of_nat (unat blk + i) := take BSIZE bp)"
    using block_write [OF Suc.prems(1) l(1), of "of_nat (unat blk + i)"] by blast
  have c: "dev_content s3 = overwrite (dev_content s) ((unat blk + i) * BSIZE) (take BSIZE bp)"
    by (rule content_update [OF l(1) b 1(5)])
  obtain s4 where 2: "blockdev_bwrite_loop [Suc i..<Suc i + m] (drop BSIZE bp) blk s3 = Some s4" "dev_ready s4"
      "dev_content s4 = overwrite (dev_content s3) ((unat blk + Suc i) * BSIZE) (drop BSIZE bp)"
    using Suc.IH [OF 1(4) _ l(2), of "Suc i"] Suc.prems(2) by auto
  have "(unat blk + Suc i) * BSIZE = (unat blk + i) * BSIZE + length (take BSIZE bp)" using l(1) by simp
  then have "dev_content s4 = overwrite (dev_content s) ((unat blk + i) * BSIZE) bp"
    unfolding 2(3) c by (simp only: overwrite_append append_take_drop_id)
  moreover have "[i..<i + Suc m] = i # [Suc i..<Suc i + m]" by (simp add: upt_rec)
  ultimately show ?case using 1 2(1,2) block_number [OF b] by simp
qed (auto)

interpretation bdv: byte_device blockdev_iface dev_ready dev_content 9 "2 ^ 41"
proof unfold_locales
  have B: "BSIZE = 2 ^ 9" by (simp add: BSIZE_def)
  show "\<exists>s'. bd_bread blockdev_iface blk cnt s = Some (EOK, map (dev_content s) [unat blk * 2 ^ 9..<(unat blk + unat cnt) * 2 ^ 9], s')
      \<and> dev_ready s' \<and> dev_content s' = dev_content s"
    if "dev_ready s" "(unat blk + unat cnt) * 2 ^ 9 \<le> 2 ^ 41" for s :: "'a biost_scheme" and blk cnt
    using bread_loop [of s blk 0 "unat cnt"] that unfolding B by (auto simp: blockdev_iface_def blockdev_bread_def)
  show "\<exists>s'. bd_bwrite blockdev_iface d blk cnt s = Some (EOK, s') \<and> dev_ready s' \<and> dev_content s' = overwrite (dev_content s) (unat blk * 2 ^ 9) d"
    if "dev_ready s" "(unat blk + unat cnt) * 2 ^ 9 \<le> 2 ^ 41" "length d = unat cnt * 2 ^ 9" for s :: "'a biost_scheme" and blk cnt d
    using bwrite_loop [of s blk 0 "unat cnt" d] that unfolding B by (auto simp: blockdev_iface_def blockdev_bwrite_def)
qed (auto simp: blockdev_iface_def blockdev_skeleton_def)

text \<open>The device of the kernel after \<^verbatim>\<open>ext4_block_init\<close>.\<close>

definition opened :: "ext4_blockdev \<Rightarrow> bool" where
  "opened bd \<longleftrightarrow> geometry bd = geometry (blockdev\<lparr>ph_refctr := ph_refctr bd, lg_bsize := lg_bsize bd, lg_bcnt := lg_bcnt bd\<rparr>)
     \<and> ph_refctr bd \<noteq> 0"

lemma openedD:
  assumes "opened bd"
  shows "ph_bsize bd = 2 ^ 9" "ph_refctr bd \<noteq> 0" "unat (part_offset bd) mod 2 ^ 9 = 0" "unat (part_size bd) = 2 ^ 41"
    "unat (part_offset bd) + unat (part_size bd) \<le> 2 ^ 41" "unat (part_offset bd) = 0"
  using assms by (simp_all add: opened_def geometry_def blockdev_def BSIZE_def)

lemma opened_geometry: "geometry bd' = geometry bd \<Longrightarrow> opened bd \<Longrightarrow> opened bd'"
  by (simp add: opened_def geometry_def)

lemma opened_after_init: "ext4_block_init blockdev_iface blockdev s = Some (EOK, blockdev\<lparr>ph_refctr := 1\<rparr>, s)"
  "opened (blockdev\<lparr>ph_refctr := 1\<rparr>)"
  by (simp_all add: ext4_block_init_def blockdev_iface_def blockdev_skeleton_def opened_def blockdev_def geometry_def)

lemma device_bytes_lemma:
  assumes "dev_ready s" "opened bd" "unat off + unat len \<le> 2 ^ 41" "length p = unat len"
  shows "\<exists>bd1 s1. ext4_block_writebytes blockdev_iface off p len bd s = Some (EOK, bd1, s1)
    \<and> opened bd1 \<and> dev_ready s1 \<and> dev_content s1 = overwrite (dev_content s) (unat off) p
    \<and> (\<exists>bd2 s2. ext4_block_readbytes blockdev_iface off len bd1 s1 = Some (EOK, p, bd2, s2)
        \<and> opened bd2 \<and> dev_ready s2 \<and> dev_content s2 = dev_content s1)"
proof -
  note o = openedD [OF assms(2)]
  have a: "unat off = unat off + unat (part_offset bd)" using o(6) by simp
  obtain bd1 s1 where 1: "ext4_block_writebytes blockdev_iface off p len bd s = Some (EOK, bd1, s1)" "geometry bd1 = geometry bd"
      "dev_ready s1" "dev_content s1 = overwrite (dev_content s) (unat off) p"
    using bdv.writebytes [OF assms(1) o(1-3) assms(3) [folded o(4)] o(5) a assms(4)] by blast
  have op: "opened bd1" using opened_geometry [OF 1(2) assms(2)] .
  note o1 = openedD [OF op]
  have a1: "unat off = unat off + unat (part_offset bd1)" using o1(6) by simp
  obtain bd2 s2 where 2: "ext4_block_readbytes blockdev_iface off len bd1 s1 = Some (EOK, map (dev_content s1) [unat off..<unat off + unat len], bd2, s2)"
      "geometry bd2 = geometry bd1" "dev_ready s2" "dev_content s2 = dev_content s1"
    using bdv.readbytes [OF 1(3) o1(1-3) assms(3) [folded o1(4)] o1(5) a1] by blast
  have "map (dev_content s1) [unat off..<unat off + unat len] = p"
    unfolding 1(4) assms(4) [symmetric] by (rule map_overwrite)
  then show ?thesis using 1 2 op opened_geometry [OF 2(2) op] by auto
qed


lemma blank_ready: "\<exists>s. binit blank = Some s \<and> dev_ready s"
proof -
  obtain l where l: "binit blank = Some (blank\<lparr>lru := l\<rparr>)" "bcache_ok (blank\<lparr>lru := l\<rparr>)"
      "cache_view (blank\<lparr>lru := l\<rparr>) = uncached (disk blank)"
    using binit_ok [OF blank_loaded] by blast
  then have "dev_ready (blank\<lparr>lru := l\<rparr>)" by (simp add: dev_ready_def blank_def NBUF_def)
  then show ?thesis using l(1) by blast
qed


lemma set_csum_members:
  assumes "length sb = 1024" "fst g + snd g \<le> 1020"
  shows "getf g (ext4_sb_set_csum sb) = getf g sb"
  using assms by (simp add: ext4_sb_set_csum_def getf_putf_apart apart_def in_struct_def)

lemma length_set_csum: "length sb = 1024 \<Longrightarrow> length (ext4_sb_set_csum sb) = 1024"
  by (simp add: ext4_sb_set_csum_def in_struct_def)

lemma set_csum_verifies:
  assumes "length sb = 1024"
  shows "ext4_sb_verify_csum (ext4_sb_set_csum sb) \<longleftrightarrow>
    \<not> ext4_sb_feature_ro_com sb EXT4_FRO_COM_METADATA_CSUM \<or> getf (sbf ''checksum_type'') sb = EXT4_CHECKSUM_CRC32C"
proof -
  let ?s = "ext4_sb_set_csum sb"
  have m: "(getf (sbf ''checksum_type'') ?s :: u32) = getf (sbf ''checksum_type'') sb"
    "ext4_sb_feature_ro_com ?s v = ext4_sb_feature_ro_com sb v" for v
    using assms by (simp_all add: set_csum_members ext4_sb_feature_ro_com_def)
  have "getf (sbf ''checksum'') ?s = ext4_sb_csum ?s" if "ext4_sb_feature_ro_com sb EXT4_FRO_COM_METADATA_CSUM"
    using that assms
    by (simp add: ext4_sb_set_csum_def ext4_sb_csum_def getf_putf_same in_struct_def take_putf take_bit_full)
  then show ?thesis using m by (auto simp: ext4_sb_verify_csum_def)
qed



end
