(* ===== verification/XV_Ext4_Hash.thy ===== *)
theory XV_Ext4_Hash
  imports XV_Ext4_Bitmap
begin

text \<open>
  The hash functions of directory indexes (\<^verbatim>\<open>fs/ext4_hash.c\<close>). A name is the list of the bytes that
  may be read at the pointer; reading behind them is \<open>None\<close>. \<^verbatim>\<open>ext2_prep_hashbuf\<close> gives the words
  that it stores through \<^verbatim>\<open>dst\<close>, and the two mixing functions take these words as \<^verbatim>\<open>data\<close>.
\<close>

subsection \<open>The mixing functions\<close>

definition md4_F :: "u32 \<Rightarrow> u32 \<Rightarrow> u32 \<Rightarrow> u32" where
  "md4_F x y z = ((x AND y) OR ((NOT x) AND z))"

definition md4_G :: "u32 \<Rightarrow> u32 \<Rightarrow> u32 \<Rightarrow> u32" where
  "md4_G x y z = ((x AND y) OR (x AND z) OR (y AND z))"

definition md4_H :: "u32 \<Rightarrow> u32 \<Rightarrow> u32 \<Rightarrow> u32" where
  "md4_H x y z = (x XOR y XOR z)"

definition ROTATE_LEFT :: "u32 \<Rightarrow> nat \<Rightarrow> u32" where
  "ROTATE_LEFT x n = (push_bit n x OR drop_bit (32 - n) x)"

definition FF :: "u32 \<Rightarrow> u32 \<Rightarrow> u32 \<Rightarrow> u32 \<Rightarrow> u32 \<Rightarrow> nat \<Rightarrow> u32" where
  "FF a b c d x s = (let a = a + (md4_F b c d + x) in ROTATE_LEFT a s)"

definition GG :: "u32 \<Rightarrow> u32 \<Rightarrow> u32 \<Rightarrow> u32 \<Rightarrow> u32 \<Rightarrow> nat \<Rightarrow> u32" where
  "GG a b c d x s = (let a = a + (md4_G b c d + x + 0x5A827999) in ROTATE_LEFT a s)"

definition HH :: "u32 \<Rightarrow> u32 \<Rightarrow> u32 \<Rightarrow> u32 \<Rightarrow> u32 \<Rightarrow> nat \<Rightarrow> u32" where
  "HH a b c d x s = (let a = a + (md4_H b c d + x + 0x6ED9EBA1) in ROTATE_LEFT a s)"

definition ext2_half_md4 :: "u32 list \<Rightarrow> u32 list \<Rightarrow> u32 list option" where
  "ext2_half_md4 hash data =
     (if length hash = 4 \<and> 8 \<le> length data then
        let a = hash ! 0; b = hash ! 1; c = hash ! 2; d = hash ! 3;
            a = FF a b c d (data ! 0) 3; d = FF d a b c (data ! 1) 7;
            c = FF c d a b (data ! 2) 11; b = FF b c d a (data ! 3) 19;
            a = FF a b c d (data ! 4) 3; d = FF d a b c (data ! 5) 7;
            c = FF c d a b (data ! 6) 11; b = FF b c d a (data ! 7) 19;
            a = GG a b c d (data ! 1) 3; d = GG d a b c (data ! 3) 5;
            c = GG c d a b (data ! 5) 9; b = GG b c d a (data ! 7) 13;
            a = GG a b c d (data ! 0) 3; d = GG d a b c (data ! 2) 5;
            c = GG c d a b (data ! 4) 9; b = GG b c d a (data ! 6) 13;
            a = HH a b c d (data ! 3) 3; d = HH d a b c (data ! 7) 9;
            c = HH c d a b (data ! 2) 11; b = HH b c d a (data ! 6) 15;
            a = HH a b c d (data ! 1) 3; d = HH d a b c (data ! 5) 9;
            c = HH c d a b (data ! 0) 11; b = HH b c d a (data ! 4) 15
        in Some [hash ! 0 + a, hash ! 1 + b, hash ! 2 + c, hash ! 3 + d]
      else None)"

fun tea_rounds :: "nat \<Rightarrow> u32 \<Rightarrow> u32 list \<Rightarrow> u32 \<Rightarrow> u32 \<Rightarrow> u32 \<times> u32" where
  "tea_rounds 0 i data x y = (x, y)"
| "tea_rounds (Suc n) i data x y =
     (let sum = i * 0x9E3779B9;
          x = x + (((push_bit 4 y + data ! 0) XOR (y + sum)) XOR (drop_bit 5 y + data ! 1));
          y = y + (((push_bit 4 x + data ! 2) XOR (x + sum)) XOR (drop_bit 5 x + data ! 3))
      in tea_rounds n (i + 1) data x y)"

definition ext2_tea :: "u32 list \<Rightarrow> u32 list \<Rightarrow> u32 list option" where
  "ext2_tea hash data =
     (if length hash = 4 \<and> 4 \<le> length data then
        let (x, y) = tea_rounds 16 1 data (hash ! 0) (hash ! 1)
        in Some [hash ! 0 + x, hash ! 1 + y, hash ! 2, hash ! 3]
      else None)"

text \<open>A character as \<^verbatim>\<open>unsigned char\<close> or as \<^verbatim>\<open>signed char\<close>, converted to a word.\<close>

definition char_val :: "bool \<Rightarrow> u8 \<Rightarrow> u32" where
  "char_val unsigned_char c = (if unsigned_char then ucast c else scast c)"

fun legacy_loop :: "bool \<Rightarrow> u8 list \<Rightarrow> u32 \<Rightarrow> u32 \<Rightarrow> u32" where
  "legacy_loop uc [] h1 h2 = h1"
| "legacy_loop uc (c # cs) h1 h2 =
     (let h0 = h2 + (h1 XOR (char_val uc c * 0x6D22F5));
          h0 = (if h0 AND 0x80000000 \<noteq> 0 then h0 - 0x7FFFFFFF else h0)
      in legacy_loop uc cs h0 h1)"

definition ext2_legacy_hash :: "u8 list \<Rightarrow> int \<Rightarrow> bool \<Rightarrow> u32 option" where
  "ext2_legacy_hash name len uc =
     (if len \<le> int (length name)
      then Some (push_bit 1 (legacy_loop uc (take (nat len) name) 0x12A3FE2D 0x37ABE8F9)) else None)"

subsection \<open>Packing the characters into words\<close>

text \<open>The loop over the characters: the word under construction, the words stored so far and \<^verbatim>\<open>dlen\<close>.\<close>

fun prep_bytes :: "bool \<Rightarrow> u32 \<Rightarrow> nat \<Rightarrow> u8 list \<Rightarrow> u32 \<Rightarrow> u32 list \<Rightarrow> int \<Rightarrow> u32 \<times> u32 list \<times> int" where
  "prep_bytes uc padding i [] buf_val dst dlen = (buf_val, dst, dlen)"
| "prep_bytes uc padding i (c # cs) buf_val dst dlen =
     (let buf_byte = char_val uc c;
          buf_val = (if i mod 4 = 0 then padding else buf_val);
          buf_val = push_bit 8 buf_val;
          buf_val = buf_val + buf_byte
      in if i mod 4 = 3 then prep_bytes uc padding (i + 1) cs padding (dst @ [buf_val]) (dlen - 4)
         else prep_bytes uc padding (i + 1) cs buf_val dst dlen)"

function prep_fill :: "u32 \<Rightarrow> u32 list \<Rightarrow> int \<Rightarrow> u32 list" where
  "prep_fill padding dst dlen = (if 0 \<le> dlen then prep_fill padding (dst @ [padding]) (dlen - 4) else dst)"
  by pat_completeness auto

termination prep_fill
  by (relation "measure (\<lambda>(padding, dst, dlen). nat (dlen + 1))") auto

declare prep_fill.simps [simp del]

definition prep_finish :: "u32 \<Rightarrow> u32 \<times> u32 list \<times> int \<Rightarrow> u32 list" where
  "prep_finish padding r =
     (case r of (buf_val, dst, dlen) \<Rightarrow>
       let dlen = dlen - 4;
           dst = (if 0 \<le> dlen then dst @ [buf_val] else dst);
           dlen = dlen - 4
       in prep_fill padding dst dlen)"

definition hash_padding :: "u32 \<Rightarrow> u32" where
  "hash_padding slen = (slen OR push_bit 8 slen OR push_bit 16 slen OR push_bit 24 slen)"

definition ext2_prep_hashbuf :: "u8 list \<Rightarrow> u32 \<Rightarrow> int \<Rightarrow> bool \<Rightarrow> u32 list option" where
  "ext2_prep_hashbuf src slen dlen uc =
     (let padding = hash_padding slen;
          len = (if of_int dlen < slen then dlen else int (unat slen))
      in if len \<le> int (length src)
         then Some (prep_finish padding (prep_bytes uc padding 0 (take (nat len) src) padding [] dlen))
         else None)"

subsection \<open>The hash of a name\<close>

datatype htree_kind = HTREE_LEGACY | HTREE_HALF_MD4 | HTREE_TEA | HTREE_LEGACY_UNSIGNED | HTREE_HALF_MD4_UNSIGNED
  | HTREE_TEA_UNSIGNED | HTREE_OTHER

definition htree_version :: "int \<Rightarrow> htree_kind" where
  "htree_version v =
     (if v = 0 then HTREE_LEGACY else if v = 1 then HTREE_HALF_MD4 else if v = 2 then HTREE_TEA
      else if v = 3 then HTREE_LEGACY_UNSIGNED else if v = 4 then HTREE_HALF_MD4_UNSIGNED
      else if v = 5 then HTREE_TEA_UNSIGNED else HTREE_OTHER)"

text \<open>The loops of the two block-wise hashes.\<close>

function tea_blocks :: "bool \<Rightarrow> u8 list \<Rightarrow> int \<Rightarrow> u32 list \<Rightarrow> u32 list option" where
  "tea_blocks uc name len hash =
     (if 0 < len then do {
        data \<leftarrow> ext2_prep_hashbuf name (word_of_int len) 16 uc;
        hash \<leftarrow> ext2_tea hash data;
        tea_blocks uc (drop 16 name) (len - 16) hash
      } else Some hash)"
  by pat_completeness auto

termination tea_blocks
  by (relation "measure (\<lambda>(uc, name, len, hash). nat len)") auto

function half_md4_blocks :: "bool \<Rightarrow> u8 list \<Rightarrow> int \<Rightarrow> u32 list \<Rightarrow> u32 list option" where
  "half_md4_blocks uc name len hash =
     (if 0 < len then do {
        data \<leftarrow> ext2_prep_hashbuf name (word_of_int len) 32 uc;
        hash \<leftarrow> ext2_half_md4 hash data;
        half_md4_blocks uc (drop 32 name) (len - 32) hash
      } else Some hash)"
  by pat_completeness auto

termination half_md4_blocks
  by (relation "measure (\<lambda>(uc, name, len, hash). nat len)") auto

declare tea_blocks.simps [simp del] half_md4_blocks.simps [simp del]

definition EXT2_HTREE_EOF :: u64 where
  "EXT2_HTREE_EOF = 0x7FFFFFFF"

text \<open>
  \<^verbatim>\<open>ext2_htree_hash\<close>: the return value and what it stores through \<^verbatim>\<open>hash_major\<close> and
  \<^verbatim>\<open>hash_minor\<close>; the two flags say whether these pointers are given.
\<close>

definition htree_hash_values :: "u8 list \<Rightarrow> int \<Rightarrow> u32 list \<Rightarrow> htree_kind \<Rightarrow> (u32 \<times> u32) option option" where
  "htree_hash_values name len hash v =
     (let tea = (\<lambda>uc. do { hash \<leftarrow> tea_blocks uc name len hash; Some (Some (hash ! 0, hash ! 1)) });
          legacy = (\<lambda>uc. do { major \<leftarrow> ext2_legacy_hash name len uc; Some (Some (major, 0)) });
          md4 = (\<lambda>uc. do { hash \<leftarrow> half_md4_blocks uc name len hash; Some (Some (hash ! 1, hash ! 2)) })
      in case v of HTREE_TEA_UNSIGNED \<Rightarrow> tea True | HTREE_TEA \<Rightarrow> tea False
         | HTREE_LEGACY_UNSIGNED \<Rightarrow> legacy True | HTREE_LEGACY \<Rightarrow> legacy False
         | HTREE_HALF_MD4_UNSIGNED \<Rightarrow> md4 True | HTREE_HALF_MD4 \<Rightarrow> md4 False
         | HTREE_OTHER \<Rightarrow> Some None)"

definition ext2_htree_hash ::
  "u8 list option \<Rightarrow> int \<Rightarrow> u32 list option \<Rightarrow> int \<Rightarrow> bool \<Rightarrow> bool \<Rightarrow> (int \<times> u32 option \<times> u32 option) option" where
  "ext2_htree_hash name len hash_seed hash_version has_major has_minor =
     (case name of None \<Rightarrow> Some (- 1, None, None)
      | Some name \<Rightarrow>
        if \<not> has_major then Some (- 1, None, None)
        else let error = (ENOTSUP, Some 0, if has_minor then Some 0 else None)
             in if len < 1 \<or> 255 < len then Some error
                else let hash = (case hash_seed of None \<Rightarrow> [0x67452301, 0xEFCDAB89, 0x98BADCFE, 0x10325476] | Some hs \<Rightarrow> take 4 hs)
                     in do {
                       r \<leftarrow> htree_hash_values name len hash (htree_version hash_version);
                       (case r of None \<Rightarrow> Some error
                        | Some (major, minor) \<Rightarrow>
                          let major = major AND NOT 1;
                              major = (if ucast major = push_bit 1 EXT2_HTREE_EOF then ucast (push_bit 1 (EXT2_HTREE_EOF - 1)) else major)
                          in Some (EOK, Some major, if has_minor then Some minor else None))
                     })"

subsection \<open>The words of a name\<close>

text \<open>
  The reference for \<^verbatim>\<open>ext2_prep_hashbuf\<close>: four characters to a word, most significant first, into
  a word that starts as the padding; the words after the last character are padding.
\<close>

definition pack :: "bool \<Rightarrow> u32 \<Rightarrow> u8 list \<Rightarrow> u32" where
  "pack uc padding cs = foldl (\<lambda>v c. push_bit 8 v + char_val uc c) padding cs"

definition hash_words :: "bool \<Rightarrow> u32 \<Rightarrow> u8 list \<Rightarrow> nat \<Rightarrow> u32 list" where
  "hash_words uc padding cs m = map (\<lambda>w. pack uc padding (take 4 (drop (4 * w) cs))) [0..<m]"

lemma length_hash_words [simp]: "length (hash_words uc padding cs m) = m"
  by (simp add: hash_words_def)

lemma hash_words_Suc: "hash_words uc padding cs (Suc m) = pack uc padding (take 4 cs) # hash_words uc padding (drop 4 cs) m"
proof -
  have "[0..<Suc m] = 0 # map Suc [0..<m]" 
    using upt_conv_Cons [of 0 "Suc m"] by (simp add: map_Suc_upt del: upt_Suc)
  then show ?thesis by (simp add: hash_words_def add.commute del: upt_Suc)
qed

lemma hash_words_Nil: "hash_words uc padding [] m = replicate m padding"
  by (simp add: hash_words_def pack_def map_replicate_const)

lemma prep_fill_replicate: "prep_fill padding dst (4 * int m - 4) = dst @ replicate m padding"
proof (induction m arbitrary: dst)
  case 0
  show ?case by (simp add: prep_fill.simps)
next
  case (Suc m)
  have "prep_fill padding dst (4 * int (Suc m) - 4) = prep_fill padding (dst @ [padding]) (4 * int m - 4)"
    by (subst prep_fill.simps) simp
  then show ?case using Suc [of "dst @ [padding]"] by simp
qed

text \<open>The loop on four characters, and on the fewer than four that are left.\<close>

lemma prep_bytes_four:
  "i mod 4 = 0 \<Longrightarrow> prep_bytes uc padding i (a # b # c # d # cs) v dst dlen =
     prep_bytes uc padding (i + 4) cs padding (dst @ [pack uc padding [a, b, c, d]]) (dlen - 4)"
proof -
  assume i: "i mod 4 = 0"
  then have "Suc i mod 4 = 1" "Suc (Suc i) mod 4 = 2" "Suc (Suc (Suc i)) mod 4 = 3" by presburger+
  moreover have "i + 4 = Suc (Suc (Suc (Suc i)))" by simp
  ultimately show ?thesis using i by (simp only:) (simp add: Let_def pack_def)
qed

lemma prep_bytes_few:
  assumes "i mod 4 = 0" "length cs < 4"
  shows "prep_bytes uc padding i cs padding dst dlen = (pack uc padding cs, dst, dlen)"
proof -
  have "Suc i mod 4 = 1" "Suc (Suc i) mod 4 = 2" using assms(1) by presburger+
  note i = this assms(1)
  consider "cs = []" | a where "cs = [a]" | a b where "cs = [a, b]" | a b c where "cs = [a, b, c]"
    using assms(2) by (cases cs; cases "tl cs"; cases "tl (tl cs)"; cases "tl (tl (tl cs))") auto
  then show ?thesis using i by cases (simp_all add: Let_def pack_def)
qed

lemma prep_words:
  assumes "i mod 4 = 0" "length cs \<le> 4 * m"
  shows "prep_finish padding (prep_bytes uc padding i cs padding dst (4 * int m)) = dst @ hash_words uc padding cs m"
  using assms
proof (induction m arbitrary: i cs dst)
  case 0
  then show ?case by (simp add: prep_finish_def Let_def prep_fill.simps hash_words_def)
next
  case (Suc m)
  show ?case
  proof (cases "length cs < 4")
    case True
    have "prep_finish padding (pack uc padding cs, dst, 4 * int (Suc m)) = prep_fill padding (dst @ [pack uc padding cs]) (4 * int m - 4)"
      by (simp add: prep_finish_def Let_def)
    then show ?thesis using True Suc.prems(1)
      by (simp add: prep_bytes_few prep_fill_replicate hash_words_Suc hash_words_Nil)
  next
    case False
    then obtain a b c d es where cs: "cs = a # b # c # d # es"
      by (cases cs; cases "tl cs"; cases "tl (tl cs)"; cases "tl (tl (tl cs))") auto
    have "prep_bytes uc padding i cs padding dst (4 * int (Suc m)) =
        prep_bytes uc padding (i + 4) es padding (dst @ [pack uc padding [a, b, c, d]]) (4 * int m)"
      unfolding cs by (subst prep_bytes_four [OF Suc.prems(1)]) simp
    then show ?thesis
      using Suc.IH [of "i + 4" es "dst @ [pack uc padding [a, b, c, d]]"] Suc.prems by (simp add: cs hash_words_Suc)
  qed
qed

lemma prep_hashbuf:
  assumes "dlen = 4 * int m" "m < 2 ^ 29" "min (unat slen) (4 * m) \<le> length src"
  shows "ext2_prep_hashbuf src slen dlen uc = Some (hash_words uc (hash_padding slen) (take (min (unat slen) (4 * m)) src) m)"
proof -
  have u: "unat (of_int dlen :: u32) = 4 * m"
  proof -
    have e: "(of_int dlen :: u32) = of_nat (4 * m)" using assms(1) by simp
    have "4 * m < 2 ^ 32" using assms(2) by simp
    then show ?thesis unfolding e by (simp only: unat_of_nat) (simp add: take_bit_nat_eq_self)
  qed
  have l: "(if of_int dlen < slen then dlen else int (unat slen)) = int (min (unat slen) (4 * m))"
    using u assms(1) by (simp add: word_less_nat_alt)
  have "length (take (min (unat slen) (4 * m)) src) \<le> 4 * m" by simp
  then show ?thesis
    using prep_words [of 0 "take (min (unat slen) (4 * m)) src" m "hash_padding slen" uc "[]"] assms(1,3)
    unfolding ext2_prep_hashbuf_def Let_def l by simp
qed

text \<open>
  C36: \<^verbatim>\<open>ext2_prep_hashbuf\<close> stores exactly the words that its buffer of
  \<^verbatim>\<open>dlen\<close> bytes has room for, so it never writes behind it; they are the first \<^verbatim>\<open>dlen\<close>
  characters of the name, four to a word, followed by the padding.
\<close>

theorem prep_hashbuf_words:
  assumes "dlen = 4 * int m" "m < 2 ^ 29" "min (unat slen) (4 * m) \<le> length src"
  shows "\<exists>ws. ext2_prep_hashbuf src slen dlen uc = Some ws \<and> int (4 * length ws) = dlen
    \<and> ws = hash_words uc (hash_padding slen) (take (min (unat slen) (4 * m)) src) m"
  using prep_hashbuf [OF assms] assms(1) by simp

theorem prep_hashbuf_words_witness:
  "\<exists>ws. ext2_prep_hashbuf [0x61, 0x62, 0x63, 0x64, 0x65] 5 16 True = Some ws \<and> ws = [0x61626364, 0x05050565, 0x05050505, 0x05050505]"
proof -
  have "\<exists>ws. ext2_prep_hashbuf [0x61, 0x62, 0x63, 0x64, 0x65] 5 16 True = Some ws \<and> int (4 * length ws) = 16
    \<and> ws = hash_words True (hash_padding 5) (take (min (unat (5 :: u32)) (4 * 4)) [0x61, 0x62, 0x63, 0x64, 0x65]) 4"
    by (rule prep_hashbuf_words) simp_all
  moreover have "[0..<4] = [0, 1, 2, 3 :: nat]" by (simp add: upt_conv_Cons)
  ultimately show ?thesis
    by (simp add: hash_words_def pack_def hash_padding_def char_val_def)
qed

subsection \<open>The hash of a name is defined and fits the index\<close>

lemma tea_total: "length hash = 4 \<Longrightarrow> 4 \<le> length data \<Longrightarrow> \<exists>h. ext2_tea hash data = Some h \<and> length h = 4"
  by (simp add: ext2_tea_def split: prod.split)

lemma let_total: "(\<And>x. \<exists>h. f x = Some h \<and> length h = n) \<Longrightarrow> \<exists>h. Let t f = Some h \<and> length h = n"
  by (simp add: Let_def)

lemma half_md4_total:
  assumes "length hash = 4" "8 \<le> length data"
  shows "\<exists>h. ext2_half_md4 hash data = Some h \<and> length h = 4"
proof -
  have c: "length hash = 4 \<and> 8 \<le> length data" using assms by simp
  show ?thesis
    unfolding ext2_half_md4_def by (subst if_P [OF c]) ((rule let_total)+, rule exI, rule conjI, rule refl, simp)
qed

lemma block_words:
  assumes "0 < len" "len \<le> 255" "len \<le> int (length name)" "0 < m" "m < 2 ^ 29"
  shows "\<exists>ws. ext2_prep_hashbuf name (word_of_int len) (4 * int m) uc = Some ws \<and> length ws = m"
proof -
  have "unat (word_of_int len :: u32) = nat len" 
  proof -
    have n: "len = int (nat len)" "nat len \<le> 255" using assms(1,2) by simp_all
    have "unat (of_nat (nat len) :: u32) = nat len" using n(2) by (simp only: unat_of_nat) (simp add: take_bit_nat_eq_self)
    then show ?thesis by (metis n(1) of_int_of_nat_eq)
  qed
  then show ?thesis using prep_hashbuf [OF refl assms(5), of "word_of_int len" name uc] assms(3) by simp
qed

lemma tea_blocks_total:
  "len \<le> 255 \<Longrightarrow> len \<le> int (length name) \<Longrightarrow> length hash = 4 \<Longrightarrow> \<exists>h. tea_blocks uc name len hash = Some h \<and> length h = 4"
proof (induction uc name len hash rule: tea_blocks.induct)
  case (1 uc name len hash)
  show ?case
  proof (cases "0 < len")
    case True
    obtain ws where ws: "ext2_prep_hashbuf name (word_of_int len) 16 uc = Some ws" "length ws = 4"
      using block_words [OF True "1.prems"(1,2), of 4 uc] by auto
    obtain h where h: "ext2_tea hash ws = Some h" "length h = 4" using tea_total [OF "1.prems"(3), of ws] ws(2) by auto
    have "\<exists>g. tea_blocks uc (drop 16 name) (len - 16) h = Some g \<and> length g = 4"
    proof (cases "16 < len")
      case long: True
      show ?thesis by (rule "1.IH" [OF True ws(1) h(1)]) (use "1.prems" h(2) long in auto)
    next
      case False
      then show ?thesis using h(2) by (subst tea_blocks.simps) simp
    qed
    then show ?thesis using True ws(1) h(1) by (subst tea_blocks.simps) simp
  next
    case False
    then show ?thesis using "1.prems" by (subst tea_blocks.simps) simp
  qed
qed

lemma half_md4_blocks_total:
  "len \<le> 255 \<Longrightarrow> len \<le> int (length name) \<Longrightarrow> length hash = 4 \<Longrightarrow> \<exists>h. half_md4_blocks uc name len hash = Some h \<and> length h = 4"
proof (induction uc name len hash rule: half_md4_blocks.induct)
  case (1 uc name len hash)
  show ?case
  proof (cases "0 < len")
    case True
    obtain ws where ws: "ext2_prep_hashbuf name (word_of_int len) 32 uc = Some ws" "length ws = 8"
      using block_words [OF True "1.prems"(1,2), of 8 uc] by auto
    obtain h where h: "ext2_half_md4 hash ws = Some h" "length h = 4" using half_md4_total [OF "1.prems"(3), of ws] ws(2) by auto
    have "\<exists>g. half_md4_blocks uc (drop 32 name) (len - 32) h = Some g \<and> length g = 4"
    proof (cases "32 < len")
      case long: True
      show ?thesis by (rule "1.IH" [OF True ws(1) h(1)]) (use "1.prems" h(2) long in auto)
    next
      case False
      then show ?thesis using h(2) by (subst half_md4_blocks.simps) simp
    qed
    then show ?thesis using True ws(1) h(1) by (subst half_md4_blocks.simps) simp
  next
    case False
    then show ?thesis using "1.prems" by (subst half_md4_blocks.simps) simp
  qed
qed

lemma htree_values_total:
  assumes "len \<le> 255" "len \<le> int (length name)" "length hash = 4"
  shows "\<exists>r. htree_hash_values name len hash v = Some r \<and> (r = None \<longleftrightarrow> v = HTREE_OTHER)"
proof -
  have t: "\<exists>h. tea_blocks uc name len hash = Some h" and m: "\<exists>h. half_md4_blocks uc name len hash = Some h" for uc
    using tea_blocks_total [OF assms, of uc] half_md4_blocks_total [OF assms, of uc] by blast+
  show ?thesis
    using t [of True] t [of False] m [of True] m [of False] assms(2)
    by (cases v) (auto simp: htree_hash_values_def ext2_legacy_hash_def)
qed

text \<open>
  C35: for a name with the length it is said to have, \<^verbatim>\<open>ext2_htree_hash\<close> returns: \<^verbatim>\<open>EOK\<close>
  exactly for a length from 1 to 255 and one of the six hash versions, and then the major hash is even and is not the
  value that marks the end of a directory; otherwise \<^verbatim>\<open>ENOTSUP\<close> with both hashes zero.
\<close>

theorem htree_hash_defined:
  assumes "len \<le> int (length name)" "hash_seed = None \<or> (\<exists>hs. hash_seed = Some hs \<and> 4 \<le> length hs)"
  shows "\<exists>r major minor. ext2_htree_hash (Some name) len hash_seed v True True = Some (r, Some major, Some minor)
    \<and> (r = EOK \<longleftrightarrow> 1 \<le> len \<and> len \<le> 255 \<and> 0 \<le> v \<and> v \<le> 5)
    \<and> (r = EOK \<longrightarrow> even major \<and> ucast major \<noteq> push_bit 1 EXT2_HTREE_EOF)
    \<and> (r \<noteq> EOK \<longrightarrow> r = ENOTSUP \<and> major = 0 \<and> minor = 0)"
proof (cases "1 \<le> len \<and> len \<le> 255")
  case False
  then show ?thesis by (auto simp: ext2_htree_hash_def EOK_def ENOTSUP_def)
next
  case True
  define hash :: "u32 list" where
    "hash = (case hash_seed of None \<Rightarrow> [0x67452301, 0xEFCDAB89, 0x98BADCFE, 0x10325476] | Some hs \<Rightarrow> take 4 hs)"
  have "length hash = 4" using assms(2) by (auto simp: hash_def)
  then obtain x where x: "htree_hash_values name len hash (htree_version v) = Some x" "x = None \<longleftrightarrow> htree_version v = HTREE_OTHER"
    using htree_values_total [of len name hash "htree_version v"] True assms(1) by blast
  have v: "htree_version v = HTREE_OTHER \<longleftrightarrow> \<not> (0 \<le> v \<and> v \<le> 5)" by (auto simp: htree_version_def)
  show ?thesis
  proof (cases x)
    case None
    then show ?thesis using True x v by (simp add: ext2_htree_hash_def hash_def [symmetric] EOK_def ENOTSUP_def)
  next
    case (Some mm)
    obtain a b where mm: "mm = (a, b)" by (cases mm)
    define c where "c = a AND NOT 1"
    define d :: u32 where "d = (if ucast c = push_bit 1 EXT2_HTREE_EOF then ucast (push_bit 1 (EXT2_HTREE_EOF - 1)) else c)"
    have "ext2_htree_hash (Some name) len hash_seed v True True = Some (EOK, Some d, Some b)"
      using True x(1) Some mm by (simp add: ext2_htree_hash_def hash_def [symmetric] c_def d_def Let_def)
    moreover have "\<not> bit c 0" unfolding c_def bit_and_iff bit_not_iff by simp
    then have "even c" by (simp add: bit_0)
    then have "even d" by (simp add: d_def EXT2_HTREE_EOF_def)
    moreover have "ucast d \<noteq> push_bit 1 EXT2_HTREE_EOF" by (simp add: d_def EXT2_HTREE_EOF_def)
    ultimately show ?thesis using True x(2) v Some by auto
  qed
qed

theorem htree_hash_defined_witness:
  "\<exists>r major minor. ext2_htree_hash (Some [0x61, 0x62, 0x63]) 3 None 1 True True = Some (r, Some major, Some minor)
    \<and> r = EOK \<and> even major"
  using htree_hash_defined [of 3 "[0x61, 0x62, 0x63]" None 1] by fastforce

end
