(* ===== verification/Spec2Isabelle.thy ===== *)
theory Spec2Isabelle
  imports XV_Sema XV_Futex XV_Pipe XV_Crash XV_Ext4_Inode XV_Ext4_Blockdev XV_Ext4_Hash
begin

text \<open>Verification of the kernel under \<^verbatim>\<open>src/\<close>.\<close>

end
